(* ===== verification/Prelude.thy ===== *)
theory Prelude
  imports Main "HOL-Library.Word" "HOL-Library.Monad_Syntax"
begin

text \<open>
  Shared vocabulary of the development: the machine types of an LP64 build (the build the
  repository's scripts produce), result codes, arrays whose out-of-range access is an explicit
  failure, and typed stores for the structures the engine links with pointers.

  A pointer is an \<open>addr option\<close>, with \<open>None\<close> for \<open>NULL\<close>. A store maps the addresses
  that are currently allocated to their contents. Reading or writing through an address that is
  not allocated has no result (\<open>None\<close>), so a theorem that an operation returns \<open>Some\<close>
  includes that it never follows \<open>NULL\<close> and never touches freed memory. A loop is a
  \<open>partial_function (option)\<close>, so \<open>Some\<close> also means that the loop ended.
\<close>

type_synonym addr = nat
type_synonym byte = "8 word"
type_synonym uint = "32 word"
type_synonym ulong = "64 word"
type_synonym size_t = "64 word"

datatype zresult = SUCCESS | FAILURE

named_theorems store_simps "how a write to a store changes what its fields read"

subsection \<open>Arrays\<close>

definition nth_opt :: "'a list \<Rightarrow> nat \<Rightarrow> 'a option" where
  "nth_opt xs i = (if i < length xs then Some (xs ! i) else None)"

definition upd_opt :: "'a list \<Rightarrow> nat \<Rightarrow> 'a \<Rightarrow> 'a list option" where
  "upd_opt xs i v = (if i < length xs then Some (xs[i := v]) else None)"

lemma nth_opt_in [simp]: "i < length xs \<Longrightarrow> nth_opt xs i = Some (xs ! i)"
  by (simp add: nth_opt_def)

lemma nth_opt_out [simp]: "length xs \<le> i \<Longrightarrow> nth_opt xs i = None"
  by (simp add: nth_opt_def)

lemma upd_opt_in [simp]: "i < length xs \<Longrightarrow> upd_opt xs i v = Some (xs[i := v])"
  by (simp add: upd_opt_def)

lemma upd_opt_out [simp]: "length xs \<le> i \<Longrightarrow> upd_opt xs i v = None"
  by (simp add: upd_opt_def)

subsection \<open>Typed stores\<close>

type_synonym 'b store = "addr \<rightharpoonup> 'b"

text \<open>Reading through a pointer, and writing one field of the object at an address.\<close>

definition deref :: "'b store \<Rightarrow> addr option \<Rightarrow> 'b option" where
  "deref s p = (case p of None \<Rightarrow> None | Some a \<Rightarrow> s a)"

definition poke :: "addr \<Rightarrow> ('b \<Rightarrow> 'b) \<Rightarrow> 'b store \<Rightarrow> 'b store option" where
  "poke a f s = (case s a of None \<Rightarrow> None | Some b \<Rightarrow> Some (s(a \<mapsto> f b)))"

text \<open>The guarded write \<open>if (p) p->field = ...\<close>.\<close>

definition poke_opt :: "addr option \<Rightarrow> ('b \<Rightarrow> 'b) \<Rightarrow> 'b store \<Rightarrow> 'b store option" where
  "poke_opt p f s = (case p of None \<Rightarrow> Some s | Some a \<Rightarrow> poke a f s)"

text \<open>A field of the objects in a store, as a function of the address.\<close>

definition fld :: "('b \<Rightarrow> 'c) \<Rightarrow> 'b store \<Rightarrow> addr \<Rightarrow> 'c" where
  "fld g s a = g (the (s a))"

text \<open>
  What \<open>poke_opt\<close> does to the store when it succeeds. Symbolic execution of an operation turns
  its chain of guarded writes into a composition of \<open>supd\<close>s, whose fields \<open>fld_supd\<close> reads.
\<close>

definition supd :: "addr option \<Rightarrow> ('b \<Rightarrow> 'b) \<Rightarrow> 'b store \<Rightarrow> 'b store" where
  "supd p f s = (case p of None \<Rightarrow> s | Some a \<Rightarrow> s(a \<mapsto> f (the (s a))))"

definition valid :: "addr option \<Rightarrow> 'b store \<Rightarrow> bool" where
  "valid p s \<longleftrightarrow> (\<forall>a. p = Some a \<longrightarrow> a \<in> dom s)"

lemma deref_simps [simp]: "deref s None = None" "deref s (Some a) = s a"
  by (simp_all add: deref_def)

lemma poke_opt_simps [simp]:
  "poke_opt None f s = Some s" "poke_opt (Some a) f s = poke a f s"
  by (simp_all add: poke_opt_def)

lemma valid_simps [simp]: "valid None s" "valid (Some a) s \<longleftrightarrow> a \<in> dom s"
  by (auto simp: valid_def)

lemma bind_read [store_simps]: "a \<in> dom s \<Longrightarrow> Option.bind (s a) k = k (the (s a))"
  by auto

lemma poke_supd [store_simps]: "a \<in> dom s \<Longrightarrow> poke a f s = Some (supd (Some a) f s)"
  by (auto simp: poke_def supd_def)

lemma poke_opt_supd [store_simps]: "valid p s \<Longrightarrow> poke_opt p f s = Some (supd p f s)"
  by (cases p) (auto simp: poke_def supd_def valid_def)

lemma supd_None [simp]: "supd None f s = s"
  by (simp add: supd_def)

lemma dom_supd [simp]: "valid p s \<Longrightarrow> dom (supd p f s) = dom s"
  by (auto simp: supd_def valid_def split: option.splits)

lemma valid_supd [simp]: "valid p s \<Longrightarrow> valid q (supd p f s) = valid q s"
  by (simp add: valid_def)

lemma valid_upd [simp]: "valid q (s(a \<mapsto> b)) \<longleftrightarrow> q = Some a \<or> valid q s"
  by (auto simp: valid_def)

lemma fld_supd [store_simps]:
  "fld g (supd p f s) = (case p of None \<Rightarrow> fld g s | Some a \<Rightarrow> (fld g s)(a := g (f (the (s a)))))"
  by (auto simp: fld_def supd_def split: option.splits)

lemma the_supd [store_simps]: "the (supd p f s a) = (if p = Some a then f (the (s a)) else the (s a))"
  by (auto simp: supd_def split: option.splits)

lemma fld_upd [store_simps]: "fld g (s(a \<mapsto> b)) = (fld g s)(a := g b)"
  by (auto simp: fld_def)

lemma fld_drop: "x \<noteq> a \<Longrightarrow> fld g (s(a := None)) x = fld g s x"
  by (simp add: fld_def)

lemma fld_the [simp]: "(fld g s)(a := g (the (s a))) = fld g s"
  by (auto simp: fld_def)

lemma fun_upd_triv_other [simp]: "x \<noteq> a \<Longrightarrow> f(a := v, x := f x) = f(a := v)"
  by auto

lemma case_option_same [simp]: "(case p of None \<Rightarrow> x | Some _ \<Rightarrow> x) = x"
  by (cases p) auto

subsection \<open>Words\<close>

lemma unat_power_two:
  assumes "i < LENGTH('a)"
  shows "unat (2 ^ i :: 'a::len word) = 2 ^ i"
proof -
  have "(2 ^ i :: 'a word) = word_of_nat (2 ^ i)" by simp
  then have "unat (2 ^ i :: 'a word) = take_bit LENGTH('a) (2 ^ i)" by (simp only: unsigned_of_nat of_nat_id)
  also have "\<dots> = 2 ^ i" using assms by (simp add: take_bit_nat_eq_self)
  finally show ?thesis .
qed

lemma unat_of_nat_less: "n < 2 ^ LENGTH('a) \<Longrightarrow> unat (of_nat n :: 'a::len word) = n"
  by (simp only: unsigned_of_nat of_nat_id take_bit_nat_eq_self)

lemma unat_and_mask_less:
  fixes m :: "'a::len word"
  assumes "0 < s" "m = s - 1"
  shows "unat (and h m) < unat s"
proof -
  have "unat (and h m) \<le> unat m"
    by (simp add: word_and_le1 word_le_nat_alt [symmetric])
  moreover have "unat m < unat s"
    using assms by (metis word_le_sub1 word_less_nat_alt word_neq_0_conv less_le measure_unat)
  ultimately show ?thesis by simp
qed

text \<open>Reading an \<open>ulong\<close> as a signed \<open>long\<close>.\<close>

lemma sint_ulong:
  fixes h :: ulong
  shows "sint h = (if uint h < 2 ^ 63 then uint h else uint h - 2 ^ 64)"
proof (cases "uint h < 2 ^ 63")
  case True
  moreover have "- (2 ^ 63) \<le> uint h" by (rule order_trans [of _ 0]) simp_all
  ultimately show ?thesis by (simp add: sint_uint signed_take_bit_int_eq_self)
next
  case False
  have b: "0 \<le> uint h" "uint h < 2 ^ 64" using uint_bounded [of h] by simp_all
  have "uint h div 2 ^ 63 = 1" using int_div_pos_eq [of "uint h" "2 ^ 63" 1 "uint h - 2 ^ 63"] b False by simp
  then show ?thesis using b False
    by (simp add: sint_uint signed_take_bit_eq_take_bit_minus bit_iff_odd take_bit_int_eq_self)
qed

lemma uint_plus1:
  fixes h :: ulong
  assumes "h < 2 ^ 63 - 1"
  shows "uint (h + 1) = uint h + 1"
  using assms by (simp add: word_less_def uint_word_ariths)

end
