(* ===== verification/Zend_Qsort.thy ===== *)
theory Zend_Qsort
  imports Prelude "HOL-Library.Multiset"
begin

text \<open>
  \<open>Zend/zend_qsort.c\<close>: the in-place, non-recursive quicksort behind every \<open>sort()\<close> of the
  language (it is the \<open>sort_func\<close> of \<open>zend_hash_sort\<close> and of \<open>zend_llist_sort\<close>).

  The array is a list and the \<open>char *\<close> cursors are element indices, so \<open>p + siz\<close> is
  \<open>Suc p\<close> and \<open>p - siz\<close> is \<open>p - 1\<close>. The two fixed-size arrays of pending segments are a
  list of pairs with the top first, at most \<open>QSORT_STACK_SIZE\<close> long; a push beyond the arrays
  has no result. Where the C cursor would step in front of element 0 (\<open>seg2p - siz\<close> with
  \<open>seg2p\<close> the base), natural subtraction stays at 0; the segment it delimits is \<open>begin = end\<close>
  instead of \<open>begin > end\<close>, and the guards \<open>begin < end\<close> and \<open>(seg2p - siz) > begin\<close> are
  false in both.
\<close>

definition QSORT_STACK_SIZE :: nat where
  "QSORT_STACK_SIZE = 64"

definition zend_qsort_swap :: "'a list \<Rightarrow> nat \<Rightarrow> nat \<Rightarrow> 'a list" where
  "zend_qsort_swap xs i j = xs[i := xs ! j, j := xs ! i]"

text \<open>
  The two inner \<open>for\<close> loops, which move \<open>seg1\<close> up and \<open>seg2\<close> down. (\<open>begin\<close> and
  \<open>end\<close> are named \<open>beg\<close> and \<open>fin\<close>.) The conjunct \<open>0 < seg2\<close> follows from
  \<open>seg2 \<ge> seg1\<close>, because \<open>seg1\<close> starts after \<open>beg\<close>; it is written for totality.
\<close>

function qsort_seg1 :: "('a \<Rightarrow> 'a \<Rightarrow> int) \<Rightarrow> 'a list \<Rightarrow> nat \<Rightarrow> nat \<Rightarrow> nat \<Rightarrow> nat" where
  "qsort_seg1 compare xs beg seg1 seg2 =
     (if seg1 < seg2 \<and> compare (xs ! beg) (xs ! seg1) > 0
      then qsort_seg1 compare xs beg (Suc seg1) seg2 else seg1)"
  by pat_completeness auto
termination
  by (relation "measure (\<lambda>(c, xs, b, s1, s2). s2 - s1)") auto

function qsort_seg2 :: "('a \<Rightarrow> 'a \<Rightarrow> int) \<Rightarrow> 'a list \<Rightarrow> nat \<Rightarrow> nat \<Rightarrow> nat \<Rightarrow> nat" where
  "qsort_seg2 compare xs beg seg1 seg2 =
     (if 0 < seg2 \<and> seg2 \<ge> seg1 \<and> compare (xs ! seg2) (xs ! beg) > 0
      then qsort_seg2 compare xs beg seg1 (seg2 - 1) else seg2)"
  by pat_completeness auto
termination
  by (relation "measure (\<lambda>(c, xs, b, s1, s2). s2)") auto

declare qsort_seg1.simps [simp del] qsort_seg2.simps [simp del]

lemma qsort_seg1_ge: "seg1 \<le> qsort_seg1 c xs b seg1 seg2"
  by (induction c xs b seg1 seg2 rule: qsort_seg1.induct) (subst qsort_seg1.simps, auto)

lemma qsort_seg2_le: "qsort_seg2 c xs b seg1 seg2 \<le> seg2"
proof (induction c xs b seg1 seg2 rule: qsort_seg2.induct)
  case (1 c xs b s1 s2)
  then show ?case by (subst qsort_seg2.simps) (auto intro: order_trans)
qed

text \<open>The \<open>while (1)\<close> loop: the array after the exchanges and the final \<open>seg2\<close>.\<close>

function qsort_partition :: "('a \<Rightarrow> 'a \<Rightarrow> int) \<Rightarrow> 'a list \<Rightarrow> nat \<Rightarrow> nat \<Rightarrow> nat \<Rightarrow> 'a list \<times> nat" where
  "qsort_partition compare xs beg seg1 seg2 =
     (let s1 = qsort_seg1 compare xs beg seg1 seg2;
          s2 = qsort_seg2 compare xs beg s1 seg2
      in if s1 \<ge> s2 then (xs, s2)
         else qsort_partition compare (zend_qsort_swap xs s1 s2) beg (Suc s1) (s2 - 1))"
  by pat_completeness auto
termination
proof (relation "measure (\<lambda>(c, xs, b, s1, s2). s2 - s1)", goal_cases)
  case (2 c xs b seg1 seg2 x xa)
  then show ?case
    using qsort_seg1_ge [of seg1 c xs b seg2] qsort_seg2_le [of c xs b x seg2] by auto
qed auto

declare qsort_partition.simps [simp del]

lemma qsort_partition_bounds:
  assumes "qsort_partition c xs b seg1 seg2 = (ys, r)" "b < seg1" "seg1 \<le> Suc seg2"
  shows "b \<le> r \<and> r \<le> seg2"
  using assms
proof (induction c xs b seg1 seg2 arbitrary: ys r rule: qsort_partition.induct)
  case (1 c xs b seg1 seg2)
  define s1 where "s1 = qsort_seg1 c xs b seg1 seg2"
  define s2 where "s2 = qsort_seg2 c xs b s1 seg2"
  have s1: "seg1 \<le> s1" "s1 \<le> max seg1 seg2"
  proof -
    show "seg1 \<le> s1" by (simp add: s1_def qsort_seg1_ge)
    show "s1 \<le> max seg1 seg2" unfolding s1_def
      by (induction c xs b seg1 seg2 rule: qsort_seg1.induct) (subst qsort_seg1.simps, auto)
  qed
  have s2: "s2 \<le> seg2" "min seg2 (s1 - 1) \<le> s2"
  proof -
    show "s2 \<le> seg2" by (simp add: s2_def qsort_seg2_le)
    show "min seg2 (s1 - 1) \<le> s2" unfolding s2_def
    proof (induction c xs b s1 seg2 rule: qsort_seg2.induct)
      case (1 c xs b s1 s2)
      then show ?case by (subst qsort_seg2.simps) auto
    qed
  qed
  show ?case
  proof (cases "s1 \<ge> s2")
    case True
    then have "r = s2"
      using 1(2) by (simp add: qsort_partition.simps [of c xs] Let_def flip: s1_def s2_def)
    then show ?thesis using s1 s2 1(3,4) by auto
  next
    case False
    then have "qsort_partition c (zend_qsort_swap xs s1 s2) b (Suc s1) (s2 - 1) = (ys, r)"
      using 1(2) by (simp add: qsort_partition.simps [of c xs] Let_def flip: s1_def s2_def)
    then have "b \<le> r \<and> r \<le> s2 - 1"
      by (rule 1(1) [OF s1_def s2_def False]) (use False s1 1(3) in auto)
    then show ?thesis using s2 by auto
  qed
qed

text \<open>
  The element the pivot is taken from: half of the segment's size in bytes, stored in a
  \<open>uint\<close> and so taken modulo \<open>2^32\<close>, rounded down to a multiple of the element size.
\<close>

definition qsort_pivot :: "nat \<Rightarrow> nat \<Rightarrow> nat \<Rightarrow> nat" where
  "qsort_pivot siz beg fin =
     (let offset = ((fin - beg) * siz div 2) mod 2 ^ 32 in beg + (offset - offset mod siz) div siz)"

lemma qsort_pivot_bounds: "beg \<le> fin \<Longrightarrow> beg \<le> qsort_pivot siz beg fin \<and> qsort_pivot siz beg fin \<le> fin"
proof -
  assume le: "beg \<le> fin"
  define offset where "offset = ((fin - beg) * siz div 2) mod 2 ^ 32"
  have "offset \<le> (fin - beg) * siz" by (simp add: offset_def mod_less_eq_dividend [THEN order_trans])
  then have "(offset - offset mod siz) div siz \<le> (fin - beg) * siz div siz" by (intro div_le_mono) linarith
  also have "\<dots> \<le> fin - beg" by simp
  finally show ?thesis using le unfolding qsort_pivot_def Let_def offset_def [symmetric] by linarith
qed

text \<open>
  The \<open>while (begin < end)\<close> loop inside the loop over the pending segments. The smaller side
  of the partition is worked on next and the larger side is pushed.
\<close>

function zend_qsort_loop :: "nat \<Rightarrow> ('a \<Rightarrow> 'a \<Rightarrow> int) \<Rightarrow> 'a list \<Rightarrow> (nat \<times> nat) list \<Rightarrow> nat \<Rightarrow> nat \<Rightarrow> 'a list option" where
  "zend_qsort_loop siz compare xs stack beg fin =
     (if beg < fin then
        (let xs1 = zend_qsort_swap xs beg (qsort_pivot siz beg fin);
             (xs2, seg2p) = qsort_partition compare xs1 beg (Suc beg) fin;
             xs3 = zend_qsort_swap xs2 beg seg2p
         in if seg2p - beg \<le> fin - seg2p then
              if Suc seg2p < fin then
                if length stack < QSORT_STACK_SIZE
                then zend_qsort_loop siz compare xs3 ((Suc seg2p, fin) # stack) beg (seg2p - 1)
                else None
              else zend_qsort_loop siz compare xs3 stack beg (seg2p - 1)
            else
              if seg2p - 1 > beg then
                if length stack < QSORT_STACK_SIZE
                then zend_qsort_loop siz compare xs3 ((beg, seg2p - 1) # stack) (Suc seg2p) fin
                else None
              else zend_qsort_loop siz compare xs3 stack (Suc seg2p) fin)
      else case stack of
             [] \<Rightarrow> Some xs
           | (b, e) # stack' \<Rightarrow> zend_qsort_loop siz compare xs stack' b e)"
  by pat_completeness auto
termination
proof (relation "measure (\<lambda>(siz, c, xs, st, b, e). 2 * ((e - b) + (\<Sum>(b, e) \<leftarrow> st. e - b)) + length st)", goal_cases)
  case (2 siz c xs stack b e xs1 pp xs2 r xs3)
  then show ?case using qsort_partition_bounds [of c xs1 b "Suc b" e xs2 r] by auto
next
  case (3 siz c xs stack b e xs1 pp xs2 r xs3)
  then show ?case using qsort_partition_bounds [of c xs1 b "Suc b" e xs2 r] by auto
next
  case (4 siz c xs stack b e xs1 pp xs2 r xs3)
  then show ?case using qsort_partition_bounds [of c xs1 b "Suc b" e xs2 r] by auto
next
  case (5 siz c xs stack b e xs1 pp xs2 r xs3)
  then show ?case using qsort_partition_bounds [of c xs1 b "Suc b" e xs2 r] by auto
qed auto

declare zend_qsort_loop.simps [simp del]

definition zend_qsort :: "nat \<Rightarrow> ('a \<Rightarrow> 'a \<Rightarrow> int) \<Rightarrow> 'a list \<Rightarrow> 'a list option" where
  "zend_qsort siz compare xs = zend_qsort_loop siz compare xs [] 0 (length xs - 1)"


subsection \<open>Rearrangement inside a segment\<close>

text \<open>
  \<open>seg_img b e xs ys\<close>: \<open>ys\<close> differs from \<open>xs\<close> only at positions \<open>b..e\<close>, and what it has
  there comes from there.
\<close>

definition seg_img :: "nat \<Rightarrow> nat \<Rightarrow> 'a list \<Rightarrow> 'a list \<Rightarrow> bool" where
  "seg_img b e xs ys \<longleftrightarrow> length ys = length xs \<and>
     (\<forall>i. i < b \<or> e < i \<longrightarrow> ys ! i = xs ! i) \<and>
     (\<forall>j. b \<le> j \<and> j \<le> e \<longrightarrow> (\<exists>k. b \<le> k \<and> k \<le> e \<and> ys ! j = xs ! k))"

lemma seg_img_refl [simp]: "seg_img b e xs xs"
  by (auto simp: seg_img_def)

lemma seg_img_trans: "seg_img b e xs ys \<Longrightarrow> seg_img b e ys zs \<Longrightarrow> seg_img b e xs zs"
  by (simp add: seg_img_def) metis

lemma seg_img_length: "seg_img b e xs ys \<Longrightarrow> length ys = length xs"
  by (simp add: seg_img_def)

lemma seg_img_outside: "seg_img b e xs ys \<Longrightarrow> i < b \<or> e < i \<Longrightarrow> ys ! i = xs ! i"
  by (auto simp: seg_img_def)

lemma seg_img_mono:
  assumes "seg_img b' e' xs ys" "b \<le> b'" "e' \<le> e"
  shows "seg_img b e xs ys"
  unfolding seg_img_def
proof (intro conjI allI impI)
  fix j assume j: "b \<le> j \<and> j \<le> e"
  show "\<exists>k. b \<le> k \<and> k \<le> e \<and> ys ! j = xs ! k"
  proof (cases "b' \<le> j \<and> j \<le> e'")
    case True
    then obtain k where "b' \<le> k" "k \<le> e'" "ys ! j = xs ! k" using assms(1) by (auto simp: seg_img_def)
    with assms(2,3) show ?thesis by (intro exI [of _ k]) auto
  next
    case False
    then have "ys ! j = xs ! j" using assms(1) by (auto simp: seg_img_def)
    with j show ?thesis by auto
  qed
qed (use assms in \<open>auto simp: seg_img_def\<close>)

lemma seg_img_inside:
  "seg_img b e xs ys \<Longrightarrow> b \<le> j \<Longrightarrow> j \<le> e \<Longrightarrow> \<exists>k. b \<le> k \<and> k \<le> e \<and> ys ! j = xs ! k"
  by (simp add: seg_img_def)

lemma length_qsort_swap [simp]: "length (zend_qsort_swap xs i j) = length xs"
  by (simp add: zend_qsort_swap_def)

lemma nth_qsort_swap:
  "i < length xs \<Longrightarrow> j < length xs \<Longrightarrow>
   zend_qsort_swap xs i j ! k = (if k = j then xs ! i else if k = i then xs ! j else xs ! k)"
  by (auto simp: zend_qsort_swap_def nth_list_update)

lemma mset_qsort_swap [simp]:
  "i < length xs \<Longrightarrow> j < length xs \<Longrightarrow> mset (zend_qsort_swap xs i j) = mset xs"
  by (simp add: zend_qsort_swap_def mset_swap)

lemma seg_img_swap:
  "i < length xs \<Longrightarrow> j < length xs \<Longrightarrow> b \<le> i \<Longrightarrow> i \<le> e \<Longrightarrow> b \<le> j \<Longrightarrow> j \<le> e \<Longrightarrow>
   seg_img b e xs (zend_qsort_swap xs i j)"
  by (auto simp: seg_img_def nth_qsort_swap)

subsection \<open>The partition\<close>

lemma qsort_seg1_spec:
  assumes "qsort_seg1 c xs b seg1 seg2 = r" "seg1 \<le> Suc seg2"
  shows "seg1 \<le> r \<and> r \<le> max seg1 seg2 \<and> (\<forall>i. seg1 \<le> i \<and> i < r \<longrightarrow> c (xs ! b) (xs ! i) > 0)
    \<and> (r < seg2 \<longrightarrow> c (xs ! b) (xs ! r) \<le> 0)"
  using assms
proof (induction c xs b seg1 seg2 arbitrary: r rule: qsort_seg1.induct)
  case (1 c xs b s1 s2)
  show ?case
  proof (cases "s1 < s2 \<and> c (xs ! b) (xs ! s1) > 0")
    case True
    with 1(2) have "qsort_seg1 c xs b (Suc s1) s2 = r" by (simp add: qsort_seg1.simps [of c xs b s1])
    from 1(1) [OF True this] True
    have IH: "Suc s1 \<le> r" "r \<le> s2" "\<forall>i. Suc s1 \<le> i \<and> i < r \<longrightarrow> c (xs ! b) (xs ! i) > 0"
      "r < s2 \<longrightarrow> c (xs ! b) (xs ! r) \<le> 0" by auto
    have "\<forall>i. s1 \<le> i \<and> i < r \<longrightarrow> c (xs ! b) (xs ! i) > 0"
    proof (intro allI impI)
      fix i assume i: "s1 \<le> i \<and> i < r"
      then consider "Suc s1 \<le> i" | "i = s1" by linarith
      then show "c (xs ! b) (xs ! i) > 0" using i IH(3) True by cases auto
    qed
    with IH show ?thesis by auto
  next
    case False
    with 1(2,3) show ?thesis by (auto simp: qsort_seg1.simps [of c xs b s1])
  qed
qed

lemma qsort_seg2_spec:
  assumes "qsort_seg2 c xs b seg1 seg2 = r" "0 < seg1" "seg1 \<le> Suc seg2"
  shows "r \<le> seg2 \<and> seg1 - 1 \<le> r \<and> (\<forall>i. r < i \<and> i \<le> seg2 \<longrightarrow> c (xs ! i) (xs ! b) > 0)
    \<and> (seg1 \<le> r \<longrightarrow> c (xs ! r) (xs ! b) \<le> 0)"
  using assms
proof (induction c xs b seg1 seg2 arbitrary: r rule: qsort_seg2.induct)
  case (1 c xs b s1 s2)
  show ?case
  proof (cases "0 < s2 \<and> s2 \<ge> s1 \<and> c (xs ! s2) (xs ! b) > 0")
    case True
    with 1(2) have "qsort_seg2 c xs b s1 (s2 - 1) = r" by (simp add: qsort_seg2.simps [of c xs b s1])
    from 1(1) [OF True this] True 1(3)
    have IH: "r \<le> s2 - 1" "s1 - 1 \<le> r" "\<forall>i. r < i \<and> i \<le> s2 - 1 \<longrightarrow> c (xs ! i) (xs ! b) > 0"
      "s1 \<le> r \<longrightarrow> c (xs ! r) (xs ! b) \<le> 0" by auto
    have "\<forall>i. r < i \<and> i \<le> s2 \<longrightarrow> c (xs ! i) (xs ! b) > 0"
    proof (intro allI impI)
      fix i assume i: "r < i \<and> i \<le> s2"
      then consider "i \<le> s2 - 1" | "i = s2" by linarith
      then show "c (xs ! i) (xs ! b) > 0" using i IH(3) True by cases auto
    qed
    with IH show ?thesis by auto
  next
    case False
    with 1(2,3,4) show ?thesis by (auto simp: qsort_seg2.simps [of c xs b s1])
  qed
qed

text \<open>
  What the partition does without any assumption on the comparison: it permutes
  \<open>seg1..seg2\<close>.
\<close>

lemma qsort_partition_perm:
  assumes "qsort_partition c xs b seg1 seg2 = (ys, r)" "b < seg1" "seg1 \<le> Suc seg2" "seg2 < length xs"
  shows "mset ys = mset xs \<and> seg_img seg1 seg2 xs ys"
  using assms
proof (induction c xs b seg1 seg2 arbitrary: ys r rule: qsort_partition.induct)
  case (1 c xs b seg1 seg2)
  define s1 where "s1 = qsort_seg1 c xs b seg1 seg2"
  define s2 where "s2 = qsort_seg2 c xs b s1 seg2"
  have s1: "seg1 \<le> s1" "s1 \<le> max seg1 seg2"
    using qsort_seg1_spec [OF s1_def [symmetric]] 1(4) by auto
  then have s2: "s2 \<le> seg2" "s1 - 1 \<le> s2"
    using qsort_seg2_spec [OF s2_def [symmetric]] 1(3,4) by auto
  show ?case
  proof (cases "s1 \<ge> s2")
    case True
    then show ?thesis
      using 1(2) by (simp add: qsort_partition.simps [of c xs] Let_def flip: s1_def s2_def)
  next
    case False
    let ?xs = "zend_qsort_swap xs s1 s2"
    from False have part: "qsort_partition c ?xs b (Suc s1) (s2 - 1) = (ys, r)"
      using 1(2) by (simp add: qsort_partition.simps [of c xs] Let_def flip: s1_def s2_def)
    have "mset ys = mset ?xs \<and> seg_img (Suc s1) (s2 - 1) ?xs ys"
      by (rule 1(1) [OF s1_def s2_def False part]) (use False s1 s2 1(3,5) in auto)
    moreover have "seg_img seg1 seg2 ?xs ys" if "seg_img (Suc s1) (s2 - 1) ?xs ys"
      using that by (rule seg_img_mono) (use s1 s2 in auto)
    moreover have "seg_img seg1 seg2 xs ?xs" "mset ?xs = mset xs"
      using s1 s2 False 1(5) by (auto intro!: seg_img_swap)
    ultimately show ?thesis by (auto intro: seg_img_trans)
  qed
qed


text \<open>
  A comparison function that orders its arguments: the sign flips with the arguments and
  \<open>\<le>\<close> is transitive.
\<close>

definition cmp_order :: "('a \<Rightarrow> 'a \<Rightarrow> int) \<Rightarrow> bool" where
  "cmp_order c \<longleftrightarrow> (\<forall>x y. (c x y > 0) = (c y x < 0)) \<and> (\<forall>x y z. c x y \<le> 0 \<longrightarrow> c y z \<le> 0 \<longrightarrow> c x z \<le> 0)"

lemma cmp_order_flip: "cmp_order c \<Longrightarrow> c x y > 0 \<Longrightarrow> c y x \<le> 0"
  by (auto simp: cmp_order_def intro: less_imp_le)

lemma cmp_order_trans: "cmp_order c \<Longrightarrow> c x y \<le> 0 \<Longrightarrow> c y z \<le> 0 \<Longrightarrow> c x z \<le> 0"
  unfolding cmp_order_def by blast

text \<open>With such a comparison the pivot at \<open>b\<close> separates the segment at the final \<open>seg2\<close>.\<close>

lemma qsort_partition_split:
  assumes "qsort_partition c xs b seg1 seg2 = (ys, r)" "b < seg1" "seg1 \<le> Suc seg2" "seg2 < length xs"
    and c: "cmp_order c"
    and lo: "\<forall>i. b < i \<and> i < seg1 \<longrightarrow> c (xs ! i) (xs ! b) \<le> 0"
    and hi: "\<forall>i. seg2 < i \<and> i \<le> e \<longrightarrow> c (xs ! b) (xs ! i) \<le> 0"
  shows "(\<forall>i. b < i \<and> i \<le> r \<longrightarrow> c (ys ! i) (ys ! b) \<le> 0) \<and> (\<forall>i. r < i \<and> i \<le> e \<longrightarrow> c (ys ! b) (ys ! i) \<le> 0)"
  using assms(1-4) c lo hi
proof (induction c xs b seg1 seg2 arbitrary: ys r rule: qsort_partition.induct)
  case (1 c xs b seg1 seg2)
  note c = 1(6)
  define s1 where "s1 = qsort_seg1 c xs b seg1 seg2"
  define s2 where "s2 = qsort_seg2 c xs b s1 seg2"
  have s1: "seg1 \<le> s1" "s1 \<le> max seg1 seg2" "\<forall>i. seg1 \<le> i \<and> i < s1 \<longrightarrow> c (xs ! b) (xs ! i) > 0"
      "s1 < seg2 \<longrightarrow> c (xs ! b) (xs ! s1) \<le> 0"
    using qsort_seg1_spec [OF s1_def [symmetric]] 1(4) by auto
  then have s2: "s2 \<le> seg2" "s1 - 1 \<le> s2" "\<forall>i. s2 < i \<and> i \<le> seg2 \<longrightarrow> c (xs ! i) (xs ! b) > 0"
      "s1 \<le> s2 \<longrightarrow> c (xs ! s2) (xs ! b) \<le> 0"
    using qsort_seg2_spec [OF s2_def [symmetric]] 1(3,4) by auto
  have lo': "c (xs ! i) (xs ! b) \<le> 0" if "b < i" "i < s1" for i
    using that 1(7) s1(3) cmp_order_flip [OF c] by (cases "i < seg1") auto
  have hi': "c (xs ! b) (xs ! i) \<le> 0" if "s2 < i" "i \<le> e" for i
    using that 1(8) s2(3) cmp_order_flip [OF c] by (cases "i \<le> seg2") auto
  show ?case
  proof (cases "s1 \<ge> s2")
    case True
    then have "ys = xs" "r = s2"
      using 1(2) by (simp_all add: qsort_partition.simps [of c xs] Let_def flip: s1_def s2_def)
    moreover have "c (xs ! i) (xs ! b) \<le> 0" if "b < i" "i \<le> s2" for i
    proof (cases "i < s1")
      case False
      then have "i = s2" "s1 \<le> s2" using that True by auto
      then show ?thesis using s2(4) by simp
    qed (use that lo' in simp)
    ultimately show ?thesis using hi' by auto
  next
    case False
    let ?xs = "zend_qsort_swap xs s1 s2"
    have len: "s1 < length xs" "s2 < length xs" using False s2(1) 1(5) by auto
    have b: "?xs ! b = xs ! b" using len False 1(3) s1(1) by (simp add: nth_qsort_swap)
    from False have part: "qsort_partition c ?xs b (Suc s1) (s2 - 1) = (ys, r)"
      using 1(2) by (simp add: qsort_partition.simps [of c xs] Let_def flip: s1_def s2_def)
    have "\<forall>i. b < i \<and> i < Suc s1 \<longrightarrow> c (?xs ! i) (?xs ! b) \<le> 0"
      using len False lo' s2(4) by (auto simp: b nth_qsort_swap less_Suc_eq)
    moreover have "\<forall>i. s2 - 1 < i \<and> i \<le> e \<longrightarrow> c (?xs ! b) (?xs ! i) \<le> 0"
      using len False hi' s1(4) s2(1) by (auto simp: b nth_qsort_swap)
    ultimately show ?thesis
      using 1(1) [OF s1_def s2_def False part] False s1 s2 1(3,5) c by auto
  qed
qed


subsection \<open>The whole sort\<close>

text \<open>One round of the outer loop: the array it leaves and where the pivot ends up.\<close>

definition qsort_round :: "nat \<Rightarrow> ('a \<Rightarrow> 'a \<Rightarrow> int) \<Rightarrow> 'a list \<Rightarrow> nat \<Rightarrow> nat \<Rightarrow> 'a list \<times> nat" where
  "qsort_round siz c xs b e =
     (let (xs2, r) = qsort_partition c (zend_qsort_swap xs b (qsort_pivot siz b e)) b (Suc b) e
      in (zend_qsort_swap xs2 b r, r))"

lemma zend_qsort_loop_round:
  assumes "qsort_round siz c xs b e = (ys, r)" "b < e"
  shows "zend_qsort_loop siz c xs st b e =
    (if r - b \<le> e - r then
       if Suc r < e then
         if length st < QSORT_STACK_SIZE then zend_qsort_loop siz c ys ((Suc r, e) # st) b (r - 1) else None
       else zend_qsort_loop siz c ys st b (r - 1)
     else
       if r - 1 > b then
         if length st < QSORT_STACK_SIZE then zend_qsort_loop siz c ys ((b, r - 1) # st) (Suc r) e else None
       else zend_qsort_loop siz c ys st (Suc r) e)"
proof -
  obtain zs where part: "qsort_partition c (zend_qsort_swap xs b (qsort_pivot siz b e)) b (Suc b) e = (zs, r)"
    and ys: "ys = zend_qsort_swap zs b r"
    using assms(1) by (auto simp: qsort_round_def split: prod.splits)
  show ?thesis
    using assms(2) by (simp only: zend_qsort_loop.simps [of siz c xs st b e] Let_def part prod.case ys if_True)
qed

lemma zend_qsort_loop_done:
  "\<not> b < e \<Longrightarrow> zend_qsort_loop siz c xs st b e =
     (case st of [] \<Rightarrow> Some xs | (b', e') # st' \<Rightarrow> zend_qsort_loop siz c xs st' b' e')"
  by (subst zend_qsort_loop.simps) simp

lemma qsort_round_perm:
  assumes "qsort_round siz c xs b e = (ys, r)" "b < e" "e < length xs"
  shows "b \<le> r" "r \<le> e" "mset ys = mset xs" "seg_img b e xs ys"
proof -
  let ?xs = "zend_qsort_swap xs b (qsort_pivot siz b e)"
  obtain zs where part: "qsort_partition c ?xs b (Suc b) e = (zs, r)" and ys: "ys = zend_qsort_swap zs b r"
    using assms(1) by (auto simp: qsort_round_def split: prod.splits)
  have mid: "b \<le> qsort_pivot siz b e" "qsort_pivot siz b e \<le> e" using assms(2) qsort_pivot_bounds [of b e siz] by auto
  show r: "b \<le> r" "r \<le> e" using qsort_partition_bounds [OF part] assms(2) by auto
  have 1: "seg_img b e xs ?xs" "mset ?xs = mset xs" using mid assms(2,3) by (auto intro!: seg_img_swap)
  have "mset zs = mset ?xs" "seg_img (Suc b) e ?xs zs"
    using qsort_partition_perm [OF part] assms(2,3) by auto
  then have 2: "mset zs = mset ?xs" "seg_img b e ?xs zs" by (auto elim: seg_img_mono)
  have len: "length zs = length xs" using seg_img_length [OF 2(2)] by simp
  then show "mset ys = mset xs" using 1 2 r assms(3) by (simp add: ys)
  have "seg_img b e zs ys" unfolding ys using r assms(2,3) len by (intro seg_img_swap) auto
  then show "seg_img b e xs ys" using 1 2 by (blast intro: seg_img_trans)
qed

lemma qsort_round_split:
  assumes "qsort_round siz c xs b e = (ys, r)" "b < e" "e < length xs" "cmp_order c"
  shows "b \<le> i \<Longrightarrow> i < r \<Longrightarrow> c (ys ! i) (ys ! r) \<le> 0" "r < i \<Longrightarrow> i \<le> e \<Longrightarrow> c (ys ! r) (ys ! i) \<le> 0"
proof -
  let ?xs = "zend_qsort_swap xs b (qsort_pivot siz b e)"
  obtain zs where part: "qsort_partition c ?xs b (Suc b) e = (zs, r)" and ys: "ys = zend_qsort_swap zs b r"
    using assms(1) by (auto simp: qsort_round_def split: prod.splits)
  have r: "b \<le> r" "r \<le> e" using qsort_partition_bounds [OF part] assms(2) by auto
  have len: "length zs = length xs"
    using qsort_partition_perm [OF part] seg_img_length assms(2,3) by fastforce
  have lo: "b < i \<Longrightarrow> i \<le> r \<Longrightarrow> c (zs ! i) (zs ! b) \<le> 0" and hi: "r < i \<Longrightarrow> i \<le> e \<Longrightarrow> c (zs ! b) (zs ! i) \<le> 0" for i
    using qsort_partition_split [OF part _ _ _ assms(4), of e] assms(2,3) by auto
  show "b \<le> i \<Longrightarrow> i < r \<Longrightarrow> c (ys ! i) (ys ! r) \<le> 0" "r < i \<Longrightarrow> i \<le> e \<Longrightarrow> c (ys ! r) (ys ! i) \<le> 0"
    using lo [of i] lo [of r] hi [of i] r len assms(3) by (auto simp: ys nth_qsort_swap)
qed


text \<open>
  A permutation, whatever the comparison function does: no call of \<open>compare\<close> can lose or
  duplicate an element.
\<close>

lemma zend_qsort_loop_mset:
  assumes "zend_qsort_loop siz c xs st b e = Some ys" "\<forall>(b, e) \<in> set ((b, e) # st). b < e \<longrightarrow> e < length xs"
  shows "mset ys = mset xs"
  using assms
proof (induction siz c xs st b e rule: zend_qsort_loop.induct)
  case (1 siz c xs st b e)
  obtain zs r where round: "qsort_round siz c xs b e = (zs, r)" by fastforce
  obtain xs2 where part: "(xs2, r) = qsort_partition c (zend_qsort_swap xs b (qsort_pivot siz b e)) b (Suc b) e"
    and zs: "zs = zend_qsort_swap xs2 b r" using round by (auto simp: qsort_round_def split: prod.splits)
  show ?case
  proof (cases "b < e")
    case True
    have len: "e < length xs" using 1(7) True by auto
    note p = qsort_round_perm [OF round True len]
    have lz: "length zs = length xs" using seg_img_length [OF p(4)] .
    note IH = 1(1-4) [OF True refl part refl zs]
    note eq = 1(6) [unfolded zend_qsort_loop_round [OF round True]]
    have "r - Suc 0 < length xs" "xs \<noteq> []" using p(2) len by auto
    then have "mset ys = mset zs"
      using eq IH p(1,2) lz len 1(7) by (auto split: if_splits)
    then show ?thesis using p(3) by simp
  next
    case False
    then show ?thesis
      using 1(5) [OF False] 1(6,7) by (auto simp: zend_qsort_loop_done [OF False] split: list.splits prod.splits)
  qed
qed


text \<open>
  The pending segments never exceed the two arrays: because the larger side is pushed, the
  segment worked on at depth \<open>k\<close> spans at most \<open>g / 2^k\<close> steps, where \<open>g\<close> is the span of
  the whole array.
\<close>

fun depth_ok :: "nat \<Rightarrow> (nat \<times> nat) list \<Rightarrow> bool" where
  "depth_ok g [] \<longleftrightarrow> True"
| "depth_ok g ((b, e) # st) \<longleftrightarrow> (e - b) * 2 ^ length st \<le> g \<and> depth_ok g st"

lemma depth_ok_shrink:
  assumes "depth_ok g ((b, e) # st)" "e' - b' \<le> e - b"
  shows "depth_ok g ((b', e') # st)"
proof -
  have "(e' - b') * 2 ^ length st \<le> (e - b) * 2 ^ length st" using assms(2) by (rule mult_le_mono1)
  also have "\<dots> \<le> g" using assms(1) by simp
  finally show ?thesis using assms(1) by simp
qed

lemma depth_ok_push:
  assumes "depth_ok g ((b, e) # st)" "2 * (e' - b') \<le> e - b" "v - u \<le> e - b"
  shows "depth_ok g ((b', e') # (u, v) # st)"
proof -
  have "(2 * (e' - b')) * 2 ^ length st \<le> (e - b) * 2 ^ length st"
    using assms(2) by (rule mult_le_mono1)
  then have "(e' - b') * 2 ^ length ((u, v) # st) \<le> g"
    using assms(1) by (auto simp: algebra_simps intro: order_trans)
  then show ?thesis using depth_ok_shrink [OF assms(1,3)] by (simp only: depth_ok.simps)
qed

lemma depth_ok_length:
  assumes "depth_ok g ((b, e) # st)" "b < e" "g < 2 ^ k"
  shows "length st < k"
proof -
  have "1 * 2 ^ length st \<le> (e - b) * 2 ^ length st" using assms(2) by (intro mult_le_mono1) auto
  also have "\<dots> < 2 ^ k" using assms(1,3) by simp
  finally show ?thesis by simp
qed

lemma zend_qsort_loop_returns:
  assumes "depth_ok g ((b, e) # st)" "g < 2 ^ QSORT_STACK_SIZE"
  shows "zend_qsort_loop siz c xs st b e \<noteq> None"
  using assms
proof (induction siz c xs st b e rule: zend_qsort_loop.induct)
  case (1 siz c xs st b e)
  note ok = 1(6)
  obtain zs r where round: "qsort_round siz c xs b e = (zs, r)" by fastforce
  obtain xs2 where part: "(xs2, r) = qsort_partition c (zend_qsort_swap xs b (qsort_pivot siz b e)) b (Suc b) e"
    and zs: "zs = zend_qsort_swap xs2 b r" using round by (auto simp: qsort_round_def split: prod.splits)
  show ?case
  proof (cases "b < e")
    case True
    have r: "b \<le> r" "r \<le> e" using qsort_partition_bounds [OF part [symmetric]] True by auto
    have len: "length st < QSORT_STACK_SIZE" using depth_ok_length [OF ok True 1(7)] .
    note IH = 1(1-4) [OF True refl part refl zs]
    have "depth_ok g ((b, r - 1) # st)" "depth_ok g ((Suc r, e) # st)"
      by (rule depth_ok_shrink [OF ok]; use r in linarith)+
    moreover have "r - b \<le> e - r \<Longrightarrow> depth_ok g ((b, r - 1) # (Suc r, e) # st)"
      "\<not> r - b \<le> e - r \<Longrightarrow> depth_ok g ((Suc r, e) # (b, r - 1) # st)"
      by (rule depth_ok_push [OF ok]; use r in linarith)+
    ultimately show ?thesis
      unfolding zend_qsort_loop_round [OF round True]
      using IH len 1(7) by (simp del: depth_ok.simps)
  next
    case False
    then show ?thesis
      using 1(5) [OF False] ok 1(7) by (auto simp: zend_qsort_loop_done [OF False] split: list.splits prod.splits)
  qed
qed

text \<open>
  Order. Two positions are in order unless one pending segment holds both of them; the
  pending segments do not overlap; when none is left the whole array is sorted.
\<close>

fun apart :: "(nat \<times> nat) list \<Rightarrow> bool" where
  "apart [] \<longleftrightarrow> True"
| "apart ((b, e) # st) \<longleftrightarrow> (\<forall>(b', e') \<in> set st. e < b' \<or> e' < b) \<and> apart st"

definition pending_ok :: "('a \<Rightarrow> 'a \<Rightarrow> int) \<Rightarrow> 'a list \<Rightarrow> (nat \<times> nat) list \<Rightarrow> bool" where
  "pending_ok c xs st \<longleftrightarrow> apart st \<and> (\<forall>i j. i < j \<and> j < length xs \<longrightarrow>
     c (xs ! i) (xs ! j) \<le> 0 \<or> (\<exists>(b, e) \<in> set st. b \<le> i \<and> j \<le> e))"

lemma pending_ok_round:
  assumes ok: "pending_ok c xs ((b, e) # st)"
    and r: "qsort_round siz c xs b e = (ys, r)" "b < e" "e < length xs" "cmp_order c"
    and new: "{(b, r - 1), (Suc r, e)} \<subseteq> set new \<or> (r - 1 \<le> b \<and> (Suc r, e) \<in> set new) \<or> (e \<le> Suc r \<and> (b, r - 1) \<in> set new)"
    and st: "set st \<subseteq> set new" "apart new"
  shows "pending_ok c ys new"
  unfolding pending_ok_def
proof (intro conjI allI impI)
  note p = qsort_round_perm [OF r(1-3)] and s = qsort_round_split [OF r]
  have len: "length ys = length xs" using seg_img_length [OF p(4)] .
  fix i j assume ij: "i < j \<and> j < length ys"
  have old: "\<And>i j. i < j \<Longrightarrow> j < length xs \<Longrightarrow>
      c (xs ! i) (xs ! j) \<le> 0 \<or> (b \<le> i \<and> j \<le> e) \<or> (\<exists>(b, e) \<in> set st. b \<le> i \<and> j \<le> e)"
    using ok by (auto simp: pending_ok_def)
  have ap: "\<And>b' e'. (b', e') \<in> set st \<Longrightarrow> e < b' \<or> e' < b" using ok by (auto simp: pending_ok_def)
  show "c (ys ! i) (ys ! j) \<le> 0 \<or> (\<exists>(b, e) \<in> set new. b \<le> i \<and> j \<le> e)"
  proof (cases "b \<le> i \<and> j \<le> e")
    case in_seg: True
    consider "j < r" | "j = r" | "i < r" "r < j" | "i = r" | "r < i" using ij by linarith
    then show ?thesis
    proof cases
      case 1
      then show ?thesis using new in_seg ij by fastforce
    next
      case 3
      then have "c (ys ! i) (ys ! r) \<le> 0" "c (ys ! r) (ys ! j) \<le> 0" using s in_seg by auto
      then show ?thesis using cmp_order_trans [OF r(4)] by blast
    next
      case 5
      then show ?thesis using new in_seg ij by fastforce
    qed (use s in_seg ij in auto)
  next
    case False
    have "\<exists>i' j'. i' < j' \<and> j' < length xs \<and> ys ! i = xs ! i' \<and> ys ! j = xs ! j' \<and> \<not> (b \<le> i' \<and> j' \<le> e)
       \<and> (\<forall>(u, v) \<in> set st. u \<le> i' \<and> j' \<le> v \<longrightarrow> u \<le> i \<and> j \<le> v)"
    proof -
      consider (out) "i < b \<or> e < i" "j < b \<or> e < j" | (left) "b \<le> i" "i \<le> e" "e < j" | (right) "i < b" "b \<le> j" "j \<le> e"
        using False ij by linarith
      then show ?thesis
      proof cases
        case out
        then show ?thesis using seg_img_outside [OF p(4)] ij len False by (intro exI [of _ i] exI [of _ j]) auto
      next
        case left
        obtain k where "b \<le> k" "k \<le> e" "ys ! i = xs ! k" using seg_img_inside [OF p(4)] left by blast
        then show ?thesis using left seg_img_outside [OF p(4)] ij len ap
          by (intro exI [of _ k] exI [of _ j]) fastforce
      next
        case right
        obtain k where "b \<le> k" "k \<le> e" "ys ! j = xs ! k" using seg_img_inside [OF p(4)] right by blast
        then show ?thesis using right seg_img_outside [OF p(4)] ij len ap r(3)
          by (intro exI [of _ i] exI [of _ k]) fastforce
      qed
    qed
    then show ?thesis using old st(1) by (fastforce simp: case_prod_beta)
  qed
qed (use st in simp)


lemma zend_qsort_loop_sorted:
  assumes "zend_qsort_loop siz c xs st b e = Some ys" "cmp_order c"
    and "\<forall>(b, e) \<in> set ((b, e) # st). b < e \<longrightarrow> e < length xs"
    and "pending_ok c xs ((b, e) # st)"
  shows "sorted_wrt (\<lambda>x y. c x y \<le> 0) ys"
  using assms
proof (induction siz c xs st b e rule: zend_qsort_loop.induct)
  case (1 siz c xs st b e)
  note pend = 1(9) and c = 1(7)
  obtain zs r where round: "qsort_round siz c xs b e = (zs, r)" by fastforce
  obtain xs2 where part: "(xs2, r) = qsort_partition c (zend_qsort_swap xs b (qsort_pivot siz b e)) b (Suc b) e"
    and zs: "zs = zend_qsort_swap xs2 b r" using round by (auto simp: qsort_round_def split: prod.splits)
  show ?case
  proof (cases "b < e")
    case True
    have len: "e < length xs" using 1(8) True by auto
    note p = qsort_round_perm [OF round True len]
    have lz: "length zs = length xs" using seg_img_length [OF p(4)] .
    note IH = 1(1-4) [OF True refl part refl zs]
    have ap: "apart ((b, e) # st)" using pend by (simp add: pending_ok_def)
    have seg: "r - Suc 0 < length zs" "e < length zs" using p(2) len lz by auto
    have ne: "length zs \<noteq> 0" using len lz by auto
    note ok = pending_ok_round [OF pend round True len c]
    have "pending_ok c zs ((b, r - 1) # (Suc r, e) # st)" "pending_ok c zs ((Suc r, e) # (b, r - 1) # st)"
      by (rule ok; use ap p(1,2) in fastforce)+
    moreover have "r - 1 \<le> b \<Longrightarrow> pending_ok c zs ((Suc r, e) # st)" "e \<le> Suc r \<Longrightarrow> pending_ok c zs ((b, r - 1) # st)"
      by (rule ok; use ap p(1,2) in fastforce)+
    ultimately show ?thesis
      using 1(6) [unfolded zend_qsort_loop_round [OF round True]] IH c seg ne lz 1(8)
      by (auto split: if_splits)
  next
    case False
    have "pending_ok c xs st"
      using pend False by (auto simp: pending_ok_def) (meson less_le_trans le_less_trans order.asym)
    then show ?thesis
      using 1(5) [OF False] 1(6-8)
      by (auto simp: zend_qsort_loop_done [OF False] pending_ok_def sorted_wrt_iff_nth_less split: list.splits prod.splits)
  qed
qed


subsection \<open>The interface of a sort routine\<close>

text \<open>
  What the containers rely on when they are handed a \<open>sort_func\<close>: it returns, and what it
  returns is a rearrangement of the array. Both hold for every comparison function, which may
  be user code. When the comparison is an order the result is sorted.
\<close>

locale sort_routine =
  fixes sort :: "('a \<Rightarrow> 'a \<Rightarrow> int) \<Rightarrow> 'a list \<Rightarrow> 'a list option"
  assumes sort_returns: "length xs \<le> 2 ^ 64 \<Longrightarrow> sort c xs \<noteq> None"
    and sort_mset: "sort c xs = Some ys \<Longrightarrow> mset ys = mset xs"
    and sort_sorted: "sort c xs = Some ys \<Longrightarrow> cmp_order c \<Longrightarrow> sorted_wrt (\<lambda>x y. c x y \<le> 0) ys"
begin

lemma sort_length: "sort c xs = Some ys \<Longrightarrow> length ys = length xs"
  using sort_mset mset_eq_length by blast

lemma sort_set: "sort c xs = Some ys \<Longrightarrow> set ys = set xs"
  using sort_mset mset_eq_setD by blast

lemma sort_distinct: "sort c xs = Some ys \<Longrightarrow> distinct ys = distinct xs"
  using sort_mset mset_eq_imp_distinct_iff by blast

lemma sort_result:
  assumes "length xs \<le> 2 ^ 64"
  obtains ys where "sort c xs = Some ys" "mset ys = mset xs"
  using assms sort_returns [of xs c] sort_mset [of c xs] by fastforce

end

interpretation zq: sort_routine "zend_qsort siz" for siz
proof
  fix xs :: "'a list" and c
  assume "length xs \<le> 2 ^ 64"
  then show "zend_qsort siz c xs \<noteq> None"
    unfolding zend_qsort_def
    by (intro zend_qsort_loop_returns [where g = "length xs - 1"]) (auto simp: QSORT_STACK_SIZE_def)
next
  fix xs ys :: "'a list" and c
  assume s: "zend_qsort siz c xs = Some ys"
  then show "mset ys = mset xs"
    by (auto simp: zend_qsort_def dest: zend_qsort_loop_mset)
  assume c: "cmp_order c"
  have "pending_ok c xs [(0, length xs - 1)]" by (auto simp: pending_ok_def)
  with s c show "sorted_wrt (\<lambda>x y. c x y \<le> 0) ys"
    by (auto simp: zend_qsort_def dest: zend_qsort_loop_sorted)
qed

text \<open>C8: \<open>zend_qsort\<close> always returns within its two fixed 64-entry segment stacks, for any
  comparison function; its result is a permutation of the array, and when the comparison is an
  order the result is sorted by it.\<close>

theorem zend_qsort_correct:
  assumes "length xs \<le> 2 ^ 64"
  shows "\<exists>ys. zend_qsort siz c xs = Some ys \<and> mset ys = mset xs \<and>
    (cmp_order c \<longrightarrow> sorted_wrt (\<lambda>x y. c x y \<le> 0) ys)"
  using zq.sort_result [OF assms, of siz c] zq.sort_sorted [of siz c xs] by metis

theorem zend_qsort_correct_witness:
  "\<exists>ys. zend_qsort 4 (\<lambda>x y. x - y) [3, 1, 2 :: int] = Some ys \<and> mset ys = mset [3, 1, 2 :: int] \<and>
    sorted_wrt (\<le>) ys"
proof -
  have "cmp_order (\<lambda>x y. x - y :: int)" by (auto simp: cmp_order_def)
  then show ?thesis
    using zend_qsort_correct [of "[3, 1, 2 :: int]" 4 "\<lambda>x y. x - y"] by (auto simp: sorted_wrt_iff_nth_less)
qed

end
