(* ===== verification/Dll.thy ===== *)
theory Dll
  imports Prelude
begin

text \<open>
  Doubly linked lists in a store, described by a forward field \<open>n\<close> and a backward field
  \<open>p\<close>. The engine uses the same shape four times: the element list of \<open>zend_llist\<close>, the
  global order list of a hash table (\<open>pListNext\<close>/\<open>pListLast\<close>), its collision chains
  (\<open>pNext\<close>/\<open>pLast\<close>), and the lists built when either container is sorted. The lemmas here
  say what the source's pointer updates (append, prepend, unlink, replace) do to the list of
  addresses, once for all of them.
\<close>

type_synonym link = "addr \<Rightarrow> addr option"

text \<open>
  \<open>dseg n p f b xs l e\<close>: starting at \<open>f\<close> the forward field runs through \<open>xs\<close> and leaves
  at \<open>e\<close>; the backward field runs from \<open>l\<close>, the last element, back out to \<open>b\<close>.
\<close>

fun dseg :: "link \<Rightarrow> link \<Rightarrow> addr option \<Rightarrow> addr option \<Rightarrow> addr list \<Rightarrow> addr option \<Rightarrow> addr option \<Rightarrow> bool" where
  "dseg n p f b [] l e \<longleftrightarrow> f = e \<and> l = b"
| "dseg n p f b (x # xs) l e \<longleftrightarrow> f = Some x \<and> p x = b \<and> dseg n p (n x) (Some x) xs l e"

definition dll :: "link \<Rightarrow> link \<Rightarrow> addr option \<Rightarrow> addr list \<Rightarrow> addr option \<Rightarrow> bool" where
  "dll n p f xs l \<longleftrightarrow> dseg n p f None xs l None \<and> distinct xs"

lemma dseg_append:
  "dseg n p f b (xs @ ys) l e \<longleftrightarrow> (\<exists>m k. dseg n p f b xs m k \<and> dseg n p k m ys l e)"
  by (induction xs arbitrary: f b) auto

lemma dseg_frame:
  assumes "\<And>x. x \<in> set xs \<Longrightarrow> n' x = n x" "\<And>x. x \<in> set xs \<Longrightarrow> p' x = p x"
  shows "dseg n' p' f b xs l e = dseg n p f b xs l e"
  using assms by (induction xs arbitrary: f b) auto

lemma dseg_upd_notin [simp]:
  "x \<notin> set xs \<Longrightarrow> dseg (n(x := v)) p f b xs l e = dseg n p f b xs l e"
  "x \<notin> set xs \<Longrightarrow> dseg n (p(x := v)) f b xs l e = dseg n p f b xs l e"
  by (rule dseg_frame; auto)+

lemma dseg_rev: "dseg n p f b xs l e = dseg p n l e (rev xs) f b"
proof (induction xs arbitrary: f b)
  case Nil
  then show ?case by auto
next
  case (Cons x xs)
  then show ?case by (auto simp: dseg_append)
qed

lemma dseg_first: "dseg n p f b xs l e \<Longrightarrow> f = (case xs of [] \<Rightarrow> e | x # _ \<Rightarrow> Some x)"
  by (cases xs) auto

lemma dseg_last: "dseg n p f b xs l e \<Longrightarrow> l = (if xs = [] then b else Some (last xs))"
  by (induction xs arbitrary: f b) auto

lemma dseg_upd_next_last:
  assumes "dseg n p f b (xs @ [x]) l e" "x \<notin> set xs"
  shows "dseg (n(x := e')) p f b (xs @ [x]) l e'"
  using assms by (auto simp: dseg_append)

lemma dseg_upd_prev_first:
  assumes "dseg n p f b (x # xs) l e" "x \<notin> set xs"
  shows "dseg n (p(x := b')) f b' (x # xs) l e"
  using assms by auto

lemma dll_rev: "dll n p f xs l = dll p n l (rev xs) f"
  by (simp add: dll_def dseg_rev [of n p])

lemma dll_frame:
  assumes "\<And>x. x \<in> set xs \<Longrightarrow> n' x = n x" "\<And>x. x \<in> set xs \<Longrightarrow> p' x = p x"
  shows "dll n' p' f xs l = dll n p f xs l"
  unfolding dll_def using dseg_frame [OF assms] by simp

lemma dll_Nil [simp]: "dll n p f [] l \<longleftrightarrow> f = None \<and> l = None"
  by (auto simp: dll_def)

lemma dll_distinct: "dll n p f xs l \<Longrightarrow> distinct xs"
  by (simp add: dll_def)

lemma dll_first: "dll n p f xs l \<Longrightarrow> f = (case xs of [] \<Rightarrow> None | x # _ \<Rightarrow> Some x)"
  by (auto simp: dll_def dest: dseg_first)

lemma dll_last: "dll n p f xs l \<Longrightarrow> l = (if xs = [] then None else Some (last xs))"
  by (auto simp: dll_def dest: dseg_last)

lemma dll_None_iff:
  assumes "dll n p f xs l"
  shows "f = None \<longleftrightarrow> xs = []" "l = None \<longleftrightarrow> xs = []"
  using dll_first [OF assms] dll_last [OF assms] by (auto split: list.splits)

lemma dll_head_in: "dll n p (Some a) xs l \<Longrightarrow> a \<in> set xs"
  by (cases xs) (auto simp: dll_def)

lemma dll_tail_in: "dll n p f xs (Some a) \<Longrightarrow> a \<in> set xs"
  using dll_head_in [of p n a "rev xs" f] by (simp add: dll_rev [of n])

text \<open>The neighbours of an element in the middle.\<close>

lemma dll_mid:
  assumes "dll n p f (xs @ a # ys) l"
  shows "n a = (case ys of [] \<Rightarrow> None | y # _ \<Rightarrow> Some y)"
    and "p a = (if xs = [] then None else Some (last xs))"
  using assms by (auto simp: dll_def dseg_append dest: dseg_first dseg_last split: list.splits)

lemma dll_next_in:
  assumes "dll n p f xs l" "a \<in> set xs" "n a = Some b"
  shows "b \<in> set xs"
proof -
  obtain us vs where "xs = us @ a # vs" using assms(2) by (meson split_list)
  with dll_mid(1) [of n p f us a vs l] assms show ?thesis by (auto split: list.splits)
qed

lemma dll_prev_in:
  assumes "dll n p f xs l" "a \<in> set xs" "p a = Some b"
  shows "b \<in> set xs"
  using dll_next_in [of p n l "rev xs" f a b] assms by (simp add: dll_rev [of n p])

lemma dll_no_self:
  assumes "dll n p f xs l" "a \<in> set xs"
  shows "n a \<noteq> Some a" "p a \<noteq> Some a"
proof -
  obtain us vs where xs: "xs = us @ a # vs" using assms(2) by (meson split_list)
  have d: "dll n p f (us @ a # vs) l" using assms(1) xs by simp
  then have dis: "distinct (us @ a # vs)" by (rule dll_distinct)
  then show "n a \<noteq> Some a" using dll_mid(1) [OF d] by (cases vs) auto
  show "p a \<noteq> Some a" using dis dll_mid(2) [OF d] by (cases us rule: rev_cases) auto
qed

text \<open>Insertion in front of the first element.\<close>

lemma dll_push_front:
  assumes "dll n p f xs l" "a \<notin> set xs"
    and n': "n' = n(a := f)"
    and p': "p' = (case f of None \<Rightarrow> p(a := None) | Some y \<Rightarrow> (p(a := None))(y := Some a))"
    and l': "l' = (case f of None \<Rightarrow> Some a | Some _ \<Rightarrow> l)"
  shows "dll n' p' (Some a) (a # xs) l'"
proof (cases xs)
  case Nil
  with assms show ?thesis by (auto simp: dll_def)
next
  case (Cons y ys)
  from assms(1) Cons have f: "f = Some y" and d: "dseg n p f None (y # ys) l None" "distinct (y # ys)"
    by (auto simp: dll_def)
  from assms(2) Cons have ne: "a \<noteq> y" "a \<notin> set ys" by auto
  have "dseg n' p' f (Some a) (y # ys) l None"
    using d ne by (auto simp: n' p' f)
  then show ?thesis
    using d ne Cons f by (auto simp: dll_def n' p' l')
qed

text \<open>Insertion after the last element.\<close>

lemma dll_push_back:
  assumes "dll n p f xs l" "a \<notin> set xs"
    and p': "p' = p(a := l)"
    and n': "n' = (case l of None \<Rightarrow> n(a := None) | Some y \<Rightarrow> (n(a := None))(y := Some a))"
    and f': "f' = (case l of None \<Rightarrow> Some a | Some _ \<Rightarrow> f)"
  shows "dll n' p' f' (xs @ [a]) (Some a)"
proof -
  have "dll p n l (rev xs) f" using assms(1) by (simp add: dll_rev [of n])
  then have "dll p' n' (Some a) (a # rev xs) f'"
    by (rule dll_push_front) (use assms(2) p' n' f' in auto)
  then show ?thesis by (simp add: dll_rev [of n'])
qed

text \<open>Unlinking an element: its neighbours, or the two ends, are joined.\<close>

lemma dll_unlink:
  assumes d: "dll n p f (xs @ a # ys) l"
    and n': "n' = (case p a of None \<Rightarrow> n | Some q \<Rightarrow> n(q := n a))"
    and p': "p' = (case n a of None \<Rightarrow> p | Some q \<Rightarrow> p(q := p a))"
    and f': "f' = (case p a of None \<Rightarrow> n a | Some _ \<Rightarrow> f)"
    and l': "l' = (case n a of None \<Rightarrow> p a | Some _ \<Rightarrow> l)"
  shows "dll n' p' f' (xs @ ys) l'"
proof -
  from d have dis: "distinct (xs @ a # ys)" by (simp add: dll_def)
  from d obtain m where
    dx: "dseg n p f None xs m (Some a)" and pa: "p a = m" and dy: "dseg n p (n a) (Some a) ys l None"
    by (auto simp: dll_def dseg_append)
  have m: "m = (if xs = [] then None else Some (last xs))" using dseg_last [OF dx] .
  have na: "n a = (case ys of [] \<Rightarrow> None | y # _ \<Rightarrow> Some y)" using dseg_first [OF dy] .
  have lx: "xs \<noteq> [] \<Longrightarrow> last xs \<notin> set ys \<and> last xs \<noteq> a" using dis by (cases xs rule: rev_cases) auto
  have dx': "dseg n' p' f' None xs m (n a)"
  proof (cases xs rule: rev_cases)
    case Nil
    with m pa show ?thesis by (simp add: f')
  next
    case (snoc us u)
    then have mu: "m = Some u" using m by simp
    have "dseg (n(u := n a)) p f None (us @ [u]) m (n a)"
      using dseg_upd_next_last [of n p f None us u m "Some a" "n a"] dx dis snoc by auto
    moreover have "dseg n' p' f None (us @ [u]) m (n a) = dseg (n(u := n a)) p f None (us @ [u]) m (n a)"
      by (rule dseg_frame) (use dis na snoc mu pa in \<open>auto simp: n' p' split: list.splits\<close>)
    ultimately show ?thesis using mu pa snoc by (simp add: f')
  qed
  have dy': "dseg n' p' (n a) m ys l' None"
  proof (cases ys)
    case Nil
    with na pa show ?thesis by (simp add: l')
  next
    case (Cons v vs)
    have "dseg n (p(v := m)) (n a) m (v # vs) l None"
      using dseg_upd_prev_first [of n p "n a" "Some a" v vs l None m] dy dis Cons by auto
    moreover have "dseg n' p' (n a) m (v # vs) l None = dseg n (p(v := m)) (n a) m (v # vs) l None"
      by (rule dseg_frame) (use dis m na Cons pa lx in \<open>auto simp: n' p' split: if_splits\<close>)
    ultimately show ?thesis using Cons na by (simp add: l')
  qed
  from dx' dy' dis show ?thesis by (auto simp: dll_def dseg_append)
qed

text \<open>Putting a new element \<open>c\<close> in the place of \<open>a\<close>.\<close>

lemma dll_replace:
  assumes d: "dll n p f (xs @ a # ys) l" and c: "c \<notin> set (xs @ a # ys)"
    and n': "n' = (case p a of None \<Rightarrow> n(c := n a) | Some q \<Rightarrow> (n(c := n a))(q := Some c))"
    and p': "p' = (case n a of None \<Rightarrow> p(c := p a) | Some q \<Rightarrow> (p(c := p a))(q := Some c))"
    and f': "f' = (case p a of None \<Rightarrow> Some c | Some _ \<Rightarrow> f)"
    and l': "l' = (case n a of None \<Rightarrow> Some c | Some _ \<Rightarrow> l)"
  shows "dll n' p' f' (xs @ c # ys) l'"
proof -
  from d have dis: "distinct (xs @ a # ys)" by (simp add: dll_def)
  from d obtain m where
    dx: "dseg n p f None xs m (Some a)" and pa: "p a = m" and dy: "dseg n p (n a) (Some a) ys l None"
    by (auto simp: dll_def dseg_append)
  have m: "m = (if xs = [] then None else Some (last xs))" using dseg_last [OF dx] .
  have na: "n a = (case ys of [] \<Rightarrow> None | y # _ \<Rightarrow> Some y)" using dseg_first [OF dy] .
  have lx: "xs \<noteq> [] \<Longrightarrow> last xs \<notin> set ys \<and> last xs \<noteq> a" using dis by (cases xs rule: rev_cases) auto
  have dx': "dseg n' p' f' None xs m (Some c)"
  proof (cases xs rule: rev_cases)
    case Nil
    with m pa show ?thesis by (simp add: f')
  next
    case (snoc us u)
    then have mu: "m = Some u" using m by simp
    have "dseg (n(u := Some c)) p f None (us @ [u]) m (Some c)"
      using dseg_upd_next_last [of n p f None us u m "Some a" "Some c"] dx dis snoc by auto
    moreover have "dseg n' p' f None (us @ [u]) m (Some c) = dseg (n(u := Some c)) p f None (us @ [u]) m (Some c)"
      by (rule dseg_frame) (use dis c na snoc mu pa in \<open>auto simp: n' p' split: list.splits\<close>)
    ultimately show ?thesis using mu pa snoc by (simp add: f')
  qed
  have dy': "dseg n' p' (n a) (Some c) ys l' None"
  proof (cases ys)
    case Nil
    with na pa show ?thesis by (simp add: l')
  next
    case (Cons v vs)
    have "dseg n (p(v := Some c)) (n a) (Some c) (v # vs) l None"
      using dseg_upd_prev_first [of n p "n a" "Some a" v vs l None "Some c"] dy dis Cons by auto
    moreover have "dseg n' p' (n a) (Some c) (v # vs) l None = dseg n (p(v := Some c)) (n a) (Some c) (v # vs) l None"
    proof (rule dseg_frame)
      fix x assume x: "x \<in> set (v # vs)"
      show "n' x = n x" using x c Cons pa m lx by (cases "xs = []") (auto simp: n')
      show "p' x = (p(v := Some c)) x" using x c Cons na by (auto simp: p')
    qed
    ultimately show ?thesis using Cons na by (simp add: l')
  qed
  have "p' c = m" "n' c = n a"
    using c m na pa last_in_set [of xs]
    by (auto simp: n' p' split: list.splits option.splits simp del: last_in_set)
  with dx' dy' dis c show ?thesis by (auto simp: dll_def dseg_append)
qed

text \<open>A list whose fields say, position by position, where its neighbours are.\<close>

lemma dsegI_nth:
  assumes "\<And>i. i < length xs \<Longrightarrow> n (xs ! i) = (if Suc i < length xs then Some (xs ! Suc i) else e)"
    and "\<And>i. i < length xs \<Longrightarrow> p (xs ! i) = (if i = 0 then b else Some (xs ! (i - 1)))"
    and "f = (case xs of [] \<Rightarrow> e | x # _ \<Rightarrow> Some x)"
    and "l = (if xs = [] then b else Some (last xs))"
  shows "dseg n p f b xs l e"
  using assms
proof (induction xs arbitrary: f b)
  case Nil
  then show ?case by simp
next
  case (Cons x xs)
  have nx: "n x = (case xs of [] \<Rightarrow> e | y # _ \<Rightarrow> Some y)"
    using Cons.prems(1) [of 0] by (cases xs) auto
  have "dseg n p (n x) (Some x) xs l e"
  proof (rule Cons.IH)
    fix i assume "i < length xs"
    then show "n (xs ! i) = (if Suc i < length xs then Some (xs ! Suc i) else e)"
      using Cons.prems(1) [of "Suc i"] by simp
  next
    fix i assume "i < length xs"
    then show "p (xs ! i) = (if i = 0 then Some x else Some (xs ! (i - 1)))"
      using Cons.prems(2) [of "Suc i"] by (cases i) auto
  qed (use nx Cons.prems in auto)
  with Cons.prems(2) [of 0] Cons.prems(3) show ?case by simp
qed

end
