(* ===== verification/Zend_Llist.thy ===== *)
theory Zend_Llist
  imports Dll Zend_Qsort
begin

text \<open>
  \<open>Zend/zend_llist.c\<close>: the engine's doubly linked list of copied elements (extensions, headers,
  open files, tick functions are kept in such lists).

  The list header is a record; its elements live in the record's store, at addresses handed out
  in increasing order. The bytes \<open>data[]\<close> of an element are one abstract value. A destructor is
  known by whether it is set, and each call is appended to \<open>ll_dtor_log\<close> with its argument.
  Callbacks may change the element they are given and an environment of their own; a callback
  that changes the list while it is being traversed is not covered.
\<close>

record 'a zend_llist_element =
  el_next :: "addr option"
  el_prev :: "addr option"
  el_data :: 'a

record 'a zend_llist =
  ll_head :: "addr option"
  ll_tail :: "addr option"
  ll_count :: size_t
  ll_size :: size_t
  ll_dtor :: bool
  ll_persistent :: bool
  ll_traverse_ptr :: "addr option"
  ll_store :: "'a zend_llist_element store"
  ll_brk :: addr
  ll_dtor_log :: "'a list"

definition ll_poke :: "addr \<Rightarrow> ('a zend_llist_element \<Rightarrow> 'a zend_llist_element) \<Rightarrow> 'a zend_llist \<Rightarrow> 'a zend_llist option" where
  "ll_poke a f l = map_option (\<lambda>s. l\<lparr>ll_store := s\<rparr>) (poke a f (ll_store l))"

text \<open>\<open>pemalloc\<close> of an element: it ends the process rather than return \<open>NULL\<close>.\<close>

definition ll_alloc :: "'a zend_llist_element \<Rightarrow> 'a zend_llist \<Rightarrow> addr \<times> 'a zend_llist" where
  "ll_alloc e l = (ll_brk l, l\<lparr>ll_store := (ll_store l)(ll_brk l \<mapsto> e), ll_brk := Suc (ll_brk l)\<rparr>)"

definition ll_free :: "addr \<Rightarrow> 'a zend_llist \<Rightarrow> 'a zend_llist" where
  "ll_free a l = l\<lparr>ll_store := (ll_store l)(a := None)\<rparr>"

definition ll_call_dtor :: "'a \<Rightarrow> 'a zend_llist \<Rightarrow> 'a zend_llist" where
  "ll_call_dtor d l = (if ll_dtor l then l\<lparr>ll_dtor_log := ll_dtor_log l @ [d]\<rparr> else l)"

subsection \<open>Operations\<close>

definition zend_llist_init :: "'a zend_llist \<Rightarrow> size_t \<Rightarrow> bool \<Rightarrow> bool \<Rightarrow> 'a zend_llist" where
  "zend_llist_init l sz dtor persistent =
     l\<lparr>ll_head := None, ll_tail := None, ll_count := 0, ll_size := sz, ll_dtor := dtor,
       ll_persistent := persistent\<rparr>"

definition zend_llist_add_element :: "'a zend_llist \<Rightarrow> 'a \<Rightarrow> 'a zend_llist option" where
  "zend_llist_add_element l element =
     (let (tmp, l) = ll_alloc \<lparr>el_next = None, el_prev = ll_tail l, el_data = element\<rparr> l in
      do {
        l \<leftarrow> (case ll_tail l of
                Some t \<Rightarrow> ll_poke t (\<lambda>e. e\<lparr>el_next := Some tmp\<rparr>) l
              | None \<Rightarrow> Some (l\<lparr>ll_head := Some tmp\<rparr>));
        Some (l\<lparr>ll_tail := Some tmp, ll_count := ll_count l + 1\<rparr>)
      })"

definition zend_llist_prepend_element :: "'a zend_llist \<Rightarrow> 'a \<Rightarrow> 'a zend_llist option" where
  "zend_llist_prepend_element l element =
     (let (tmp, l) = ll_alloc \<lparr>el_next = ll_head l, el_prev = None, el_data = element\<rparr> l in
      do {
        l \<leftarrow> (case ll_head l of
                Some h \<Rightarrow> ll_poke h (\<lambda>e. e\<lparr>el_prev := Some tmp\<rparr>) l
              | None \<Rightarrow> Some (l\<lparr>ll_tail := Some tmp\<rparr>));
        Some (l\<lparr>ll_head := Some tmp, ll_count := ll_count l + 1\<rparr>)
      })"

text \<open>The macro \<open>DEL_LLIST_ELEMENT(current, l)\<close>.\<close>

definition DEL_LLIST_ELEMENT :: "addr \<Rightarrow> 'a zend_llist \<Rightarrow> 'a zend_llist option" where
  "DEL_LLIST_ELEMENT current l =
     do {
       c \<leftarrow> ll_store l current;
       l \<leftarrow> (case el_prev c of
               Some q \<Rightarrow> ll_poke q (\<lambda>e. e\<lparr>el_next := el_next c\<rparr>) l
             | None \<Rightarrow> Some (l\<lparr>ll_head := el_next c\<rparr>));
       c \<leftarrow> ll_store l current;
       l \<leftarrow> (case el_next c of
               Some q \<Rightarrow> ll_poke q (\<lambda>e. e\<lparr>el_prev := el_prev c\<rparr>) l
             | None \<Rightarrow> Some (l\<lparr>ll_tail := el_prev c\<rparr>));
       c \<leftarrow> ll_store l current;
       let l = ll_free current (ll_call_dtor (el_data c) l);
       Some (l\<lparr>ll_count := ll_count l - 1\<rparr>)
     }"

partial_function (option) llist_del_loop ::
    "('a \<Rightarrow> 'b \<Rightarrow> bool) \<Rightarrow> 'b \<Rightarrow> addr option \<Rightarrow> 'a zend_llist \<Rightarrow> 'a zend_llist option" where
  "llist_del_loop compare element current l =
     (case current of
        None \<Rightarrow> Some l
      | Some a \<Rightarrow> do {
          c \<leftarrow> ll_store l a;
          if compare (el_data c) element then DEL_LLIST_ELEMENT a l
          else llist_del_loop compare element (el_next c) l
        })"

definition zend_llist_del_element :: "'a zend_llist \<Rightarrow> 'b \<Rightarrow> ('a \<Rightarrow> 'b \<Rightarrow> bool) \<Rightarrow> 'a zend_llist option" where
  "zend_llist_del_element l element compare = llist_del_loop compare element (ll_head l) l"

partial_function (option) llist_destroy_loop :: "addr option \<Rightarrow> 'a zend_llist \<Rightarrow> 'a zend_llist option" where
  "llist_destroy_loop current l =
     (case current of
        None \<Rightarrow> Some l
      | Some a \<Rightarrow> do {
          c \<leftarrow> ll_store l a;
          llist_destroy_loop (el_next c) (ll_free a (ll_call_dtor (el_data c) l))
        })"

definition zend_llist_destroy :: "'a zend_llist \<Rightarrow> 'a zend_llist option" where
  "zend_llist_destroy l = do { l \<leftarrow> llist_destroy_loop (ll_head l) l; Some (l\<lparr>ll_count := 0\<rparr>) }"

definition zend_llist_clean :: "'a zend_llist \<Rightarrow> 'a zend_llist option" where
  "zend_llist_clean l = do { l \<leftarrow> zend_llist_destroy l; Some (l\<lparr>ll_head := None, ll_tail := None\<rparr>) }"

text \<open>The result is the address whose \<open>data\<close> the C function returns a pointer to.\<close>

definition zend_llist_remove_tail :: "'a zend_llist \<Rightarrow> (addr option \<times> 'a zend_llist) option" where
  "zend_llist_remove_tail l =
     (case ll_tail l of
        None \<Rightarrow> Some (None, l)
      | Some old_tail \<Rightarrow> do {
          t \<leftarrow> ll_store l old_tail;
          l \<leftarrow> (case el_prev t of
                  Some q \<Rightarrow> ll_poke q (\<lambda>e. e\<lparr>el_next := None\<rparr>) l
                | None \<Rightarrow> Some (l\<lparr>ll_head := None\<rparr>));
          t \<leftarrow> ll_store l old_tail;
          let l = ll_free old_tail (ll_call_dtor (el_data t) (l\<lparr>ll_tail := el_prev t\<rparr>));
          Some (Some old_tail, l\<lparr>ll_count := ll_count l - 1\<rparr>)
        })"

partial_function (option) llist_copy_loop ::
    "'a zend_llist \<Rightarrow> addr option \<Rightarrow> 'a zend_llist \<Rightarrow> 'a zend_llist option" where
  "llist_copy_loop src ptr dst =
     (case ptr of
        None \<Rightarrow> Some dst
      | Some a \<Rightarrow> do {
          e \<leftarrow> ll_store src a;
          dst \<leftarrow> zend_llist_add_element dst (el_data e);
          llist_copy_loop src (el_next e) dst
        })"

definition zend_llist_copy :: "'a zend_llist \<Rightarrow> 'a zend_llist \<Rightarrow> 'a zend_llist option" where
  "zend_llist_copy dst src =
     llist_copy_loop src (ll_head src) (zend_llist_init dst (ll_size src) (ll_dtor src) (ll_persistent src))"

partial_function (option) llist_apply_del_loop ::
    "('a \<Rightarrow> 's \<Rightarrow> bool \<times> 'a \<times> 's) \<Rightarrow> addr option \<Rightarrow> 'a zend_llist \<Rightarrow> 's \<Rightarrow> ('a zend_llist \<times> 's) option" where
  "llist_apply_del_loop func element l s =
     (case element of
        None \<Rightarrow> Some (l, s)
      | Some a \<Rightarrow> do {
          e \<leftarrow> ll_store l a;
          case func (el_data e) s of (del, d, s) \<Rightarrow>
          do {
            l \<leftarrow> ll_poke a (\<lambda>e. e\<lparr>el_data := d\<rparr>) l;
            l \<leftarrow> (if del then DEL_LLIST_ELEMENT a l else Some l);
            llist_apply_del_loop func (el_next e) l s
          }
        })"

definition zend_llist_apply_with_del ::
    "'a zend_llist \<Rightarrow> ('a \<Rightarrow> 's \<Rightarrow> bool \<times> 'a \<times> 's) \<Rightarrow> 's \<Rightarrow> ('a zend_llist \<times> 's) option" where
  "zend_llist_apply_with_del l func s = llist_apply_del_loop func (ll_head l) l s"

partial_function (option) llist_apply_loop ::
    "('a \<Rightarrow> 's \<Rightarrow> 'a \<times> 's) \<Rightarrow> addr option \<Rightarrow> 'a zend_llist \<Rightarrow> 's \<Rightarrow> ('a zend_llist \<times> 's) option" where
  "llist_apply_loop func element l s =
     (case element of
        None \<Rightarrow> Some (l, s)
      | Some a \<Rightarrow> do {
          e \<leftarrow> ll_store l a;
          case func (el_data e) s of (d, s) \<Rightarrow>
          do {
            l \<leftarrow> ll_poke a (\<lambda>e. e\<lparr>el_data := d\<rparr>) l;
            e \<leftarrow> ll_store l a;
            llist_apply_loop func (el_next e) l s
          }
        })"

text \<open>
  The three apply functions differ only in how the callback gets its extra arguments, which are
  fixed for the whole traversal.
\<close>

definition zend_llist_apply :: "'a zend_llist \<Rightarrow> ('a \<Rightarrow> 's \<Rightarrow> 'a \<times> 's) \<Rightarrow> 's \<Rightarrow> ('a zend_llist \<times> 's) option" where
  "zend_llist_apply l func s = llist_apply_loop func (ll_head l) l s"

definition zend_llist_apply_with_argument ::
    "'a zend_llist \<Rightarrow> ('a \<Rightarrow> 'g \<Rightarrow> 's \<Rightarrow> 'a \<times> 's) \<Rightarrow> 'g \<Rightarrow> 's \<Rightarrow> ('a zend_llist \<times> 's) option" where
  "zend_llist_apply_with_argument l func arg s = llist_apply_loop (\<lambda>d. func d arg) (ll_head l) l s"

definition zend_llist_apply_with_arguments ::
    "'a zend_llist \<Rightarrow> ('a \<Rightarrow> 'g list \<Rightarrow> 's \<Rightarrow> 'a \<times> 's) \<Rightarrow> 'g list \<Rightarrow> 's \<Rightarrow> ('a zend_llist \<times> 's) option" where
  "zend_llist_apply_with_arguments l func args s = llist_apply_loop (\<lambda>d. func d args) (ll_head l) l s"

partial_function (option) llist_collect :: "'a zend_llist \<Rightarrow> addr option \<Rightarrow> addr list option" where
  "llist_collect l element =
     (case element of
        None \<Rightarrow> Some []
      | Some a \<Rightarrow> do { e \<leftarrow> ll_store l a; xs \<leftarrow> llist_collect l (el_next e); Some (a # xs) })"

text \<open>The relinking loop \<open>for (i = 1; i < l->count; i++)\<close>, from position \<open>i\<close> on.\<close>

fun llist_relink :: "addr \<Rightarrow> addr list \<Rightarrow> 'a zend_llist \<Rightarrow> 'a zend_llist option" where
  "llist_relink before [] l = do {
     l \<leftarrow> ll_poke before (\<lambda>e. e\<lparr>el_next := None\<rparr>) l;
     Some (l\<lparr>ll_tail := Some before\<rparr>) }"
| "llist_relink before (a # rest) l = do {
     l \<leftarrow> ll_poke a (\<lambda>e. e\<lparr>el_prev := Some before\<rparr>) l;
     l \<leftarrow> ll_poke before (\<lambda>e. e\<lparr>el_next := Some a\<rparr>) l;
     llist_relink a rest l }"

text \<open>
  \<open>zend_llist_sort\<close>. The array \<open>elements\<close> has \<open>l->count\<close> entries; filling it from a list of
  another length has no result.
\<close>

definition zend_llist_sort ::
    "'a zend_llist \<Rightarrow> ('a zend_llist_element \<Rightarrow> 'a zend_llist_element \<Rightarrow> int) \<Rightarrow> 'a zend_llist option" where
  "zend_llist_sort l comp_func =
     (if ll_count l = 0 then Some l
      else do {
        elements \<leftarrow> llist_collect l (ll_head l);
        elements \<leftarrow> (if length elements = unat (ll_count l) then Some elements else None);
        elements \<leftarrow> zend_qsort 8 (\<lambda>a b. comp_func (the (ll_store l a)) (the (ll_store l b))) elements;
        case elements of
          [] \<Rightarrow> None
        | e0 # rest \<Rightarrow> do {
            l \<leftarrow> ll_poke e0 (\<lambda>e. e\<lparr>el_prev := None\<rparr>) (l\<lparr>ll_head := Some e0\<rparr>);
            llist_relink e0 rest l
          }
      })"

definition zend_llist_count :: "'a zend_llist \<Rightarrow> size_t" where
  "zend_llist_count l = ll_count l"

text \<open>
  Traversal. The position is the caller's \<open>pos\<close> or, when \<open>pos\<close> is \<open>NULL\<close>, the list's
  \<open>traverse_ptr\<close>. The result is the element whose data is returned, the caller's position
  afterwards and the list.
\<close>

definition ll_set_pos :: "addr option option \<Rightarrow> addr option \<Rightarrow> 'a zend_llist \<Rightarrow> addr option option \<times> 'a zend_llist" where
  "ll_set_pos pos p l = (case pos of Some _ \<Rightarrow> (Some p, l) | None \<Rightarrow> (None, l\<lparr>ll_traverse_ptr := p\<rparr>))"

definition ll_get_pos :: "addr option option \<Rightarrow> 'a zend_llist \<Rightarrow> addr option" where
  "ll_get_pos pos l = (case pos of Some p \<Rightarrow> p | None \<Rightarrow> ll_traverse_ptr l)"

definition zend_llist_get_first_ex :: "'a zend_llist \<Rightarrow> addr option option \<Rightarrow> addr option \<times> addr option option \<times> 'a zend_llist" where
  "zend_llist_get_first_ex l pos = (ll_head l, ll_set_pos pos (ll_head l) l)"

definition zend_llist_get_last_ex :: "'a zend_llist \<Rightarrow> addr option option \<Rightarrow> addr option \<times> addr option option \<times> 'a zend_llist" where
  "zend_llist_get_last_ex l pos = (ll_tail l, ll_set_pos pos (ll_tail l) l)"

definition zend_llist_get_next_ex ::
    "'a zend_llist \<Rightarrow> addr option option \<Rightarrow> (addr option \<times> addr option option \<times> 'a zend_llist) option" where
  "zend_llist_get_next_ex l pos =
     (case ll_get_pos pos l of
        None \<Rightarrow> Some (None, pos, l)
      | Some a \<Rightarrow> do { e \<leftarrow> ll_store l a; Some (el_next e, ll_set_pos pos (el_next e) l) })"

definition zend_llist_get_prev_ex ::
    "'a zend_llist \<Rightarrow> addr option option \<Rightarrow> (addr option \<times> addr option option \<times> 'a zend_llist) option" where
  "zend_llist_get_prev_ex l pos =
     (case ll_get_pos pos l of
        None \<Rightarrow> Some (None, pos, l)
      | Some a \<Rightarrow> do { e \<leftarrow> ll_store l a; Some (el_prev e, ll_set_pos pos (el_prev e) l) })"


subsection \<open>Well-formed lists and their contents\<close>

abbreviation ll_nx :: "'a zend_llist \<Rightarrow> link" where "ll_nx l \<equiv> fld el_next (ll_store l)"
abbreviation ll_pv :: "'a zend_llist \<Rightarrow> link" where "ll_pv l \<equiv> fld el_prev (ll_store l)"
abbreviation ll_dt :: "'a zend_llist \<Rightarrow> addr \<Rightarrow> 'a" where "ll_dt l \<equiv> fld el_data (ll_store l)"

text \<open>
  \<open>ll_inv l xs\<close>: the elements of the list are at the addresses \<open>xs\<close>, in this order; both link
  fields agree with it; the store holds nothing else; the count is right (modulo \<open>2^64\<close>).
\<close>

definition ll_inv :: "'a zend_llist \<Rightarrow> addr list \<Rightarrow> bool" where
  "ll_inv l xs \<longleftrightarrow> dll (ll_nx l) (ll_pv l) (ll_head l) xs (ll_tail l) \<and>
     dom (ll_store l) = set xs \<and> ll_count l = of_nat (length xs) \<and> (\<forall>a \<in> set xs. a < ll_brk l)"

definition ll_data :: "'a zend_llist \<Rightarrow> addr list \<Rightarrow> 'a list" where
  "ll_data l xs = map (ll_dt l) xs"

text \<open>A list represents the sequence \<open>ds\<close> of elements.\<close>

definition ll_repr :: "'a zend_llist \<Rightarrow> 'a list \<Rightarrow> bool" where
  "ll_repr l ds \<longleftrightarrow> (\<exists>xs. ll_inv l xs \<and> ll_data l xs = ds)"

lemma ll_inv_alloc: "ll_inv l xs \<Longrightarrow> a \<in> set xs \<Longrightarrow> \<exists>e. ll_store l a = Some e"
  by (auto simp: ll_inv_def dom_def)

lemma ll_inv_brk: "ll_inv l xs \<Longrightarrow> ll_brk l \<notin> set xs"
  by (auto simp: ll_inv_def)

lemma ll_inv_head: "ll_inv l xs \<Longrightarrow> ll_head l = (case xs of [] \<Rightarrow> None | x # _ \<Rightarrow> Some x)"
  by (auto simp: ll_inv_def dest: dll_first)

lemma ll_inv_tail: "ll_inv l xs \<Longrightarrow> ll_tail l = (if xs = [] then None else Some (last xs))"
  by (auto simp: ll_inv_def dest: dll_last)

lemma ll_inv_next:
  "ll_inv l (xs @ a # ys) \<Longrightarrow> ll_nx l a = (case ys of [] \<Rightarrow> None | y # _ \<Rightarrow> Some y)"
  by (auto simp: ll_inv_def dest: dll_mid)

lemma ll_inv_init: "dom (ll_store l) = {} \<Longrightarrow> ll_inv (zend_llist_init l sz d p) []"
  by (simp add: ll_inv_def zend_llist_init_def)

text \<open>Symbolic execution of the list operations.\<close>

lemma ll_fold [store_simps]:
  "el_next (the (s a)) = fld el_next s a" "el_prev (the (s a)) = fld el_prev s a" "el_data (the (s a)) = fld el_data s a"
  by (simp_all add: fld_def)

lemma ll_poke_supd [store_simps]:
  "a \<in> dom (ll_store l) \<Longrightarrow> ll_poke a f l = Some (l\<lparr>ll_store := supd (Some a) f (ll_store l)\<rparr>)"
  by (simp add: ll_poke_def store_simps)

lemma ll_poke_or_head [store_simps]:
  "valid p (ll_store l) \<Longrightarrow>
   (case p of None \<Rightarrow> Some (l\<lparr>ll_head := x\<rparr>) | Some q \<Rightarrow> ll_poke q f l) =
   Some (l\<lparr>ll_store := supd p f (ll_store l), ll_head := (case p of None \<Rightarrow> x | Some _ \<Rightarrow> ll_head l)\<rparr>)"
  by (cases p) (auto simp: ll_poke_def poke_supd)

lemma ll_poke_or_tail [store_simps]:
  "valid p (ll_store l) \<Longrightarrow>
   (case p of None \<Rightarrow> Some (l\<lparr>ll_tail := x\<rparr>) | Some q \<Rightarrow> ll_poke q f l) =
   Some (l\<lparr>ll_store := supd p f (ll_store l), ll_tail := (case p of None \<Rightarrow> x | Some _ \<Rightarrow> ll_tail l)\<rparr>)"
  by (cases p) (auto simp: ll_poke_def poke_supd)

lemma ll_inv_valid:
  assumes "ll_inv l xs"
  shows "valid (ll_head l) (ll_store l)" "valid (ll_tail l) (ll_store l)"
    "a \<in> set xs \<Longrightarrow> valid (ll_nx l a) (ll_store l)" "a \<in> set xs \<Longrightarrow> valid (ll_pv l a) (ll_store l)"
proof -
  have d: "dll (ll_nx l) (ll_pv l) (ll_head l) xs (ll_tail l)" and dom: "dom (ll_store l) = set xs"
    using assms by (auto simp: ll_inv_def)
  show "valid (ll_head l) (ll_store l)" using d dll_head_in by (auto simp: valid_def dom)
  show "valid (ll_tail l) (ll_store l)" using d dll_tail_in by (auto simp: valid_def dom)
  show "a \<in> set xs \<Longrightarrow> valid (ll_nx l a) (ll_store l)" using dll_next_in [OF d] by (auto simp: valid_def dom)
  show "a \<in> set xs \<Longrightarrow> valid (ll_pv l a) (ll_store l)" using dll_prev_in [OF d] by (auto simp: valid_def dom)
qed

lemma ll_inv_add:
  assumes inv: "ll_inv l xs"
  shows "\<exists>l'. zend_llist_add_element l d = Some l' \<and> ll_inv l' (xs @ [ll_brk l]) \<and>
    ll_data l' (xs @ [ll_brk l]) = ll_data l xs @ [d] \<and> ll_dtor_log l' = ll_dtor_log l"
proof -
  let ?a = "ll_brk l"
  have a: "?a \<notin> set xs" and dom: "dom (ll_store l) = set xs" and brk: "\<forall>a \<in> set xs. a < ?a"
    and d: "dll (ll_nx l) (ll_pv l) (ll_head l) xs (ll_tail l)"
    using inv by (auto simp: ll_inv_def)
  have t: "ll_tail l \<noteq> Some ?a" using d a dll_tail_in by metis
  note v = ll_inv_valid(2) [OF inv]
  have "\<exists>l'. zend_llist_add_element l d = Some l' \<and>
      (ll_nx l' = (case ll_tail l of None \<Rightarrow> (ll_nx l)(?a := None) | Some y \<Rightarrow> ((ll_nx l)(?a := None))(y := Some ?a)) \<and>
      ll_pv l' = (ll_pv l)(?a := ll_tail l) \<and> ll_dt l' = (ll_dt l)(?a := d) \<and>
      ll_head l' = (case ll_tail l of None \<Rightarrow> Some ?a | Some _ \<Rightarrow> ll_head l) \<and> ll_tail l' = Some ?a \<and>
      dom (ll_store l') = insert ?a (set xs) \<and> ll_count l' = ll_count l + 1 \<and> ll_brk l' = Suc ?a \<and>
      ll_dtor_log l' = ll_dtor_log l)" (is "\<exists>l'. _ \<and> ?F l'")
    using v t by (simp add: zend_llist_add_element_def ll_alloc_def store_simps dom split: option.split)
  then obtain l' where lf: "zend_llist_add_element l d = Some l' \<and> ?F l'" ..
  note l' = lf [THEN conjunct1] and f = lf [THEN conjunct2]
  have "dll (ll_nx l') (ll_pv l') (ll_head l') (xs @ [?a]) (Some ?a)"
    by (rule dll_push_back [OF d a]) (simp_all add: f)
  then have "ll_inv l' (xs @ [?a])"
    using inv brk by (auto simp: ll_inv_def f)
  moreover have "ll_data l' (xs @ [?a]) = ll_data l xs @ [d]"
    using a by (auto simp: ll_data_def f)
  ultimately show ?thesis using l' f by blast
qed

lemma ll_inv_prepend:
  assumes inv: "ll_inv l xs"
  shows "\<exists>l'. zend_llist_prepend_element l d = Some l' \<and> ll_inv l' (ll_brk l # xs) \<and>
    ll_data l' (ll_brk l # xs) = d # ll_data l xs \<and> ll_dtor_log l' = ll_dtor_log l"
proof -
  let ?a = "ll_brk l"
  have a: "?a \<notin> set xs" and dom: "dom (ll_store l) = set xs" and brk: "\<forall>a \<in> set xs. a < ?a"
    and d: "dll (ll_nx l) (ll_pv l) (ll_head l) xs (ll_tail l)"
    using inv by (auto simp: ll_inv_def)
  have t: "ll_head l \<noteq> Some ?a" using d a dll_head_in by metis
  note v = ll_inv_valid(1) [OF inv]
  have "\<exists>l'. zend_llist_prepend_element l d = Some l' \<and>
      (ll_nx l' = (ll_nx l)(?a := ll_head l) \<and>
      ll_pv l' = (case ll_head l of None \<Rightarrow> (ll_pv l)(?a := None) | Some y \<Rightarrow> ((ll_pv l)(?a := None))(y := Some ?a)) \<and>
      ll_dt l' = (ll_dt l)(?a := d) \<and>
      ll_tail l' = (case ll_head l of None \<Rightarrow> Some ?a | Some _ \<Rightarrow> ll_tail l) \<and> ll_head l' = Some ?a \<and>
      dom (ll_store l') = insert ?a (set xs) \<and> ll_count l' = ll_count l + 1 \<and> ll_brk l' = Suc ?a \<and>
      ll_dtor_log l' = ll_dtor_log l)" (is "\<exists>l'. _ \<and> ?F l'")
    using v t by (simp add: zend_llist_prepend_element_def ll_alloc_def store_simps dom split: option.split)
  then obtain l' where lf: "zend_llist_prepend_element l d = Some l' \<and> ?F l'" ..
  note l' = lf [THEN conjunct1] and f = lf [THEN conjunct2]
  have "dll (ll_nx l') (ll_pv l') (Some ?a) (?a # xs) (ll_tail l')"
    by (rule dll_push_front [OF d a]) (simp_all add: f)
  then have "ll_inv l' (?a # xs)" using inv brk by (auto simp: ll_inv_def f)
  moreover have "ll_data l' (?a # xs) = d # ll_data l xs" using a by (auto simp: ll_data_def f)
  ultimately show ?thesis using l' f by blast
qed

text \<open>Unlinking and freeing an element.\<close>

lemma ll_inv_del:
  assumes inv: "ll_inv l (xs @ a # ys)"
  shows "\<exists>l'. DEL_LLIST_ELEMENT a l = Some l' \<and> ll_inv l' (xs @ ys) \<and>
    (\<forall>x. x \<noteq> a \<longrightarrow> ll_dt l' x = ll_dt l x) \<and>
    ll_dtor_log l' = ll_dtor_log l @ (if ll_dtor l then [ll_dt l a] else []) \<and> ll_dtor l' = ll_dtor l"
proof -
  have d: "dll (ll_nx l) (ll_pv l) (ll_head l) (xs @ a # ys) (ll_tail l)" and
    dom: "dom (ll_store l) = set (xs @ a # ys)" and dis: "distinct (xs @ a # ys)"
    using inv by (auto simp: ll_inv_def dll_def)
  have a: "a \<in> dom (ll_store l)" using dom by simp
  have ne: "ll_pv l a \<noteq> Some a" "ll_nx l a \<noteq> Some a"
    using dll_no_self [OF d] by auto
  note v = ll_inv_valid(3,4) [OF inv, of a, simplified]
  have "\<exists>l'. DEL_LLIST_ELEMENT a l = Some l' \<and>
      ((\<forall>x. x \<noteq> a \<longrightarrow> ll_nx l' x = (case ll_pv l a of None \<Rightarrow> ll_nx l | Some q \<Rightarrow> (ll_nx l)(q := ll_nx l a)) x) \<and>
      (\<forall>x. x \<noteq> a \<longrightarrow> ll_pv l' x = (case ll_nx l a of None \<Rightarrow> ll_pv l | Some q \<Rightarrow> (ll_pv l)(q := ll_pv l a)) x) \<and>
      (\<forall>x. x \<noteq> a \<longrightarrow> ll_dt l' x = ll_dt l x) \<and>
      ll_head l' = (case ll_pv l a of None \<Rightarrow> ll_nx l a | Some _ \<Rightarrow> ll_head l) \<and>
      ll_tail l' = (case ll_nx l a of None \<Rightarrow> ll_pv l a | Some _ \<Rightarrow> ll_tail l) \<and>
      dom (ll_store l') = dom (ll_store l) - {a} \<and> ll_count l' = ll_count l - 1 \<and> ll_brk l' = ll_brk l \<and>
      ll_dtor_log l' = ll_dtor_log l @ (if ll_dtor l then [ll_dt l a] else []) \<and> ll_dtor l' = ll_dtor l)"
      (is "\<exists>l'. _ \<and> ?F l'")
    using a v ne
    by (simp add: DEL_LLIST_ELEMENT_def ll_free_def ll_call_dtor_def Let_def store_simps fld_drop split: option.split)
  then obtain l' where lf: "DEL_LLIST_ELEMENT a l = Some l' \<and> ?F l'" ..
  note l' = lf [THEN conjunct1] and f = lf [THEN conjunct2]
  have "dll (case ll_pv l a of None \<Rightarrow> ll_nx l | Some q \<Rightarrow> (ll_nx l)(q := ll_nx l a))
     (case ll_nx l a of None \<Rightarrow> ll_pv l | Some q \<Rightarrow> (ll_pv l)(q := ll_pv l a)) (ll_head l') (xs @ ys) (ll_tail l')"
    by (rule dll_unlink [OF d]) (simp_all add: f)
  then have "dll (ll_nx l') (ll_pv l') (ll_head l') (xs @ ys) (ll_tail l')"
    by (subst dll_frame) (use dis f in auto)
  then have "ll_inv l' (xs @ ys)"
    using inv dis dom f by (auto simp: ll_inv_def)
  then show ?thesis using l' f by auto
qed


text \<open>Deletion by comparison removes the first match only.\<close>

fun del_first :: "('a \<Rightarrow> bool) \<Rightarrow> 'a list \<Rightarrow> 'a list" where
  "del_first P [] = []"
| "del_first P (d # ds) = (if P d then ds else d # del_first P ds)"

lemma ll_next_first:
  assumes "ll_inv l (xs @ a # ys)"
  shows "ll_nx l a = (case ys of [] \<Rightarrow> None | y # _ \<Rightarrow> Some y)" "a \<in> dom (ll_store l)"
  using assms by (auto simp: ll_inv_def dest: dll_mid)

lemma ll_data_cong: "(\<And>x. x \<in> set xs \<Longrightarrow> ll_dt l' x = ll_dt l x) \<Longrightarrow> ll_data l' xs = ll_data l xs"
  by (simp add: ll_data_def)

lemma llist_del_loop_spec:
  assumes "ll_inv l (xs @ ys)" "cur = (case ys of [] \<Rightarrow> None | y # _ \<Rightarrow> Some y)"
  shows "\<exists>l' zs. llist_del_loop cmp el cur l = Some l' \<and> ll_inv l' zs \<and>
    ll_data l' zs = ll_data l xs @ del_first (\<lambda>d. cmp d el) (ll_data l ys)"
  using assms
proof (induction ys arbitrary: xs cur)
  case Nil
  then show ?case
    by (intro exI [of _ l] exI [of _ xs]) (simp add: llist_del_loop.simps ll_data_def)
next
  case (Cons a ys)
  note n = ll_next_first [OF Cons.prems(1)]
  show ?case
  proof (cases "cmp (ll_dt l a) el")
    case True
    obtain l' where l': "DEL_LLIST_ELEMENT a l = Some l'" "ll_inv l' (xs @ ys)" "\<forall>x. x \<noteq> a \<longrightarrow> ll_dt l' x = ll_dt l x"
      using ll_inv_del [OF Cons.prems(1)] by blast
    have "distinct (xs @ a # ys)" using Cons.prems(1) by (auto simp: ll_inv_def dll_def)
    then have "ll_data l' (xs @ ys) = ll_data l (xs @ ys)" by (intro ll_data_cong) (use l'(3) in auto)
    then show ?thesis
      using l' True n Cons.prems(2)
      by (intro exI [of _ l'] exI [of _ "xs @ ys"]) (simp add: llist_del_loop.simps [of _ _ "Some a"] store_simps ll_data_def)
  next
    case False
    then show ?thesis
      using Cons.IH [of "xs @ [a]" "ll_nx l a"] Cons.prems n
      by (simp add: llist_del_loop.simps [of _ _ "Some a"] store_simps ll_data_def)
  qed
qed

lemma ll_repr_del_element:
  assumes "ll_repr l ds"
  shows "\<exists>l'. zend_llist_del_element l el cmp = Some l' \<and> ll_repr l' (del_first (\<lambda>d. cmp d el) ds)"
proof -
  obtain xs where xs: "ll_inv l xs" "ds = ll_data l xs" using assms by (auto simp: ll_repr_def)
  then show ?thesis
    using llist_del_loop_spec [of l "[]" xs "ll_head l" cmp el] ll_inv_head [OF xs(1)]
    by (fastforce simp: zend_llist_del_element_def ll_repr_def ll_data_def)
qed

lemma llist_destroy_loop_spec:
  assumes "dseg (ll_nx l) (ll_pv l) f b xs t None" "set xs \<subseteq> dom (ll_store l)" "distinct xs"
  shows "llist_destroy_loop f l = Some (l\<lparr>ll_store := (ll_store l) |` (- set xs),
    ll_dtor_log := ll_dtor_log l @ (if ll_dtor l then ll_data l xs else [])\<rparr>)"
  using assms
proof (induction xs arbitrary: l f b)
  case Nil
  then show ?case by (simp add: llist_destroy_loop.simps ll_data_def restrict_map_def)
next
  case (Cons a xs)
  define l1 where "l1 = ll_free a (ll_call_dtor (ll_dt l a) l)"
  have l1: "ll_store l1 = (ll_store l)(a := None)" "ll_dtor l1 = ll_dtor l"
    "ll_dtor_log l1 = ll_dtor_log l @ (if ll_dtor l then [ll_dt l a] else [])"
    by (auto simp: l1_def ll_free_def ll_call_dtor_def)
  have seg: "dseg (ll_nx l1) (ll_pv l1) (ll_nx l a) (Some a) xs t None"
    using Cons.prems by (subst dseg_frame [of _ _ "ll_nx l" _ "ll_pv l"]) (auto simp: l1 intro!: fld_drop)
  have "llist_destroy_loop (ll_nx l a) l1 = Some (l1\<lparr>ll_store := (ll_store l1) |` (- set xs),
    ll_dtor_log := ll_dtor_log l1 @ (if ll_dtor l1 then ll_data l1 xs else [])\<rparr>)"
    by (rule Cons.IH [OF seg]) (use Cons.prems l1 in auto)
  moreover have "ll_data l1 xs = ll_data l xs"
    using Cons.prems by (intro ll_data_cong) (auto simp: l1 fld_def)
  moreover have "(ll_store l)(a := None) |` (- set xs) = ll_store l |` (- set (a # xs))"
    by (auto simp: restrict_map_def)
  ultimately show ?case
    using Cons.prems
    by (simp add: llist_destroy_loop.simps [of "Some a"] store_simps flip: l1_def)
      (simp add: l1_def ll_free_def ll_call_dtor_def ll_data_def)
qed

text \<open>
  \<open>zend_llist_destroy\<close> frees every element after giving it to the destructor, in list order, but
  leaves \<open>head\<close> and \<open>tail\<close> as they were; \<open>zend_llist_clean\<close> resets them.
\<close>

lemma llist_destroy_eq:
  assumes "ll_inv l xs"
  shows "zend_llist_destroy l = Some (l\<lparr>ll_store := Map.empty, ll_count := 0,
    ll_dtor_log := ll_dtor_log l @ (if ll_dtor l then ll_data l xs else [])\<rparr>)"
proof -
  have "ll_store l |` (- set xs) = Map.empty"
    using assms by (auto simp: ll_inv_def restrict_map_def fun_eq_iff domIff)
  then show ?thesis
    using llist_destroy_loop_spec [of l "ll_head l" None xs "ll_tail l"] assms
    by (simp add: zend_llist_destroy_def ll_inv_def dll_def)
qed

lemma ll_inv_remove_tail:
  assumes inv: "ll_inv l (xs @ [a])"
  shows "\<exists>l'. zend_llist_remove_tail l = Some (Some a, l') \<and> ll_inv l' xs \<and> ll_data l' xs = ll_data l xs \<and>
    ll_store l' a = None \<and> ll_dtor_log l' = ll_dtor_log l @ (if ll_dtor l then [ll_dt l a] else [])"
proof -
  have d: "dll (ll_nx l) (ll_pv l) (ll_head l) (xs @ a # []) (ll_tail l)" and
    dom: "dom (ll_store l) = set (xs @ [a])" and dis: "distinct (xs @ [a])"
    using inv by (auto simp: ll_inv_def dll_def)
  have a: "a \<in> dom (ll_store l)" and t: "ll_tail l = Some a" and na: "ll_nx l a = None"
    using dom dll_last [OF d] dll_mid [OF d] by auto
  have ne: "ll_pv l a \<noteq> Some a"
    using dll_no_self [OF d] by auto
  note v = ll_inv_valid(4) [OF inv, of a, simplified]
  have "\<exists>l'. zend_llist_remove_tail l = Some (Some a, l') \<and>
      ((\<forall>x. x \<noteq> a \<longrightarrow> ll_nx l' x = (case ll_pv l a of None \<Rightarrow> ll_nx l | Some q \<Rightarrow> (ll_nx l)(q := None)) x) \<and>
      (\<forall>x. x \<noteq> a \<longrightarrow> ll_pv l' x = ll_pv l x) \<and> (\<forall>x. x \<noteq> a \<longrightarrow> ll_dt l' x = ll_dt l x) \<and>
      ll_head l' = (case ll_pv l a of None \<Rightarrow> None | Some _ \<Rightarrow> ll_head l) \<and> ll_tail l' = ll_pv l a \<and>
      dom (ll_store l') = dom (ll_store l) - {a} \<and> ll_count l' = ll_count l - 1 \<and> ll_brk l' = ll_brk l \<and>
      ll_dtor_log l' = ll_dtor_log l @ (if ll_dtor l then [ll_dt l a] else []))" (is "\<exists>l'. _ \<and> ?F l'")
    using a v ne
    by (simp add: zend_llist_remove_tail_def t ll_free_def ll_call_dtor_def Let_def store_simps fld_drop split: option.split)
  then obtain l' where lf: "zend_llist_remove_tail l = Some (Some a, l') \<and> ?F l'" ..
  note l' = lf [THEN conjunct1] and f = lf [THEN conjunct2]
  have "dll (case ll_pv l a of None \<Rightarrow> ll_nx l | Some q \<Rightarrow> (ll_nx l)(q := None)) (ll_pv l) (ll_head l') (xs @ []) (ll_tail l')"
    by (rule dll_unlink [OF d]) (simp_all add: f na split: option.split)
  then have "dll (ll_nx l') (ll_pv l') (ll_head l') xs (ll_tail l')"
    by (subst dll_frame) (use dis f in auto)
  then have "ll_inv l' xs" using inv dis dom f by (auto simp: ll_inv_def)
  moreover have "ll_data l' xs = ll_data l xs" using f dis by (intro ll_data_cong) auto
  moreover have "ll_store l' a = None" using f by auto
  ultimately show ?thesis using l' f by auto
qed


text \<open>Copying appends the elements one by one to a freshly initialised list.\<close>

lemma llist_copy_loop_spec:
  assumes "ll_inv src (xs @ ys)" "cur = (case ys of [] \<Rightarrow> None | y # _ \<Rightarrow> Some y)" "ll_inv dst zs"
  shows "\<exists>dst' ws. llist_copy_loop src cur dst = Some dst' \<and> ll_inv dst' ws \<and>
    ll_data dst' ws = ll_data dst zs @ ll_data src ys"
  using assms
proof (induction ys arbitrary: xs cur dst zs)
  case Nil
  then show ?case by (intro exI [of _ dst] exI [of _ zs]) (simp add: llist_copy_loop.simps ll_data_def)
next
  case (Cons a ys)
  note n = ll_next_first [OF Cons.prems(1)]
  obtain d1 ws where d1: "zend_llist_add_element dst (ll_dt src a) = Some d1" "ll_inv d1 ws"
    "ll_data d1 ws = ll_data dst zs @ [ll_dt src a]"
    using ll_inv_add [OF Cons.prems(3)] by blast
  have "ll_inv src ((xs @ [a]) @ ys)" using Cons.prems(1) by simp
  from Cons.IH [OF this n(1) d1(2)] show ?case
    using Cons.prems(2) n(2) d1(1,3)
    by (simp add: llist_copy_loop.simps [of _ "Some a"] store_simps ll_data_def)
qed

lemma ll_repr_copy:
  assumes "ll_repr src ds" "dom (ll_store dst) = {}"
  shows "\<exists>dst'. zend_llist_copy dst src = Some dst' \<and> ll_repr dst' ds"
proof -
  obtain xs where xs: "ll_inv src xs" "ds = ll_data src xs" using assms(1) by (auto simp: ll_repr_def)
  show ?thesis
    using llist_copy_loop_spec [of src "[]" xs, OF _ ll_inv_head [OF xs(1)] ll_inv_init [OF assms(2)]] xs
    by (simp add: zend_llist_copy_def ll_repr_def ll_data_def)
qed

text \<open>Applying a callback to every element, in order, with its environment threaded through.\<close>

fun apply_list :: "('a \<Rightarrow> 's \<Rightarrow> 'a \<times> 's) \<Rightarrow> 'a list \<Rightarrow> 's \<Rightarrow> 'a list \<times> 's" where
  "apply_list func [] s = ([], s)"
| "apply_list func (d # ds) s =
     (let (d, s) = func d s; (ds, s) = apply_list func ds s in (d # ds, s))"

lemma ll_inv_set_data:
  assumes "ll_inv l xs" "a \<in> set xs"
    and l1: "l1 = l\<lparr>ll_store := supd (Some a) (\<lambda>e. e\<lparr>el_data := d\<rparr>) (ll_store l)\<rparr>"
  shows "ll_inv l1 xs" "ll_dt l1 = (ll_dt l)(a := d)" "ll_nx l1 = ll_nx l" "ll_dtor l1 = ll_dtor l"
    "ll_dtor_log l1 = ll_dtor_log l"
  using assms by (auto simp: ll_inv_def store_simps)

lemma llist_apply_loop_spec:
  assumes "ll_inv l (xs @ ys)" "cur = (case ys of [] \<Rightarrow> None | y # _ \<Rightarrow> Some y)"
    "apply_list func (ll_data l ys) s = (ds', s')"
  shows "\<exists>l'. llist_apply_loop func cur l s = Some (l', s') \<and> ll_inv l' (xs @ ys) \<and>
    ll_data l' xs = ll_data l xs \<and> ll_data l' ys = ds'"
  using assms
proof (induction ys arbitrary: xs cur l s ds')
  case Nil
  then show ?case by (simp add: llist_apply_loop.simps ll_data_def)
next
  case (Cons a ys)
  note n = ll_next_first [OF Cons.prems(1)]
  obtain d1 s1 where d1: "func (ll_dt l a) s = (d1, s1)" by fastforce
  obtain ds2 where ds2: "apply_list func (ll_data l ys) s1 = (ds2, s')" "ds' = d1 # ds2"
    using Cons.prems(3) d1 by (auto simp: ll_data_def split: prod.splits)
  define l1 where "l1 = l\<lparr>ll_store := supd (Some a) (\<lambda>e. e\<lparr>el_data := d1\<rparr>) (ll_store l)\<rparr>"
  have l1: "ll_inv l1 (xs @ a # ys)" "ll_dt l1 = (ll_dt l)(a := d1)" "ll_nx l1 = ll_nx l"
    using ll_inv_set_data [OF Cons.prems(1) _ l1_def] by simp_all
  have dis: "distinct (xs @ a # ys)" using Cons.prems(1) by (auto simp: ll_inv_def dll_def)
  then have same: "ll_data l1 ys = ll_data l ys" "ll_data l1 xs = ll_data l xs"
    using l1(2) by (auto intro!: ll_data_cong)
  obtain l' where l': "llist_apply_loop func (ll_nx l a) l1 s1 = Some (l', s')" "ll_inv l' ((xs @ [a]) @ ys)"
    "ll_data l' (xs @ [a]) = ll_data l1 (xs @ [a])" "ll_data l' ys = ds2"
    using Cons.IH [of l1 "xs @ [a]" "ll_nx l a" s1 ds2] l1(1) n(1) ds2(1) same(1) by auto
  have "llist_apply_loop func (Some a) l s = Some (l', s')"
    using n(2) d1 l'(1) by (simp add: llist_apply_loop.simps [of _ "Some a"] store_simps flip: l1_def)
  then show ?case
    using Cons.prems(2) l' same l1(2) ds2(2) by (auto simp: ll_data_def)
qed

lemma ll_repr_apply:
  assumes "ll_repr l ds" "apply_list func ds s = (ds', s')"
  shows "\<exists>l'. zend_llist_apply l func s = Some (l', s') \<and> ll_repr l' ds'"
proof -
  obtain xs where xs: "ll_inv l xs" "ds = ll_data l xs" using assms(1) by (auto simp: ll_repr_def)
  show ?thesis
    using llist_apply_loop_spec [of l "[]" xs, OF _ ll_inv_head [OF xs(1)]] xs assms(2)
    by (fastforce simp: zend_llist_apply_def ll_repr_def)
qed


text \<open>Deleting while traversing: the elements for which the callback says so disappear.\<close>

fun apply_del_list :: "('a \<Rightarrow> 's \<Rightarrow> bool \<times> 'a \<times> 's) \<Rightarrow> 'a list \<Rightarrow> 's \<Rightarrow> 'a list \<times> 's" where
  "apply_del_list func [] s = ([], s)"
| "apply_del_list func (d # ds) s =
     (let (del, d, s) = func d s; (ds, s) = apply_del_list func ds s in (if del then ds else d # ds, s))"

lemma llist_apply_del_loop_spec:
  assumes "ll_inv l (xs @ ys)" "cur = (case ys of [] \<Rightarrow> None | y # _ \<Rightarrow> Some y)"
    "apply_del_list func (ll_data l ys) s = (ds', s')"
  shows "\<exists>l' zs. llist_apply_del_loop func cur l s = Some (l', s') \<and> ll_inv l' (xs @ zs) \<and>
    ll_data l' (xs @ zs) = ll_data l xs @ ds'"
  using assms
proof (induction ys arbitrary: xs cur l s ds')
  case Nil
  then show ?case by (intro exI [of _ l] exI [of _ "[]"]) (simp add: llist_apply_del_loop.simps ll_data_def)
next
  case (Cons a ys)
  note n = ll_next_first [OF Cons.prems(1)]
  obtain del d1 s1 where d1: "func (ll_dt l a) s = (del, d1, s1)" using prod_cases3 by blast
  obtain ds2 where ds2: "apply_del_list func (ll_data l ys) s1 = (ds2, s')" "ds' = (if del then ds2 else d1 # ds2)"
    using Cons.prems(3) d1 by (auto simp: ll_data_def split: prod.splits)
  define l1 where "l1 = l\<lparr>ll_store := supd (Some a) (\<lambda>e. e\<lparr>el_data := d1\<rparr>) (ll_store l)\<rparr>"
  have l1: "ll_inv l1 (xs @ a # ys)" "ll_dt l1 = (ll_dt l)(a := d1)"
    using ll_inv_set_data [OF Cons.prems(1) _ l1_def] by simp_all
  have dis: "distinct (xs @ a # ys)" using Cons.prems(1) by (auto simp: ll_inv_def dll_def)
  then have same: "ll_data l1 ys = ll_data l ys" "ll_data l1 xs = ll_data l xs"
    using l1(2) by (auto intro!: ll_data_cong)
  show ?case
  proof (cases del)
    case True
    obtain l2 where l2: "DEL_LLIST_ELEMENT a l1 = Some l2" "ll_inv l2 (xs @ ys)" "\<forall>x. x \<noteq> a \<longrightarrow> ll_dt l2 x = ll_dt l1 x"
      using ll_inv_del [OF l1(1)] by blast
    have "ll_data l2 ys = ll_data l ys" "ll_data l2 xs = ll_data l xs"
      using l2(3) dis same by (auto intro!: ll_data_cong simp: l1(2))
    then show ?thesis
      using Cons.IH [OF l2(2) n(1)] ds2 d1 l2(1) n(2) Cons.prems(2) True
      by (simp add: llist_apply_del_loop.simps [of _ "Some a"] store_simps flip: l1_def)
  next
    case False
    obtain l' zs where l': "llist_apply_del_loop func (ll_nx l a) l1 s1 = Some (l', s')" "ll_inv l' ((xs @ [a]) @ zs)"
      "ll_data l' ((xs @ [a]) @ zs) = ll_data l1 (xs @ [a]) @ ds2"
      using Cons.IH [of l1 "xs @ [a]" "ll_nx l a" s1 ds2] l1(1) n(1) ds2(1) same(1) by auto
    have "llist_apply_del_loop func (Some a) l s = Some (l', s')"
      using n(2) d1 l'(1) False by (simp add: llist_apply_del_loop.simps [of _ "Some a"] store_simps flip: l1_def)
    then show ?thesis
      using Cons.prems(2) l' same l1(2) ds2(2) False
      by (intro exI [of _ l'] exI [of _ "a # zs"]) (simp add: ll_data_def)
  qed
qed

lemma ll_repr_apply_with_del:
  assumes "ll_repr l ds" "apply_del_list func ds s = (ds', s')"
  shows "\<exists>l'. zend_llist_apply_with_del l func s = Some (l', s') \<and> ll_repr l' ds'"
proof -
  obtain xs where xs: "ll_inv l xs" "ds = ll_data l xs" using assms(1) by (auto simp: ll_repr_def)
  show ?thesis
    using llist_apply_del_loop_spec [of l "[]" xs, OF _ ll_inv_head [OF xs(1)]] xs assms(2)
    by (fastforce simp: zend_llist_apply_with_del_def ll_repr_def ll_data_def)
qed

subsection \<open>Sorting\<close>

lemma llist_collect_spec:
  assumes "dseg (ll_nx l) p f b xs t None" "set xs \<subseteq> dom (ll_store l)"
  shows "llist_collect l f = Some xs"
  using assms
proof (induction xs arbitrary: f b)
  case Nil
  then show ?case by (simp add: llist_collect.simps)
next
  case (Cons a xs)
  have "llist_collect l (ll_nx l a) = Some xs" using Cons.prems by (intro Cons.IH) auto
  with Cons.prems show ?case by (simp add: llist_collect.simps [of _ "Some a"] store_simps)
qed

lemma llist_relink_spec:
  assumes "set (a # xs) \<subseteq> dom (ll_store l)" "distinct (a # xs)"
  shows "\<exists>l'. llist_relink a xs l = Some l' \<and> dseg (ll_nx l') (ll_pv l') (Some a) (ll_pv l a) (a # xs) (ll_tail l') None \<and>
    dom (ll_store l') = dom (ll_store l) \<and> ll_dt l' = ll_dt l \<and> ll_head l' = ll_head l \<and> ll_count l' = ll_count l \<and>
    ll_brk l' = ll_brk l \<and> (\<forall>x. x \<notin> set (a # xs) \<longrightarrow> ll_nx l' x = ll_nx l x) \<and>
    (\<forall>x. x \<notin> set xs \<longrightarrow> ll_pv l' x = ll_pv l x) \<and> ll_dtor_log l' = ll_dtor_log l"
  using assms
proof (induction xs arbitrary: a l)
  case Nil
  then show ?case by (auto simp: store_simps)
next
  case (Cons c xs)
  define l1 where "l1 = l\<lparr>ll_store := supd (Some a) (\<lambda>e. e\<lparr>el_next := Some c\<rparr>)
    (supd (Some c) (\<lambda>e. e\<lparr>el_prev := Some a\<rparr>) (ll_store l))\<rparr>"
  have f: "ll_nx l1 = (ll_nx l)(a := Some c)" "ll_pv l1 = (ll_pv l)(c := Some a)" "dom (ll_store l1) = dom (ll_store l)"
    "ll_dt l1 = ll_dt l" "ll_head l1 = ll_head l" "ll_count l1 = ll_count l" "ll_brk l1 = ll_brk l"
    "ll_dtor_log l1 = ll_dtor_log l"
    using Cons.prems by (auto simp: l1_def store_simps)
  have "llist_relink a (c # xs) l = llist_relink c xs l1"
    using Cons.prems by (simp add: store_simps l1_def)
  moreover obtain l' where "llist_relink c xs l1 = Some l'"
    "dseg (ll_nx l') (ll_pv l') (Some c) (ll_pv l1 c) (c # xs) (ll_tail l') None"
    "dom (ll_store l') = dom (ll_store l1)" "ll_dt l' = ll_dt l1" "ll_head l' = ll_head l1" "ll_count l' = ll_count l1"
    "ll_brk l' = ll_brk l1" "\<forall>x. x \<notin> set (c # xs) \<longrightarrow> ll_nx l' x = ll_nx l1 x"
    "\<forall>x. x \<notin> set xs \<longrightarrow> ll_pv l' x = ll_pv l1 x" "ll_dtor_log l' = ll_dtor_log l1"
    using Cons.IH [of c l1] Cons.prems f(3) by auto
  ultimately show ?case using Cons.prems by (auto simp: f)
qed

text \<open>
  Sorting keeps the same elements (the same addresses, so positions held elsewhere stay valid)
  and links them in the order \<open>zend_qsort\<close> gives.
\<close>

lemma ll_inv_sort:
  assumes inv: "ll_inv l xs" and len: "length xs < 2 ^ 64"
  shows "\<exists>l' ys. zend_llist_sort l cmp = Some l' \<and> ll_inv l' ys \<and> mset ys = mset xs \<and>
    ll_data l' ys = ll_data l ys \<and> ll_dtor_log l' = ll_dtor_log l \<and>
    (cmp_order (\<lambda>a b. cmp (the (ll_store l a)) (the (ll_store l b))) \<longrightarrow>
      sorted_wrt (\<lambda>a b. cmp (the (ll_store l a)) (the (ll_store l b)) \<le> 0) ys)"
proof (cases xs)
  case Nil
  with inv show ?thesis by (intro exI [of _ l] exI [of _ "[]"]) (simp add: zend_llist_sort_def ll_inv_def)
next
  case (Cons x0 xs0)
  let ?c = "\<lambda>a b. cmp (the (ll_store l a)) (the (ll_store l b))"
  have d: "dll (ll_nx l) (ll_pv l) (ll_head l) xs (ll_tail l)" and dom: "dom (ll_store l) = set xs"
    and dis: "distinct xs" and cnt: "ll_count l = of_nat (length xs)" using inv by (auto simp: ll_inv_def dll_def)
  have cnt': "unat (ll_count l) = length xs" using len by (simp add: cnt unat_of_nat)
  have cnt0: "ll_count l \<noteq> 0" using cnt' Cons by (metis length_0_conv list.distinct(1) unat_0)
  have coll: "llist_collect l (ll_head l) = Some xs"
    using llist_collect_spec [of l "ll_pv l" "ll_head l" None xs] d dom by (auto simp: dll_def)
  obtain ys where ys: "zend_qsort 8 ?c xs = Some ys" "mset ys = mset xs"
    using zq.sort_result [of xs 8 ?c] len by auto
  obtain y0 ys0 where y: "ys = y0 # ys0" using ys(2) Cons by (cases ys) auto
  have ysd: "distinct (y0 # ys0)" "set (y0 # ys0) = set xs"
    using zq.sort_distinct [OF ys(1)] zq.sort_set [OF ys(1)] dis y by auto
  define l1 where "l1 = l\<lparr>ll_head := Some y0, ll_store := supd (Some y0) (\<lambda>e. e\<lparr>el_prev := None\<rparr>) (ll_store l)\<rparr>"
  have y0: "y0 \<in> dom (ll_store l)" using ysd(2) dom by auto
  have f: "ll_pv l1 y0 = None" "dom (ll_store l1) = dom (ll_store l)" "ll_dt l1 = ll_dt l" "ll_count l1 = ll_count l"
    "ll_head l1 = Some y0" "ll_brk l1 = ll_brk l" "ll_dtor_log l1 = ll_dtor_log l"
    using y0 by (auto simp: l1_def store_simps)
  have sub: "set (y0 # ys0) \<subseteq> dom (ll_store l1)" using ysd(2) by (simp add: f(2) dom)
  obtain l' where l': "llist_relink y0 ys0 l1 = Some l'"
    "dseg (ll_nx l') (ll_pv l') (Some y0) None (y0 # ys0) (ll_tail l') None"
    "dom (ll_store l') = dom (ll_store l)" "ll_dt l' = ll_dt l" "ll_head l' = Some y0" "ll_count l' = ll_count l"
    "ll_brk l' = ll_brk l" "ll_dtor_log l' = ll_dtor_log l"
    using llist_relink_spec [of y0 ys0 l1, OF sub ysd(1)] by (auto simp: f)
  have "zend_llist_sort l cmp = Some l'"
    using cnt0 coll cnt' ys(1) y y0 l'(1) by (simp add: zend_llist_sort_def store_simps l1_def)
  moreover have "ll_inv l' ys"
    using inv ysd l' mset_eq_length [OF ys(2)] by (auto simp: ll_inv_def dll_def y cnt)
  ultimately show ?thesis
    using ys zq.sort_sorted [OF ys(1)] l'(4,8) by (intro exI [of _ l'] exI [of _ ys]) (simp add: ll_data_def)
qed


subsection \<open>Traversal\<close>

text \<open>Moving forward from any element visits its successor and stops after the last one.\<close>

lemma ll_get_next:
  assumes "ll_inv l (xs @ a # ys)"
  shows "zend_llist_get_next_ex l (Some (Some a)) =
    Some (case ys of [] \<Rightarrow> None | y # _ \<Rightarrow> Some y, Some (case ys of [] \<Rightarrow> None | y # _ \<Rightarrow> Some y), l)"
  using ll_next_first [OF assms]
  by (simp add: zend_llist_get_next_ex_def ll_get_pos_def ll_set_pos_def store_simps)

lemma ll_get_prev:
  assumes "ll_inv l (xs @ a # ys)"
  shows "zend_llist_get_prev_ex l (Some (Some a)) =
    Some (if xs = [] then None else Some (last xs), Some (if xs = [] then None else Some (last xs)), l)"
proof -
  have "ll_pv l a = (if xs = [] then None else Some (last xs))" "a \<in> dom (ll_store l)"
    using assms by (auto simp: ll_inv_def dest: dll_mid)
  then show ?thesis by (simp add: zend_llist_get_prev_ex_def ll_get_pos_def ll_set_pos_def store_simps)
qed

subsection \<open>The list as a sequence\<close>

text \<open>C35: on a well-formed list that holds the sequence \<open>ds\<close>, every mutating operation of
  \<open>zend_llist.c\<close> returns, never follows a dangling pointer, leaves a well-formed list, and
  does what its name says to the sequence: append, prepend, delete the first match, clear (with
  every element destroyed once, in order), copy, apply a callback, apply with deletion.\<close>

theorem zend_llist_refines_sequence:
  assumes "ll_repr l ds" "dom (ll_store dst) = {}"
  shows "(\<exists>l'. zend_llist_add_element l d = Some l' \<and> ll_repr l' (ds @ [d]))
    \<and> (\<exists>l'. zend_llist_prepend_element l d = Some l' \<and> ll_repr l' (d # ds))
    \<and> (\<exists>l'. zend_llist_del_element l el cmp = Some l' \<and> ll_repr l' (del_first (\<lambda>d. cmp d el) ds))
    \<and> (\<exists>l'. zend_llist_clean l = Some l' \<and> ll_repr l' [] \<and>
          ll_dtor_log l' = ll_dtor_log l @ (if ll_dtor l then ds else []))
    \<and> (\<exists>dst'. zend_llist_copy dst l = Some dst' \<and> ll_repr dst' ds)
    \<and> (\<exists>l'. zend_llist_apply l func s = Some (l', snd (apply_list func ds s)) \<and>
          ll_repr l' (fst (apply_list func ds s)))
    \<and> (\<exists>l'. zend_llist_apply_with_del l dfunc s = Some (l', snd (apply_del_list dfunc ds s)) \<and>
          ll_repr l' (fst (apply_del_list dfunc ds s)))"
proof (intro conjI)
  obtain xs where xs: "ll_inv l xs" "ll_data l xs = ds" using assms by (auto simp: ll_repr_def)
  show "\<exists>l'. zend_llist_add_element l d = Some l' \<and> ll_repr l' (ds @ [d])"
    using ll_inv_add [OF xs(1), of d] xs(2) by (auto simp: ll_repr_def)
  show "\<exists>l'. zend_llist_prepend_element l d = Some l' \<and> ll_repr l' (d # ds)"
    using ll_inv_prepend [OF xs(1), of d] xs(2) by (auto simp: ll_repr_def)
  show "\<exists>l'. zend_llist_clean l = Some l' \<and> ll_repr l' [] \<and>
      ll_dtor_log l' = ll_dtor_log l @ (if ll_dtor l then ds else [])"
    using llist_destroy_eq [OF xs(1)] xs(2)
    by (auto simp: zend_llist_clean_def ll_repr_def ll_inv_def ll_data_def)
qed (use assms in \<open>auto intro: ll_repr_del_element ll_repr_copy ll_repr_apply ll_repr_apply_with_del\<close>)

definition empty_llist :: "'a zend_llist" where
  "empty_llist = zend_llist_init \<lparr>ll_head = None, ll_tail = None, ll_count = 0, ll_size = 0, ll_dtor = False,
     ll_persistent = False, ll_traverse_ptr = None, ll_store = Map.empty, ll_brk = 0, ll_dtor_log = []\<rparr> 8 True False"

lemma ll_repr_empty: "ll_repr empty_llist []"
  by (auto simp: ll_repr_def empty_llist_def ll_data_def intro!: exI [of _ "[]"] ll_inv_init)

lemma ll_repr_add:
  assumes "ll_repr l ds"
  obtains l' where "zend_llist_add_element l d = Some l'" "ll_repr l' (ds @ [d])"
proof -
  obtain xs where xs: "ll_inv l xs" "ll_data l xs = ds" using assms by (auto simp: ll_repr_def)
  show ?thesis using ll_inv_add [OF xs(1), of d] xs(2) that by (auto simp: ll_repr_def)
qed

theorem zend_llist_refines_sequence_witness:
  "(\<exists>l'. zend_llist_add_element empty_llist (7::int) = Some l' \<and> ll_repr l' ([] @ [7])) \<and>
   (\<exists>l'. zend_llist_prepend_element empty_llist (7::int) = Some l' \<and> ll_repr l' [7])"
proof -
  have "dom (ll_store (empty_llist :: int zend_llist)) = {}"
    by (simp add: empty_llist_def zend_llist_init_def)
  note p = zend_llist_refines_sequence [OF ll_repr_empty this, of 7]
  show ?thesis by (rule conjI [OF p [THEN conjunct1] p [THEN conjunct2, THEN conjunct1]])
qed

text \<open>C36: \<open>zend_llist_sort\<close> relinks the existing elements, in both directions, in the order
  \<open>zend_qsort\<close> computes: the result is a well-formed list holding a permutation of the
  sequence, and with an ordering comparison the sequence is sorted.\<close>

theorem zend_llist_sort_sorts:
  assumes "ll_repr l ds" "length ds < 2 ^ 64"
    and cmp: "\<And>a b. cmp a b = dcmp (el_data a) (el_data b)" "cmp_order dcmp"
  shows "\<exists>l' ds'. zend_llist_sort l cmp = Some l' \<and> ll_repr l' ds' \<and> mset ds' = mset ds \<and>
    sorted_wrt (\<lambda>x y. dcmp x y \<le> 0) ds'"
proof -
  obtain xs where xs: "ll_inv l xs" "ll_data l xs = ds" using assms by (auto simp: ll_repr_def)
  let ?c = "\<lambda>a b. cmp (the (ll_store l a)) (the (ll_store l b))"
  have eq: "?c = (\<lambda>a b. dcmp (ll_dt l a) (ll_dt l b))" by (simp add: cmp(1) fld_def)
  have "cmp_order ?c" using cmp(2) unfolding eq cmp_order_def by blast
  moreover have "length xs < 2 ^ 64" using assms(2) xs(2) by (simp add: ll_data_def flip: xs(2))
  ultimately obtain l' ys where l': "zend_llist_sort l cmp = Some l'" "ll_inv l' ys" "mset ys = mset xs"
      "ll_data l' ys = ll_data l ys" "sorted_wrt (\<lambda>a b. ?c a b \<le> 0) ys"
    using ll_inv_sort [OF xs(1), of cmp] by auto
  have "mset (ll_data l' ys) = mset ds"
    using l'(3) by (simp add: l'(4) flip: xs(2)) (simp add: ll_data_def)
  moreover have "sorted_wrt (\<lambda>x y. dcmp x y \<le> 0) (ll_data l' ys)"
    using l'(5) unfolding l'(4) by (simp add: ll_data_def sorted_wrt_map cmp(1) fld_def)
  ultimately show ?thesis using l'(1,2) by (auto simp: ll_repr_def)
qed

theorem zend_llist_sort_sorts_witness:
  "\<exists>l l' ds'. zend_llist_add_element empty_llist (7::int) = Some l \<and>
    zend_llist_sort l (\<lambda>a b. el_data a - el_data b) = Some l' \<and> ll_repr l' ds' \<and> mset ds' = mset [7]
    \<and> sorted_wrt (\<lambda>x y. x - y \<le> 0) ds'"
proof -
  obtain l where l: "zend_llist_add_element empty_llist (7::int) = Some l" "ll_repr l [7]"
    using ll_repr_add [OF ll_repr_empty, of 7] by auto
  have "cmp_order (\<lambda>x y. x - y :: int)" by (auto simp: cmp_order_def)
  then show ?thesis using zend_llist_sort_sorts [OF l(2), of "\<lambda>a b. el_data a - el_data b" "\<lambda>x y. x - y"] l(1) by auto
qed

text \<open>C37: \<open>zend_llist_remove_tail\<close> removes the last element, and the pointer it returns is
  into memory it has just freed: the address is no longer allocated, so no caller can read
  through it.\<close>

theorem zend_llist_remove_tail_dangling:
  assumes "ll_repr l (ds @ [d])"
  shows "\<exists>a l'. zend_llist_remove_tail l = Some (Some a, l') \<and> ll_repr l' ds \<and> deref (ll_store l') (Some a) = None"
proof -
  obtain xs a where xs: "ll_inv l (xs @ [a])" "ll_data l xs = ds"
    using assms by (auto simp: ll_repr_def ll_data_def map_eq_append_conv)
  then show ?thesis using ll_inv_remove_tail [OF xs(1)] by (auto simp: ll_repr_def)
qed

theorem zend_llist_remove_tail_dangling_witness:
  "\<exists>l a l'. zend_llist_add_element empty_llist (7::int) = Some l \<and> zend_llist_remove_tail l = Some (Some a, l') \<and>
    ll_repr l' [] \<and> deref (ll_store l') (Some a) = None"
proof -
  obtain l where l: "zend_llist_add_element empty_llist (7::int) = Some l" "ll_repr l ([] @ [7])"
    using ll_repr_add [OF ll_repr_empty, of 7] by auto
  then show ?thesis using zend_llist_remove_tail_dangling [OF l(2)] by blast
qed

end
