(* ===== verification/Zend_Stacks.thy ===== *)
theory Zend_Stacks
  imports Prelude
begin

text \<open>
  \<open>Zend/zend_stack.c\<close> (a stack of separately allocated copies, used by the compiler for its
  nesting state) and \<open>Zend/zend_ptr_stack.c\<close>/\<open>.h\<close> (a stack of pointers, the engine's argument
  stack).

  An array is a list of cells; a cell is \<open>None\<close> while it holds nothing that may be read (never
  written, or its element was freed). \<open>top\<close> and \<open>max\<close> are C \<open>int\<close>s: where growing \<open>max\<close>
  would pass \<open>INT_MAX\<close> the C behaviour is undefined and the model has no result.
\<close>

definition INT_MAX :: int where
  "INT_MAX = 2147483647"

definition STACK_BLOCK_SIZE :: nat where
  "STACK_BLOCK_SIZE = 64"

definition PTR_STACK_BLOCK_SIZE :: nat where
  "PTR_STACK_BLOCK_SIZE = 64"

datatype stack_apply_type = ZEND_STACK_APPLY_TOPDOWN | ZEND_STACK_APPLY_BOTTOMUP

record 'a zend_stack =
  st_top :: nat
  st_max :: nat
  st_elements :: "'a option list option"

definition zend_stack_init :: "zresult \<times> 'a zend_stack" where
  "zend_stack_init =
     (SUCCESS, \<lparr>st_top = 0, st_max = STACK_BLOCK_SIZE, st_elements = Some (replicate STACK_BLOCK_SIZE None)\<rparr>)"

text \<open>\<open>erealloc\<close> keeps the old cells and adds uninitialised ones.\<close>

definition stack_grow :: "'a zend_stack \<Rightarrow> 'a zend_stack option" where
  "stack_grow s =
     (if st_top s \<ge> st_max s then
        if int (st_max s + STACK_BLOCK_SIZE) > INT_MAX then None
        else map_option (\<lambda>es. s\<lparr>st_max := st_max s + STACK_BLOCK_SIZE,
               st_elements := Some (es @ replicate STACK_BLOCK_SIZE None)\<rparr>) (st_elements s)
      else Some s)"

definition zend_stack_push :: "'a zend_stack \<Rightarrow> 'a \<Rightarrow> (nat \<times> 'a zend_stack) option" where
  "zend_stack_push s element =
     do {
       s \<leftarrow> stack_grow s;
       es \<leftarrow> st_elements s;
       es \<leftarrow> upd_opt es (st_top s) (Some element);
       Some (st_top s, s\<lparr>st_elements := Some es, st_top := Suc (st_top s)\<rparr>)
     }"

definition stack_read :: "'a zend_stack \<Rightarrow> nat \<Rightarrow> 'a option" where
  "stack_read s i = do { es \<leftarrow> st_elements s; c \<leftarrow> nth_opt es i; c }"

definition zend_stack_top :: "'a zend_stack \<Rightarrow> (zresult \<times> 'a option) option" where
  "zend_stack_top s =
     (if st_top s > 0 then do { e \<leftarrow> stack_read s (st_top s - 1); Some (SUCCESS, Some e) }
      else Some (FAILURE, None))"

definition zend_stack_del_top :: "'a zend_stack \<Rightarrow> (zresult \<times> 'a zend_stack) option" where
  "zend_stack_del_top s =
     (if st_top s > 0 then do {
        es \<leftarrow> st_elements s;
        e \<leftarrow> stack_read s (st_top s - 1);
        es \<leftarrow> upd_opt es (st_top s - 1) None;
        Some (SUCCESS, s\<lparr>st_top := st_top s - 1, st_elements := Some es\<rparr>)
      }
      else Some (SUCCESS, s))"

text \<open>\<open>FAILURE\<close> is \<open>-1\<close>.\<close>

definition zend_stack_int_top :: "int zend_stack \<Rightarrow> int option" where
  "zend_stack_int_top s =
     do { (r, e) \<leftarrow> zend_stack_top s; case e of None \<Rightarrow> Some (-1) | Some i \<Rightarrow> Some i }"

definition zend_stack_is_empty :: "'a zend_stack \<Rightarrow> int" where
  "zend_stack_is_empty s = (if st_top s = 0 then 1 else 0)"

text \<open>The loop of \<open>zend_stack_destroy\<close> frees cell after cell; freeing a dead cell has no result.\<close>

fun stack_free_cells :: "nat \<Rightarrow> 'a option list \<Rightarrow> 'a option list option" where
  "stack_free_cells 0 es = Some es"
| "stack_free_cells (Suc n) [] = None"
| "stack_free_cells (Suc n) (c # es) =
     (case c of None \<Rightarrow> None | Some _ \<Rightarrow> map_option (\<lambda>es. None # es) (stack_free_cells n es))"

definition zend_stack_destroy :: "'a zend_stack \<Rightarrow> (zresult \<times> 'a zend_stack) option" where
  "zend_stack_destroy s =
     (case st_elements s of
        None \<Rightarrow> Some (SUCCESS, s)
      | Some es \<Rightarrow> do { es \<leftarrow> stack_free_cells (st_top s) es; Some (SUCCESS, s\<lparr>st_elements := None\<rparr>) })"

definition zend_stack_base :: "'a zend_stack \<Rightarrow> 'a option list option" where
  "zend_stack_base s = st_elements s"

definition zend_stack_count :: "'a zend_stack \<Rightarrow> nat" where
  "zend_stack_count s = st_top s"

text \<open>
  \<open>zend_stack_apply\<close> and \<open>zend_stack_apply_with_argument\<close>: the callback may change the element
  and its environment, and stops the loop by returning true.
\<close>

fun stack_apply_loop :: "('a \<Rightarrow> 's \<Rightarrow> bool \<times> 'a \<times> 's) \<Rightarrow> nat list \<Rightarrow> 'a option list \<Rightarrow> 's \<Rightarrow> ('a option list \<times> 's) option" where
  "stack_apply_loop f [] es s = Some (es, s)"
| "stack_apply_loop f (i # is) es s =
     do {
       c \<leftarrow> nth_opt es i;
       e \<leftarrow> c;
       case f e s of (stop, e, s) \<Rightarrow>
         let es = es[i := Some e] in if stop then Some (es, s) else stack_apply_loop f is es s
     }"

definition zend_stack_apply :: "'a zend_stack \<Rightarrow> stack_apply_type \<Rightarrow> ('a \<Rightarrow> 's \<Rightarrow> bool \<times> 'a \<times> 's) \<Rightarrow> 's \<Rightarrow> ('a zend_stack \<times> 's) option" where
  "zend_stack_apply st type f s =
     do {
       es \<leftarrow> st_elements st;
       (es, s) \<leftarrow> stack_apply_loop f
          (case type of ZEND_STACK_APPLY_TOPDOWN \<Rightarrow> rev [0..<st_top st] | ZEND_STACK_APPLY_BOTTOMUP \<Rightarrow> [0..<st_top st]) es s;
       Some (st\<lparr>st_elements := Some es\<rparr>, s)
     }"

definition zend_stack_apply_with_argument ::
    "'a zend_stack \<Rightarrow> stack_apply_type \<Rightarrow> ('a \<Rightarrow> 'g \<Rightarrow> 's \<Rightarrow> bool \<times> 'a \<times> 's) \<Rightarrow> 'g \<Rightarrow> 's \<Rightarrow> ('a zend_stack \<times> 's) option" where
  "zend_stack_apply_with_argument st type f arg s =
     do {
       es \<leftarrow> st_elements st;
       (es, s) \<leftarrow> stack_apply_loop (\<lambda>e. f e arg)
          (case type of ZEND_STACK_APPLY_TOPDOWN \<Rightarrow> rev [0..<st_top st] | ZEND_STACK_APPLY_BOTTOMUP \<Rightarrow> [0..<st_top st]) es s;
       Some (st\<lparr>st_elements := Some es\<rparr>, s)
     }"

subsection \<open>The pointer stack\<close>

text \<open>\<open>top_element\<close> is the offset of the pointer from \<open>elements\<close>.\<close>

record 'a zend_ptr_stack =
  ps_top :: int
  ps_max :: int
  ps_elements :: "'a option list"
  ps_top_element :: int
  ps_persistent :: bool

definition zend_ptr_stack_init_ex :: "bool \<Rightarrow> 'a zend_ptr_stack" where
  "zend_ptr_stack_init_ex persistent =
     \<lparr>ps_top = 0, ps_max = int PTR_STACK_BLOCK_SIZE, ps_elements = replicate PTR_STACK_BLOCK_SIZE None,
      ps_top_element = 0, ps_persistent = persistent\<rparr>"

definition zend_ptr_stack_init :: "'a zend_ptr_stack" where
  "zend_ptr_stack_init = zend_ptr_stack_init_ex False"

definition ZEND_PTR_STACK_RESIZE_IF_NEEDED :: "'a zend_ptr_stack \<Rightarrow> int \<Rightarrow> 'a zend_ptr_stack option" where
  "ZEND_PTR_STACK_RESIZE_IF_NEEDED s count =
     (if ps_top s + count > ps_max s then
        let new_max = ps_max s * 2 + count in
        if new_max > INT_MAX then None
        else Some (s\<lparr>ps_max := new_max,
               ps_elements := ps_elements s @ replicate (nat new_max - length (ps_elements s)) None,
               ps_top_element := ps_top s\<rparr>)
      else Some s)"

text \<open>\<open>*(stack->top_element++) = elem\<close> and \<open>*(--stack->top_element)\<close>.\<close>

definition ptr_stack_put :: "'a \<Rightarrow> 'a zend_ptr_stack \<Rightarrow> 'a zend_ptr_stack option" where
  "ptr_stack_put x s =
     (if ps_top_element s < 0 then None
      else do {
        es \<leftarrow> upd_opt (ps_elements s) (nat (ps_top_element s)) (Some x);
        Some (s\<lparr>ps_elements := es, ps_top_element := ps_top_element s + 1\<rparr>)
      })"

definition ptr_stack_take :: "'a zend_ptr_stack \<Rightarrow> ('a \<times> 'a zend_ptr_stack) option" where
  "ptr_stack_take s =
     (let t = ps_top_element s - 1 in
      if t < 0 then None
      else do { c \<leftarrow> nth_opt (ps_elements s) (nat t); x \<leftarrow> c; Some (x, s\<lparr>ps_top_element := t\<rparr>) })"

fun ptr_stack_push_loop :: "'a list \<Rightarrow> 'a zend_ptr_stack \<Rightarrow> 'a zend_ptr_stack option" where
  "ptr_stack_push_loop [] s = Some s"
| "ptr_stack_push_loop (x # xs) s =
     do { s \<leftarrow> ptr_stack_put x (s\<lparr>ps_top := ps_top s + 1\<rparr>); ptr_stack_push_loop xs s }"

definition zend_ptr_stack_n_push :: "'a zend_ptr_stack \<Rightarrow> 'a list \<Rightarrow> 'a zend_ptr_stack option" where
  "zend_ptr_stack_n_push s elems =
     do { s \<leftarrow> ZEND_PTR_STACK_RESIZE_IF_NEEDED s (int (length elems)); ptr_stack_push_loop elems s }"

fun zend_ptr_stack_n_pop :: "'a zend_ptr_stack \<Rightarrow> nat \<Rightarrow> ('a list \<times> 'a zend_ptr_stack) option" where
  "zend_ptr_stack_n_pop s 0 = Some ([], s)"
| "zend_ptr_stack_n_pop s (Suc count) =
     do {
       (x, s) \<leftarrow> ptr_stack_take s;
       (xs, s) \<leftarrow> zend_ptr_stack_n_pop (s\<lparr>ps_top := ps_top s - 1\<rparr>) count;
       Some (x # xs, s)
     }"

definition zend_ptr_stack_3_push :: "'a zend_ptr_stack \<Rightarrow> 'a \<Rightarrow> 'a \<Rightarrow> 'a \<Rightarrow> 'a zend_ptr_stack option" where
  "zend_ptr_stack_3_push s a b c =
     do {
       s \<leftarrow> ZEND_PTR_STACK_RESIZE_IF_NEEDED s 3;
       s \<leftarrow> ptr_stack_put a (s\<lparr>ps_top := ps_top s + 3\<rparr>);
       s \<leftarrow> ptr_stack_put b s;
       ptr_stack_put c s
     }"

definition zend_ptr_stack_2_push :: "'a zend_ptr_stack \<Rightarrow> 'a \<Rightarrow> 'a \<Rightarrow> 'a zend_ptr_stack option" where
  "zend_ptr_stack_2_push s a b =
     do {
       s \<leftarrow> ZEND_PTR_STACK_RESIZE_IF_NEEDED s 2;
       s \<leftarrow> ptr_stack_put a (s\<lparr>ps_top := ps_top s + 2\<rparr>);
       ptr_stack_put b s
     }"

definition zend_ptr_stack_3_pop :: "'a zend_ptr_stack \<Rightarrow> (('a \<times> 'a \<times> 'a) \<times> 'a zend_ptr_stack) option" where
  "zend_ptr_stack_3_pop s =
     do {
       (a, s) \<leftarrow> ptr_stack_take s;
       (b, s) \<leftarrow> ptr_stack_take s;
       (c, s) \<leftarrow> ptr_stack_take s;
       Some ((a, b, c), s\<lparr>ps_top := ps_top s - 3\<rparr>)
     }"

definition zend_ptr_stack_2_pop :: "'a zend_ptr_stack \<Rightarrow> (('a \<times> 'a) \<times> 'a zend_ptr_stack) option" where
  "zend_ptr_stack_2_pop s =
     do {
       (a, s) \<leftarrow> ptr_stack_take s;
       (b, s) \<leftarrow> ptr_stack_take s;
       Some ((a, b), s\<lparr>ps_top := ps_top s - 2\<rparr>)
     }"

definition zend_ptr_stack_push :: "'a zend_ptr_stack \<Rightarrow> 'a \<Rightarrow> 'a zend_ptr_stack option" where
  "zend_ptr_stack_push s ptr =
     do { s \<leftarrow> ZEND_PTR_STACK_RESIZE_IF_NEEDED s 1; ptr_stack_put ptr (s\<lparr>ps_top := ps_top s + 1\<rparr>) }"

definition zend_ptr_stack_pop :: "'a zend_ptr_stack \<Rightarrow> ('a \<times> 'a zend_ptr_stack) option" where
  "zend_ptr_stack_pop s = ptr_stack_take (s\<lparr>ps_top := ps_top s - 1\<rparr>)"

text \<open>\<open>zend_ptr_stack_apply\<close> calls the function on the pointers from the top down.\<close>

fun ptr_stack_apply_loop :: "('a \<Rightarrow> 's \<Rightarrow> 's) \<Rightarrow> nat \<Rightarrow> 'a option list \<Rightarrow> 's \<Rightarrow> 's option" where
  "ptr_stack_apply_loop f 0 es s = Some s"
| "ptr_stack_apply_loop f (Suc i) es s = do { c \<leftarrow> nth_opt es i; x \<leftarrow> c; ptr_stack_apply_loop f i es (f x s) }"

definition zend_ptr_stack_apply :: "'a zend_ptr_stack \<Rightarrow> ('a \<Rightarrow> 's \<Rightarrow> 's) \<Rightarrow> 's \<Rightarrow> 's option" where
  "zend_ptr_stack_apply st f s = ptr_stack_apply_loop f (nat (ps_top st)) (ps_elements st) s"

text \<open>
  \<open>zend_ptr_stack_clean\<close>: the callback on every pointer, then \<open>pefree\<close> on every pointer when
  \<open>free_elements\<close> is set (\<open>pefree\<close> is the second callback here).
\<close>

definition zend_ptr_stack_clean :: "'a zend_ptr_stack \<Rightarrow> ('a \<Rightarrow> 's \<Rightarrow> 's) \<Rightarrow> bool \<Rightarrow> ('a \<Rightarrow> 's \<Rightarrow> 's) \<Rightarrow> 's \<Rightarrow> ('a zend_ptr_stack \<times> 's) option" where
  "zend_ptr_stack_clean st f free_elements pefree s =
     do {
       s \<leftarrow> zend_ptr_stack_apply st f s;
       s \<leftarrow> (if free_elements then ptr_stack_apply_loop pefree (nat (ps_top st)) (ps_elements st) s else Some s);
       Some (st\<lparr>ps_top := 0, ps_top_element := 0\<rparr>, s)
     }"

text \<open>\<open>zend_ptr_stack_destroy\<close> frees the array; the header keeps its counters.\<close>

definition zend_ptr_stack_destroy :: "'a zend_ptr_stack \<Rightarrow> 'a zend_ptr_stack" where
  "zend_ptr_stack_destroy s = s\<lparr>ps_elements := []\<rparr>"

definition zend_ptr_stack_num_elements :: "'a zend_ptr_stack \<Rightarrow> int" where
  "zend_ptr_stack_num_elements s = ps_top s"


subsection \<open>The contract of a stack\<close>

text \<open>
  \<open>repr s xs\<close>: the stack \<open>s\<close> holds \<open>xs\<close>, bottom first. Up to \<open>cap\<close> elements a push
  succeeds and can be undone by a pop.
\<close>

locale lifo =
  fixes repr :: "'s \<Rightarrow> 'a list \<Rightarrow> bool"
    and push :: "'s \<Rightarrow> 'a \<Rightarrow> 's option"
    and pop :: "'s \<Rightarrow> ('a \<times> 's) option"
    and cap :: nat
  assumes push_law: "repr s xs \<Longrightarrow> length xs < cap \<Longrightarrow> \<exists>s'. push s x = Some s' \<and> repr s' (xs @ [x])"
    and pop_law: "repr s (xs @ [x]) \<Longrightarrow> \<exists>s'. pop s = Some (x, s') \<and> repr s' xs"
begin

fun push_all :: "'a list \<Rightarrow> 's \<Rightarrow> 's option" where
  "push_all [] s = Some s"
| "push_all (x # xs) s = do { s \<leftarrow> push s x; push_all xs s }"

fun pop_n :: "nat \<Rightarrow> 's \<Rightarrow> ('a list \<times> 's) option" where
  "pop_n 0 s = Some ([], s)"
| "pop_n (Suc n) s = do { (x, s) \<leftarrow> pop s; (xs, s) \<leftarrow> pop_n n s; Some (x # xs, s) }"

lemma push_all_ok:
  "repr s ys \<Longrightarrow> length ys + length xs \<le> cap \<Longrightarrow> \<exists>s'. push_all xs s = Some s' \<and> repr s' (ys @ xs)"
proof (induction xs arbitrary: s ys)
  case (Cons x xs)
  obtain s1 where "push s x = Some s1" "repr s1 (ys @ [x])" using push_law [of s ys x] Cons.prems by auto
  with Cons.IH [of s1 "ys @ [x]"] Cons.prems(2) show ?case by auto
qed simp

lemma pop_n_ok: "repr s (ys @ xs) \<Longrightarrow> \<exists>s'. pop_n (length xs) s = Some (rev xs, s') \<and> repr s' ys"
proof (induction xs arbitrary: s rule: rev_induct)
  case (snoc x xs)
  obtain s1 where "pop s = Some (x, s1)" "repr s1 (ys @ xs)" using pop_law [of s "ys @ xs" x] snoc.prems by auto
  with snoc.IH [of s1] show ?case by auto
qed simp

text \<open>What was pushed comes back in reverse order and the stack below is untouched.\<close>

lemma push_pop_all:
  assumes "repr s ys" "length ys + length xs \<le> cap"
  shows "\<exists>s1 s2. push_all xs s = Some s1 \<and> pop_n (length xs) s1 = Some (rev xs, s2) \<and> repr s2 ys"
  using push_all_ok [OF assms] pop_n_ok by blast

end

subsubsection \<open>\<open>zend_stack\<close>\<close>

definition stack_repr :: "'a zend_stack \<Rightarrow> 'a list \<Rightarrow> bool" where
  "stack_repr s xs \<longleftrightarrow> st_top s = length xs \<and> length xs \<le> st_max s \<and>
     (\<exists>es. st_elements s = Some (map Some xs @ es) \<and> length xs + length es = st_max s)"

lemma stack_repr_init: "stack_repr (snd zend_stack_init) []"
  by (simp add: stack_repr_def zend_stack_init_def)

lemma stack_read_repr: "stack_repr s xs \<Longrightarrow> i < length xs \<Longrightarrow> stack_read s i = Some (xs ! i)"
  by (auto simp: stack_repr_def stack_read_def nth_append)

lemma stack_push_repr:
  assumes "stack_repr s xs" "int (length xs + STACK_BLOCK_SIZE) \<le> INT_MAX"
  shows "\<exists>s'. zend_stack_push s x = Some (length xs, s') \<and> stack_repr s' (xs @ [x])"
proof -
  obtain s1 es where s1: "stack_grow s = Some s1" "st_top s1 = length xs" "st_elements s1 = Some (map Some xs @ es)"
    "length xs + length es = st_max s1" "es \<noteq> []"
  proof -
    obtain es where es: "st_top s = length xs" "st_elements s = Some (map Some xs @ es)" "length xs + length es = st_max s"
      using assms(1) by (auto simp: stack_repr_def)
    show thesis
    proof (cases "st_top s \<ge> st_max s")
      case True
      with es assms(2) that show thesis by (simp add: stack_grow_def STACK_BLOCK_SIZE_def)
    next
      case False
      with es have "es \<noteq> []" by auto
      with False es that [of s es] show thesis by (simp add: stack_grow_def)
    qed
  qed
  then obtain e es' where es: "es = e # es'" by (cases es) auto
  show ?thesis using s1 es
    by (auto simp: zend_stack_push_def stack_repr_def list_update_append)
qed

lemma stack_del_top_repr:
  assumes "stack_repr s (xs @ [x])"
  shows "zend_stack_top s = Some (SUCCESS, Some x)"
    and "\<exists>s'. zend_stack_del_top s = Some (SUCCESS, s') \<and> stack_repr s' xs"
  using assms stack_read_repr [OF assms, of "length xs"]
  by (auto simp: stack_repr_def zend_stack_top_def zend_stack_del_top_def list_update_append)

definition stack_pop :: "'a zend_stack \<Rightarrow> ('a \<times> 'a zend_stack) option" where
  "stack_pop s = do { (r, e) \<leftarrow> zend_stack_top s; x \<leftarrow> e; (r, s) \<leftarrow> zend_stack_del_top s; Some (x, s) }"

interpretation zs: lifo stack_repr "\<lambda>s x. map_option snd (zend_stack_push s x)" stack_pop "nat INT_MAX - STACK_BLOCK_SIZE"
proof
  fix s :: "'a zend_stack" and xs :: "'a list" and x
  assume "stack_repr s xs" "length xs < nat INT_MAX - STACK_BLOCK_SIZE"
  then show "\<exists>s'. map_option snd (zend_stack_push s x) = Some s' \<and> stack_repr s' (xs @ [x])"
    using stack_push_repr [of s xs x] by (auto simp: INT_MAX_def STACK_BLOCK_SIZE_def)
next
  fix s :: "'a zend_stack" and xs x
  assume "stack_repr s (xs @ [x])"
  from stack_del_top_repr [OF this] show "\<exists>s'. stack_pop s = Some (x, s') \<and> stack_repr s' xs"
    by (auto simp: stack_pop_def)
qed

subsubsection \<open>\<open>zend_ptr_stack\<close>\<close>

definition pstack_repr :: "'a zend_ptr_stack \<Rightarrow> 'a list \<Rightarrow> bool" where
  "pstack_repr s xs \<longleftrightarrow> ps_top s = int (length xs) \<and> ps_top_element s = ps_top s \<and>
     (\<exists>es. ps_elements s = map Some xs @ es \<and> ps_max s = int (length xs + length es))"

lemma pstack_repr_init: "pstack_repr (zend_ptr_stack_init_ex p) []"
  by (simp add: pstack_repr_def zend_ptr_stack_init_ex_def)

lemma pstack_resize_repr:
  assumes "pstack_repr s xs" "2 * int (length xs) + 3 * c \<le> INT_MAX" "0 \<le> c"
  shows "\<exists>s'. ZEND_PTR_STACK_RESIZE_IF_NEEDED s c = Some s' \<and> pstack_repr s' xs \<and> int (length xs) + c \<le> ps_max s'"
proof (cases "ps_top s + c > ps_max s")
  case True
  then have "ps_max s * 2 + c \<le> INT_MAX" using assms by (simp add: pstack_repr_def)
  with True show ?thesis
    using assms by (auto simp: ZEND_PTR_STACK_RESIZE_IF_NEEDED_def pstack_repr_def Let_def)
next
  case False
  with assms show ?thesis by (auto simp: ZEND_PTR_STACK_RESIZE_IF_NEEDED_def pstack_repr_def)
qed

lemma pstack_put_repr:
  assumes "pstack_repr s xs" "int (length xs) < ps_max s"
  shows "\<exists>s'. ptr_stack_put x (s\<lparr>ps_top := ps_top s + 1\<rparr>) = Some s' \<and> pstack_repr s' (xs @ [x]) \<and> ps_max s' = ps_max s"
proof -
  obtain e es where "ps_elements s = map Some xs @ e # es" "ps_max s = int (length xs + Suc (length es))"
    using assms by (auto simp: pstack_repr_def) (metis add.right_neutral length_Cons list.exhaust list.size(3))
  with assms show ?thesis by (auto simp: pstack_repr_def ptr_stack_put_def list_update_append)
qed

lemma pstack_take_repr:
  assumes "pstack_repr s (xs @ [x])"
  shows "\<exists>s'. ptr_stack_take s = Some (x, s') \<and> pstack_repr (s'\<lparr>ps_top := ps_top s' - 1\<rparr>) xs \<and> ps_top s' = ps_top s"
  using assms by (auto simp: pstack_repr_def ptr_stack_take_def Let_def nth_append)

lemma pstack_push_repr:
  assumes "pstack_repr s xs" "2 * int (length xs) + 3 \<le> INT_MAX"
  shows "\<exists>s'. zend_ptr_stack_push s x = Some s' \<and> pstack_repr s' (xs @ [x])"
proof -
  obtain s1 where s1: "ZEND_PTR_STACK_RESIZE_IF_NEEDED s 1 = Some s1" "pstack_repr s1 xs" "int (length xs) + 1 \<le> ps_max s1"
    using pstack_resize_repr [OF assms(1), of 1] assms(2) by auto
  then show ?thesis using pstack_put_repr [OF s1(2), of x] by (auto simp: zend_ptr_stack_push_def)
qed

lemma pstack_pop_repr:
  assumes "pstack_repr s (xs @ [x])"
  shows "\<exists>s'. zend_ptr_stack_pop s = Some (x, s') \<and> pstack_repr s' xs"
  using assms by (auto simp: pstack_repr_def zend_ptr_stack_pop_def ptr_stack_take_def Let_def nth_append)

interpretation zps: lifo pstack_repr zend_ptr_stack_push zend_ptr_stack_pop "nat (INT_MAX div 2) - 1"
proof
  fix s :: "'a zend_ptr_stack" and xs :: "'a list" and x
  assume "pstack_repr s xs" "length xs < nat (INT_MAX div 2) - 1"
  then show "\<exists>s'. zend_ptr_stack_push s x = Some s' \<and> pstack_repr s' (xs @ [x])"
    using pstack_push_repr [of s xs x] by (auto simp: INT_MAX_def)
qed (rule pstack_pop_repr)

text \<open>The variadic push agrees with pushing one by one, after a single resize.\<close>

lemma ptr_stack_push_loop_repr:
  "pstack_repr s ys \<Longrightarrow> int (length ys + length xs) \<le> ps_max s \<Longrightarrow>
   \<exists>s'. ptr_stack_push_loop xs s = Some s' \<and> pstack_repr s' (ys @ xs)"
proof (induction xs arbitrary: s ys)
  case (Cons x xs)
  obtain s1 where "ptr_stack_put x (s\<lparr>ps_top := ps_top s + 1\<rparr>) = Some s1" "pstack_repr s1 (ys @ [x])" "ps_max s1 = ps_max s"
    using pstack_put_repr [OF Cons.prems(1), of x] Cons.prems(2) by auto
  with Cons.IH [of s1 "ys @ [x]"] Cons.prems(2) show ?case by auto
qed simp

lemma pstack_n_push_repr:
  assumes "pstack_repr s ys" "2 * int (length ys) + 3 * int (length xs) \<le> INT_MAX"
  shows "\<exists>s'. zend_ptr_stack_n_push s xs = Some s' \<and> pstack_repr s' (ys @ xs)"
proof -
  obtain s1 where s1: "ZEND_PTR_STACK_RESIZE_IF_NEEDED s (int (length xs)) = Some s1" "pstack_repr s1 ys"
      "int (length ys) + int (length xs) \<le> ps_max s1"
    using pstack_resize_repr [OF assms(1), of "int (length xs)"] assms(2) by auto
  then show ?thesis using ptr_stack_push_loop_repr [OF s1(2), of xs] by (auto simp: zend_ptr_stack_n_push_def)
qed

lemma pstack_n_pop_repr:
  "pstack_repr s (ys @ xs) \<Longrightarrow> \<exists>s'. zend_ptr_stack_n_pop s (length xs) = Some (rev xs, s') \<and> pstack_repr s' ys"
proof (induction xs arbitrary: s rule: rev_induct)
  case (snoc x xs)
  obtain s1 where "ptr_stack_take s = Some (x, s1)" "pstack_repr (s1\<lparr>ps_top := ps_top s1 - 1\<rparr>) (ys @ xs)"
    using pstack_take_repr [of s "ys @ xs" x] snoc.prems by auto
  with snoc.IH [of "s1\<lparr>ps_top := ps_top s1 - 1\<rparr>"] show ?case by auto
qed simp


text \<open>C38: \<open>zend_stack_push\<close> grows the array when it is full, stores a copy and returns its
  index; \<open>zend_stack_top\<close> then reads that element and \<open>zend_stack_del_top\<close> frees exactly it,
  restoring the stack. On an empty stack \<open>zend_stack_top\<close> fails and \<open>zend_stack_del_top\<close>
  does nothing.\<close>

theorem zend_stack_lifo:
  assumes "stack_repr s xs" "int (length xs + STACK_BLOCK_SIZE) \<le> INT_MAX"
  shows "(\<exists>s' s''. zend_stack_push s x = Some (length xs, s') \<and> stack_repr s' (xs @ [x]) \<and>
      zend_stack_top s' = Some (SUCCESS, Some x) \<and> zend_stack_count s' = Suc (zend_stack_count s) \<and>
      zend_stack_del_top s' = Some (SUCCESS, s'') \<and> stack_repr s'' xs) \<and>
    (xs = [] \<longrightarrow> zend_stack_top s = Some (FAILURE, None) \<and> zend_stack_del_top s = Some (SUCCESS, s) \<and>
      zend_stack_is_empty s = 1)"
proof -
  obtain s' where s': "zend_stack_push s x = Some (length xs, s')" "stack_repr s' (xs @ [x])"
    using stack_push_repr [OF assms, of x] by blast
  then show ?thesis
    using stack_del_top_repr [OF s'(2)] assms(1)
    by (auto simp: stack_repr_def zend_stack_count_def zend_stack_top_def zend_stack_del_top_def zend_stack_is_empty_def)
qed

theorem zend_stack_lifo_witness:
  "\<exists>s' s''. zend_stack_push (snd zend_stack_init) (5::int) = Some (0, s') \<and> stack_repr s' [5] \<and>
      zend_stack_top s' = Some (SUCCESS, Some 5) \<and> zend_stack_del_top s' = Some (SUCCESS, s'') \<and> stack_repr s'' []"
proof -
  have "int (length ([] :: int list) + STACK_BLOCK_SIZE) \<le> INT_MAX" by (simp add: INT_MAX_def STACK_BLOCK_SIZE_def)
  from zend_stack_lifo [OF stack_repr_init this, of 5] show ?thesis by auto
qed

text \<open>The visiting order of \<open>zend_stack_apply\<close>, as a computation on the sequence.\<close>

fun visit :: "('a \<Rightarrow> 's \<Rightarrow> bool \<times> 'a \<times> 's) \<Rightarrow> 'a list \<Rightarrow> 's \<Rightarrow> 'a list \<times> 's" where
  "visit f [] s = ([], s)"
| "visit f (x # xs) s =
     (let (stop, x, s) = f x s in if stop then (x # xs, s) else let (xs, s) = visit f xs s in (x # xs, s))"

lemma length_visit: "length (fst (visit f xs s)) = length xs"
  by (induction f xs s rule: visit.induct) (auto split: prod.splits)

lemma stack_apply_up:
  "visit f ys s = (ys', s') \<Longrightarrow>
   stack_apply_loop f [length xs..<length xs + length ys] (map Some xs @ map Some ys @ es) s =
     Some (map Some xs @ map Some ys' @ es, s')"
proof (induction ys arbitrary: xs s ys')
  case (Cons y ys)
  obtain stop y1 s1 where f: "f y s = (stop, y1, s1)" using prod_cases3 by blast
  have up: "[length xs..<length xs + length (y # ys)] = length xs # [length (xs @ [y1])..<length (xs @ [y1]) + length ys]"
    by (subst upt_conv_Cons) simp_all
  show ?case
  proof (cases stop)
    case True
    then show ?thesis using f Cons.prems unfolding up by (auto simp: nth_append list_update_append)
  next
    case False
    then obtain zs where zs: "visit f ys s1 = (zs, s')" "ys' = y1 # zs" using Cons.prems f by (auto split: prod.splits)
    show ?thesis
      using f False zs Cons.IH [OF zs(1), of "xs @ [y1]"] unfolding up by (auto simp: nth_append list_update_append)
  qed
qed simp

lemma stack_apply_down:
  "visit f (rev ys) s = (zs, s') \<Longrightarrow>
   stack_apply_loop f (rev [0..<length ys]) (map Some ys @ es) s = Some (map Some (rev zs) @ es, s')"
proof (induction ys arbitrary: s zs es rule: rev_induct)
  case (snoc y ys)
  obtain stop y1 s1 where f: "f y s = (stop, y1, s1)" using prod_cases3 by blast
  show ?case
  proof (cases stop)
    case True
    then show ?thesis using f snoc.prems by (auto simp: nth_append list_update_append rev_map [symmetric])
  next
    case False
    then obtain ws where ws: "visit f (rev ys) s1 = (ws, s')" "zs = y1 # ws" using snoc.prems f by (auto split: prod.splits)
    show ?thesis
      using f False ws snoc.IH [OF ws(1), of "Some y1 # es"] by (auto simp: nth_append list_update_append)
  qed
qed simp

text \<open>C39: \<open>zend_stack_apply\<close> calls the function on every element, from the top down or from the
  bottom up, in order and up to the first call that returns true; elements it does not reach are
  unchanged.\<close>

theorem zend_stack_apply_order:
  assumes "stack_repr s xs"
  shows "(\<exists>s'. zend_stack_apply s ZEND_STACK_APPLY_TOPDOWN f env = Some (s', snd (visit f (rev xs) env)) \<and>
      stack_repr s' (rev (fst (visit f (rev xs) env)))) \<and>
    (\<exists>s'. zend_stack_apply s ZEND_STACK_APPLY_BOTTOMUP f env = Some (s', snd (visit f xs env)) \<and>
      stack_repr s' (fst (visit f xs env)))"
proof -
  obtain es where es: "st_top s = length xs" "st_elements s = Some (map Some xs @ es)" "length xs + length es = st_max s"
    using assms by (auto simp: stack_repr_def)
  obtain us u vs v where uv: "visit f (rev xs) env = (us, u)" "visit f xs env = (vs, v)" by fastforce
  have "length us = length xs" "length vs = length xs"
    using length_visit [of f "rev xs" env] length_visit [of f xs env] by (simp_all add: uv)
  then show ?thesis
    using es stack_apply_down [OF uv(1), of es] stack_apply_up [OF uv(2), of "[]" es] uv
    by (auto simp: zend_stack_apply_def stack_repr_def)
qed

theorem zend_stack_apply_order_witness:
  "\<exists>s1 s2 s'. zend_stack_push (snd zend_stack_init) (1::int) = Some (0, s1) \<and> zend_stack_push s1 2 = Some (1, s2) \<and>
    zend_stack_apply s2 ZEND_STACK_APPLY_TOPDOWN (\<lambda>x t. (False, x, t @ [x])) [] = Some (s', [2, 1])"
proof -
  have r: "int (length ([] :: int list) + STACK_BLOCK_SIZE) \<le> INT_MAX" "int (length [1::int] + STACK_BLOCK_SIZE) \<le> INT_MAX"
    by (simp_all add: INT_MAX_def STACK_BLOCK_SIZE_def)
  obtain s1 where s1: "zend_stack_push (snd zend_stack_init) (1::int) = Some (0, s1)" "stack_repr s1 [1]"
    using stack_push_repr [OF stack_repr_init r(1), of 1] by auto
  obtain s2 where s2: "zend_stack_push s1 2 = Some (1, s2)" "stack_repr s2 [1, 2]"
    using stack_push_repr [OF s1(2) r(2), of 2] by auto
  show ?thesis
    using s1(1) s2(1) zend_stack_apply_order [OF s2(2), of "\<lambda>x t. (False, x, t @ [x])" "[]"] by auto
qed

text \<open>C40: pushing \<open>n\<close> pointers with \<open>zend_ptr_stack_n_push\<close>, whatever resize that takes, and
  popping \<open>n\<close> gives them back in reverse order and restores the stack.\<close>

theorem zend_ptr_stack_push_pop:
  assumes "pstack_repr s ys" "2 * int (length ys) + 3 * int (length xs) \<le> INT_MAX"
  shows "\<exists>s' s''. zend_ptr_stack_n_push s xs = Some s' \<and> zend_ptr_stack_num_elements s' = int (length ys + length xs) \<and>
    zend_ptr_stack_n_pop s' (length xs) = Some (rev xs, s'') \<and> pstack_repr s'' ys"
proof -
  obtain s' where s': "zend_ptr_stack_n_push s xs = Some s'" "pstack_repr s' (ys @ xs)"
    using pstack_n_push_repr [OF assms] by blast
  then show ?thesis
    using pstack_n_pop_repr [OF s'(2)] by (auto simp: zend_ptr_stack_num_elements_def pstack_repr_def)
qed

theorem zend_ptr_stack_push_pop_witness:
  "\<exists>s' s''. zend_ptr_stack_n_push (zend_ptr_stack_init_ex False) [1, 2, 3 :: nat] = Some s' \<and>
     zend_ptr_stack_num_elements s' = int (length ([] :: nat list) + length [1, 2, 3 :: nat]) \<and>
     zend_ptr_stack_n_pop s' (length [1, 2, 3 :: nat]) = Some (rev [1, 2, 3], s'') \<and> pstack_repr s'' []"
  by (rule zend_ptr_stack_push_pop [OF pstack_repr_init]) (simp add: INT_MAX_def)

text \<open>The unrolled two- and three-element pushes and pops of the header agree with the
  variadic ones.\<close>

lemma zend_ptr_stack_unrolled:
  "zend_ptr_stack_2_push s a b = zend_ptr_stack_n_push s [a, b] \<and>
   zend_ptr_stack_3_push s a b c = zend_ptr_stack_n_push s [a, b, c] \<and>
   zend_ptr_stack_2_pop s = map_option (\<lambda>(xs, t). ((xs ! 0, xs ! 1), t)) (zend_ptr_stack_n_pop s 2) \<and>
   zend_ptr_stack_3_pop s = map_option (\<lambda>(xs, t). ((xs ! 0, xs ! 1, xs ! 2), t)) (zend_ptr_stack_n_pop s 3)"
proof (intro conjI)
  show "zend_ptr_stack_2_push s a b = zend_ptr_stack_n_push s [a, b]"
    "zend_ptr_stack_3_push s a b c = zend_ptr_stack_n_push s [a, b, c]"
    by (cases "ZEND_PTR_STACK_RESIZE_IF_NEEDED s 2"; cases "ZEND_PTR_STACK_RESIZE_IF_NEEDED s 3";
        simp add: zend_ptr_stack_2_push_def zend_ptr_stack_3_push_def zend_ptr_stack_n_push_def ptr_stack_put_def upd_opt_def)+
  show "zend_ptr_stack_2_pop s = map_option (\<lambda>(xs, t). ((xs ! 0, xs ! 1), t)) (zend_ptr_stack_n_pop s 2)"
    "zend_ptr_stack_3_pop s = map_option (\<lambda>(xs, t). ((xs ! 0, xs ! 1, xs ! 2), t)) (zend_ptr_stack_n_pop s 3)"
    by (auto simp: zend_ptr_stack_2_pop_def zend_ptr_stack_3_pop_def numeral_2_eq_2 numeral_3_eq_3 ptr_stack_take_def
        Let_def split: Option.bind_split)
qed

end
