(* ===== verification/Hash_Func.thy ===== *)
theory Hash_Func
  imports Prelude
begin

unbundle bit_operations_syntax

text \<open>
  The hash function of \<open>Zend/zend_hash.h\<close>: the unrolled loop \<open>zend_inline_hash_func\<close>, and the
  recurrence \<open>hash * 33 + c\<close> its comment describes. \<open>char\<close> is signed on the platforms the
  repository builds for, so a byte from 128 up is added as a negative number.
\<close>

definition hash_step :: "ulong \<Rightarrow> byte \<Rightarrow> ulong" where
  "hash_step hash c = (push_bit 5 hash + hash) + scast c"

text \<open>The \<open>for\<close> loop: eight steps per round while at least eight bytes are left.\<close>

fun hash_unrolled :: "ulong \<Rightarrow> byte list \<Rightarrow> ulong \<times> byte list" where
  "hash_unrolled hash (c0 # c1 # c2 # c3 # c4 # c5 # c6 # c7 # rest) =
     (let hash = hash_step hash c0; hash = hash_step hash c1; hash = hash_step hash c2; hash = hash_step hash c3;
          hash = hash_step hash c4; hash = hash_step hash c5; hash = hash_step hash c6; hash = hash_step hash c7
      in hash_unrolled hash rest)"
| "hash_unrolled hash rest = (hash, rest)"

text \<open>The fall-through \<open>switch\<close> over the remaining length.\<close>

definition hash_switch :: "ulong \<Rightarrow> byte list \<Rightarrow> ulong" where
  "hash_switch hash k =
     (let n = length k; at = (\<lambda>j. k ! (n - j));
          hash = (if 7 \<le> n then hash_step hash (at 7) else hash);
          hash = (if 6 \<le> n then hash_step hash (at 6) else hash);
          hash = (if 5 \<le> n then hash_step hash (at 5) else hash);
          hash = (if 4 \<le> n then hash_step hash (at 4) else hash);
          hash = (if 3 \<le> n then hash_step hash (at 3) else hash);
          hash = (if 2 \<le> n then hash_step hash (at 2) else hash);
          hash = (if 1 \<le> n then hash_step hash (at 1) else hash)
      in hash)"

definition zend_inline_hash_func :: "byte list \<Rightarrow> uint \<Rightarrow> ulong" where
  "zend_inline_hash_func arKey nKeyLength =
     (let (hash, rest) = hash_unrolled 5381 (take (unat nKeyLength) arKey) in hash_switch hash rest)"

definition zend_hash_func :: "byte list \<Rightarrow> uint \<Rightarrow> ulong" where
  "zend_hash_func arKey nKeyLength = zend_inline_hash_func arKey nKeyLength"

definition zend_get_hash_value :: "byte list \<Rightarrow> uint \<Rightarrow> ulong" where
  "zend_get_hash_value arKey nKeyLength = zend_inline_hash_func arKey nKeyLength"

subsection \<open>The unrolled loop is the recurrence\<close>

definition djbx33a :: "byte list \<Rightarrow> ulong" where
  "djbx33a k = foldl (\<lambda>h c. h * 33 + scast c) 5381 k"

lemma hash_step_eq: "hash_step h c = h * 33 + scast c"
proof -
  have "push_bit 5 h = h * 32" by (simp add: push_bit_eq_mult)
  then show ?thesis by (simp add: hash_step_def)
qed

lemma hash_unrolled_foldl:
  "foldl hash_step (fst (hash_unrolled h k)) (snd (hash_unrolled h k)) = foldl hash_step h k \<and>
   length (snd (hash_unrolled h k)) < 8"
  by (induction h k rule: hash_unrolled.induct) (auto simp: Let_def)

lemma hash_switch_foldl: "length k < 8 \<Longrightarrow> hash_switch h k = foldl hash_step h k"
proof -
  have *: "length k < 8 \<Longrightarrow> \<exists>a b c d e f g. k \<in> {[], [a], [a, b], [a, b, c], [a, b, c, d], [a, b, c, d, e],
      [a, b, c, d, e, f], [a, b, c, d, e, f, g]}"
    by (auto simp: numeral_eq_Suc less_Suc_eq_le le_Suc_eq length_Suc_conv)
  assume "length k < 8"
  from * [OF this] show ?thesis by (auto simp: hash_switch_def Let_def)
qed

lemma zend_inline_hash_func_foldl: "zend_inline_hash_func k n = foldl hash_step 5381 (take (unat n) k)"
  using hash_unrolled_foldl [of 5381 "take (unat n) k"]
  by (auto simp: zend_inline_hash_func_def hash_switch_foldl split: prod.splits)

text \<open>The hash depends on the first \<open>nKeyLength\<close> bytes only.\<close>

lemma zend_inline_hash_func_take:
  "take (unat n) k = take (unat n) k' \<Longrightarrow> zend_inline_hash_func k n = zend_inline_hash_func k' n"
  by (simp add: zend_inline_hash_func_def)

text \<open>C33: the eight-times unrolled loop with its fall-through switch computes DJBX33A,
  \<open>hash(i) = hash(i-1) * 33 + str[i]\<close> from 5381 over \<open>unsigned long\<close>, for every key and
  every length.\<close>

theorem zend_inline_hash_func_djbx33a:
  "zend_inline_hash_func arKey nKeyLength = djbx33a (take (unat nKeyLength) arKey)"
  by (simp add: zend_inline_hash_func_foldl djbx33a_def hash_step_eq [abs_def])

end
