(* ===== verification/Hash_Table.thy ===== *)
theory Hash_Table
  imports Dll Hash_Func
begin

unbundle bit_operations_syntax

text \<open>
  The model of \<open>Zend/zend_hash.c\<close>, the ordered hash table every PHP array, symbol table and
  object property table is made of: its structures and all of its operations.

  The table header is a record. Its buckets live in the record's store \<open>ht_store\<close>, at addresses
  handed out in increasing order. The object \<open>pData\<close> points to is one abstract value; whether it
  is kept in the bucket's own \<open>pDataPtr\<close> (when \<open>nDataSize\<close> is the size of a pointer) or in a
  block of its own is recorded by the constructor. \<open>arBuckets\<close> is the array of chain heads, and
  is \<open>[]\<close> when it is \<open>NULL\<close> or freed, so that an access to it then has no result. A destructor
  is known by whether it is set, and every call is appended to \<open>ht_dtor_log\<close> with the value it
  was called for. \<open>ht_realloc_ok\<close> says whether the one allocation that may fail without ending
  the process, \<open>perealloc_recoverable\<close> in \<open>zend_hash_do_resize\<close>, succeeds.

  Where the C code hands out \<open>p->pData\<close> the model hands out the bucket's address. A destructor
  or callback that changes the table it is called from is not covered.
\<close>

datatype 'v pdata = InPtr 'v | Block 'v

primrec pd_val :: "'v pdata \<Rightarrow> 'v" where
  "pd_val (InPtr v) = v"
| "pd_val (Block v) = v"

record 'v bucket =
  bk_h :: ulong
  bk_nKeyLength :: uint
  bk_pData :: "'v pdata"
  pListNext :: "addr option"
  pListLast :: "addr option"
  pNext :: "addr option"
  pLast :: "addr option"
  bk_arKey :: "byte list"

record 'v HashTable =
  nTableSize :: uint
  nTableMask :: uint
  nNumOfElements :: uint
  nNextFreeElement :: ulong
  pInternalPointer :: "addr option"
  pListHead :: "addr option"
  pListTail :: "addr option"
  arBuckets :: "addr option list"
  pDestructor :: bool
  ht_persistent :: bool
  nApplyCount :: byte
  bApplyProtection :: bool
  ht_store :: "'v bucket store"
  ht_brk :: addr
  ht_dtor_log :: "'v list"
  ht_realloc_ok :: bool

record zend_hash_key =
  hk_arKey :: "byte list"
  hk_nKeyLength :: uint
  hk_h :: ulong

record HashPointer =
  hp_pos :: "addr option"
  hp_h :: ulong

definition HASH_UPDATE :: uint where "HASH_UPDATE = 1"
definition HASH_ADD :: uint where "HASH_ADD = 2"
definition HASH_NEXT_INSERT :: uint where "HASH_NEXT_INSERT = 4"

definition HASH_DEL_KEY :: uint where "HASH_DEL_KEY = 0"
definition HASH_DEL_INDEX :: uint where "HASH_DEL_INDEX = 1"
definition HASH_DEL_KEY_QUICK :: uint where "HASH_DEL_KEY_QUICK = 2"

definition HASH_UPDATE_KEY_IF_BEFORE :: uint where "HASH_UPDATE_KEY_IF_BEFORE = 1"
definition HASH_UPDATE_KEY_IF_AFTER :: uint where "HASH_UPDATE_KEY_IF_AFTER = 2"
definition HASH_UPDATE_KEY_ANYWAY :: uint where "HASH_UPDATE_KEY_ANYWAY = 3"

definition ZEND_HASH_APPLY_REMOVE :: uint where "ZEND_HASH_APPLY_REMOVE = 1"
definition ZEND_HASH_APPLY_STOP :: uint where "ZEND_HASH_APPLY_STOP = 2"

datatype key_type = HASH_KEY_IS_STRING | HASH_KEY_IS_LONG | HASH_KEY_NON_EXISTANT

definition LONG_MAX :: ulong where "LONG_MAX = 2 ^ 63 - 1"

definition sizeof_void_ptr :: uint where "sizeof_void_ptr = 8"

lemmas flag_defs = HASH_UPDATE_def HASH_ADD_def HASH_NEXT_INSERT_def HASH_DEL_KEY_def HASH_DEL_INDEX_def
  HASH_DEL_KEY_QUICK_def HASH_UPDATE_KEY_IF_BEFORE_def HASH_UPDATE_KEY_IF_AFTER_def
  HASH_UPDATE_KEY_ANYWAY_def ZEND_HASH_APPLY_REMOVE_def ZEND_HASH_APPLY_STOP_def

subsection \<open>Memory access\<close>

definition ht_poke :: "addr \<Rightarrow> ('v bucket \<Rightarrow> 'v bucket) \<Rightarrow> 'v HashTable \<Rightarrow> 'v HashTable option" where
  "ht_poke a f ht = map_option (\<lambda>s. ht\<lparr>ht_store := s\<rparr>) (poke a f (ht_store ht))"

text \<open>\<open>if (p) p->field = ...\<close>\<close>

definition ht_poke_opt :: "addr option \<Rightarrow> ('v bucket \<Rightarrow> 'v bucket) \<Rightarrow> 'v HashTable \<Rightarrow> 'v HashTable option" where
  "ht_poke_opt p f ht = map_option (\<lambda>s. ht\<lparr>ht_store := s\<rparr>) (poke_opt p f (ht_store ht))"

definition ht_alloc :: "'v bucket \<Rightarrow> 'v HashTable \<Rightarrow> addr \<times> 'v HashTable" where
  "ht_alloc b ht = (ht_brk ht, ht\<lparr>ht_store := (ht_store ht)(ht_brk ht \<mapsto> b), ht_brk := Suc (ht_brk ht)\<rparr>)"

definition ht_free :: "addr \<Rightarrow> 'v HashTable \<Rightarrow> 'v HashTable" where
  "ht_free a ht = ht\<lparr>ht_store := (ht_store ht)(a := None)\<rparr>"

definition ht_call_dtor :: "'v pdata \<Rightarrow> 'v HashTable \<Rightarrow> 'v HashTable" where
  "ht_call_dtor d ht = (if pDestructor ht then ht\<lparr>ht_dtor_log := ht_dtor_log ht @ [pd_val d]\<rparr> else ht)"

text \<open>The chain head slot of a hash value, \<open>h & ht->nTableMask\<close> stored in a \<open>uint\<close>.\<close>

definition nIndex :: "'v HashTable \<Rightarrow> ulong \<Rightarrow> nat" where
  "nIndex ht h = unat (ucast (h AND ucast (nTableMask ht)) :: uint)"

definition ht_head :: "'v HashTable \<Rightarrow> nat \<Rightarrow> addr option option" where
  "ht_head ht i = nth_opt (arBuckets ht) i"

definition ht_set_head :: "nat \<Rightarrow> addr option \<Rightarrow> 'v HashTable \<Rightarrow> 'v HashTable option" where
  "ht_set_head i p ht = map_option (\<lambda>t. ht\<lparr>arBuckets := t\<rparr>) (upd_opt (arBuckets ht) i p)"

text \<open>\<open>memcmp(s1, s2, n) == 0\<close>\<close>

definition memcmp_eq :: "byte list \<Rightarrow> byte list \<Rightarrow> uint \<Rightarrow> bool" where
  "memcmp_eq s1 s2 n \<longleftrightarrow> take (unat n) s1 = take (unat n) s2"

subsection \<open>The macros\<close>

definition CONNECT_TO_BUCKET_DLLIST :: "addr \<Rightarrow> addr option \<Rightarrow> 'v HashTable \<Rightarrow> 'v HashTable option" where
  "CONNECT_TO_BUCKET_DLLIST element list_head ht =
     do {
       ht \<leftarrow> ht_poke element (\<lambda>b. b\<lparr>pNext := list_head\<rparr>) ht;
       ht \<leftarrow> ht_poke element (\<lambda>b. b\<lparr>pLast := None\<rparr>) ht;
       b \<leftarrow> ht_store ht element;
       ht_poke_opt (pNext b) (\<lambda>b. b\<lparr>pLast := Some element\<rparr>) ht
     }"

definition CONNECT_TO_GLOBAL_DLLIST :: "addr \<Rightarrow> 'v HashTable \<Rightarrow> 'v HashTable option" where
  "CONNECT_TO_GLOBAL_DLLIST element ht =
     do {
       ht \<leftarrow> ht_poke element (\<lambda>b. b\<lparr>pListLast := pListTail ht\<rparr>) ht;
       let ht = ht\<lparr>pListTail := Some element\<rparr>;
       ht \<leftarrow> ht_poke element (\<lambda>b. b\<lparr>pListNext := None\<rparr>) ht;
       b \<leftarrow> ht_store ht element;
       ht \<leftarrow> ht_poke_opt (pListLast b) (\<lambda>b. b\<lparr>pListNext := Some element\<rparr>) ht;
       let ht = (if pListHead ht = None then ht\<lparr>pListHead := Some element\<rparr> else ht);
       Some (if pInternalPointer ht = None then ht\<lparr>pInternalPointer := Some element\<rparr> else ht)
     }"

text \<open>Where \<open>INIT_DATA\<close> and \<open>UPDATE_DATA\<close> leave the copy of the caller's \<open>nDataSize\<close> bytes.
  \<open>UPDATE_DATA\<close> frees, allocates or resizes the old block on the way; the result is the same.\<close>

definition INIT_DATA :: "'v \<Rightarrow> uint \<Rightarrow> 'v pdata" where
  "INIT_DATA v nDataSize = (if nDataSize = sizeof_void_ptr then InPtr v else Block v)"

definition UPDATE_DATA :: "'v \<Rightarrow> uint \<Rightarrow> 'v pdata \<Rightarrow> 'v pdata" where
  "UPDATE_DATA v nDataSize old =
     (if nDataSize = sizeof_void_ptr then
        (case old of InPtr _ \<Rightarrow> InPtr v | Block _ \<Rightarrow> InPtr v)
      else
        (case old of InPtr _ \<Rightarrow> Block v | Block _ \<Rightarrow> Block v))"

definition HASH_PROTECT_RECURSION :: "'v HashTable \<Rightarrow> bool \<times> 'v HashTable" where
  "HASH_PROTECT_RECURSION ht =
     (if bApplyProtection ht
      then (3 \<le> nApplyCount ht, ht\<lparr>nApplyCount := nApplyCount ht + 1\<rparr>)
      else (False, ht))"

definition HASH_UNPROTECT_RECURSION :: "'v HashTable \<Rightarrow> 'v HashTable" where
  "HASH_UNPROTECT_RECURSION ht =
     (if bApplyProtection ht then ht\<lparr>nApplyCount := nApplyCount ht - 1\<rparr> else ht)"

text \<open>The two ways out of an operation that may raise \<open>E_ERROR\<close>, which never returns.\<close>

datatype ('s, 'a) outcome = FatalError 's | Done 'a

subsection \<open>Startup\<close>

partial_function (option) hash_init_shift :: "uint \<Rightarrow> nat \<Rightarrow> nat option" where
  "hash_init_shift nSize i = (if push_bit i 1 < nSize then hash_init_shift nSize (i + 1) else Some i)"

text \<open>\<open>calloc_ok\<close> is whether \<open>calloc\<close> succeeds; \<open>ecalloc\<close> ends the process instead of failing.\<close>

definition zend_hash_init :: "bool \<Rightarrow> 'v HashTable \<Rightarrow> uint \<Rightarrow> bool \<Rightarrow> bool \<Rightarrow> (zresult \<times> 'v HashTable) option" where
  "zend_hash_init calloc_ok ht nSize pDtor persistent =
     do {
       tsize \<leftarrow> (if 0x80000000 \<le> nSize then Some 0x80000000
                 else do { i \<leftarrow> hash_init_shift nSize 3; Some (push_bit i 1) });
       let ht = ht\<lparr>nTableSize := tsize, nTableMask := tsize - 1, pDestructor := pDtor, arBuckets := [],
                  pListHead := None, pListTail := None, nNumOfElements := 0, nNextFreeElement := 0,
                  pInternalPointer := None, ht_persistent := persistent, nApplyCount := 0,
                  bApplyProtection := True\<rparr>;
       Some (if persistent \<and> \<not> calloc_ok then (FAILURE, ht)
             else (SUCCESS, ht\<lparr>arBuckets := replicate (unat (nTableSize ht)) None\<rparr>))
     }"

definition zend_hash_init_ex :: "bool \<Rightarrow> 'v HashTable \<Rightarrow> uint \<Rightarrow> bool \<Rightarrow> bool \<Rightarrow> bool \<Rightarrow> (zresult \<times> 'v HashTable) option" where
  "zend_hash_init_ex calloc_ok ht nSize pDtor persistent bApply =
     do {
       (retval, ht) \<leftarrow> zend_hash_init calloc_ok ht nSize pDtor persistent;
       Some (retval, ht\<lparr>bApplyProtection := bApply\<rparr>)
     }"

definition zend_hash_set_apply_protection :: "'v HashTable \<Rightarrow> bool \<Rightarrow> 'v HashTable" where
  "zend_hash_set_apply_protection ht bApply = ht\<lparr>bApplyProtection := bApply\<rparr>"

subsection \<open>Growing\<close>

partial_function (option) hash_rehash_loop :: "addr option \<Rightarrow> 'v HashTable \<Rightarrow> 'v HashTable option" where
  "hash_rehash_loop p ht =
     (case p of
        None \<Rightarrow> Some ht
      | Some a \<Rightarrow> do {
          b \<leftarrow> ht_store ht a;
          let i = nIndex ht (bk_h b);
          head \<leftarrow> ht_head ht i;
          ht \<leftarrow> CONNECT_TO_BUCKET_DLLIST a head ht;
          ht \<leftarrow> ht_set_head i (Some a) ht;
          b \<leftarrow> ht_store ht a;
          hash_rehash_loop (pListNext b) ht
        })"

definition zend_hash_rehash :: "'v HashTable \<Rightarrow> 'v HashTable option" where
  "zend_hash_rehash ht =
     hash_rehash_loop (pListHead ht)
       (ht\<lparr>arBuckets := replicate (unat (nTableSize ht)) None @ drop (unat (nTableSize ht)) (arBuckets ht)\<rparr>)"

text \<open>The new part of the reallocated array is cleared by \<open>zend_hash_rehash\<close> before it is read.\<close>

definition zend_hash_do_resize :: "'v HashTable \<Rightarrow> (zresult \<times> 'v HashTable) option" where
  "zend_hash_do_resize ht =
     (let tsize = push_bit 1 (nTableSize ht) in
      if tsize > 0 then
        if ht_realloc_ok ht then do {
          let ht = ht\<lparr>arBuckets := arBuckets ht @ replicate (unat tsize - length (arBuckets ht)) None\<rparr>;
          let ht = ht\<lparr>nTableSize := tsize, nTableMask := tsize - 1\<rparr>;
          ht \<leftarrow> zend_hash_rehash ht;
          Some (SUCCESS, ht)
        }
        else Some (FAILURE, ht)
      else Some (SUCCESS, ht))"

definition ZEND_HASH_IF_FULL_DO_RESIZE :: "'v HashTable \<Rightarrow> 'v HashTable option" where
  "ZEND_HASH_IF_FULL_DO_RESIZE ht =
     (if nTableSize ht < nNumOfElements ht then map_option snd (zend_hash_do_resize ht) else Some ht)"

subsection \<open>Additions and updates\<close>

text \<open>The loop every operation uses to walk a collision chain: the first bucket that satisfies
  the condition, or the end of the chain.\<close>

partial_function (option) chain_scan :: "'v HashTable \<Rightarrow> (addr \<Rightarrow> 'v bucket \<Rightarrow> bool) \<Rightarrow> addr option \<Rightarrow> addr option option" where
  "chain_scan ht match p =
     (case p of
        None \<Rightarrow> Some None
      | Some a \<Rightarrow> do {
          b \<leftarrow> ht_store ht a;
          if match a b then Some (Some a) else chain_scan ht match (pNext b)
        })"

text \<open>What happens to the bucket an update has found.\<close>

definition hash_replace_data :: "addr \<Rightarrow> 'v \<Rightarrow> uint \<Rightarrow> 'v HashTable \<Rightarrow> 'v HashTable option" where
  "hash_replace_data a v nDataSize ht =
     do {
       b \<leftarrow> ht_store ht a;
       let ht = ht_call_dtor (bk_pData b) ht;
       ht_poke a (\<lambda>b. b\<lparr>bk_pData := UPDATE_DATA v nDataSize (bk_pData b)\<rparr>) ht
     }"

definition zend_hash_add_or_update ::
    "'v HashTable \<Rightarrow> byte list \<Rightarrow> uint \<Rightarrow> 'v \<Rightarrow> uint \<Rightarrow> uint \<Rightarrow> (zresult \<times> addr option \<times> 'v HashTable) option" where
  "zend_hash_add_or_update ht arKey nKeyLength v nDataSize flag =
     (if nKeyLength \<le> 0 then Some (FAILURE, None, ht)
      else do {
        let h = zend_inline_hash_func arKey nKeyLength;
        let i = nIndex ht h;
        head \<leftarrow> ht_head ht i;
        p \<leftarrow> chain_scan ht (\<lambda>_ b. bk_h b = h \<and> bk_nKeyLength b = nKeyLength \<and> memcmp_eq (bk_arKey b) arKey nKeyLength) head;
        case p of
          Some a \<Rightarrow>
            if flag AND HASH_ADD \<noteq> 0 then Some (FAILURE, None, ht)
            else do { ht \<leftarrow> hash_replace_data a v nDataSize ht; Some (SUCCESS, Some a, ht) }
        | None \<Rightarrow> do {
            let (a, ht) = ht_alloc \<lparr>bk_h = h, bk_nKeyLength = nKeyLength, bk_pData = INIT_DATA v nDataSize,
              pListNext = None, pListLast = None, pNext = None, pLast = None,
              bk_arKey = take (unat nKeyLength) arKey\<rparr> ht;
            ht \<leftarrow> CONNECT_TO_BUCKET_DLLIST a head ht;
            ht \<leftarrow> CONNECT_TO_GLOBAL_DLLIST a ht;
            ht \<leftarrow> ht_set_head i (Some a) ht;
            let ht = ht\<lparr>nNumOfElements := nNumOfElements ht + 1\<rparr>;
            ht \<leftarrow> ZEND_HASH_IF_FULL_DO_RESIZE ht;
            Some (SUCCESS, Some a, ht)
          }
      })"

definition zend_hash_index_update_or_next_insert ::
    "'v HashTable \<Rightarrow> ulong \<Rightarrow> 'v \<Rightarrow> uint \<Rightarrow> uint \<Rightarrow> (zresult \<times> addr option \<times> 'v HashTable) option" where
  "zend_hash_index_update_or_next_insert ht h v nDataSize flag =
     (let h = (if flag AND HASH_NEXT_INSERT \<noteq> 0 then nNextFreeElement ht else h);
          i = nIndex ht h;
          bump = (\<lambda>ht. if sint (nNextFreeElement ht) \<le> sint h
                       then ht\<lparr>nNextFreeElement := (if h < LONG_MAX then h + 1 else LONG_MAX)\<rparr> else ht)
      in do {
        head \<leftarrow> ht_head ht i;
        p \<leftarrow> chain_scan ht (\<lambda>_ b. bk_nKeyLength b = 0 \<and> bk_h b = h) head;
        case p of
          Some a \<Rightarrow>
            if flag AND HASH_NEXT_INSERT \<noteq> 0 \<or> flag AND HASH_ADD \<noteq> 0 then Some (FAILURE, None, ht)
            else do { ht \<leftarrow> hash_replace_data a v nDataSize ht; Some (SUCCESS, Some a, bump ht) }
        | None \<Rightarrow> do {
            let (a, ht) = ht_alloc \<lparr>bk_h = h, bk_nKeyLength = 0, bk_pData = INIT_DATA v nDataSize,
              pListNext = None, pListLast = None, pNext = None, pLast = None, bk_arKey = []\<rparr> ht;
            ht \<leftarrow> CONNECT_TO_BUCKET_DLLIST a head ht;
            ht \<leftarrow> ht_set_head i (Some a) ht;
            ht \<leftarrow> CONNECT_TO_GLOBAL_DLLIST a ht;
            let ht = bump ht;
            let ht = ht\<lparr>nNumOfElements := nNumOfElements ht + 1\<rparr>;
            ht \<leftarrow> ZEND_HASH_IF_FULL_DO_RESIZE ht;
            Some (SUCCESS, Some a, ht)
          }
      })"

definition zend_hash_quick_add_or_update ::
    "'v HashTable \<Rightarrow> byte list \<Rightarrow> uint \<Rightarrow> ulong \<Rightarrow> 'v \<Rightarrow> uint \<Rightarrow> uint \<Rightarrow> (zresult \<times> addr option \<times> 'v HashTable) option" where
  "zend_hash_quick_add_or_update ht arKey nKeyLength h v nDataSize flag =
     (if nKeyLength = 0 then zend_hash_index_update_or_next_insert ht h v nDataSize HASH_UPDATE
      else do {
        let i = nIndex ht h;
        head \<leftarrow> ht_head ht i;
        p \<leftarrow> chain_scan ht (\<lambda>_ b. bk_h b = h \<and> bk_nKeyLength b = nKeyLength \<and> memcmp_eq (bk_arKey b) arKey nKeyLength) head;
        case p of
          Some a \<Rightarrow>
            if flag AND HASH_ADD \<noteq> 0 then Some (FAILURE, None, ht)
            else do { ht \<leftarrow> hash_replace_data a v nDataSize ht; Some (SUCCESS, Some a, ht) }
        | None \<Rightarrow> do {
            let (a, ht) = ht_alloc \<lparr>bk_h = h, bk_nKeyLength = nKeyLength, bk_pData = INIT_DATA v nDataSize,
              pListNext = None, pListLast = None, pNext = None, pLast = None,
              bk_arKey = take (unat nKeyLength) arKey\<rparr> ht;
            ht \<leftarrow> CONNECT_TO_BUCKET_DLLIST a head ht;
            ht \<leftarrow> ht_set_head i (Some a) ht;
            ht \<leftarrow> CONNECT_TO_GLOBAL_DLLIST a ht;
            let ht = ht\<lparr>nNumOfElements := nNumOfElements ht + 1\<rparr>;
            ht \<leftarrow> ZEND_HASH_IF_FULL_DO_RESIZE ht;
            Some (SUCCESS, Some a, ht)
          }
      })"

definition zend_hash_update where
  "zend_hash_update ht arKey nKeyLength v nDataSize = zend_hash_add_or_update ht arKey nKeyLength v nDataSize HASH_UPDATE"

definition zend_hash_add where
  "zend_hash_add ht arKey nKeyLength v nDataSize = zend_hash_add_or_update ht arKey nKeyLength v nDataSize HASH_ADD"

definition zend_hash_quick_update where
  "zend_hash_quick_update ht arKey nKeyLength h v nDataSize =
     zend_hash_quick_add_or_update ht arKey nKeyLength h v nDataSize HASH_UPDATE"

definition zend_hash_index_update where
  "zend_hash_index_update ht h v nDataSize = zend_hash_index_update_or_next_insert ht h v nDataSize HASH_UPDATE"

definition zend_hash_next_index_insert where
  "zend_hash_next_index_insert ht v nDataSize = zend_hash_index_update_or_next_insert ht 0 v nDataSize HASH_NEXT_INSERT"

text \<open>\<open>dummy\<close> is the constant \<open>(void *) 1\<close> the source stores.\<close>

definition zend_hash_add_empty_element :: "'v \<Rightarrow> 'v HashTable \<Rightarrow> byte list \<Rightarrow> uint \<Rightarrow> (zresult \<times> addr option \<times> 'v HashTable) option" where
  "zend_hash_add_empty_element dummy ht arKey nKeyLength = zend_hash_add ht arKey nKeyLength dummy sizeof_void_ptr"

subsection \<open>Deletions\<close>

text \<open>The part all deletions share: the bucket leaves the global list and the internal pointer.\<close>

definition hash_unlink_global :: "addr \<Rightarrow> 'v HashTable \<Rightarrow> 'v HashTable option" where
  "hash_unlink_global a ht =
     do {
       p \<leftarrow> ht_store ht a;
       ht \<leftarrow> (case pListLast p of
                Some q \<Rightarrow> ht_poke q (\<lambda>b. b\<lparr>pListNext := pListNext p\<rparr>) ht
              | None \<Rightarrow> Some (ht\<lparr>pListHead := pListNext p\<rparr>));
       p \<leftarrow> ht_store ht a;
       ht \<leftarrow> (case pListNext p of
                Some q \<Rightarrow> ht_poke q (\<lambda>b. b\<lparr>pListLast := pListLast p\<rparr>) ht
              | None \<Rightarrow> Some (ht\<lparr>pListTail := pListLast p\<rparr>));
       p \<leftarrow> ht_store ht a;
       Some (if pInternalPointer ht = Some a then ht\<lparr>pInternalPointer := pListNext p\<rparr> else ht)
     }"

text \<open>Unlinking and freeing bucket \<open>a\<close>, which is in the chain of slot \<open>i\<close>, the way
  \<open>zend_hash_del_key_or_index\<close> and \<open>zend_hash_update_current_key_ex\<close> spell it out.\<close>

definition hash_delete_bucket :: "nat \<Rightarrow> addr \<Rightarrow> 'v HashTable \<Rightarrow> 'v HashTable option" where
  "hash_delete_bucket i a ht =
     do {
       head \<leftarrow> ht_head ht i;
       p \<leftarrow> ht_store ht a;
       ht \<leftarrow> (if head = Some a then ht_set_head i (pNext p) ht
             else case pLast p of
                    None \<Rightarrow> None
                  | Some q \<Rightarrow> ht_poke q (\<lambda>b. b\<lparr>pNext := pNext p\<rparr>) ht);
       p \<leftarrow> ht_store ht a;
       ht \<leftarrow> ht_poke_opt (pNext p) (\<lambda>b. b\<lparr>pLast := pLast p\<rparr>) ht;
       ht \<leftarrow> hash_unlink_global a ht;
       p \<leftarrow> ht_store ht a;
       let ht = ht_free a (ht_call_dtor (bk_pData p) ht);
       Some (ht\<lparr>nNumOfElements := nNumOfElements ht - 1\<rparr>)
     }"

definition zend_hash_del_key_or_index ::
    "'v HashTable \<Rightarrow> byte list \<Rightarrow> uint \<Rightarrow> ulong \<Rightarrow> uint \<Rightarrow> (zresult \<times> 'v HashTable) option" where
  "zend_hash_del_key_or_index ht arKey nKeyLength h flag =
     (let h = (if flag = HASH_DEL_KEY then zend_inline_hash_func arKey nKeyLength else h);
          i = nIndex ht h
      in do {
        head \<leftarrow> ht_head ht i;
        p \<leftarrow> chain_scan ht (\<lambda>_ b. bk_h b = h \<and> bk_nKeyLength b = nKeyLength \<and>
               (bk_nKeyLength b = 0 \<or> memcmp_eq (bk_arKey b) arKey nKeyLength)) head;
        case p of
          Some a \<Rightarrow> do { ht \<leftarrow> hash_delete_bucket i a ht; Some (SUCCESS, ht) }
        | None \<Rightarrow> Some (FAILURE, ht)
      })"

definition zend_hash_del where
  "zend_hash_del ht arKey nKeyLength = zend_hash_del_key_or_index ht arKey nKeyLength 0 HASH_DEL_KEY"

definition zend_hash_quick_del where
  "zend_hash_quick_del ht arKey nKeyLength h = zend_hash_del_key_or_index ht arKey nKeyLength h HASH_DEL_KEY_QUICK"

definition zend_hash_index_del where
  "zend_hash_index_del ht h = zend_hash_del_key_or_index ht [] 0 h HASH_DEL_INDEX"

text \<open>The loop of \<open>zend_hash_destroy\<close> and \<open>zend_hash_clean\<close>.\<close>

partial_function (option) hash_free_all :: "addr option \<Rightarrow> 'v HashTable \<Rightarrow> 'v HashTable option" where
  "hash_free_all p ht =
     (case p of
        None \<Rightarrow> Some ht
      | Some q \<Rightarrow> do {
          b \<leftarrow> ht_store ht q;
          hash_free_all (pListNext b) (ht_free q (ht_call_dtor (bk_pData b) ht))
        })"

definition zend_hash_destroy :: "'v HashTable \<Rightarrow> 'v HashTable option" where
  "zend_hash_destroy ht = do { ht \<leftarrow> hash_free_all (pListHead ht) ht; Some (ht\<lparr>arBuckets := []\<rparr>) }"

definition zend_hash_clean :: "'v HashTable \<Rightarrow> 'v HashTable option" where
  "zend_hash_clean ht =
     hash_free_all (pListHead ht)
       (ht\<lparr>arBuckets := replicate (unat (nTableSize ht)) None @ drop (unat (nTableSize ht)) (arBuckets ht),
          pListHead := None, pListTail := None, nNumOfElements := 0, nNextFreeElement := 0,
          pInternalPointer := None\<rparr>)"

definition zend_hash_apply_deleter :: "'v HashTable \<Rightarrow> addr \<Rightarrow> (addr option \<times> 'v HashTable) option" where
  "zend_hash_apply_deleter ht a =
     do {
       p \<leftarrow> ht_store ht a;
       ht \<leftarrow> (case pLast p of
                Some q \<Rightarrow> ht_poke q (\<lambda>b. b\<lparr>pNext := pNext p\<rparr>) ht
              | None \<Rightarrow> ht_set_head (nIndex ht (bk_h p)) (pNext p) ht);
       p \<leftarrow> ht_store ht a;
       ht \<leftarrow> ht_poke_opt (pNext p) (\<lambda>b. b\<lparr>pLast := pLast p\<rparr>) ht;
       ht \<leftarrow> hash_unlink_global a ht;
       let ht = ht\<lparr>nNumOfElements := nNumOfElements ht - 1\<rparr>;
       p \<leftarrow> ht_store ht a;
       let ht = ht_call_dtor (bk_pData p) ht;
       Some (pListNext p, ht_free a ht)
     }"

partial_function (option) hash_graceful_loop :: "addr option \<Rightarrow> 'v HashTable \<Rightarrow> 'v HashTable option" where
  "hash_graceful_loop p ht =
     (case p of
        None \<Rightarrow> Some ht
      | Some a \<Rightarrow> do { (p, ht) \<leftarrow> zend_hash_apply_deleter ht a; hash_graceful_loop p ht })"

definition zend_hash_graceful_destroy :: "'v HashTable \<Rightarrow> 'v HashTable option" where
  "zend_hash_graceful_destroy ht =
     do { ht \<leftarrow> hash_graceful_loop (pListHead ht) ht; Some (ht\<lparr>arBuckets := []\<rparr>) }"

partial_function (option) hash_graceful_reverse_loop :: "addr option \<Rightarrow> 'v HashTable \<Rightarrow> 'v HashTable option" where
  "hash_graceful_reverse_loop p ht =
     (case p of
        None \<Rightarrow> Some ht
      | Some a \<Rightarrow> do { (_, ht) \<leftarrow> zend_hash_apply_deleter ht a; hash_graceful_reverse_loop (pListTail ht) ht })"

definition zend_hash_graceful_reverse_destroy :: "'v HashTable \<Rightarrow> 'v HashTable option" where
  "zend_hash_graceful_reverse_destroy ht =
     do { ht \<leftarrow> hash_graceful_reverse_loop (pListTail ht) ht; Some (ht\<lparr>arBuckets := []\<rparr>) }"

subsection \<open>Applying a callback\<close>

text \<open>
  A callback receives the element's data, may write to it, and may change an environment of its
  own (its \<open>argument\<close>, or globals); its \<open>int\<close> result is a word whose bits are tested. The
  callback of \<open>zend_hash_apply_with_arguments\<close> also receives the key.
\<close>

type_synonym ('v, 'e) apply_func = "'v \<Rightarrow> 'e \<Rightarrow> uint \<times> 'v \<times> 'e"
type_synonym ('v, 'e) apply_func_args = "'v \<Rightarrow> zend_hash_key \<Rightarrow> 'e \<Rightarrow> uint \<times> 'v \<times> 'e"

primrec pd_set :: "'v \<Rightarrow> 'v pdata \<Rightarrow> 'v pdata" where
  "pd_set v (InPtr _) = InPtr v"
| "pd_set v (Block _) = Block v"

definition bucket_key :: "'v bucket \<Rightarrow> zend_hash_key" where
  "bucket_key b = \<lparr>hk_arKey = bk_arKey b, hk_nKeyLength = bk_nKeyLength b, hk_h = bk_h b\<rparr>"

text \<open>One call of the callback on the bucket at \<open>a\<close>.\<close>

definition hash_call_func :: "('v, 'e) apply_func_args \<Rightarrow> addr \<Rightarrow> 'v HashTable \<Rightarrow> 'e \<Rightarrow> (uint \<times> 'v HashTable \<times> 'e) option" where
  "hash_call_func func a ht e =
     do {
       b \<leftarrow> ht_store ht a;
       let (result, v, e) = func (pd_val (bk_pData b)) (bucket_key b) e;
       ht \<leftarrow> ht_poke a (\<lambda>b. b\<lparr>bk_pData := pd_set v (bk_pData b)\<rparr>) ht;
       Some (result, ht, e)
     }"

partial_function (option) hash_apply_loop ::
    "('v, 'e) apply_func_args \<Rightarrow> addr option \<Rightarrow> 'v HashTable \<Rightarrow> 'e \<Rightarrow> ('v HashTable \<times> 'e) option" where
  "hash_apply_loop func p ht e =
     (case p of
        None \<Rightarrow> Some (ht, e)
      | Some a \<Rightarrow> do {
          (result, ht, e) \<leftarrow> hash_call_func func a ht e;
          (p, ht) \<leftarrow> (if result AND ZEND_HASH_APPLY_REMOVE \<noteq> 0 then zend_hash_apply_deleter ht a
                     else do { b \<leftarrow> ht_store ht a; Some (pListNext b, ht) });
          if result AND ZEND_HASH_APPLY_STOP \<noteq> 0 then Some (ht, e)
          else hash_apply_loop func p ht e
        })"

definition zend_hash_apply_with_arguments ::
    "'v HashTable \<Rightarrow> ('v, 'e) apply_func_args \<Rightarrow> 'e \<Rightarrow> ('v HashTable, 'v HashTable \<times> 'e) outcome option" where
  "zend_hash_apply_with_arguments ht func e =
     (let (fatal, ht) = HASH_PROTECT_RECURSION ht in
      if fatal then Some (FatalError ht)
      else do {
        (ht, e) \<leftarrow> hash_apply_loop func (pListHead ht) ht e;
        Some (Done (HASH_UNPROTECT_RECURSION ht, e))
      })"

definition zend_hash_apply ::
    "'v HashTable \<Rightarrow> ('v, 'e) apply_func \<Rightarrow> 'e \<Rightarrow> ('v HashTable, 'v HashTable \<times> 'e) outcome option" where
  "zend_hash_apply ht func e =
     (let (fatal, ht) = HASH_PROTECT_RECURSION ht in
      if fatal then Some (FatalError ht)
      else do {
        (ht, e) \<leftarrow> hash_apply_loop (\<lambda>v _. func v) (pListHead ht) ht e;
        Some (Done (HASH_UNPROTECT_RECURSION ht, e))
      })"

definition zend_hash_apply_with_argument ::
    "'v HashTable \<Rightarrow> ('v \<Rightarrow> 'arg \<Rightarrow> uint \<times> 'v \<times> 'arg) \<Rightarrow> 'arg \<Rightarrow> ('v HashTable, 'v HashTable \<times> 'arg) outcome option" where
  "zend_hash_apply_with_argument ht func argument =
     (let (fatal, ht) = HASH_PROTECT_RECURSION ht in
      if fatal then Some (FatalError ht)
      else do {
        (ht, argument) \<leftarrow> hash_apply_loop (\<lambda>v _. func v) (pListHead ht) ht argument;
        Some (Done (HASH_UNPROTECT_RECURSION ht, argument))
      })"

partial_function (option) hash_reverse_apply_loop ::
    "('v, 'e) apply_func_args \<Rightarrow> addr option \<Rightarrow> 'v HashTable \<Rightarrow> 'e \<Rightarrow> ('v HashTable \<times> 'e) option" where
  "hash_reverse_apply_loop func p ht e =
     (case p of
        None \<Rightarrow> Some (ht, e)
      | Some q \<Rightarrow> do {
          (result, ht, e) \<leftarrow> hash_call_func func q ht e;
          b \<leftarrow> ht_store ht q;
          let p = pListLast b;
          ht \<leftarrow> (if result AND ZEND_HASH_APPLY_REMOVE \<noteq> 0 then map_option snd (zend_hash_apply_deleter ht q) else Some ht);
          if result AND ZEND_HASH_APPLY_STOP \<noteq> 0 then Some (ht, e)
          else hash_reverse_apply_loop func p ht e
        })"

definition zend_hash_reverse_apply ::
    "'v HashTable \<Rightarrow> ('v, 'e) apply_func \<Rightarrow> 'e \<Rightarrow> ('v HashTable, 'v HashTable \<times> 'e) outcome option" where
  "zend_hash_reverse_apply ht func e =
     (let (fatal, ht) = HASH_PROTECT_RECURSION ht in
      if fatal then Some (FatalError ht)
      else do {
        (ht, e) \<leftarrow> hash_reverse_apply_loop (\<lambda>v _. func v) (pListTail ht) ht e;
        Some (Done (HASH_UNPROTECT_RECURSION ht, e))
      })"

subsection \<open>Lookups\<close>

definition zend_hash_find :: "'v HashTable \<Rightarrow> byte list \<Rightarrow> uint \<Rightarrow> (zresult \<times> addr option) option" where
  "zend_hash_find ht arKey nKeyLength =
     do {
       let h = zend_inline_hash_func arKey nKeyLength;
       head \<leftarrow> ht_head ht (nIndex ht h);
       p \<leftarrow> chain_scan ht (\<lambda>_ b. bk_h b = h \<and> bk_nKeyLength b = nKeyLength \<and> memcmp_eq (bk_arKey b) arKey nKeyLength) head;
       Some (case p of Some a \<Rightarrow> (SUCCESS, Some a) | None \<Rightarrow> (FAILURE, None))
     }"

definition zend_hash_index_find :: "'v HashTable \<Rightarrow> ulong \<Rightarrow> (zresult \<times> addr option) option" where
  "zend_hash_index_find ht h =
     do {
       head \<leftarrow> ht_head ht (nIndex ht h);
       p \<leftarrow> chain_scan ht (\<lambda>_ b. bk_h b = h \<and> bk_nKeyLength b = 0) head;
       Some (case p of Some a \<Rightarrow> (SUCCESS, Some a) | None \<Rightarrow> (FAILURE, None))
     }"

definition zend_hash_quick_find :: "'v HashTable \<Rightarrow> byte list \<Rightarrow> uint \<Rightarrow> ulong \<Rightarrow> (zresult \<times> addr option) option" where
  "zend_hash_quick_find ht arKey nKeyLength h =
     (if nKeyLength = 0 then zend_hash_index_find ht h
      else do {
        head \<leftarrow> ht_head ht (nIndex ht h);
        p \<leftarrow> chain_scan ht (\<lambda>_ b. bk_h b = h \<and> bk_nKeyLength b = nKeyLength \<and> memcmp_eq (bk_arKey b) arKey nKeyLength) head;
        Some (case p of Some a \<Rightarrow> (SUCCESS, Some a) | None \<Rightarrow> (FAILURE, None))
      })"

definition zend_hash_exists :: "'v HashTable \<Rightarrow> byte list \<Rightarrow> uint \<Rightarrow> bool option" where
  "zend_hash_exists ht arKey nKeyLength =
     do {
       let h = zend_inline_hash_func arKey nKeyLength;
       head \<leftarrow> ht_head ht (nIndex ht h);
       p \<leftarrow> chain_scan ht (\<lambda>_ b. bk_h b = h \<and> bk_nKeyLength b = nKeyLength \<and> memcmp_eq (bk_arKey b) arKey nKeyLength) head;
       Some (p \<noteq> None)
     }"

definition zend_hash_index_exists :: "'v HashTable \<Rightarrow> ulong \<Rightarrow> bool option" where
  "zend_hash_index_exists ht h =
     do {
       head \<leftarrow> ht_head ht (nIndex ht h);
       p \<leftarrow> chain_scan ht (\<lambda>_ b. bk_h b = h \<and> bk_nKeyLength b = 0) head;
       Some (p \<noteq> None)
     }"

definition zend_hash_quick_exists :: "'v HashTable \<Rightarrow> byte list \<Rightarrow> uint \<Rightarrow> ulong \<Rightarrow> bool option" where
  "zend_hash_quick_exists ht arKey nKeyLength h =
     (if nKeyLength = 0 then zend_hash_index_exists ht h
      else do {
        head \<leftarrow> ht_head ht (nIndex ht h);
        p \<leftarrow> chain_scan ht (\<lambda>_ b. bk_h b = h \<and> bk_nKeyLength b = nKeyLength \<and> memcmp_eq (bk_arKey b) arKey nKeyLength) head;
        Some (p \<noteq> None)
      })"

text \<open>The result is an \<open>int\<close>.\<close>

definition zend_hash_num_elements :: "'v HashTable \<Rightarrow> int" where
  "zend_hash_num_elements ht = sint (nNumOfElements ht)"

definition zend_hash_next_free_element :: "'v HashTable \<Rightarrow> ulong" where
  "zend_hash_next_free_element ht = nNextFreeElement ht"

subsection \<open>Traversal\<close>

definition zend_hash_get_pointer :: "'v HashTable \<Rightarrow> (bool \<times> HashPointer) option" where
  "zend_hash_get_pointer ht =
     (case pInternalPointer ht of
        Some a \<Rightarrow> do { b \<leftarrow> ht_store ht a; Some (True, \<lparr>hp_pos = Some a, hp_h = bk_h b\<rparr>) }
      | None \<Rightarrow> Some (False, \<lparr>hp_pos = None, hp_h = 0\<rparr>))"

definition zend_hash_set_pointer :: "'v HashTable \<Rightarrow> HashPointer \<Rightarrow> (bool \<times> 'v HashTable) option" where
  "zend_hash_set_pointer ht ptr =
     (case hp_pos ptr of
        None \<Rightarrow> Some (True, ht\<lparr>pInternalPointer := None\<rparr>)
      | Some pos \<Rightarrow>
          if pInternalPointer ht \<noteq> Some pos then do {
            head \<leftarrow> ht_head ht (nIndex ht (hp_h ptr));
            p \<leftarrow> chain_scan ht (\<lambda>a _. a = pos) head;
            Some (case p of Some a \<Rightarrow> (True, ht\<lparr>pInternalPointer := Some a\<rparr>) | None \<Rightarrow> (False, ht))
          }
          else Some (True, ht))"

text \<open>
  The traversal functions take a \<open>HashPosition *pos\<close>: the caller's own position when it is not
  \<open>NULL\<close> (\<open>Some q\<close>), the table's internal pointer when it is (\<open>None\<close>). They return the
  position and the table as they leave them.
\<close>

definition cur_pos :: "'v HashTable \<Rightarrow> addr option option \<Rightarrow> addr option" where
  "cur_pos ht pos = (case pos of Some q \<Rightarrow> q | None \<Rightarrow> pInternalPointer ht)"

definition set_pos :: "'v HashTable \<Rightarrow> addr option option \<Rightarrow> addr option \<Rightarrow> addr option option \<times> 'v HashTable" where
  "set_pos ht pos q = (case pos of Some _ \<Rightarrow> (Some q, ht) | None \<Rightarrow> (None, ht\<lparr>pInternalPointer := q\<rparr>))"

definition zend_hash_internal_pointer_reset_ex where
  "zend_hash_internal_pointer_reset_ex ht pos = set_pos ht pos (pListHead ht)"

definition zend_hash_internal_pointer_end_ex where
  "zend_hash_internal_pointer_end_ex ht pos = set_pos ht pos (pListTail ht)"

definition zend_hash_move_forward_ex ::
    "'v HashTable \<Rightarrow> addr option option \<Rightarrow> (zresult \<times> addr option option \<times> 'v HashTable) option" where
  "zend_hash_move_forward_ex ht pos =
     (case cur_pos ht pos of
        Some a \<Rightarrow> do { b \<leftarrow> ht_store ht a; Some (SUCCESS, set_pos ht pos (pListNext b)) }
      | None \<Rightarrow> Some (FAILURE, pos, ht))"

definition zend_hash_move_backwards_ex ::
    "'v HashTable \<Rightarrow> addr option option \<Rightarrow> (zresult \<times> addr option option \<times> 'v HashTable) option" where
  "zend_hash_move_backwards_ex ht pos =
     (case cur_pos ht pos of
        Some a \<Rightarrow> do { b \<leftarrow> ht_store ht a; Some (SUCCESS, set_pos ht pos (pListLast b)) }
      | None \<Rightarrow> Some (FAILURE, pos, ht))"

text \<open>The string handed out is the key's bytes: \<open>estrndup(arKey, nKeyLength - 1)\<close>, a copy that
  is terminated by a \<open>NUL\<close> of its own, or \<open>arKey\<close> itself.\<close>

datatype current_key = CurString "byte list" uint | CurLong ulong | CurNone

definition zend_hash_get_current_key_ex :: "'v HashTable \<Rightarrow> bool \<Rightarrow> addr option option \<Rightarrow> current_key option" where
  "zend_hash_get_current_key_ex ht duplicate pos =
     (case cur_pos ht pos of
        Some a \<Rightarrow> do {
          p \<leftarrow> ht_store ht a;
          Some (if bk_nKeyLength p \<noteq> 0 then
                  CurString (if duplicate then take (unat (bk_nKeyLength p - 1)) (bk_arKey p) @ [0] else bk_arKey p)
                    (bk_nKeyLength p)
                else CurLong (bk_h p))
        }
      | None \<Rightarrow> Some CurNone)"

definition zend_hash_get_current_key_type_ex :: "'v HashTable \<Rightarrow> addr option option \<Rightarrow> key_type option" where
  "zend_hash_get_current_key_type_ex ht pos =
     (case cur_pos ht pos of
        Some a \<Rightarrow> do {
          p \<leftarrow> ht_store ht a;
          Some (if bk_nKeyLength p \<noteq> 0 then HASH_KEY_IS_STRING else HASH_KEY_IS_LONG)
        }
      | None \<Rightarrow> Some HASH_KEY_NON_EXISTANT)"

definition zend_hash_get_current_data_ex :: "'v HashTable \<Rightarrow> addr option option \<Rightarrow> (zresult \<times> addr option) option" where
  "zend_hash_get_current_data_ex ht pos =
     (case cur_pos ht pos of
        Some a \<Rightarrow> do { _ \<leftarrow> ht_store ht a; Some (SUCCESS, Some a) }
      | None \<Rightarrow> Some (FAILURE, None))"

subsection \<open>Changing the key of the current element\<close>

text \<open>The backward walk that decides on which side of \<open>p\<close> the bucket \<open>q\<close> is.\<close>

partial_function (option) hash_found_before :: "'v HashTable \<Rightarrow> addr \<Rightarrow> addr option \<Rightarrow> uint option" where
  "hash_found_before ht q r =
     (case r of
        None \<Rightarrow> Some HASH_UPDATE_KEY_IF_BEFORE
      | Some a \<Rightarrow>
          if a = q then Some HASH_UPDATE_KEY_IF_AFTER
          else do { b \<leftarrow> ht_store ht a; hash_found_before ht q (pListLast b) })"

text \<open>The bucket leaves its chain but keeps its place in the global list.\<close>

definition hash_unlink_chain :: "addr \<Rightarrow> 'v HashTable \<Rightarrow> 'v HashTable option" where
  "hash_unlink_chain a ht =
     do {
       p \<leftarrow> ht_store ht a;
       ht \<leftarrow> ht_poke_opt (pNext p) (\<lambda>b. b\<lparr>pLast := pLast p\<rparr>) ht;
       p \<leftarrow> ht_store ht a;
       case pLast p of
         Some q \<Rightarrow> ht_poke q (\<lambda>b. b\<lparr>pNext := pNext p\<rparr>) ht
       | None \<Rightarrow> ht_set_head (nIndex ht (bk_h p)) (pNext p) ht
     }"

text \<open>A bucket of another key size takes the place of \<open>a\<close> in the global list. Its hash, key
  bytes and chain links are still unset; the caller writes them next.\<close>

definition hash_realloc_bucket ::
    "addr \<Rightarrow> uint \<Rightarrow> addr option option \<Rightarrow> 'v HashTable \<Rightarrow> (addr \<times> addr option option \<times> 'v HashTable) option" where
  "hash_realloc_bucket a str_length pos ht =
     do {
       p \<leftarrow> ht_store ht a;
       let (q, ht) = ht_alloc \<lparr>bk_h = 0, bk_nKeyLength = str_length, bk_pData = bk_pData p,
         pListNext = pListNext p, pListLast = pListLast p, pNext = None, pLast = None, bk_arKey = []\<rparr> ht;
       ht \<leftarrow> (case pListNext p of
                Some r \<Rightarrow> ht_poke r (\<lambda>b. b\<lparr>pListLast := Some q\<rparr>) ht
              | None \<Rightarrow> Some (ht\<lparr>pListTail := Some q\<rparr>));
       p \<leftarrow> ht_store ht a;
       ht \<leftarrow> (case pListLast p of
                Some r \<Rightarrow> ht_poke r (\<lambda>b. b\<lparr>pListNext := Some q\<rparr>) ht
              | None \<Rightarrow> Some (ht\<lparr>pListHead := Some q\<rparr>));
       let ht = (if pInternalPointer ht = Some a then ht\<lparr>pInternalPointer := Some q\<rparr> else ht);
       Some (q, (case pos of Some _ \<Rightarrow> Some (Some q) | None \<Rightarrow> None), ht_free a ht)
     }"

definition zend_hash_update_current_key_ex ::
    "'v HashTable \<Rightarrow> key_type \<Rightarrow> byte list \<Rightarrow> uint \<Rightarrow> ulong \<Rightarrow> uint \<Rightarrow> addr option option
      \<Rightarrow> (zresult \<times> addr option option \<times> 'v HashTable) option" where
  "zend_hash_update_current_key_ex ht key_type str_index str_length num_index mode pos =
     (case cur_pos ht pos of
        None \<Rightarrow> Some (FAILURE, pos, ht)
      | Some a \<Rightarrow>
          if key_type = HASH_KEY_NON_EXISTANT then Some (FAILURE, pos, ht)
          else do {
            p \<leftarrow> ht_store ht a;
            let str_length = (if key_type = HASH_KEY_IS_LONG then 0 else str_length);
            if (if key_type = HASH_KEY_IS_LONG then bk_nKeyLength p = 0 \<and> bk_h p = num_index
                else bk_nKeyLength p = str_length \<and> memcmp_eq (bk_arKey p) str_index str_length)
            then Some (SUCCESS, pos, ht)
            else do {
              let h = (if key_type = HASH_KEY_IS_LONG then num_index else zend_inline_hash_func str_index str_length);
              head \<leftarrow> ht_head ht (nIndex ht h);
              q \<leftarrow> chain_scan ht
                (\<lambda>_ b. if key_type = HASH_KEY_IS_LONG then bk_nKeyLength b = 0 \<and> bk_h b = num_index
                       else bk_h b = h \<and> bk_nKeyLength b = str_length \<and> memcmp_eq (bk_arKey b) str_index str_length) head;
              remove_current \<leftarrow> (case q of
                Some q' \<Rightarrow>
                  if mode \<noteq> HASH_UPDATE_KEY_ANYWAY
                  then do { found \<leftarrow> hash_found_before ht q' (pListLast p); Some (mode AND found \<noteq> 0) }
                  else Some False
              | None \<Rightarrow> Some False);
              if remove_current
              then do { ht \<leftarrow> hash_delete_bucket (nIndex ht (bk_h p)) a ht; Some (FAILURE, pos, ht) }
              else do {
                ht \<leftarrow> (case q of
                         Some q' \<Rightarrow> do { b \<leftarrow> ht_store ht q'; hash_delete_bucket (nIndex ht (bk_h b)) q' ht }
                       | None \<Rightarrow> Some ht);
                ht \<leftarrow> hash_unlink_chain a ht;
                p \<leftarrow> ht_store ht a;
                (a, pos, ht) \<leftarrow> (if bk_nKeyLength p \<noteq> str_length then hash_realloc_bucket a str_length pos ht
                                 else Some (a, pos, ht));
                ht \<leftarrow> ht_poke a (\<lambda>b. if key_type = HASH_KEY_IS_LONG then b\<lparr>bk_h := num_index\<rparr>
                  else b\<lparr>bk_arKey := take (unat str_length) str_index @ drop (unat str_length) (bk_arKey b),
                         bk_h := zend_inline_hash_func str_index str_length\<rparr>) ht;
                b \<leftarrow> ht_store ht a;
                let i = nIndex ht (bk_h b);
                head \<leftarrow> ht_head ht i;
                ht \<leftarrow> CONNECT_TO_BUCKET_DLLIST a head ht;
                ht \<leftarrow> ht_set_head i (Some a) ht;
                Some (SUCCESS, pos, ht)
              }
            }
          })"

subsection \<open>Copying and merging\<close>

text \<open>The copy constructor writes to the element it is given; the two tables are distinct.\<close>

definition hash_call_copy :: "('v \<Rightarrow> 'v) option \<Rightarrow> addr option \<Rightarrow> 'v HashTable \<Rightarrow> 'v HashTable option" where
  "hash_call_copy ctor p ht =
     (case ctor of
        None \<Rightarrow> Some ht
      | Some f \<Rightarrow> do { a \<leftarrow> p; ht_poke a (\<lambda>b. b\<lparr>bk_pData := pd_set (f (pd_val (bk_pData b))) (bk_pData b)\<rparr>) ht })"

partial_function (option) hash_copy_loop ::
    "'v HashTable \<Rightarrow> ('v \<Rightarrow> 'v) option \<Rightarrow> uint \<Rightarrow> bool \<Rightarrow> addr option \<Rightarrow> 'v HashTable \<Rightarrow> 'v HashTable option" where
  "hash_copy_loop source ctor sz setTargetPointer p target =
     (case p of
        None \<Rightarrow> Some target
      | Some a \<Rightarrow> do {
          b \<leftarrow> ht_store source a;
          let target = (if setTargetPointer \<and> pInternalPointer source = Some a
                        then target\<lparr>pInternalPointer := None\<rparr> else target);
          (_, new_entry, target) \<leftarrow>
            (if bk_nKeyLength b \<noteq> 0
             then zend_hash_quick_update target (bk_arKey b) (bk_nKeyLength b) (bk_h b) (pd_val (bk_pData b)) sz
             else zend_hash_index_update target (bk_h b) (pd_val (bk_pData b)) sz);
          target \<leftarrow> hash_call_copy ctor new_entry target;
          hash_copy_loop source ctor sz setTargetPointer (pListNext b) target
        })"

definition zend_hash_copy :: "'v HashTable \<Rightarrow> 'v HashTable \<Rightarrow> ('v \<Rightarrow> 'v) option \<Rightarrow> uint \<Rightarrow> 'v HashTable option" where
  "zend_hash_copy target source ctor sz =
     do {
       let setTargetPointer = (pInternalPointer target = None);
       target \<leftarrow> hash_copy_loop source ctor sz setTargetPointer (pListHead source) target;
       Some (if pInternalPointer target = None then target\<lparr>pInternalPointer := pListHead target\<rparr> else target)
     }"

partial_function (option) hash_merge_loop ::
    "'v HashTable \<Rightarrow> ('v \<Rightarrow> 'v) option \<Rightarrow> uint \<Rightarrow> uint \<Rightarrow> addr option \<Rightarrow> 'v HashTable \<Rightarrow> 'v HashTable option" where
  "hash_merge_loop source ctor sz mode p target =
     (case p of
        None \<Rightarrow> Some target
      | Some a \<Rightarrow> do {
          b \<leftarrow> ht_store source a;
          target \<leftarrow>
            (if bk_nKeyLength b > 0 then do {
               (r, t, target) \<leftarrow> zend_hash_quick_add_or_update target (bk_arKey b) (bk_nKeyLength b) (bk_h b) (pd_val (bk_pData b)) sz mode;
               if r = SUCCESS then hash_call_copy ctor t target else Some target
             }
             else do {
               there \<leftarrow> (if mode = HASH_UPDATE then Some False else zend_hash_index_exists target (bk_h b));
               if \<not> there then do {
                 (r, t, target) \<leftarrow> zend_hash_index_update target (bk_h b) (pd_val (bk_pData b)) sz;
                 if r = SUCCESS then hash_call_copy ctor t target else Some target
               }
               else Some target
             });
          hash_merge_loop source ctor sz mode (pListNext b) target
        })"

definition zend_hash_merge :: "'v HashTable \<Rightarrow> 'v HashTable \<Rightarrow> ('v \<Rightarrow> 'v) option \<Rightarrow> uint \<Rightarrow> bool \<Rightarrow> 'v HashTable option" where
  "zend_hash_merge target source ctor sz overwrite =
     do {
       let mode = (if overwrite then HASH_UPDATE else HASH_ADD);
       target \<leftarrow> hash_merge_loop source ctor sz mode (pListHead source) target;
       Some (target\<lparr>pInternalPointer := pListHead target\<rparr>)
     }"

definition zend_hash_replace_checker_wrapper ::
    "'v HashTable \<Rightarrow> 'v \<Rightarrow> 'v bucket \<Rightarrow> 'p \<Rightarrow> ('v HashTable \<Rightarrow> 'v \<Rightarrow> zend_hash_key \<Rightarrow> 'p \<Rightarrow> bool) \<Rightarrow> bool" where
  "zend_hash_replace_checker_wrapper target source_data p pParam merge_checker_func =
     merge_checker_func target source_data
       \<lparr>hk_arKey = bk_arKey p, hk_nKeyLength = bk_nKeyLength p, hk_h = bk_h p\<rparr> pParam"

partial_function (option) hash_merge_ex_loop ::
    "'v HashTable \<Rightarrow> ('v \<Rightarrow> 'v) option \<Rightarrow> uint \<Rightarrow> ('v HashTable \<Rightarrow> 'v \<Rightarrow> zend_hash_key \<Rightarrow> 'p \<Rightarrow> bool) \<Rightarrow> 'p
      \<Rightarrow> addr option \<Rightarrow> 'v HashTable \<Rightarrow> 'v HashTable option" where
  "hash_merge_ex_loop source ctor sz pMergeSource pParam p target =
     (case p of
        None \<Rightarrow> Some target
      | Some a \<Rightarrow> do {
          b \<leftarrow> ht_store source a;
          target \<leftarrow>
            (if zend_hash_replace_checker_wrapper target (pd_val (bk_pData b)) b pParam pMergeSource then do {
               (r, t, target) \<leftarrow> zend_hash_quick_update target (bk_arKey b) (bk_nKeyLength b) (bk_h b) (pd_val (bk_pData b)) sz;
               if r = SUCCESS then hash_call_copy ctor t target else Some target
             }
             else Some target);
          hash_merge_ex_loop source ctor sz pMergeSource pParam (pListNext b) target
        })"

definition zend_hash_merge_ex ::
    "'v HashTable \<Rightarrow> 'v HashTable \<Rightarrow> ('v \<Rightarrow> 'v) option \<Rightarrow> uint \<Rightarrow> ('v HashTable \<Rightarrow> 'v \<Rightarrow> zend_hash_key \<Rightarrow> 'p \<Rightarrow> bool) \<Rightarrow> 'p
      \<Rightarrow> 'v HashTable option" where
  "zend_hash_merge_ex target source ctor sz pMergeSource pParam =
     do {
       target \<leftarrow> hash_merge_ex_loop source ctor sz pMergeSource pParam (pListHead source) target;
       Some (target\<lparr>pInternalPointer := pListHead target\<rparr>)
     }"

subsection \<open>Sorting, comparing, minimum and maximum\<close>

partial_function (option) hash_collect :: "'v HashTable \<Rightarrow> addr option \<Rightarrow> addr list \<Rightarrow> addr list option" where
  "hash_collect ht p arTmp =
     (case p of
        None \<Rightarrow> Some arTmp
      | Some a \<Rightarrow> do { b \<leftarrow> ht_store ht a; hash_collect ht (pListNext b) (arTmp @ [a]) })"

text \<open>The \<open>for\<close> loop over \<open>arTmp[1] .. arTmp[i-2]\<close>; its final \<open>j\<close> is used after the loop.\<close>

fun hash_relink_loop :: "addr list \<Rightarrow> nat \<Rightarrow> nat \<Rightarrow> 'v HashTable \<Rightarrow> (nat \<times> 'v HashTable) option" where
  "hash_relink_loop arTmp j 0 ht = Some (j, ht)"
| "hash_relink_loop arTmp j (Suc k) ht =
     do {
       ht \<leftarrow> ht_poke (arTmp ! j) (\<lambda>b. b\<lparr>pListLast := Some (arTmp ! (j - 1))\<rparr>) ht;
       ht \<leftarrow> ht_poke (arTmp ! j) (\<lambda>b. b\<lparr>pListNext := Some (arTmp ! (j + 1))\<rparr>) ht;
       hash_relink_loop arTmp (j + 1) k ht
     }"

definition hash_relink :: "addr list \<Rightarrow> 'v HashTable \<Rightarrow> 'v HashTable option" where
  "hash_relink arTmp ht =
     do {
       let i = length arTmp;
       first \<leftarrow> nth_opt arTmp 0;
       let ht = ht\<lparr>pListHead := Some first, pListTail := None\<rparr>;
       let ht = ht\<lparr>pInternalPointer := pListHead ht\<rparr>;
       ht \<leftarrow> ht_poke first (\<lambda>b. b\<lparr>pListLast := None\<rparr>) ht;
       ht \<leftarrow> (if 1 < i then do {
               ht \<leftarrow> ht_poke first (\<lambda>b. b\<lparr>pListNext := Some (arTmp ! 1)\<rparr>) ht;
               (j, ht) \<leftarrow> hash_relink_loop arTmp 1 (i - 2) ht;
               ht \<leftarrow> ht_poke (arTmp ! j) (\<lambda>b. b\<lparr>pListLast := Some (arTmp ! (j - 1))\<rparr>) ht;
               ht_poke (arTmp ! j) (\<lambda>b. b\<lparr>pListNext := None\<rparr>) ht
             }
             else ht_poke first (\<lambda>b. b\<lparr>pListNext := None\<rparr>) ht);
       Some (ht\<lparr>pListTail := Some (arTmp ! (i - 1))\<rparr>)
     }"

text \<open>\<open>p->h = i++\<close> with an \<open>int\<close> counter, which is sign extended to \<open>ulong\<close>.\<close>

partial_function (option) hash_renumber_loop :: "addr option \<Rightarrow> 32 word \<Rightarrow> 'v HashTable \<Rightarrow> (32 word \<times> 'v HashTable) option" where
  "hash_renumber_loop p i ht =
     (case p of
        None \<Rightarrow> Some (i, ht)
      | Some a \<Rightarrow> do {
          ht \<leftarrow> ht_poke a (\<lambda>b. b\<lparr>bk_nKeyLength := 0, bk_h := scast i\<rparr>) ht;
          b \<leftarrow> ht_store ht a;
          hash_renumber_loop (pListNext b) (i + 1) ht
        })"

text \<open>\<open>sort_func\<close> sorts the array of bucket pointers; \<open>compar\<close> looks at the buckets they point to.\<close>

definition zend_hash_sort ::
    "'v HashTable \<Rightarrow> ((addr \<Rightarrow> addr \<Rightarrow> int) \<Rightarrow> addr list \<Rightarrow> addr list option) \<Rightarrow> ('v bucket \<Rightarrow> 'v bucket \<Rightarrow> int) \<Rightarrow> bool
      \<Rightarrow> (zresult \<times> 'v HashTable) option" where
  "zend_hash_sort ht sort_func compar renumber =
     (if \<not> (nNumOfElements ht > 1) \<and> \<not> (renumber \<and> nNumOfElements ht > 0) then Some (SUCCESS, ht)
      else do {
        arTmp \<leftarrow> hash_collect ht (pListHead ht) [];
        arTmp \<leftarrow> sort_func (\<lambda>a b. compar (the (ht_store ht a)) (the (ht_store ht b))) arTmp;
        ht \<leftarrow> hash_relink arTmp ht;
        if renumber then do {
          (i, ht) \<leftarrow> hash_renumber_loop (pListHead ht) 0 ht;
          ht \<leftarrow> zend_hash_rehash (ht\<lparr>nNextFreeElement := scast i\<rparr>);
          Some (SUCCESS, ht)
        }
        else Some (SUCCESS, ht)
      })"

text \<open>\<open>memcmp\<close>: only the sign of its result is specified.\<close>

fun memcmp_sign :: "byte list \<Rightarrow> byte list \<Rightarrow> int" where
  "memcmp_sign (x # xs) (y # ys) = (if x < y then - 1 else if y < x then 1 else memcmp_sign xs ys)"
| "memcmp_sign _ _ = 0"

text \<open>The comparison of two keys in an ordered comparison. The differences are computed in
  \<open>ulong\<close> and \<open>uint\<close> and then stored in an \<open>int\<close>.\<close>

definition compare_keys :: "'v bucket \<Rightarrow> 'v bucket \<Rightarrow> int" where
  "compare_keys p1 p2 =
     (if bk_nKeyLength p1 = 0 \<and> bk_nKeyLength p2 = 0 then sint (ucast (bk_h p1 - bk_h p2) :: uint)
      else let result = sint (bk_nKeyLength p1 - bk_nKeyLength p2) in
        if result \<noteq> 0 then result
        else memcmp_sign (take (unat (bk_nKeyLength p1)) (bk_arKey p1)) (take (unat (bk_nKeyLength p1)) (bk_arKey p2)))"

partial_function (option) hash_compare_loop ::
    "'v HashTable \<Rightarrow> 'v HashTable \<Rightarrow> ('v \<Rightarrow> 'v \<Rightarrow> int) \<Rightarrow> bool \<Rightarrow> addr option \<Rightarrow> addr option \<Rightarrow> int option" where
  "hash_compare_loop ht1 ht2 compar ordered p1 p2 =
     (case p1 of
        None \<Rightarrow> Some 0
      | Some a1 \<Rightarrow>
          if ordered \<and> p2 = None then Some 1
          else do {
            b1 \<leftarrow> ht_store ht1 a1;
            if ordered then do {
              b2 \<leftarrow> deref (ht_store ht2) p2;
              let result = compare_keys b1 b2;
              if result \<noteq> 0 then Some result
              else let result = compar (pd_val (bk_pData b1)) (pd_val (bk_pData b2)) in
                if result \<noteq> 0 then Some result
                else hash_compare_loop ht1 ht2 compar ordered (pListNext b1) (pListNext b2)
            }
            else do {
              (r, q) \<leftarrow> (if bk_nKeyLength b1 = 0 then zend_hash_index_find ht2 (bk_h b1)
                         else zend_hash_quick_find ht2 (bk_arKey b1) (bk_nKeyLength b1) (bk_h b1));
              if r = FAILURE then Some 1
              else do {
                b2 \<leftarrow> deref (ht_store ht2) q;
                let result = compar (pd_val (bk_pData b1)) (pd_val (bk_pData b2));
                if result \<noteq> 0 then Some result
                else hash_compare_loop ht1 ht2 compar ordered (pListNext b1) p2
              }
            }
          })"

definition zend_hash_compare ::
    "'v HashTable \<Rightarrow> 'v HashTable \<Rightarrow> ('v \<Rightarrow> 'v \<Rightarrow> int) \<Rightarrow> bool
      \<Rightarrow> ('v HashTable \<times> 'v HashTable, int \<times> 'v HashTable \<times> 'v HashTable) outcome option" where
  "zend_hash_compare ht1 ht2 compar ordered =
     (let (fatal1, ht1) = HASH_PROTECT_RECURSION ht1 in
      if fatal1 then Some (FatalError (ht1, ht2))
      else let (fatal2, ht2) = HASH_PROTECT_RECURSION ht2 in
      if fatal2 then Some (FatalError (ht1, ht2))
      else do {
        let result = sint (nNumOfElements ht1 - nNumOfElements ht2);
        result \<leftarrow> (if result \<noteq> 0 then Some result
                    else hash_compare_loop ht1 ht2 compar ordered (pListHead ht1)
                           (if ordered then pListHead ht2 else None));
        Some (Done (result, HASH_UNPROTECT_RECURSION ht1, HASH_UNPROTECT_RECURSION ht2))
      })"

partial_function (option) hash_minmax_loop ::
    "'v HashTable \<Rightarrow> ('v bucket \<Rightarrow> 'v bucket \<Rightarrow> int) \<Rightarrow> bool \<Rightarrow> addr \<Rightarrow> addr option \<Rightarrow> addr option" where
  "hash_minmax_loop ht compar flag res p =
     (case p of
        None \<Rightarrow> Some res
      | Some a \<Rightarrow> do {
          r \<leftarrow> ht_store ht res;
          b \<leftarrow> ht_store ht a;
          let res = (if flag then (if compar r b < 0 then a else res)
                     else (if compar r b > 0 then a else res));
          hash_minmax_loop ht compar flag res (pListNext b)
        })"

definition zend_hash_minmax :: "'v HashTable \<Rightarrow> ('v bucket \<Rightarrow> 'v bucket \<Rightarrow> int) \<Rightarrow> bool \<Rightarrow> (zresult \<times> addr option) option" where
  "zend_hash_minmax ht compar flag =
     (if nNumOfElements ht = 0 then Some (FAILURE, None)
      else do {
        a \<leftarrow> pListHead ht;
        b \<leftarrow> ht_store ht a;
        res \<leftarrow> hash_minmax_loop ht compar flag a (pListNext b);
        Some (SUCCESS, Some res)
      })"

end
