(* ===== verification/Hash_Inv.thy ===== *)
theory Hash_Inv
  imports Hash_Table
begin

unbundle bit_operations_syntax

text \<open>
  The representation invariant of a hash table and what the primitive steps of
  \<open>Zend/zend_hash.c\<close> (linking, unlinking, rehashing, scanning a chain) do to it.

  A table is described by the list \<open>xs\<close> of its buckets in insertion order. The invariant ties
  the two families of links together: the global list runs through \<open>xs\<close>, and the chain of slot
  \<open>i\<close> runs through exactly those buckets of \<open>xs\<close> whose hash belongs to slot \<open>i\<close>.
\<close>

subsection \<open>Families of chains\<close>

definition chain_family :: "link \<Rightarrow> link \<Rightarrow> addr option list \<Rightarrow> (addr \<Rightarrow> nat) \<Rightarrow> addr set \<Rightarrow> bool" where
  "chain_family n p heads slot S \<longleftrightarrow>
     (\<forall>i < length heads. \<exists>c l. dll n p (heads ! i) c l \<and> set c = {a \<in> S. slot a = i})"

lemma chains_empty: "chain_family n p (replicate k None) slot {}"
  by (auto simp: chain_family_def intro!: exI [of _ "[]"])

lemma chains_frame:
  assumes "chain_family n p heads slot S"
    and "\<And>a. a \<in> S \<Longrightarrow> n' a = n a" "\<And>a. a \<in> S \<Longrightarrow> p' a = p a" "\<And>a. a \<in> S \<Longrightarrow> slot' a = slot a"
  shows "chain_family n' p' heads slot' S"
  unfolding chain_family_def
proof (intro allI impI)
  fix i assume "i < length heads"
  then obtain c l where c: "dll n p (heads ! i) c l" "set c = {a \<in> S. slot a = i}"
    using assms(1) by (auto simp: chain_family_def)
  have "dll n' p' (heads ! i) c l" using c dll_frame [of c n' n p' p] assms(2,3) by auto
  moreover have "set c = {a \<in> S. slot' a = i}" using c(2) assms(4) by auto
  ultimately show "\<exists>c l. dll n' p' (heads ! i) c l \<and> set c = {a \<in> S. slot' a = i}" by blast
qed

text \<open>The links of a member stay within its own chain.\<close>

lemma chains_next:
  assumes "chain_family n p heads slot S" "a \<in> S" "slot a < length heads" "n a = Some b"
  shows "b \<in> S" "slot b = slot a" "b \<noteq> a"
proof -
  obtain c l where c: "dll n p (heads ! slot a) c l" "set c = {b \<in> S. slot b = slot a}"
    using assms(1,3) by (auto simp: chain_family_def)
  have a: "a \<in> set c" using c(2) assms(2) by simp
  from dll_next_in [OF c(1) a assms(4)] dll_no_self(1) [OF c(1) a] c(2) assms(4)
  show "b \<in> S" "slot b = slot a" "b \<noteq> a" by auto
qed

lemma chains_prev:
  assumes "chain_family n p heads slot S" "a \<in> S" "slot a < length heads" "p a = Some b"
  shows "b \<in> S" "slot b = slot a" "b \<noteq> a"
proof -
  obtain c l where c: "dll n p (heads ! slot a) c l" "set c = {b \<in> S. slot b = slot a}"
    using assms(1,3) by (auto simp: chain_family_def)
  have a: "a \<in> set c" using c(2) assms(2) by simp
  from dll_prev_in [OF c(1) a assms(4)] dll_no_self(2) [OF c(1) a] c(2) assms(4)
  show "b \<in> S" "slot b = slot a" "b \<noteq> a" by auto
qed

lemma chains_head:
  assumes "chain_family n p heads slot S" "i < length heads" "heads ! i = Some b"
  shows "b \<in> S" "slot b = i"
proof -
  obtain c l where c: "dll n p (heads ! i) c l" "set c = {b \<in> S. slot b = i}"
    using assms(1,2) by (auto simp: chain_family_def)
  have "b \<in> set c" using dll_head_in [of n p b c l] c(1) assms(3) by simp
  then show "b \<in> S" "slot b = i" using c(2) by auto
qed

text \<open>The source tests for the first element of a chain in two ways.\<close>

lemma chains_is_head:
  assumes "chain_family n p heads slot S" "a \<in> S" "slot a < length heads"
  shows "heads ! slot a = Some a \<longleftrightarrow> p a = None"
proof -
  obtain c l where c: "dll n p (heads ! slot a) c l" "set c = {b \<in> S. slot b = slot a}"
    using assms(1,3) by (auto simp: chain_family_def)
  obtain us vs where s: "c = us @ a # vs" using c(2) assms(2) split_list by fastforce
  have d: "distinct (us @ a # vs)" using dll_distinct [OF c(1)] s by simp
  show ?thesis using dll_first [OF c(1)] dll_mid(2) [of n p _ us a vs l] c(1) s d
    by (cases us) auto
qed

lemma chains_push:
  assumes ch: "chain_family n p heads slot S" and a: "a \<notin> S" "slot' a = i" "i < length heads"
    and fr: "\<And>b. b \<in> S \<Longrightarrow> slot' b = slot b"
    and n': "n' = n(a := heads ! i)"
    and p': "p' = (case heads ! i of None \<Rightarrow> p(a := None) | Some y \<Rightarrow> (p(a := None))(y := Some a))"
  shows "chain_family n' p' (heads[i := Some a]) slot' (insert a S)"
  unfolding chain_family_def
proof (intro allI impI)
  fix j assume j: "j < length (heads[i := Some a])"
  then obtain c l where c: "dll n p (heads ! j) c l" "set c = {b \<in> S. slot b = j}"
    using ch by (auto simp: chain_family_def)
  have ac: "a \<notin> set c" using c(2) a by auto
  show "\<exists>c l. dll n' p' (heads[i := Some a] ! j) c l \<and> set c = {b \<in> insert a S. slot' b = j}"
  proof (cases "j = i")
    case True
    have "dll n' p' (Some a) (a # c) (case heads ! i of None \<Rightarrow> Some a | Some _ \<Rightarrow> l)"
      using c(1) True by (intro dll_push_front [OF _ ac, of n p "heads ! i" l]) (simp_all add: n' p')
    then show ?thesis using True c(2) a fr
      by (intro exI [of _ "a # c"] exI [of _ "case heads ! i of None \<Rightarrow> Some a | Some _ \<Rightarrow> l"]) auto
  next
    case False
    have hd: "\<And>y. heads ! i = Some y \<Longrightarrow> y \<notin> set c"
      using chains_head [OF ch a(3)] c(2) False by auto
    have "dll n' p' (heads ! j) c l = dll n p (heads ! j) c l"
      using ac hd by (intro dll_frame) (auto simp: n' p' split: option.splits)
    then show ?thesis using c a False fr j by (intro exI [of _ c] exI [of _ l]) auto
  qed
qed

lemma chains_unlink:
  assumes ch: "chain_family n p heads slot S" and a: "a \<in> S" "slot a < length heads"
    and n': "n' = (case p a of None \<Rightarrow> n | Some q \<Rightarrow> n(q := n a))"
    and p': "p' = (case n a of None \<Rightarrow> p | Some q \<Rightarrow> p(q := p a))"
    and h': "heads' = (case p a of None \<Rightarrow> heads[slot a := n a] | Some _ \<Rightarrow> heads)"
  shows "chain_family n' p' heads' slot (S - {a})"
  unfolding chain_family_def
proof (intro allI impI)
  fix j assume "j < length heads'"
  then have j: "j < length heads" by (simp add: h' split: option.splits)
  then obtain c l where c: "dll n p (heads ! j) c l" "set c = {b \<in> S. slot b = j}"
    using ch by (auto simp: chain_family_def)
  show "\<exists>c l. dll n' p' (heads' ! j) c l \<and> set c = {b \<in> S - {a}. slot b = j}"
  proof (cases "j = slot a")
    case True
    obtain us vs where s: "c = us @ a # vs" using c(2) a True split_list by fastforce
    have d: "dll n p (heads ! j) (us @ a # vs) l" using c(1) s by simp
    have "dll n' p' (heads' ! j) (us @ vs) (case n a of None \<Rightarrow> p a | Some _ \<Rightarrow> l)"
      using j True by (intro dll_unlink [OF d]) (simp_all add: n' p' h' split: option.splits)
    moreover have "set (us @ vs) = {b \<in> S - {a}. slot b = j}"
      using c(2) s dll_distinct [OF d] by auto
    ultimately show ?thesis by blast
  next
    case False
    have "a \<notin> set c" using c(2) False by auto
    have "\<And>q. n a = Some q \<Longrightarrow> q \<notin> set c" "\<And>q. p a = Some q \<Longrightarrow> q \<notin> set c"
      using chains_next(2) [OF ch a] chains_prev(2) [OF ch a] c(2) False by auto
    then have "dll n' p' (heads ! j) c l = dll n p (heads ! j) c l"
      by (intro dll_frame) (auto simp: n' p' split: option.splits)
    moreover have "heads' ! j = heads ! j" using False by (simp add: h' split: option.splits)
    moreover have "set c = {b \<in> S - {a}. slot b = j}" using c(2) False by auto
    ultimately show ?thesis using c(1) by (intro exI [of _ c] exI [of _ l]) simp
  qed
qed

lemmas chains_in = chains_next chains_prev chains_head


subsection \<open>The invariant\<close>

datatype hkey = HInt ulong | HStr "byte list"

text \<open>The key a bucket stands for, and the key the arguments of an operation stand for. A bucket
  with \<open>nKeyLength\<close> 0 has the integer key \<open>h\<close>; the other operations compare \<open>nKeyLength\<close>
  bytes.\<close>

definition the_key :: "byte list \<Rightarrow> uint \<Rightarrow> ulong \<Rightarrow> hkey" where
  "the_key arKey nKeyLength h = (if nKeyLength = 0 then HInt h else HStr (take (unat nKeyLength) arKey))"

definition bk_key :: "'v bucket \<Rightarrow> hkey" where
  "bk_key b = the_key (bk_arKey b) (bk_nKeyLength b) (bk_h b)"

definition bk_val :: "'v bucket \<Rightarrow> 'v" where
  "bk_val b = pd_val (bk_pData b)"

text \<open>A string-keyed bucket caches the hash of its key and owns all the bytes of it.\<close>

definition bk_ok :: "'v bucket \<Rightarrow> bool" where
  "bk_ok b \<longleftrightarrow> bk_nKeyLength b \<noteq> 0 \<longrightarrow>
     bk_h b = zend_inline_hash_func (bk_arKey b) (bk_nKeyLength b) \<and> unat (bk_nKeyLength b) \<le> length (bk_arKey b)"

definition ht_order :: "'v HashTable \<Rightarrow> addr list \<Rightarrow> bool" where
  "ht_order ht xs \<longleftrightarrow> dll (fld pListNext (ht_store ht)) (fld pListLast (ht_store ht)) (pListHead ht) xs (pListTail ht)"

definition ht_chains :: "'v HashTable \<Rightarrow> addr set \<Rightarrow> bool" where
  "ht_chains ht S \<longleftrightarrow>
     chain_family (fld pNext (ht_store ht)) (fld pLast (ht_store ht)) (arBuckets ht) (\<lambda>a. nIndex ht (fld bk_h (ht_store ht) a)) S"

text \<open>The table size is a power of two from 8 to \<open>2^31\<close>, the mask selects its low bits, and the
  array of heads has that many entries.\<close>

definition ht_shape :: "'v HashTable \<Rightarrow> bool" where
  "ht_shape ht \<longleftrightarrow> (\<exists>i. 3 \<le> i \<and> i \<le> 31 \<and> nTableSize ht = 2 ^ i) \<and> nTableMask ht = nTableSize ht - 1 \<and>
     length (arBuckets ht) = unat (nTableSize ht)"

definition ht_content :: "'v HashTable \<Rightarrow> addr list \<Rightarrow> bool" where
  "ht_content ht xs \<longleftrightarrow> dom (ht_store ht) = set xs \<and> (\<forall>a \<in> set xs. a < ht_brk ht) \<and>
     nNumOfElements ht = of_nat (length xs) \<and> valid (pInternalPointer ht) (ht_store ht) \<and>
     inj_on (fld bk_key (ht_store ht)) (set xs) \<and> (\<forall>a \<in> set xs. fld bk_ok (ht_store ht) a)"

definition ht_inv :: "'v HashTable \<Rightarrow> addr list \<Rightarrow> bool" where
  "ht_inv ht xs \<longleftrightarrow> ht_shape ht \<and> ht_order ht xs \<and> ht_chains ht (set xs) \<and> ht_content ht xs"

text \<open>What the table means: its keys and values in insertion order.\<close>

definition ht_list :: "'v HashTable \<Rightarrow> addr list \<Rightarrow> (hkey \<times> 'v) list" where
  "ht_list ht xs = map (\<lambda>a. (fld bk_key (ht_store ht) a, fld bk_val (ht_store ht) a)) xs"

lemma bk_fold [store_simps]:
  "bk_h (the (s a)) = fld bk_h s a" "bk_nKeyLength (the (s a)) = fld bk_nKeyLength s a"
  "bk_pData (the (s a)) = fld bk_pData s a" "bk_arKey (the (s a)) = fld bk_arKey s a"
  "pListNext (the (s a)) = fld pListNext s a" "pListLast (the (s a)) = fld pListLast s a"
  "pNext (the (s a)) = fld pNext s a" "pLast (the (s a)) = fld pLast s a"
  by (simp_all add: fld_def)

lemma ht_poke_eq [store_simps]:
  "a \<in> dom (ht_store ht) \<Longrightarrow> ht_poke a f ht = Some (ht\<lparr>ht_store := supd (Some a) f (ht_store ht)\<rparr>)"
  by (simp add: ht_poke_def poke_supd)

lemma ht_poke_opt_eq [store_simps]:
  "valid p (ht_store ht) \<Longrightarrow> ht_poke_opt p f ht = Some (ht\<lparr>ht_store := supd p f (ht_store ht)\<rparr>)"
  by (simp add: ht_poke_opt_def poke_opt_supd)

lemma ht_head_eq [store_simps]: "i < length (arBuckets ht) \<Longrightarrow> ht_head ht i = Some (arBuckets ht ! i)"
  by (simp add: ht_head_def)

lemma ht_set_head_eq [store_simps]:
  "i < length (arBuckets ht) \<Longrightarrow> ht_set_head i p ht = Some (ht\<lparr>arBuckets := (arBuckets ht)[i := p]\<rparr>)"
  by (simp add: ht_set_head_def)

lemma nIndex_cong: "nTableMask ht' = nTableMask ht \<Longrightarrow> nIndex ht' = nIndex ht"
  by (simp add: nIndex_def fun_eq_iff)

lemma nIndex_less:
  assumes "ht_shape ht" shows "nIndex ht h < length (arBuckets ht)"
proof -
  obtain i where i: "i \<le> 31" "nTableSize ht = 2 ^ i" using assms by (auto simp: ht_shape_def)
  have pos: "0 < nTableSize ht" using i by (simp add: word_greater_zero_iff)
  have "(ucast (h AND ucast (nTableMask ht)) :: uint) = ucast h AND nTableMask ht"
    by (rule bit_word_eqI) (auto simp: bit_simps)
  then show ?thesis
    using assms unat_and_mask_less [OF pos, of "nTableMask ht" "ucast h"] by (simp add: nIndex_def ht_shape_def)
qed

subsection \<open>Linking\<close>

text \<open>The store after a bucket was put in front of a chain, and after it was appended to the
  global list.\<close>

definition st_chain :: "addr \<Rightarrow> addr option \<Rightarrow> 'v bucket store \<Rightarrow> 'v bucket store" where
  "st_chain a head s = supd head (\<lambda>b. b\<lparr>pLast := Some a\<rparr>) (supd (Some a) (\<lambda>b. b\<lparr>pNext := head, pLast := None\<rparr>) s)"

definition st_global :: "addr \<Rightarrow> addr option \<Rightarrow> 'v bucket store \<Rightarrow> 'v bucket store" where
  "st_global a tail s =
     supd tail (\<lambda>b. b\<lparr>pListNext := Some a\<rparr>) (supd (Some a) (\<lambda>b. b\<lparr>pListLast := tail, pListNext := None\<rparr>) s)"

lemma supd_supd: "supd (Some a) g (supd (Some a) f s) = supd (Some a) (\<lambda>b. g (f b)) s"
  by (simp add: supd_def)

lemma connect_bucket_eq:
  assumes "a \<in> dom (ht_store ht)" "valid head (ht_store ht)"
  shows "CONNECT_TO_BUCKET_DLLIST a head ht = Some (ht\<lparr>ht_store := st_chain a head (ht_store ht)\<rparr>)"
proof -
  have "the (supd (Some a) (\<lambda>b. b\<lparr>pNext := head, pLast := None\<rparr>) (ht_store ht) a) =
      (the (ht_store ht a))\<lparr>pNext := head, pLast := None\<rparr>" by (simp add: the_supd)
  then show ?thesis
    using assms by (simp add: CONNECT_TO_BUCKET_DLLIST_def ht_poke_eq ht_poke_opt_eq bind_read supd_supd st_chain_def)
qed

lemma connect_global_eq:
  assumes "a \<in> dom (ht_store ht)" "valid (pListTail ht) (ht_store ht)"
  shows "CONNECT_TO_GLOBAL_DLLIST a ht = Some (ht\<lparr>ht_store := st_global a (pListTail ht) (ht_store ht),
    pListTail := Some a, pListHead := (if pListHead ht = None then Some a else pListHead ht),
    pInternalPointer := (if pInternalPointer ht = None then Some a else pInternalPointer ht)\<rparr>)"
proof -
  have *: "the (supd (Some a) (\<lambda>b. b\<lparr>pListLast := pListTail ht, pListNext := None\<rparr>) (ht_store ht) a) =
      (the (ht_store ht a))\<lparr>pListLast := pListTail ht, pListNext := None\<rparr>" by (simp add: the_supd)
  show ?thesis
    using assms by (simp add: CONNECT_TO_GLOBAL_DLLIST_def ht_poke_eq ht_poke_opt_eq bind_read supd_supd * st_global_def Let_def)
qed

lemma dom_st [simp]:
  "a \<in> dom s \<Longrightarrow> valid q s \<Longrightarrow> dom (st_chain a q s) = dom s"
  "a \<in> dom s \<Longrightarrow> valid q s \<Longrightarrow> dom (st_global a q s) = dom s"
  by (simp_all add: st_chain_def st_global_def)

text \<open>A field the linking does not write reads the same everywhere.\<close>

lemma fld_supd_frame: "(\<And>b. g (f b) = g b) \<Longrightarrow> fld g (supd p f s) = fld g s"
  by (cases p) (auto simp: fld_def supd_def)

lemma bk_key_upd [simp]:
  "bk_key (b\<lparr>pNext := x\<rparr>) = bk_key b" "bk_key (b\<lparr>pLast := x\<rparr>) = bk_key b"
  "bk_key (b\<lparr>pListNext := x\<rparr>) = bk_key b" "bk_key (b\<lparr>pListLast := x\<rparr>) = bk_key b"
  "bk_key (b\<lparr>bk_pData := d\<rparr>) = bk_key b"
  by (simp_all add: bk_key_def)

lemma bk_ok_upd [simp]:
  "bk_ok (b\<lparr>pNext := x\<rparr>) = bk_ok b" "bk_ok (b\<lparr>pLast := x\<rparr>) = bk_ok b"
  "bk_ok (b\<lparr>pListNext := x\<rparr>) = bk_ok b" "bk_ok (b\<lparr>pListLast := x\<rparr>) = bk_ok b"
  "bk_ok (b\<lparr>bk_pData := d\<rparr>) = bk_ok b"
  by (simp_all add: bk_ok_def)

lemma bk_val_upd [simp]:
  "bk_val (b\<lparr>pNext := x\<rparr>) = bk_val b" "bk_val (b\<lparr>pLast := x\<rparr>) = bk_val b"
  "bk_val (b\<lparr>pListNext := x\<rparr>) = bk_val b" "bk_val (b\<lparr>pListLast := x\<rparr>) = bk_val b"
  by (simp_all add: bk_val_def)

text \<open>Two stores agree on what the buckets hold: everything but their links.\<close>

definition same_data :: "'v bucket store \<Rightarrow> 'v bucket store \<Rightarrow> bool" where
  "same_data s s' \<longleftrightarrow> dom s' = dom s \<and> fld bk_h s' = fld bk_h s \<and> fld bk_key s' = fld bk_key s \<and>
     fld bk_val s' = fld bk_val s \<and> fld bk_ok s' = fld bk_ok s \<and> fld bk_pData s' = fld bk_pData s"

lemma same_data_refl [simp]: "same_data s s"
  by (simp add: same_data_def)

lemma same_data_trans: "same_data s s' \<Longrightarrow> same_data s' s'' \<Longrightarrow> same_data s s''"
  by (simp add: same_data_def)

lemma same_data_st:
  "a \<in> dom s \<Longrightarrow> valid q s \<Longrightarrow> same_data s (st_chain a q s)"
  "a \<in> dom s \<Longrightarrow> valid q s \<Longrightarrow> same_data s (st_global a q s)"
  by (simp_all add: same_data_def st_chain_def st_global_def fld_supd_frame)

lemma st_chain_fld [store_simps]:
  assumes "q \<noteq> Some a"
  shows "fld pListNext (st_chain a q s) = fld pListNext s" "fld pListLast (st_chain a q s) = fld pListLast s"
    and "fld pNext (st_chain a q s) = (fld pNext s)(a := q)"
    and "fld pLast (st_chain a q s) =
      (case q of None \<Rightarrow> (fld pLast s)(a := None) | Some y \<Rightarrow> ((fld pLast s)(a := None))(y := Some a))"
proof -
  show "fld pListNext (st_chain a q s) = fld pListNext s" "fld pListLast (st_chain a q s) = fld pListLast s"
    by (simp_all add: st_chain_def fld_supd_frame)
  show "fld pNext (st_chain a q s) = (fld pNext s)(a := q)"
    unfolding st_chain_def by (subst fld_supd_frame) (simp_all add: fld_supd)
  show "fld pLast (st_chain a q s) =
      (case q of None \<Rightarrow> (fld pLast s)(a := None) | Some y \<Rightarrow> ((fld pLast s)(a := None))(y := Some a))"
    using assms by (cases q) (auto simp: st_chain_def fld_supd)
qed

lemma st_global_fld [store_simps]:
  assumes "q \<noteq> Some a"
  shows "fld pNext (st_global a q s) = fld pNext s" "fld pLast (st_global a q s) = fld pLast s"
    and "fld pListLast (st_global a q s) = (fld pListLast s)(a := q)"
    and "fld pListNext (st_global a q s) =
      (case q of None \<Rightarrow> (fld pListNext s)(a := None) | Some y \<Rightarrow> ((fld pListNext s)(a := None))(y := Some a))"
proof -
  show "fld pNext (st_global a q s) = fld pNext s" "fld pLast (st_global a q s) = fld pLast s"
    by (simp_all add: st_global_def fld_supd_frame)
  show "fld pListLast (st_global a q s) = (fld pListLast s)(a := q)"
    unfolding st_global_def by (subst fld_supd_frame) (simp_all add: fld_supd)
  show "fld pListNext (st_global a q s) =
      (case q of None \<Rightarrow> (fld pListNext s)(a := None) | Some y \<Rightarrow> ((fld pListNext s)(a := None))(y := Some a))"
    using assms by (cases q) (auto simp: st_global_def fld_supd)
qed

subsection \<open>Consequences of the invariant\<close>

lemma ht_invD:
  assumes "ht_inv ht xs"
  shows "ht_shape ht" "ht_order ht xs" "ht_chains ht (set xs)" "ht_content ht xs" "dom (ht_store ht) = set xs"
    "distinct xs" "valid (pListHead ht) (ht_store ht)" "valid (pListTail ht) (ht_store ht)"
    "ht_brk ht \<notin> set xs" "\<And>i. nIndex ht i < length (arBuckets ht)"
proof -
  show *: "ht_shape ht" "ht_order ht xs" "ht_chains ht (set xs)" "ht_content ht xs" "dom (ht_store ht) = set xs"
    "ht_brk ht \<notin> set xs"
    using assms by (auto simp: ht_inv_def ht_content_def)
  have d: "dll (fld pListNext (ht_store ht)) (fld pListLast (ht_store ht)) (pListHead ht) xs (pListTail ht)"
    using *(2) by (simp add: ht_order_def)
  show "distinct xs" using d by (rule dll_distinct)
  show "valid (pListHead ht) (ht_store ht)" "valid (pListTail ht) (ht_store ht)"
    using d *(5) by (auto simp: valid_def dest: dll_head_in dll_tail_in)
  show "\<And>i. nIndex ht i < length (arBuckets ht)" using nIndex_less [OF *(1)] .
qed

lemma ht_inv_links:
  assumes "ht_inv ht xs" "a \<in> set xs"
  shows "valid (fld pListNext (ht_store ht) a) (ht_store ht)" "valid (fld pListLast (ht_store ht) a) (ht_store ht)"
    "valid (fld pNext (ht_store ht) a) (ht_store ht)" "valid (fld pLast (ht_store ht) a) (ht_store ht)"
proof -
  note d = ht_invD(2,3,5,10) [OF assms(1)]
  show "valid (fld pListNext (ht_store ht) a) (ht_store ht)" "valid (fld pListLast (ht_store ht) a) (ht_store ht)"
    using d(1,3) assms(2) by (simp_all add: valid_def ht_order_def) (metis dll_next_in, metis dll_prev_in)
  show "valid (fld pNext (ht_store ht) a) (ht_store ht)" "valid (fld pLast (ht_store ht) a) (ht_store ht)"
    using chains_next(1) [OF d(2) [unfolded ht_chains_def] assms(2) d(4)]
      chains_prev(1) [OF d(2) [unfolded ht_chains_def] assms(2) d(4)] d(3)
    by (simp_all add: valid_def)
qed

lemma ht_inv_headslot:
  assumes "ht_inv ht xs"
  shows "valid (arBuckets ht ! nIndex ht h) (ht_store ht)"
  using chains_head(1) [OF ht_invD(3) [OF assms, unfolded ht_chains_def] ht_invD(10) [OF assms]] ht_invD(5) [OF assms]
  by (simp add: valid_def)

subsection \<open>Scanning a chain\<close>

lemma chain_scan_None [simp]: "chain_scan ht m None = Some None"
  by (simp add: chain_scan.simps)

lemma chain_scan_dseg:
  assumes "dseg (fld pNext (ht_store ht)) p f b c l None" "set c \<subseteq> dom (ht_store ht)"
  shows "chain_scan ht m f = Some (find (\<lambda>a. m a (the (ht_store ht a))) c)"
  using assms
proof (induction c arbitrary: f b)
  case (Cons a c)
  then show ?case
    by (subst chain_scan.simps) (auto simp: bind_read bk_fold)
qed simp

lemma find_unique:
  assumes "\<And>a. a \<in> set c \<Longrightarrow> P a = (a = x)" "x \<in> set c"
  shows "find P c = Some x"
  using assms by (induction c) auto

text \<open>A scan of slot \<open>i\<close> for a condition that implies membership of that slot finds the only
  bucket of the table that satisfies it.\<close>

lemma ht_scan:
  assumes inv: "ht_inv ht xs"
    and P: "\<And>a. a \<in> set xs \<Longrightarrow> m a (the (ht_store ht a)) \<longleftrightarrow> P a"
    and slot: "\<And>a. a \<in> set xs \<Longrightarrow> P a \<Longrightarrow> nIndex ht (fld bk_h (ht_store ht) a) = nIndex ht h"
    and uniq: "\<And>a b. a \<in> set xs \<Longrightarrow> b \<in> set xs \<Longrightarrow> P a \<Longrightarrow> P b \<Longrightarrow> a = b"
  shows "chain_scan ht m (arBuckets ht ! nIndex ht h) = Some (find P xs)"
proof -
  note D = ht_invD [OF inv]
  obtain c l where c: "dll (fld pNext (ht_store ht)) (fld pLast (ht_store ht)) (arBuckets ht ! nIndex ht h) c l"
    "set c = {a \<in> set xs. nIndex ht (fld bk_h (ht_store ht) a) = nIndex ht h}"
    using D(3) [unfolded ht_chains_def chain_family_def, rule_format, OF D(10)] by blast
  have "chain_scan ht m (arBuckets ht ! nIndex ht h) = Some (find (\<lambda>a. m a (the (ht_store ht a))) c)"
    using c D(5) by (intro chain_scan_dseg [where b = None and l = l]) (auto simp: dll_def)
  also have "find (\<lambda>a. m a (the (ht_store ht a))) c = find P xs"
  proof (cases "\<exists>a \<in> set xs. P a")
    case True
    then obtain x where x: "x \<in> set xs" "P x" by blast
    have "find (\<lambda>a. m a (the (ht_store ht a))) c = Some x"
      using x c(2) P slot uniq by (intro find_unique) auto
    moreover have "find P xs = Some x" using x uniq by (intro find_unique) auto
    ultimately show ?thesis by simp
  next
    case False
    then have "find P xs = None" by (simp add: find_None_iff)
    moreover have "find (\<lambda>a. m a (the (ht_store ht a))) c = None" using False c(2) P by (auto simp: find_None_iff)
    ultimately show ?thesis by simp
  qed
  finally show ?thesis .
qed

text \<open>The arguments of a lookup are well formed: the caller's buffer holds \<open>nKeyLength\<close> bytes, and
  a precomputed hash is the hash of the key.\<close>

definition key_args :: "byte list \<Rightarrow> uint \<Rightarrow> ulong \<Rightarrow> bool" where
  "key_args arKey nKeyLength h \<longleftrightarrow> nKeyLength \<noteq> 0 \<longrightarrow>
     unat nKeyLength \<le> length arKey \<and> h = zend_inline_hash_func arKey nKeyLength"

lemma bk_key_eq_iff:
  assumes "bk_ok b" "key_args arKey n h"
  shows "bk_key b = the_key arKey n h \<longleftrightarrow> bk_h b = h \<and> bk_nKeyLength b = n \<and> memcmp_eq (bk_arKey b) arKey n"
proof (cases "n = 0 \<or> bk_nKeyLength b = 0")
  case False
  then have ok: "bk_h b = zend_inline_hash_func (bk_arKey b) (bk_nKeyLength b)" "unat (bk_nKeyLength b) \<le> length (bk_arKey b)"
    "unat n \<le> length arKey" "h = zend_inline_hash_func arKey n"
    using assms by (auto simp: bk_ok_def key_args_def)
  have "bk_nKeyLength b = n" if "take (unat (bk_nKeyLength b)) (bk_arKey b) = take (unat n) arKey"
    using arg_cong [OF that, of length] ok(2,3) by (intro word_unat_eq_iff [THEN iffD2]) simp
  moreover have "take (unat n) (bk_arKey b) = take (unat n) arKey \<Longrightarrow> zend_inline_hash_func (bk_arKey b) n = h"
    by (subst ok(4)) (rule zend_inline_hash_func_take)
  ultimately show ?thesis
    using False ok(1) unfolding bk_key_def the_key_def memcmp_eq_def by (metis hkey.inject(2))
qed (auto simp: bk_key_def the_key_def memcmp_eq_def)

definition ht_lookup :: "'v HashTable \<Rightarrow> addr list \<Rightarrow> hkey \<Rightarrow> addr option" where
  "ht_lookup ht xs k = find (\<lambda>a. fld bk_key (ht_store ht) a = k) xs"

lemma ht_scan_key:
  assumes inv: "ht_inv ht xs" and args: "key_args arKey n h"
    and m: "\<And>a b. m a b \<longleftrightarrow> bk_h b = h \<and> bk_nKeyLength b = n \<and> memcmp_eq (bk_arKey b) arKey n"
  shows "chain_scan ht m (arBuckets ht ! nIndex ht h) = Some (ht_lookup ht xs (the_key arKey n h))"
  unfolding ht_lookup_def
proof (rule ht_scan [OF inv])
  have C: "inj_on (fld bk_key (ht_store ht)) (set xs)" "\<And>a. a \<in> set xs \<Longrightarrow> bk_ok (the (ht_store ht a))"
    using ht_invD(4) [OF inv] by (auto simp: ht_content_def fld_def)
  show "m a (the (ht_store ht a)) \<longleftrightarrow> fld bk_key (ht_store ht) a = the_key arKey n h" if "a \<in> set xs" for a
    using bk_key_eq_iff [OF C(2) [OF that] args] by (simp add: m fld_def)
  show "nIndex ht (fld bk_h (ht_store ht) a) = nIndex ht h"
    if "a \<in> set xs" "fld bk_key (ht_store ht) a = the_key arKey n h" for a
    using bk_key_eq_iff [OF C(2) [OF that(1)] args] that(2) by (simp add: fld_def)
  show "a = b" if "a \<in> set xs" "b \<in> set xs" "fld bk_key (ht_store ht) a = the_key arKey n h"
    "fld bk_key (ht_store ht) b = the_key arKey n h" for a b
    using C(1) that by (auto simp: inj_on_def)
qed

lemma memcmp_eq_0 [simp]: "memcmp_eq s1 s2 0"
  by (simp add: memcmp_eq_def)

lemma key_args_0 [simp]: "key_args arKey 0 h"
  by (simp add: key_args_def)

lemma the_key_0 [simp]: "the_key arKey 0 h = HInt h"
  by (simp add: the_key_def)

lemma ht_lookup_Some:
  assumes "ht_inv ht xs" "ht_lookup ht xs k = Some a"
  shows "a \<in> set xs" "fld bk_key (ht_store ht) a = k"
  using assms by (auto simp: ht_lookup_def find_Some_iff)

lemma ht_lookup_None:
  "ht_lookup ht xs k = None \<longleftrightarrow> k \<notin> fld bk_key (ht_store ht) ` set xs"
  by (auto simp: ht_lookup_def find_None_iff)

text \<open>What a lookup returns in terms of the represented list.\<close>

lemma ht_lookup_map_of:
  "map_of (ht_list ht xs) k = map_option (fld bk_val (ht_store ht)) (ht_lookup ht xs k)"
  by (induction xs) (auto simp: ht_list_def ht_lookup_def)

lemma ht_list_keys: "map fst (ht_list ht xs) = map (fld bk_key (ht_store ht)) xs"
  by (simp add: ht_list_def)

lemma ht_list_distinct: "ht_inv ht xs \<Longrightarrow> distinct (map fst (ht_list ht xs))"
  using ht_invD(4,6) [of ht xs] by (simp add: ht_list_keys distinct_map ht_content_def)

subsection \<open>Fields the invariant does not mention\<close>

lemma nIndex_upd [simp]:
  "nIndex (ht\<lparr>nNextFreeElement := f\<rparr>) = nIndex ht" "nIndex (ht\<lparr>ht_dtor_log := l\<rparr>) = nIndex ht"
  "nIndex (ht\<lparr>nApplyCount := c\<rparr>) = nIndex ht" "nIndex (ht\<lparr>bApplyProtection := p\<rparr>) = nIndex ht"
  "nIndex (ht\<lparr>ht_store := s\<rparr>) = nIndex ht" "nIndex (ht\<lparr>arBuckets := t\<rparr>) = nIndex ht"
  "nIndex (ht\<lparr>pInternalPointer := q\<rparr>) = nIndex ht" "nIndex (ht\<lparr>nNumOfElements := n\<rparr>) = nIndex ht"
  "nIndex (ht\<lparr>pListHead := q\<rparr>) = nIndex ht" "nIndex (ht\<lparr>pListTail := q\<rparr>) = nIndex ht"
  "nIndex (ht\<lparr>ht_brk := k\<rparr>) = nIndex ht"
  by (rule nIndex_cong; simp)+

lemma ht_inv_upd [simp]:
  "ht_inv (ht\<lparr>nNextFreeElement := f\<rparr>) xs = ht_inv ht xs" "ht_inv (ht\<lparr>ht_dtor_log := l\<rparr>) xs = ht_inv ht xs"
  "ht_inv (ht\<lparr>nApplyCount := c\<rparr>) xs = ht_inv ht xs" "ht_inv (ht\<lparr>bApplyProtection := p\<rparr>) xs = ht_inv ht xs"
  by (simp_all add: ht_inv_def ht_shape_def ht_order_def ht_chains_def ht_content_def)

lemma ht_inv_pointer: "ht_inv ht xs \<Longrightarrow> valid q (ht_store ht) \<Longrightarrow> ht_inv (ht\<lparr>pInternalPointer := q\<rparr>) xs"
  by (simp add: ht_inv_def ht_shape_def ht_order_def ht_chains_def ht_content_def)

lemma ht_list_cong: "same_data (ht_store ht) (ht_store ht') \<Longrightarrow> ht_list ht' xs = ht_list ht xs"
  by (simp add: ht_list_def same_data_def)

lemma ht_list_upd [simp]:
  "ht_list (ht\<lparr>nNextFreeElement := f\<rparr>) xs = ht_list ht xs" "ht_list (ht\<lparr>ht_dtor_log := l\<rparr>) xs = ht_list ht xs"
  "ht_list (ht\<lparr>nApplyCount := c\<rparr>) xs = ht_list ht xs" "ht_list (ht\<lparr>bApplyProtection := p\<rparr>) xs = ht_list ht xs"
  "ht_list (ht\<lparr>pInternalPointer := q\<rparr>) xs = ht_list ht xs"
  by (simp_all add: ht_list_def)

subsection \<open>Inserting a bucket\<close>

text \<open>The table after a new bucket was linked in and counted.\<close>

definition ht_inserted :: "'v bucket \<Rightarrow> 'v HashTable \<Rightarrow> 'v HashTable" where
  "ht_inserted b ht = (let a = ht_brk ht; i = nIndex ht (bk_h b) in
     ht\<lparr>ht_store := st_global a (pListTail ht) (st_chain a (arBuckets ht ! i) ((ht_store ht)(a \<mapsto> b))),
       ht_brk := Suc a, arBuckets := (arBuckets ht)[i := Some a], pListTail := Some a,
       pListHead := (if pListHead ht = None then Some a else pListHead ht),
       pInternalPointer := (if pInternalPointer ht = None then Some a else pInternalPointer ht),
       nNumOfElements := nNumOfElements ht + 1\<rparr>)"

lemma ht_inserted_store:
  fixes ht :: "'v HashTable" and b :: "'v bucket"
  assumes inv: "ht_inv ht xs"
  defines "a \<equiv> ht_brk ht" and "s \<equiv> ht_store (ht_inserted b ht)" and "head \<equiv> arBuckets ht ! nIndex ht (bk_h b)"
  shows "dom s = insert a (set xs)"
    and "same_data ((ht_store ht)(a \<mapsto> b)) s"
    and "fld pNext s = (fld pNext (ht_store ht))(a := head)"
    and "fld pLast s = (case head of None \<Rightarrow> (fld pLast (ht_store ht))(a := None)
      | Some y \<Rightarrow> ((fld pLast (ht_store ht))(a := None))(y := Some a))"
    and "fld pListLast s = (fld pListLast (ht_store ht))(a := pListTail ht)"
    and "fld pListNext s = (case pListTail ht of None \<Rightarrow> (fld pListNext (ht_store ht))(a := None)
      | Some y \<Rightarrow> ((fld pListNext (ht_store ht))(a := None))(y := Some a))"
proof -
  note D = ht_invD [OF inv]
  have s: "s = st_global a (pListTail ht) (st_chain a head ((ht_store ht)(a \<mapsto> b)))"
    by (simp add: s_def ht_inserted_def Let_def a_def head_def)
  have ne: "head \<noteq> Some a" "pListTail ht \<noteq> Some a"
    using D(5,8,9) ht_inv_headslot [OF inv, of "bk_h b"] by (auto simp: valid_def head_def a_def)
  have v: "valid head ((ht_store ht)(a \<mapsto> b))" "valid (pListTail ht) ((ht_store ht)(a \<mapsto> b))"
    "a \<in> dom ((ht_store ht)(a \<mapsto> b))"
    using D(8) ht_inv_headslot [OF inv, of "bk_h b"] by (simp_all add: head_def)
  have v2: "valid (pListTail ht) (st_chain a head ((ht_store ht)(a \<mapsto> b)))"
    using v by (simp add: valid_def)
  show "same_data ((ht_store ht)(a \<mapsto> b)) s"
    unfolding s using v v2 by (intro same_data_trans [OF same_data_st(1) same_data_st(2)]) simp_all
  then show "dom s = insert a (set xs)" using D(5) by (simp add: same_data_def)
  show "fld pNext s = (fld pNext (ht_store ht))(a := head)"
    "fld pLast s = (case head of None \<Rightarrow> (fld pLast (ht_store ht))(a := None)
      | Some y \<Rightarrow> ((fld pLast (ht_store ht))(a := None))(y := Some a))"
    "fld pListLast s = (fld pListLast (ht_store ht))(a := pListTail ht)"
    "fld pListNext s = (case pListTail ht of None \<Rightarrow> (fld pListNext (ht_store ht))(a := None)
      | Some y \<Rightarrow> ((fld pListNext (ht_store ht))(a := None))(y := Some a))"
    unfolding s using ne by (simp_all add: store_simps split: option.splits)
qed

lemma ht_inserted_inv:
  assumes inv: "ht_inv ht xs" and b: "bk_ok b" "bk_key b \<notin> fst ` set (ht_list ht xs)"
  shows "ht_inv (ht_inserted b ht) (xs @ [ht_brk ht])"
    and "ht_list (ht_inserted b ht) (xs @ [ht_brk ht]) = ht_list ht xs @ [(bk_key b, bk_val b)]"
proof -
  let ?a = "ht_brk ht" and ?ht = "ht_inserted b ht"
  note D = ht_invD [OF inv] and S = ht_inserted_store [OF inv, of b]
  have new: "?a \<notin> set xs" by (fact D(9))
  have f: "nIndex ?ht = nIndex ht" "nTableSize ?ht = nTableSize ht" "nTableMask ?ht = nTableMask ht"
    "arBuckets ?ht = (arBuckets ht)[nIndex ht (bk_h b) := Some ?a]"
    "pListTail ?ht = Some ?a" "pListHead ?ht = (if pListHead ht = None then Some ?a else pListHead ht)"
    "ht_brk ?ht = Suc ?a" "nNumOfElements ?ht = nNumOfElements ht + 1"
    "pInternalPointer ?ht = (if pInternalPointer ht = None then Some ?a else pInternalPointer ht)"
    by (simp_all add: ht_inserted_def Let_def)
  have data: "fld bk_h (ht_store ?ht) = (fld bk_h (ht_store ht))(?a := bk_h b)"
    "fld bk_key (ht_store ?ht) = (fld bk_key (ht_store ht))(?a := bk_key b)"
    "fld bk_val (ht_store ?ht) = (fld bk_val (ht_store ht))(?a := bk_val b)"
    "fld bk_ok (ht_store ?ht) = (fld bk_ok (ht_store ht))(?a := bk_ok b)"
    using S(2) by (simp_all add: same_data_def fld_upd)
  have "ht_order ?ht (xs @ [?a])"
    unfolding ht_order_def S(5,6) f
  proof (rule dll_push_back [OF D(2) [unfolded ht_order_def] new])
    show "(if pListHead ht = None then Some ?a else pListHead ht) = (case pListTail ht of None \<Rightarrow> Some ?a | Some _ \<Rightarrow> pListHead ht)"
      using dll_None_iff [OF D(2) [unfolded ht_order_def]] by (auto split: option.splits)
  qed simp_all
  moreover have "ht_chains ?ht (set (xs @ [?a]))"
    unfolding ht_chains_def S(3,4) f data using new D(10)
    by (simp, intro chains_push [OF D(3) [unfolded ht_chains_def], of ?a _ "nIndex ht (bk_h b)"]) auto
  moreover have "ht_content ?ht (xs @ [?a])"
    using D(4) b new S(1) unfolding ht_content_def f data
    by (auto simp: ht_list_def image_image inj_on_fun_updI valid_def intro: less_SucI)
  moreover have "ht_shape ?ht" using D(1) by (simp add: ht_shape_def f)
  ultimately show "ht_inv ?ht (xs @ [?a])" by (simp add: ht_inv_def)
  show "ht_list ?ht (xs @ [?a]) = ht_list ht xs @ [(bk_key b, bk_val b)]"
    using new by (auto simp: ht_list_def data)
qed

subsection \<open>Rehashing and growing\<close>

text \<open>The fields rehashing leaves alone.\<close>

definition same_header :: "'v HashTable \<Rightarrow> 'v HashTable \<Rightarrow> bool" where
  "same_header ht ht' \<longleftrightarrow> (\<exists>t s. ht' = ht\<lparr>arBuckets := t, ht_store := s\<rparr> \<and> length t = length (arBuckets ht))"

lemma rehash_loop:
  assumes "dseg (fld pListNext (ht_store ht)) (fld pListLast (ht_store ht)) f bk ys l None"
    and "distinct ys" "set ys \<inter> Z = {}" "dom (ht_store ht) = Z \<union> set ys"
    and "ht_chains ht Z" "\<And>h. nIndex ht h < length (arBuckets ht)"
  shows "\<exists>ht'. hash_rehash_loop f ht = Some ht' \<and> ht_chains ht' (Z \<union> set ys) \<and> same_header ht ht' \<and>
    same_data (ht_store ht) (ht_store ht') \<and>
    fld pListNext (ht_store ht') = fld pListNext (ht_store ht) \<and> fld pListLast (ht_store ht') = fld pListLast (ht_store ht)"
  using assms
proof (induction ys arbitrary: f bk ht Z)
  case Nil
  then show ?case
    by (auto simp: hash_rehash_loop.simps same_header_def intro!: exI [of _ "arBuckets ht"] exI [of _ "ht_store ht"])
next
  case (Cons a ys)
  let ?s = "ht_store ht" and ?i = "nIndex ht (fld bk_h (ht_store ht) a)"
  let ?head = "arBuckets ht ! ?i" and ?sl = "\<lambda>x. nIndex ht (fld bk_h (ht_store ht) x)"
  let ?ht = "ht\<lparr>ht_store := st_chain a ?head ?s, arBuckets := (arBuckets ht)[?i := Some a]\<rparr>"
  have a: "a \<in> dom ?s" "a \<notin> Z" using Cons.prems(3,4) by auto
  have ch: "chain_family (fld pNext ?s) (fld pLast ?s) (arBuckets ht) ?sl Z"
    using Cons.prems(5) by (simp add: ht_chains_def)
  have hd: "valid ?head ?s" "?head \<noteq> Some a"
    using chains_head(1) [OF ch Cons.prems(6)] Cons.prems(4) a(2) by (auto simp: valid_def)
  have sd: "same_data ?s (st_chain a ?head ?s)" using a hd by (intro same_data_st)
  have hh: "fld bk_h (st_chain a ?head ?s) = fld bk_h ?s" using sd by (simp add: same_data_def)
  have ch': "ht_chains ?ht (insert a Z)"
    unfolding ht_chains_def
    by (simp add: hh st_chain_fld [OF hd(2)])
      (rule chains_push [OF ch a(2) refl Cons.prems(6)]; simp add: fun_upd_def)
  have "\<exists>ht'. hash_rehash_loop (fld pListNext ?s a) ?ht = Some ht' \<and> ht_chains ht' (insert a Z \<union> set ys) \<and>
      same_header ?ht ht' \<and> same_data (ht_store ?ht) (ht_store ht') \<and>
      fld pListNext (ht_store ht') = fld pListNext (ht_store ?ht) \<and> fld pListLast (ht_store ht') = fld pListLast (ht_store ?ht)"
  proof (rule Cons.IH [where bk = "Some a"])
    show "dseg (fld pListNext (ht_store ?ht)) (fld pListLast (ht_store ?ht)) (fld pListNext ?s a) (Some a) ys l None"
      using Cons.prems(1) hd(2) by (simp add: store_simps)
    show "dom (ht_store ?ht) = insert a Z \<union> set ys" using Cons.prems(4) a hd by simp
  qed (use Cons.prems ch' in auto)
  moreover have "hash_rehash_loop f ht = hash_rehash_loop (fld pListNext ?s a) ?ht"
    using a hd Cons.prems(1,6)
    by (subst hash_rehash_loop.simps)
      (simp add: bind_read bk_fold ht_head_eq ht_set_head_eq connect_bucket_eq st_chain_fld Let_def)
  ultimately show ?case
    using sd hd(2) by (auto simp: same_header_def st_chain_fld intro: same_data_trans)
qed

lemma rehash_inv:
  assumes sh: "ht_shape ht" and o: "ht_order ht xs" and c: "ht_content ht xs"
  shows "\<exists>ht'. zend_hash_rehash ht = Some ht' \<and> ht_inv ht' xs \<and> same_header ht ht' \<and> same_data (ht_store ht) (ht_store ht')"
proof -
  let ?ht = "ht\<lparr>arBuckets := replicate (unat (nTableSize ht)) None\<rparr>"
  have e: "zend_hash_rehash ht = hash_rehash_loop (pListHead ht) ?ht"
    using sh by (simp add: zend_hash_rehash_def ht_shape_def)
  have len: "length (arBuckets ht) = unat (nTableSize ht)" using sh by (simp add: ht_shape_def)
  have "\<exists>ht'. hash_rehash_loop (pListHead ht) ?ht = Some ht' \<and> ht_chains ht' ({} \<union> set xs) \<and> same_header ?ht ht' \<and>
    same_data (ht_store ?ht) (ht_store ht') \<and>
    fld pListNext (ht_store ht') = fld pListNext (ht_store ?ht) \<and> fld pListLast (ht_store ht') = fld pListLast (ht_store ?ht)"
  proof (rule rehash_loop [where bk = None and l = "pListTail ht"])
    show "ht_chains ?ht {}" by (simp add: ht_chains_def chains_empty)
    show "nIndex ?ht h < length (arBuckets ?ht)" for h using nIndex_less [OF sh, of h] len by simp
  qed (use o c in \<open>auto simp: ht_order_def dll_def ht_content_def\<close>)
  then obtain ht' where H: "hash_rehash_loop (pListHead ht) ?ht = Some ht'" "ht_chains ht' (set xs)" "same_header ?ht ht'"
    "same_data (ht_store ht) (ht_store ht')"
    "fld pListNext (ht_store ht') = fld pListNext (ht_store ht)" "fld pListLast (ht_store ht') = fld pListLast (ht_store ht)"
    by auto
  obtain t s where t: "ht' = ht\<lparr>arBuckets := t, ht_store := s\<rparr>" "length t = unat (nTableSize ht)"
    using H(3) by (auto simp: same_header_def)
  then have f: "same_header ht ht'" "nTableSize ht' = nTableSize ht" "nTableMask ht' = nTableMask ht" "pListHead ht' = pListHead ht"
    "pListTail ht' = pListTail ht" "ht_brk ht' = ht_brk ht" "nNumOfElements ht' = nNumOfElements ht"
    "pInternalPointer ht' = pInternalPointer ht" "length (arBuckets ht') = unat (nTableSize ht)"
    using len by (auto simp: same_header_def)
  have "valid (pInternalPointer ht') (ht_store ht')"
    using c H(4) f(8) unfolding ht_content_def same_data_def valid_def by metis
  then have "ht_inv ht' xs"
    using sh o c H(2,4,5,6) f unfolding ht_inv_def ht_shape_def ht_order_def ht_content_def same_data_def by simp
  with e H(1,4) f(1) show ?thesis by (intro exI [of _ ht']) simp
qed

text \<open>What growing may change: the links, the array of heads and its size.\<close>

definition same_table :: "'v HashTable \<Rightarrow> 'v HashTable \<Rightarrow> bool" where
  "same_table ht ht' \<longleftrightarrow>
     (\<exists>n m t s. ht' = ht\<lparr>nTableSize := n, nTableMask := m, arBuckets := t, ht_store := s\<rparr>) \<and>
     same_data (ht_store ht) (ht_store ht')"

lemma same_table_refl [simp]: "same_table ht ht"
  unfolding same_table_def
  by (rule conjI, rule exI [of _ "nTableSize ht"], rule exI [of _ "nTableMask ht"], rule exI [of _ "arBuckets ht"],
      rule exI [of _ "ht_store ht"]) simp_all

lemma same_tableD:
  assumes "same_table ht ht'"
  shows "same_data (ht_store ht) (ht_store ht')" "nNumOfElements ht' = nNumOfElements ht" "nNextFreeElement ht' = nNextFreeElement ht"
    "pInternalPointer ht' = pInternalPointer ht" "pDestructor ht' = pDestructor ht" "ht_dtor_log ht' = ht_dtor_log ht"
    "nApplyCount ht' = nApplyCount ht" "bApplyProtection ht' = bApplyProtection ht" "pListHead ht' = pListHead ht"
    "pListTail ht' = pListTail ht" "ht_brk ht' = ht_brk ht"
  using assms by (auto simp: same_table_def)

lemma shape_double:
  assumes "ht_shape ht" "push_bit 1 (nTableSize ht) > 0"
  shows "\<exists>i. 3 \<le> i \<and> i \<le> 31 \<and> push_bit 1 (nTableSize ht) = 2 ^ i"
    and "length (arBuckets ht) \<le> unat (push_bit 1 (nTableSize ht))"
proof -
  obtain i where i: "3 \<le> i" "i \<le> 31" "nTableSize ht = 2 ^ i" using assms(1) by (auto simp: ht_shape_def)
  have d: "push_bit 1 (nTableSize ht) = 2 ^ Suc i" using i(3) by (simp add: push_bit_eq_mult)
  have "Suc i < 32"
  proof (rule ccontr)
    assume "\<not> Suc i < 32"
    then have "Suc i = 32" using i(2) by simp
    then show False using assms(2) d by simp
  qed
  then show "\<exists>i. 3 \<le> i \<and> i \<le> 31 \<and> push_bit 1 (nTableSize ht) = 2 ^ i" using d i by (intro exI [of _ "Suc i"]) simp
  have "unat (nTableSize ht) = 2 ^ i" "unat (push_bit 1 (nTableSize ht)) = 2 ^ Suc i"
    using \<open>Suc i < 32\<close> d i(3) by (simp_all add: unat_power_two del: power_Suc)
  then show "length (arBuckets ht) \<le> unat (push_bit 1 (nTableSize ht))" using assms(1) by (simp add: ht_shape_def)
qed

lemma do_resize_inv:
  assumes inv: "ht_inv ht xs"
  shows "\<exists>r ht'. zend_hash_do_resize ht = Some (r, ht') \<and> ht_inv ht' xs \<and> same_table ht ht'"
proof (cases "push_bit 1 (nTableSize ht) > 0 \<and> ht_realloc_ok ht")
  case False
  then show ?thesis using inv by (auto simp: zend_hash_do_resize_def Let_def)
next
  case True
  let ?n = "push_bit 1 (nTableSize ht)"
  let ?ht = "ht\<lparr>arBuckets := arBuckets ht @ replicate (unat ?n - length (arBuckets ht)) None, nTableSize := ?n, nTableMask := ?n - 1\<rparr>"
  note D = ht_invD [OF inv] and sd = shape_double [OF ht_invD(1) [OF inv]]
  have "ht_shape ?ht" "ht_order ?ht xs" "ht_content ?ht xs"
    using D(1,2,4) sd True by (simp_all add: ht_shape_def ht_order_def ht_content_def)
  then obtain ht' where H: "zend_hash_rehash ?ht = Some ht'" "ht_inv ht' xs" "same_header ?ht ht'" "same_data (ht_store ?ht) (ht_store ht')"
    using rehash_inv by blast
  obtain t s where "ht' = ?ht\<lparr>arBuckets := t, ht_store := s\<rparr>" using H(3) by (auto simp: same_header_def)
  then have e: "ht' = ht\<lparr>nTableSize := ?n, nTableMask := ?n - 1, arBuckets := t, ht_store := s\<rparr>" by simp
  have "same_table ht ht'" unfolding same_table_def by (intro conjI exI, rule e) (use H(4) in simp)
  then show ?thesis using True H(1,2) by (simp add: zend_hash_do_resize_def Let_def)
qed

lemma if_full_inv:
  assumes "ht_inv ht xs"
  shows "\<exists>ht'. ZEND_HASH_IF_FULL_DO_RESIZE ht = Some ht' \<and> ht_inv ht' xs \<and> same_table ht ht'"
  using do_resize_inv [OF assms] assms by (auto simp: ZEND_HASH_IF_FULL_DO_RESIZE_def)

subsection \<open>Deleting a bucket\<close>

definition st_unchain :: "addr \<Rightarrow> 'v bucket store \<Rightarrow> 'v bucket store" where
  "st_unchain a s =
     supd (fld pNext s a) (\<lambda>b. b\<lparr>pLast := fld pLast s a\<rparr>) (supd (fld pLast s a) (\<lambda>b. b\<lparr>pNext := fld pNext s a\<rparr>) s)"

definition st_unglobal :: "addr \<Rightarrow> 'v bucket store \<Rightarrow> 'v bucket store" where
  "st_unglobal a s =
     supd (fld pListNext s a) (\<lambda>b. b\<lparr>pListLast := fld pListLast s a\<rparr>)
       (supd (fld pListLast s a) (\<lambda>b. b\<lparr>pListNext := fld pListNext s a\<rparr>) s)"

text \<open>The table after bucket \<open>a\<close> was unlinked, destroyed, freed and uncounted.\<close>

definition ht_deleted :: "addr \<Rightarrow> 'v HashTable \<Rightarrow> 'v HashTable" where
  "ht_deleted a ht = (let s = ht_store ht; n = fld pListNext s a; l = fld pListLast s a in
     ht\<lparr>ht_store := (st_unglobal a (st_unchain a s))(a := None),
       arBuckets := (case fld pLast s a of None \<Rightarrow> (arBuckets ht)[nIndex ht (fld bk_h s a) := fld pNext s a] | Some _ \<Rightarrow> arBuckets ht),
       pListHead := (case l of None \<Rightarrow> n | Some _ \<Rightarrow> pListHead ht),
       pListTail := (case n of None \<Rightarrow> l | Some _ \<Rightarrow> pListTail ht),
       pInternalPointer := (if pInternalPointer ht = Some a then n else pInternalPointer ht),
       ht_dtor_log := ht_dtor_log ht @ (if pDestructor ht then [fld bk_val s a] else []),
       nNumOfElements := nNumOfElements ht - 1\<rparr>)"

text \<open>Conditions under which the pointer writes of a deletion do not touch the bucket itself.\<close>

definition unlinkable :: "addr \<Rightarrow> 'v bucket store \<Rightarrow> bool" where
  "unlinkable a s \<longleftrightarrow> a \<in> dom s \<and>
     valid (fld pListNext s a) s \<and> valid (fld pListLast s a) s \<and> valid (fld pNext s a) s \<and> valid (fld pLast s a) s \<and>
     fld pListNext s a \<noteq> Some a \<and> fld pListLast s a \<noteq> Some a \<and> fld pNext s a \<noteq> Some a \<and> fld pLast s a \<noteq> Some a"

lemma ht_inv_unlinkable:
  assumes inv: "ht_inv ht xs" and a: "a \<in> set xs"
  shows "unlinkable a (ht_store ht)"
proof -
  note D = ht_invD [OF inv]
  have "fld pListNext (ht_store ht) a \<noteq> Some a" "fld pListLast (ht_store ht) a \<noteq> Some a"
    using dll_no_self [OF D(2) [unfolded ht_order_def] a] by auto
  moreover have "fld pNext (ht_store ht) a \<noteq> Some a" "fld pLast (ht_store ht) a \<noteq> Some a"
    using chains_next(3) [OF D(3) [unfolded ht_chains_def] a D(10)] chains_prev(3) [OF D(3) [unfolded ht_chains_def] a D(10)] by auto
  ultimately show ?thesis using D(5) a ht_inv_links [OF inv a] by (simp add: unlinkable_def)
qed

lemma st_unchain_fld:
  assumes "unlinkable a s"
  shows "dom (st_unchain a s) = dom s" "same_data s (st_unchain a s)"
    "fld pListNext (st_unchain a s) = fld pListNext s" "fld pListLast (st_unchain a s) = fld pListLast s"
    "fld pNext (st_unchain a s) = (case fld pLast s a of None \<Rightarrow> fld pNext s | Some q \<Rightarrow> (fld pNext s)(q := fld pNext s a))"
    "fld pLast (st_unchain a s) = (case fld pNext s a of None \<Rightarrow> fld pLast s | Some q \<Rightarrow> (fld pLast s)(q := fld pLast s a))"
    "unlinkable a (st_unchain a s)"
proof -
  have v: "valid (fld pNext s a) s" "valid (fld pLast s a) s" "fld pNext s a \<noteq> Some a" "fld pLast s a \<noteq> Some a"
    using assms by (auto simp: unlinkable_def)
  show d: "dom (st_unchain a s) = dom s" using v by (simp add: st_unchain_def)
  then show "same_data s (st_unchain a s)" by (simp add: same_data_def) (simp add: st_unchain_def fld_supd_frame)
  show g: "fld pListNext (st_unchain a s) = fld pListNext s" "fld pListLast (st_unchain a s) = fld pListLast s"
    by (simp_all add: st_unchain_def fld_supd_frame)
  show n: "fld pNext (st_unchain a s) = (case fld pLast s a of None \<Rightarrow> fld pNext s | Some q \<Rightarrow> (fld pNext s)(q := fld pNext s a))"
    unfolding st_unchain_def by (subst fld_supd_frame) (simp_all add: fld_supd split: option.split)
  show l: "fld pLast (st_unchain a s) = (case fld pNext s a of None \<Rightarrow> fld pLast s | Some q \<Rightarrow> (fld pLast s)(q := fld pLast s a))"
    by (cases "fld pNext s a"; cases "fld pLast s a") (simp_all add: st_unchain_def fld_supd)
  have "fld pNext (st_unchain a s) a = fld pNext s a" "fld pLast (st_unchain a s) a = fld pLast s a"
    using v by (simp_all add: n l split: option.split)
  then show "unlinkable a (st_unchain a s)" using assms by (simp add: unlinkable_def d g valid_def)
qed

lemma st_unglobal_fld:
  assumes "unlinkable a s"
  shows "dom (st_unglobal a s) = dom s" "same_data s (st_unglobal a s)"
    "fld pNext (st_unglobal a s) = fld pNext s" "fld pLast (st_unglobal a s) = fld pLast s"
    "fld pListNext (st_unglobal a s) =
       (case fld pListLast s a of None \<Rightarrow> fld pListNext s | Some q \<Rightarrow> (fld pListNext s)(q := fld pListNext s a))"
    "fld pListLast (st_unglobal a s) =
       (case fld pListNext s a of None \<Rightarrow> fld pListLast s | Some q \<Rightarrow> (fld pListLast s)(q := fld pListLast s a))"
    "fld pListNext (st_unglobal a s) a = fld pListNext s a"
proof -
  have v: "valid (fld pListNext s a) s" "valid (fld pListLast s a) s" "fld pListNext s a \<noteq> Some a" "fld pListLast s a \<noteq> Some a"
    using assms by (auto simp: unlinkable_def)
  show d: "dom (st_unglobal a s) = dom s" using v by (simp add: st_unglobal_def)
  then show "same_data s (st_unglobal a s)" by (simp add: same_data_def) (simp add: st_unglobal_def fld_supd_frame)
  show "fld pNext (st_unglobal a s) = fld pNext s" "fld pLast (st_unglobal a s) = fld pLast s"
    by (simp_all add: st_unglobal_def fld_supd_frame)
  show n: "fld pListNext (st_unglobal a s) =
      (case fld pListLast s a of None \<Rightarrow> fld pListNext s | Some q \<Rightarrow> (fld pListNext s)(q := fld pListNext s a))"
    unfolding st_unglobal_def by (subst fld_supd_frame) (simp_all add: fld_supd split: option.split)
  show "fld pListLast (st_unglobal a s) =
      (case fld pListNext s a of None \<Rightarrow> fld pListLast s | Some q \<Rightarrow> (fld pListLast s)(q := fld pListLast s a))"
    by (cases "fld pListNext s a"; cases "fld pListLast s a") (simp_all add: st_unglobal_def fld_supd)
  show "fld pListNext (st_unglobal a s) a = fld pListNext s a" using v by (simp add: n split: option.split)
qed

lemma unlink_global_eq:
  assumes "unlinkable a (ht_store ht)"
  defines "s \<equiv> ht_store ht"
  shows "hash_unlink_global a ht = Some (ht\<lparr>ht_store := st_unglobal a s,
      pListHead := (case fld pListLast s a of None \<Rightarrow> fld pListNext s a | Some _ \<Rightarrow> pListHead ht),
      pListTail := (case fld pListNext s a of None \<Rightarrow> fld pListLast s a | Some _ \<Rightarrow> pListTail ht),
      pInternalPointer := (if pInternalPointer ht = Some a then fld pListNext s a else pInternalPointer ht)\<rparr>)"
proof -
  have v: "a \<in> dom s" "valid (fld pListNext s a) s" "valid (fld pListLast s a) s"
    "fld pListNext s a \<noteq> Some a" "fld pListLast s a \<noteq> Some a"
    using assms by (auto simp: unlinkable_def)
  have *: "supd q f s a = s a" "fld pListNext (supd q f s) a = fld pListNext s a" "fld pListLast (supd q f s) a = fld pListLast s a"
    if "q \<noteq> Some a" for q f s using that by (auto simp: supd_def fld_def split: option.splits)
  show ?thesis
    using v by (cases "fld pListLast s a"; cases "fld pListNext s a")
      (simp_all add: hash_unlink_global_def bind_read bk_fold ht_poke_eq * st_unglobal_def s_def [symmetric])
qed

lemma supd_other [simp]:
  assumes "q \<noteq> Some a"
  shows "supd q f s a = s a" "fld g (supd q f s) a = fld g s a"
  using assms by (auto simp: supd_def fld_def split: option.splits)

lemma st_other:
  assumes "unlinkable a s"
  shows "st_unchain a s a = s a" "st_unglobal a s a = s a"
  using assms by (simp_all add: st_unchain_def st_unglobal_def unlinkable_def)

lemma delete_bucket_eq:
  assumes "unlinkable a (ht_store ht)" "nIndex ht (fld bk_h (ht_store ht) a) < length (arBuckets ht)"
    and "arBuckets ht ! nIndex ht (fld bk_h (ht_store ht) a) = Some a \<longleftrightarrow> fld pLast (ht_store ht) a = None"
  shows "hash_delete_bucket (nIndex ht (fld bk_h (ht_store ht) a)) a ht = Some (ht_deleted a ht)"
proof -
  let ?s = "ht_store ht"
  let ?t = "case fld pLast ?s a of None \<Rightarrow> (arBuckets ht)[nIndex ht (fld bk_h ?s a) := fld pNext ?s a] | Some _ \<Rightarrow> arBuckets ht"
  let ?ht = "ht\<lparr>arBuckets := ?t, ht_store := st_unchain a ?s\<rparr>"
  have v: "a \<in> dom ?s" "valid (fld pNext ?s a) ?s" "valid (fld pLast ?s a) ?s" "fld pLast ?s a \<noteq> Some a" "fld pNext ?s a \<noteq> Some a"
    using assms(1) by (auto simp: unlinkable_def)
  have g: "hash_unlink_global a ?ht = Some (?ht\<lparr>ht_store := st_unglobal a (st_unchain a ?s),
      pListHead := (case fld pListLast ?s a of None \<Rightarrow> fld pListNext ?s a | Some _ \<Rightarrow> pListHead ht),
      pListTail := (case fld pListNext ?s a of None \<Rightarrow> fld pListLast ?s a | Some _ \<Rightarrow> pListTail ht),
      pInternalPointer := (if pInternalPointer ht = Some a then fld pListNext ?s a else pInternalPointer ht)\<rparr>)"
    using st_unchain_fld(3,4,7) [OF assms(1)] by (subst unlink_global_eq) (simp_all cong: option.case_cong)
  obtain b where b: "?s a = Some b" using v(1) by blast
  have s: "st_unglobal a (st_unchain a ?s) a = Some b"
    using st_other(2) [OF st_unchain_fld(7) [OF assms(1)]] st_other(1) [OF assms(1)] b by simp
  have bv: "fld bk_val ?s a = pd_val (bk_pData b)" "fld pListNext ?s a = pListNext b" using b by (simp_all add: fld_def bk_val_def)
  have "hash_delete_bucket (nIndex ht (fld bk_h ?s a)) a ht =
      do { ht \<leftarrow> hash_unlink_global a ?ht; p \<leftarrow> ht_store ht a;
           let ht = ht_free a (ht_call_dtor (bk_pData p) ht); Some (ht\<lparr>nNumOfElements := nNumOfElements ht - 1\<rparr>) }"
    using v assms(2,3)
    by (cases "fld pLast ?s a")
      (simp_all add: hash_delete_bucket_def ht_head_eq ht_set_head_eq bind_read bk_fold ht_poke_eq ht_poke_opt_eq st_unchain_def)
  then show ?thesis
    by (simp add: g s bv ht_free_def ht_call_dtor_def ht_deleted_def Let_def cong: option.case_cong)
qed

lemma apply_deleter_eq:
  assumes "unlinkable a (ht_store ht)" "nIndex ht (fld bk_h (ht_store ht) a) < length (arBuckets ht)"
  shows "zend_hash_apply_deleter ht a = Some (fld pListNext (ht_store ht) a, ht_deleted a ht)"
proof -
  let ?s = "ht_store ht"
  let ?t = "case fld pLast ?s a of None \<Rightarrow> (arBuckets ht)[nIndex ht (fld bk_h ?s a) := fld pNext ?s a] | Some _ \<Rightarrow> arBuckets ht"
  let ?ht = "ht\<lparr>arBuckets := ?t, ht_store := st_unchain a ?s\<rparr>"
  have v: "a \<in> dom ?s" "valid (fld pNext ?s a) ?s" "valid (fld pLast ?s a) ?s" "fld pLast ?s a \<noteq> Some a" "fld pNext ?s a \<noteq> Some a"
    using assms(1) by (auto simp: unlinkable_def)
  have g: "hash_unlink_global a ?ht = Some (?ht\<lparr>ht_store := st_unglobal a (st_unchain a ?s),
      pListHead := (case fld pListLast ?s a of None \<Rightarrow> fld pListNext ?s a | Some _ \<Rightarrow> pListHead ht),
      pListTail := (case fld pListNext ?s a of None \<Rightarrow> fld pListLast ?s a | Some _ \<Rightarrow> pListTail ht),
      pInternalPointer := (if pInternalPointer ht = Some a then fld pListNext ?s a else pInternalPointer ht)\<rparr>)"
    using st_unchain_fld(3,4,7) [OF assms(1)] by (subst unlink_global_eq) (simp_all cong: option.case_cong)
  obtain b where b: "?s a = Some b" using v(1) by blast
  have s: "st_unglobal a (st_unchain a ?s) a = Some b"
    using st_other(2) [OF st_unchain_fld(7) [OF assms(1)]] st_other(1) [OF assms(1)] b by simp
  have bv: "fld bk_val ?s a = pd_val (bk_pData b)" "fld pListNext ?s a = pListNext b" using b by (simp_all add: fld_def bk_val_def)
  have "zend_hash_apply_deleter ht a =
      do { ht \<leftarrow> hash_unlink_global a ?ht; let ht = ht\<lparr>nNumOfElements := nNumOfElements ht - 1\<rparr>; p \<leftarrow> ht_store ht a;
           let ht = ht_call_dtor (bk_pData p) ht; Some (pListNext p, ht_free a ht) }"
    using v assms(2)
    by (cases "fld pLast ?s a")
      (simp_all add: zend_hash_apply_deleter_def ht_set_head_eq bind_read bk_fold ht_poke_eq ht_poke_opt_eq st_unchain_def)
  then show ?thesis
    by (simp add: g s bv ht_free_def ht_call_dtor_def ht_deleted_def Let_def cong: option.case_cong)
qed

lemma ht_deleted_fld:
  "x \<noteq> a \<Longrightarrow> fld g (ht_store (ht_deleted a ht)) x = fld g (st_unglobal a (st_unchain a (ht_store ht))) x"
  by (simp add: ht_deleted_def Let_def fld_drop)

lemma ht_deleted_inv:
  assumes inv: "ht_inv ht (us @ a # vs)"
  shows "ht_inv (ht_deleted a ht) (us @ vs)"
    and "ht_list (ht_deleted a ht) (us @ vs) = ht_list ht us @ ht_list ht vs"
proof -
  let ?s = "ht_store ht" and ?ht = "ht_deleted a ht" and ?xs = "us @ a # vs"
  let ?u = "st_unglobal a (st_unchain a ?s)"
  note D = ht_invD [OF inv]
  have a: "a \<in> set ?xs" "a \<notin> set (us @ vs)" using D(6) by auto
  have un: "unlinkable a ?s" by (rule ht_inv_unlinkable [OF inv a(1)])
  note C = st_unchain_fld [OF un] and G = st_unglobal_fld [OF st_unchain_fld(7) [OF un]]
  have S: "ht_store ?ht = ?u(a := None)" by (simp add: ht_deleted_def Let_def)
  have f: "nIndex ?ht = nIndex ht" "nTableSize ?ht = nTableSize ht" "nTableMask ?ht = nTableMask ht" "ht_brk ?ht = ht_brk ht"
    "nNumOfElements ?ht = nNumOfElements ht - 1"
    "arBuckets ?ht = (case fld pLast ?s a of None \<Rightarrow> (arBuckets ht)[nIndex ht (fld bk_h ?s a) := fld pNext ?s a] | Some _ \<Rightarrow> arBuckets ht)"
    "pListHead ?ht = (case fld pListLast ?s a of None \<Rightarrow> fld pListNext ?s a | Some _ \<Rightarrow> pListHead ht)"
    "pListTail ?ht = (case fld pListNext ?s a of None \<Rightarrow> fld pListLast ?s a | Some _ \<Rightarrow> pListTail ht)"
    "pInternalPointer ?ht = (if pInternalPointer ht = Some a then fld pListNext ?s a else pInternalPointer ht)"
    by (simp_all add: ht_deleted_def Let_def)
  have ne: "x \<noteq> a" if "x \<in> set (us @ vs)" for x using that a(2) by auto
  have data: "same_data ?s ?u" using C(2) G(2) same_data_trans by blast
  have dfr: "fld bk_h (ht_store ?ht) x = fld bk_h ?s x" "fld bk_key (ht_store ?ht) x = fld bk_key ?s x"
    "fld bk_val (ht_store ?ht) x = fld bk_val ?s x" "fld bk_ok (ht_store ?ht) x = fld bk_ok ?s x" if "x \<in> set (us @ vs)" for x
    using data ne [OF that] by (simp_all add: same_data_def ht_deleted_fld)
  have "dll (fld pListNext ?u) (fld pListLast ?u) (pListHead ?ht) (us @ vs) (pListTail ?ht)"
    by (rule dll_unlink [OF D(2) [unfolded ht_order_def]]) (simp_all add: G(5,6) C(3,4) f cong: option.case_cong)
  then have "ht_order ?ht (us @ vs)"
    unfolding ht_order_def by (subst dll_frame) (auto simp: ht_deleted_fld ne)
  moreover have "ht_chains ?ht (set (us @ vs))"
  proof -
    have e: "set ?xs - {a} = set (us @ vs)" using a(2) by auto
    have "chain_family (fld pNext ?u) (fld pLast ?u) (arBuckets ?ht) (\<lambda>x. nIndex ht (fld bk_h ?s x)) (set ?xs - {a})"
      by (rule chains_unlink [OF D(3) [unfolded ht_chains_def] a(1) D(10)]) (simp_all add: G(3,4) C(5,6) f)
    from this [unfolded e] show ?thesis
      unfolding ht_chains_def f(1) using data
      by (rule_tac chains_frame) (simp_all add: ht_deleted_fld ne same_data_def)
  qed
  moreover have "ht_content ?ht (us @ vs)"
  proof -
    have d: "dom (ht_store ?ht) = set (us @ vs)" using G(1) C(1) D(5) a(2) by (auto simp: S)
    have "valid (pInternalPointer ht) ?s" "inj_on (fld bk_key ?s) (set ?xs)" "\<forall>x \<in> set ?xs. fld bk_ok ?s x"
      "\<forall>x \<in> set ?xs. x < ht_brk ht" "nNumOfElements ht = of_nat (length ?xs)"
      using D(4) by (auto simp: ht_content_def)
    moreover have "inj_on (fld bk_key (ht_store ?ht)) (set (us @ vs))"
      using inj_on_subset [OF calculation(2), of "set (us @ vs)"] dfr(2) by (subst inj_on_cong [of _ _ "fld bk_key ?s"]) auto
    moreover have "valid (pInternalPointer ?ht) (ht_store ?ht)"
      using calculation(1) ht_inv_links(1) [OF inv a(1)] un D(5) unfolding valid_def d f(9) unlinkable_def
      by (auto split: if_splits)
    ultimately show ?thesis using d dfr(4) by (auto simp: ht_content_def f)
  qed
  moreover have "ht_shape ?ht" using D(1) by (simp add: ht_shape_def f split: option.split)
  ultimately show "ht_inv ?ht (us @ vs)" by (simp add: ht_inv_def)
  show "ht_list ?ht (us @ vs) = ht_list ht us @ ht_list ht vs"
    using dfr by (auto simp: ht_list_def)
qed

lemma delete_bucket_inv:
  assumes inv: "ht_inv ht xs" and a: "a \<in> set xs"
  shows "hash_delete_bucket (nIndex ht (fld bk_h (ht_store ht) a)) a ht = Some (ht_deleted a ht)"
    and "zend_hash_apply_deleter ht a = Some (fld pListNext (ht_store ht) a, ht_deleted a ht)"
proof -
  note D = ht_invD [OF inv] and un = ht_inv_unlinkable [OF inv a]
  show "hash_delete_bucket (nIndex ht (fld bk_h (ht_store ht) a)) a ht = Some (ht_deleted a ht)"
    by (rule delete_bucket_eq [OF un D(10)]) (rule chains_is_head [OF D(3) [unfolded ht_chains_def] a D(10)])
  show "zend_hash_apply_deleter ht a = Some (fld pListNext (ht_store ht) a, ht_deleted a ht)"
    by (rule apply_deleter_eq [OF un D(10)])
qed

subsection \<open>Writing the data of a bucket\<close>

lemma ht_data_inv:
  assumes inv: "ht_inv ht (us @ a # vs)" and v: "\<And>b. pd_val (f b) = v"
  defines "ht' \<equiv> ht\<lparr>ht_store := supd (Some a) (\<lambda>b. b\<lparr>bk_pData := f b\<rparr>) (ht_store ht)\<rparr>"
  shows "ht_poke a (\<lambda>b. b\<lparr>bk_pData := f b\<rparr>) ht = Some ht'" "ht_inv ht' (us @ a # vs)"
    and "ht_list ht' (us @ a # vs) = ht_list ht us @ (fld bk_key (ht_store ht) a, v) # ht_list ht vs"
    and "fld bk_key (ht_store ht') = fld bk_key (ht_store ht)"
    and "fld pListNext (ht_store ht') = fld pListNext (ht_store ht)"
    and "fld pListLast (ht_store ht') = fld pListLast (ht_store ht)"
proof -
  note D = ht_invD [OF inv]
  have a: "a \<in> dom (ht_store ht)" "a \<notin> set us" "a \<notin> set vs" using D(5,6) by auto
  have fr: "fld bk_key (ht_store ht') = fld bk_key (ht_store ht)" "fld bk_ok (ht_store ht') = fld bk_ok (ht_store ht)"
    "fld bk_h (ht_store ht') = fld bk_h (ht_store ht)"
    "fld pListNext (ht_store ht') = fld pListNext (ht_store ht)" "fld pListLast (ht_store ht') = fld pListLast (ht_store ht)"
    "fld pNext (ht_store ht') = fld pNext (ht_store ht)" "fld pLast (ht_store ht') = fld pLast (ht_store ht)"
    by (simp_all add: ht'_def fld_supd_frame)
  show "ht_poke a (\<lambda>b. b\<lparr>bk_pData := f b\<rparr>) ht = Some ht'" using a by (simp add: ht_poke_eq ht'_def)
  have n: "nIndex ht' = nIndex ht" by (simp add: ht'_def)
  have e: "arBuckets ht' = arBuckets ht" "nTableSize ht' = nTableSize ht" "nTableMask ht' = nTableMask ht" "pListHead ht' = pListHead ht"
    "pListTail ht' = pListTail ht" "ht_brk ht' = ht_brk ht" "nNumOfElements ht' = nNumOfElements ht"
    "pInternalPointer ht' = pInternalPointer ht" "dom (ht_store ht') = dom (ht_store ht)"
    using a by (simp_all add: ht'_def)
  have "valid (pInternalPointer ht') (ht_store ht') = valid (pInternalPointer ht) (ht_store ht)"
    by (simp add: valid_def e)
  then show "ht_inv ht' (us @ a # vs)"
    using inv unfolding ht_inv_def ht_shape_def ht_order_def ht_chains_def ht_content_def by (simp add: fr e n)
  show "ht_list ht' (us @ a # vs) = ht_list ht us @ (fld bk_key (ht_store ht) a, v) # ht_list ht vs"
    using a v by (auto simp: ht_list_def fr) (auto simp: ht'_def fld_supd bk_val_def)
  show "fld bk_key (ht_store ht') = fld bk_key (ht_store ht)" "fld pListNext (ht_store ht') = fld pListNext (ht_store ht)"
    "fld pListLast (ht_store ht') = fld pListLast (ht_store ht)" by (simp_all add: fr)
qed

end
