(* ===== verification/Hash_Map.thy ===== *)
theory Hash_Map
  imports Hash_Inv "HOL-Library.AList"
begin

unbundle bit_operations_syntax

text \<open>
  The abstract specification of a hash table, an insertion-ordered finite map with a cursor, a
  counter for the next free index and a log of destructor calls, and the refinement lemmas:
  each operation of \<open>Zend/zend_hash.c\<close> on a table that represents an abstract map returns (it
  never follows a bad pointer and never loops) and leaves a table that represents what the
  abstract operation yields.
\<close>

record 'v omap =
  om_list :: "(hkey \<times> 'v) list"
  om_cur :: "hkey option"
  om_next :: ulong
  om_dtor :: bool
  om_log :: "'v list"

definition ht_abs :: "'v HashTable \<Rightarrow> addr list \<Rightarrow> 'v omap" where
  "ht_abs ht xs = \<lparr>om_list = ht_list ht xs, om_cur = map_option (fld bk_key (ht_store ht)) (pInternalPointer ht),
     om_next = nNextFreeElement ht, om_dtor = pDestructor ht, om_log = ht_dtor_log ht\<rparr>"

definition ht_repr :: "'v HashTable \<Rightarrow> 'v omap \<Rightarrow> bool" where
  "ht_repr ht M \<longleftrightarrow> (\<exists>xs. ht_inv ht xs \<and> ht_abs ht xs = M)"

text \<open>The bucket at \<open>a\<close> holds key \<open>k\<close> and value \<open>v\<close>.\<close>

definition ht_holds :: "'v HashTable \<Rightarrow> addr \<Rightarrow> hkey \<Rightarrow> 'v \<Rightarrow> bool" where
  "ht_holds ht a k v \<longleftrightarrow> a \<in> dom (ht_store ht) \<and> fld bk_key (ht_store ht) a = k \<and> fld bk_val (ht_store ht) a = v"

subsection \<open>Abstract operations\<close>

definition om_get :: "'v omap \<Rightarrow> hkey \<Rightarrow> 'v option" where
  "om_get M k = map_of (om_list M) k"

definition om_destroy :: "'v omap \<Rightarrow> 'v list \<Rightarrow> 'v omap" where
  "om_destroy M vs = M\<lparr>om_log := om_log M @ (if om_dtor M then vs else [])\<rparr>"

text \<open>A new key goes to the end; the value of an existing key is replaced where it is, after the
  old value was destroyed. A cursor that was at the end moves onto a new element.\<close>

definition om_put :: "hkey \<Rightarrow> 'v \<Rightarrow> 'v omap \<Rightarrow> 'v omap" where
  "om_put k v M =
     (case om_get M k of
        Some old \<Rightarrow> om_destroy (M\<lparr>om_list := AList.update k v (om_list M)\<rparr>) [old]
      | None \<Rightarrow> M\<lparr>om_list := om_list M @ [(k, v)], om_cur := (if om_cur M = None then Some k else om_cur M)\<rparr>)"

definition om_bump :: "ulong \<Rightarrow> 'v omap \<Rightarrow> 'v omap" where
  "om_bump h M = (if sint (om_next M) \<le> sint h then M\<lparr>om_next := (if h < LONG_MAX then h + 1 else LONG_MAX)\<rparr> else M)"

text \<open>The key that follows \<open>k\<close>, if any, and the key before it.\<close>

definition key_after :: "hkey \<Rightarrow> (hkey \<times> 'v) list \<Rightarrow> hkey option" where
  "key_after k kvs = (case dropWhile (\<lambda>p. fst p \<noteq> k) kvs of _ # p # _ \<Rightarrow> Some (fst p) | _ \<Rightarrow> None)"

definition key_before :: "hkey \<Rightarrow> (hkey \<times> 'v) list \<Rightarrow> hkey option" where
  "key_before k kvs = key_after k (rev kvs)"

definition om_del :: "hkey \<Rightarrow> 'v omap \<Rightarrow> 'v omap" where
  "om_del k M =
     (case om_get M k of
        Some old \<Rightarrow> om_destroy (M\<lparr>om_list := AList.delete k (om_list M),
          om_cur := (if om_cur M = Some k then key_after k (om_list M) else om_cur M)\<rparr>) [old]
      | None \<Rightarrow> M)"

subsection \<open>Facts about the abstraction\<close>

lemma ht_reprI [intro]: "ht_inv ht xs \<Longrightarrow> ht_abs ht xs = M \<Longrightarrow> ht_repr ht M"
  by (auto simp: ht_repr_def)

lemma ht_abs_sel [simp]:
  "om_list (ht_abs ht xs) = ht_list ht xs" "om_next (ht_abs ht xs) = nNextFreeElement ht"
  "om_dtor (ht_abs ht xs) = pDestructor ht" "om_log (ht_abs ht xs) = ht_dtor_log ht"
  "om_cur (ht_abs ht xs) = map_option (fld bk_key (ht_store ht)) (pInternalPointer ht)"
  by (simp_all add: ht_abs_def)

lemma om_get_abs: "om_get (ht_abs ht xs) k = map_option (fld bk_val (ht_store ht)) (ht_lookup ht xs k)"
  by (simp add: om_get_def ht_lookup_map_of)

lemma ht_repr_lookup:
  assumes "ht_inv ht xs" "ht_lookup ht xs k = Some a"
  shows "\<exists>us vs. xs = us @ a # vs" "ht_holds ht a k (fld bk_val (ht_store ht) a)"
  using ht_lookup_Some [OF assms] ht_invD(5) [OF assms(1)] by (auto simp: ht_holds_def dest: split_list)

lemma update_middle:
  "k \<notin> fst ` set us \<Longrightarrow> AList.update k v (us @ (k, w) # vs) = us @ (k, v) # vs"
  by (induction us) auto

lemma delete_middle:
  "k \<notin> fst ` set us \<Longrightarrow> k \<notin> fst ` set vs \<Longrightarrow> AList.delete k (us @ (k, w) # vs) = us @ vs"
  by (induction us) (force simp: AList.delete_eq filter_id_conv)+

lemma ht_list_append [simp]: "ht_list ht (us @ vs) = ht_list ht us @ ht_list ht vs"
  by (simp add: ht_list_def)

lemma ht_list_Cons [simp]:
  "ht_list ht (a # vs) = (fld bk_key (ht_store ht) a, fld bk_val (ht_store ht) a) # ht_list ht vs"
  by (simp add: ht_list_def)

lemma ht_list_Nil [simp]: "ht_list ht [] = []"
  by (simp add: ht_list_def)

lemma ht_list_fst: "fst ` set (ht_list ht xs) = fld bk_key (ht_store ht) ` set xs"
  by (auto simp: ht_list_def image_image)

lemma ht_inv_split_keys:
  assumes "ht_inv ht (us @ a # vs)"
  shows "fld bk_key (ht_store ht) a \<notin> fst ` set (ht_list ht us)" "fld bk_key (ht_store ht) a \<notin> fst ` set (ht_list ht vs)"
  using ht_list_distinct [OF assms] by (auto simp: distinct_append)

lemma key_after_middle:
  assumes "k \<notin> fst ` set us"
  shows "key_after k (us @ (k, v) # vs) = (case vs of [] \<Rightarrow> None | p # _ \<Rightarrow> Some (fst p))"
proof -
  have "dropWhile (\<lambda>p. fst p \<noteq> k) (us @ (k, v) # vs) = (k, v) # vs"
    using assms by (subst dropWhile_append2) auto
  then show ?thesis by (simp add: key_after_def)
qed

text \<open>Growing changes nothing that is represented.\<close>

lemma same_table_abs:
  assumes "same_table ht ht'" shows "ht_abs ht' xs = ht_abs ht xs"
proof -
  note T = same_tableD [OF assms]
  have "fld bk_key (ht_store ht') = fld bk_key (ht_store ht)" using T(1) by (simp add: same_data_def)
  then show ?thesis unfolding ht_abs_def using T(3-6) ht_list_cong [OF T(1)] by simp
qed

lemma same_table_holds: "same_table ht ht' \<Longrightarrow> ht_holds ht' a k v = ht_holds ht a k v"
  using same_tableD(1) [of ht ht'] by (simp add: ht_holds_def same_data_def)

subsection \<open>Insertion and update\<close>

lemma put_found:
  assumes inv: "ht_inv ht xs" and l: "ht_lookup ht xs k = Some a"
  shows "\<exists>ht'. hash_replace_data a v n ht = Some ht' \<and> ht_inv ht' xs \<and> ht_abs ht' xs = om_put k v (ht_abs ht xs) \<and>
    ht_holds ht' a k v"
proof -
  obtain us vs where xs: "xs = us @ a # vs" using ht_repr_lookup(1) [OF inv l] by blast
  have k: "fld bk_key (ht_store ht) a = k" and a: "a \<in> dom (ht_store ht)"
    using ht_lookup_Some [OF inv l] ht_invD(5) [OF inv] by auto
  obtain b where b: "ht_store ht a = Some b" using a by blast
  let ?h1 = "ht\<lparr>ht_dtor_log := ht_dtor_log ht @ (if pDestructor ht then [bk_val b] else [])\<rparr>"
  let ?f = "\<lambda>b :: 'a bucket. UPDATE_DATA v n (bk_pData b)"
  let ?h2 = "?h1\<lparr>ht_store := supd (Some a) (\<lambda>b. b\<lparr>bk_pData := ?f b\<rparr>) (ht_store ?h1)\<rparr>"
  have inv1: "ht_inv ?h1 (us @ a # vs)" using inv xs by simp
  have "pd_val (?f b) = v" for b :: "'a bucket" by (auto simp: UPDATE_DATA_def split: pdata.split)
  note P = ht_data_inv [OF inv1, of ?f, OF this]
  have "hash_replace_data a v n ht = Some ?h2"
    using P(1) b by (auto simp: hash_replace_data_def ht_call_dtor_def bk_val_def)
  moreover have "ht_abs ?h2 xs = om_put k v (ht_abs ht xs)"
  proof -
    have "om_get (ht_abs ht xs) k = Some (bk_val b)" using l b by (simp add: om_get_abs fld_def)
    moreover have "AList.update k v (ht_list ht xs) = ht_list ht us @ (k, v) # ht_list ht vs"
      using ht_inv_split_keys(1) [OF inv [unfolded xs]] k xs by (simp add: update_middle)
    ultimately show ?thesis
      using P(3,4) xs k by (simp add: om_put_def om_destroy_def ht_abs_def)
  qed
  moreover have "ht_holds ?h2 a k v"
  proof -
    have "ht_list ?h2 xs = ht_list ht us @ (k, v) # ht_list ht vs" using P(3) xs k by simp
    then have "fld bk_val (ht_store ?h2) a = v" using xs by (simp add: ht_list_def)
    then show ?thesis using P(4) k a by (simp add: ht_holds_def)
  qed
  ultimately show ?thesis using P(2) xs by blast
qed

lemma put_new:
  assumes inv: "ht_inv ht xs" and l: "ht_lookup ht xs (bk_key b) = None" and b: "bk_ok b"
  shows "\<exists>ht' xs'. ZEND_HASH_IF_FULL_DO_RESIZE (ht_inserted b ht) = Some ht' \<and> ht_inv ht' xs' \<and>
    ht_abs ht' xs' = om_put (bk_key b) (bk_val b) (ht_abs ht xs) \<and> ht_holds ht' (ht_brk ht) (bk_key b) (bk_val b)"
proof -
  let ?h1 = "ht_inserted b ht" and ?xs = "xs @ [ht_brk ht]"
  have new: "bk_key b \<notin> fst ` set (ht_list ht xs)" using l by (simp add: ht_lookup_None ht_list_fst)
  note I = ht_inserted_inv [OF inv b new] and S = ht_inserted_store [OF inv, of b]
  have key: "fld bk_key (ht_store ?h1) = (fld bk_key (ht_store ht))(ht_brk ht := bk_key b)"
    "fld bk_val (ht_store ?h1) = (fld bk_val (ht_store ht))(ht_brk ht := bk_val b)"
    using S(2) by (simp_all add: same_data_def fld_upd)
  have f: "pInternalPointer ?h1 = (if pInternalPointer ht = None then Some (ht_brk ht) else pInternalPointer ht)"
    "nNextFreeElement ?h1 = nNextFreeElement ht" "pDestructor ?h1 = pDestructor ht" "ht_dtor_log ?h1 = ht_dtor_log ht"
    by (simp_all add: ht_inserted_def Let_def)
  have "map_option (fld bk_key (ht_store ?h1)) (pInternalPointer ?h1) =
      (if pInternalPointer ht = None then Some (bk_key b) else map_option (fld bk_key (ht_store ht)) (pInternalPointer ht))"
  proof (cases "pInternalPointer ht")
    case (Some q)
    then have "q \<in> set xs" using ht_invD(4,5) [OF inv] by (simp add: ht_content_def)
    then show ?thesis using Some key f(1) ht_invD(9) [OF inv] by auto
  qed (simp add: f key)
  moreover have "om_get (ht_abs ht xs) (bk_key b) = None" using l by (simp add: om_get_abs)
  ultimately have abs: "ht_abs ?h1 ?xs = om_put (bk_key b) (bk_val b) (ht_abs ht xs)"
    using I(2) f by (simp add: om_put_def ht_abs_def)
  have "ht_holds ?h1 (ht_brk ht) (bk_key b) (bk_val b)" using S(1) by (simp add: ht_holds_def key)
  moreover obtain ht' where H: "ZEND_HASH_IF_FULL_DO_RESIZE ?h1 = Some ht'" "ht_inv ht' ?xs" "same_table ?h1 ht'"
    using if_full_inv [OF I(1)] by blast
  ultimately show ?thesis
    using abs same_table_abs [OF H(3)] same_table_holds [OF H(3)] by (intro exI [of _ ht'] exI [of _ ?xs]) simp
qed

text \<open>The two orders in which the sources link a new bucket leave the same table.\<close>

lemma insert_steps:
  assumes inv: "ht_inv ht xs" and b: "pListNext b = None" "pListLast b = None" "pNext b = None" "pLast b = None"
  defines "i \<equiv> nIndex ht (bk_h b)" and "a \<equiv> ht_brk ht"
  defines "h1 \<equiv> ht\<lparr>ht_store := (ht_store ht)(a \<mapsto> b), ht_brk := Suc a\<rparr>"
  shows "do { ht \<leftarrow> CONNECT_TO_BUCKET_DLLIST a (arBuckets ht ! i) h1; ht \<leftarrow> CONNECT_TO_GLOBAL_DLLIST a ht;
           ht \<leftarrow> ht_set_head i (Some a) ht; K ht } = K (ht_inserted b ht\<lparr>nNumOfElements := nNumOfElements ht\<rparr>)"
    and "do { ht \<leftarrow> CONNECT_TO_BUCKET_DLLIST a (arBuckets ht ! i) h1; ht \<leftarrow> ht_set_head i (Some a) ht;
           ht \<leftarrow> CONNECT_TO_GLOBAL_DLLIST a ht; K ht } = K (ht_inserted b ht\<lparr>nNumOfElements := nNumOfElements ht\<rparr>)"
proof -
  note D = ht_invD [OF inv]
  have v: "valid (arBuckets ht ! i) ((ht_store ht)(a \<mapsto> b))" "valid (pListTail ht) ((ht_store ht)(a \<mapsto> b))"
    using D(8) ht_inv_headslot [OF inv, of "bk_h b"] by (simp_all add: i_def)
  have c: "CONNECT_TO_BUCKET_DLLIST a (arBuckets ht ! i) h1 =
      Some (h1\<lparr>ht_store := st_chain a (arBuckets ht ! i) ((ht_store ht)(a \<mapsto> b))\<rparr>)"
    using v by (simp add: connect_bucket_eq h1_def)
  have d: "a \<in> dom (st_chain a (arBuckets ht ! i) ((ht_store ht)(a \<mapsto> b)))"
    "valid (pListTail ht) (st_chain a (arBuckets ht ! i) ((ht_store ht)(a \<mapsto> b)))"
    using v by (simp_all add: valid_def)
  have i: "i < length (arBuckets ht)" using D(10) by (simp add: i_def)
  show "do { ht \<leftarrow> CONNECT_TO_BUCKET_DLLIST a (arBuckets ht ! i) h1; ht \<leftarrow> CONNECT_TO_GLOBAL_DLLIST a ht;
           ht \<leftarrow> ht_set_head i (Some a) ht; K ht } = K (ht_inserted b ht\<lparr>nNumOfElements := nNumOfElements ht\<rparr>)"
    using d i by (auto simp: c [unfolded h1_def] connect_global_eq ht_set_head_eq h1_def ht_inserted_def Let_def i_def [symmetric] a_def [symmetric]
      intro!: arg_cong [of _ _ K])
  show "do { ht \<leftarrow> CONNECT_TO_BUCKET_DLLIST a (arBuckets ht ! i) h1; ht \<leftarrow> ht_set_head i (Some a) ht;
           ht \<leftarrow> CONNECT_TO_GLOBAL_DLLIST a ht; K ht } = K (ht_inserted b ht\<lparr>nNumOfElements := nNumOfElements ht\<rparr>)"
    using d i by (auto simp: c [unfolded h1_def] connect_global_eq ht_set_head_eq h1_def ht_inserted_def Let_def i_def [symmetric] a_def [symmetric]
      intro!: arg_cong [of _ _ K])
qed

lemma inserted_count [simp]:
  "ht_inserted b ht\<lparr>nNumOfElements := nNumOfElements ht, nNumOfElements := nNumOfElements ht + 1\<rparr> = ht_inserted b ht"
  "nNumOfElements (ht_inserted b ht) = nNumOfElements ht + 1"
  "ht_inserted b ht\<lparr>nNumOfElements := nNumOfElements ht + 1\<rparr> = ht_inserted b ht"
  "ht_inserted b ht\<lparr>nNextFreeElement := f, nNumOfElements := nNumOfElements ht + 1\<rparr> = ht_inserted b (ht\<lparr>nNextFreeElement := f\<rparr>)"
  by (simp_all add: ht_inserted_def Let_def)

lemma ht_alloc_eq: "ht_alloc b ht = (ht_brk ht, ht\<lparr>ht_store := (ht_store ht)(ht_brk ht \<mapsto> b), ht_brk := Suc (ht_brk ht)\<rparr>)"
  by (simp add: ht_alloc_def)

lemma INIT_DATA_val [simp]: "pd_val (INIT_DATA v sz) = v"
  by (simp add: INIT_DATA_def)

text \<open>The bucket \<open>_zend_hash_add_or_update\<close> and its siblings allocate for the arguments they got.\<close>

definition new_bucket :: "byte list \<Rightarrow> uint \<Rightarrow> ulong \<Rightarrow> 'v \<Rightarrow> uint \<Rightarrow> 'v bucket" where
  "new_bucket arKey n h v sz = \<lparr>bk_h = h, bk_nKeyLength = n, bk_pData = INIT_DATA v sz,
     pListNext = None, pListLast = None, pNext = None, pLast = None, bk_arKey = take (unat n) arKey\<rparr>"

lemma new_bucket_sel [simp]:
  "bk_h (new_bucket arKey n h v sz) = h" "bk_val (new_bucket arKey n h v sz) = v"
  "bk_key (new_bucket arKey n h v sz) = the_key arKey n h"
  "pListNext (new_bucket arKey n h v sz) = None" "pListLast (new_bucket arKey n h v sz) = None"
  "pNext (new_bucket arKey n h v sz) = None" "pLast (new_bucket arKey n h v sz) = None"
  by (simp_all add: new_bucket_def bk_val_def bk_key_def the_key_def)

lemma new_bucket_ok: "key_args arKey n h \<Longrightarrow> bk_ok (new_bucket arKey n h v sz)"
  using zend_inline_hash_func_take [of n "take (unat n) arKey" arKey]
  by (simp add: bk_ok_def key_args_def new_bucket_def)

lemma quick_add_or_update_spec:
  assumes inv: "ht_inv ht xs" and n: "n \<noteq> 0" and args: "key_args arKey n h"
    and k_def: "k = the_key arKey n h"
  shows "if flag AND HASH_ADD \<noteq> 0 \<and> ht_lookup ht xs k \<noteq> None
    then zend_hash_quick_add_or_update ht arKey n h v sz flag = Some (FAILURE, None, ht)
    else \<exists>a ht' xs'. zend_hash_quick_add_or_update ht arKey n h v sz flag = Some (SUCCESS, Some a, ht') \<and>
      ht_inv ht' xs' \<and> ht_abs ht' xs' = om_put k v (ht_abs ht xs) \<and> ht_holds ht' a k v"
proof -
  note scan = ht_scan_key [OF inv args, of "\<lambda>_ b. bk_h b = h \<and> bk_nKeyLength b = n \<and> memcmp_eq (bk_arKey b) arKey n", OF refl,
      unfolded k_def [symmetric]]
  note S = zend_hash_quick_add_or_update_def ht_head_eq [OF ht_invD(10) [OF inv]] scan
  show ?thesis
  proof (cases "ht_lookup ht xs k")
    case (Some a)
    obtain ht' where "hash_replace_data a v sz ht = Some ht'" "ht_inv ht' xs" "ht_abs ht' xs = om_put k v (ht_abs ht xs)" "ht_holds ht' a k v"
      using put_found [OF inv Some, of v sz] by blast
    then show ?thesis using Some n by (auto simp: S)
  next
    case None
    let ?b = "new_bucket arKey n h v sz"
    have l: "ht_lookup ht xs (bk_key ?b) = None" using None by (simp add: k_def)
    obtain ht' xs' where H: "ZEND_HASH_IF_FULL_DO_RESIZE (ht_inserted ?b ht) = Some ht'" "ht_inv ht' xs'"
      "ht_abs ht' xs' = om_put k v (ht_abs ht xs)" "ht_holds ht' (ht_brk ht) k v"
      using put_new [OF inv l new_bucket_ok [OF args]] by (auto simp: k_def)
    then show ?thesis using None n
      by (auto simp: insert_steps [OF inv new_bucket_sel(4-7), unfolded new_bucket_sel] S Let_def ht_alloc_eq new_bucket_def [symmetric])
  qed
qed

lemma add_or_update_quick:
  assumes inv: "ht_inv ht xs" and n: "n \<noteq> 0" and len: "unat n \<le> length arKey"
  shows "zend_hash_add_or_update ht arKey n v sz flag =
    zend_hash_quick_add_or_update ht arKey n (zend_inline_hash_func arKey n) v sz flag"
proof -
  let ?h = "zend_inline_hash_func arKey n"
  let ?b = "new_bucket arKey n ?h v sz"
  have args: "key_args arKey n ?h" using len by (simp add: key_args_def)
  note scan = ht_scan_key [OF inv args, of "\<lambda>_ b. bk_h b = ?h \<and> bk_nKeyLength b = n \<and> memcmp_eq (bk_arKey b) arKey n", OF refl]
  show ?thesis
    using n
    by (auto simp: insert_steps [OF inv new_bucket_sel(4-7), unfolded new_bucket_sel] zend_hash_add_or_update_def zend_hash_quick_add_or_update_def ht_head_eq [OF ht_invD(10) [OF inv]] scan
        Let_def ht_alloc_eq new_bucket_def [symmetric] split: option.split)
qed

lemma om_bump_abs:
  "ht_abs (if sint (nNextFreeElement ht) \<le> sint h
           then ht\<lparr>nNextFreeElement := (if h < LONG_MAX then h + 1 else LONG_MAX)\<rparr> else ht) xs = om_bump h (ht_abs ht xs)"
  by (simp add: om_bump_def ht_abs_def)

lemma om_put_bump: "om_put k v (om_bump h M) = om_bump h (om_put k v M)"
  by (simp add: om_put_def om_bump_def om_get_def om_destroy_def split: option.split)

lemma index_update_spec:
  assumes inv: "ht_inv ht xs"
    and h': "h' = (if flag AND HASH_NEXT_INSERT \<noteq> 0 then nNextFreeElement ht else h)"
  shows "if (flag AND HASH_NEXT_INSERT \<noteq> 0 \<or> flag AND HASH_ADD \<noteq> 0) \<and> ht_lookup ht xs (HInt h') \<noteq> None
    then zend_hash_index_update_or_next_insert ht h v sz flag = Some (FAILURE, None, ht)
    else \<exists>a ht' xs'. zend_hash_index_update_or_next_insert ht h v sz flag = Some (SUCCESS, Some a, ht') \<and>
      ht_inv ht' xs' \<and> ht_abs ht' xs' = om_bump h' (om_put (HInt h') v (ht_abs ht xs)) \<and> ht_holds ht' a (HInt h') v"
proof -
  have scan: "chain_scan ht (\<lambda>_ b. bk_nKeyLength b = 0 \<and> bk_h b = h') (arBuckets ht ! nIndex ht h') = Some (ht_lookup ht xs (HInt h'))"
    by (rule trans [OF ht_scan_key [OF inv key_args_0]]) auto
  let ?bump = "\<lambda>ht :: 'a HashTable. if sint (nNextFreeElement ht) \<le> sint h'
           then ht\<lparr>nNextFreeElement := (if h' < LONG_MAX then h' + 1 else LONG_MAX)\<rparr> else ht"
  note S = zend_hash_index_update_or_next_insert_def [of ht h v sz flag, unfolded h' [symmetric] Let_def]
    ht_head_eq [OF ht_invD(10) [OF inv]] scan
  show ?thesis
  proof (cases "ht_lookup ht xs (HInt h')")
    case (Some a)
    obtain ht' where H: "hash_replace_data a v sz ht = Some ht'" "ht_inv ht' xs"
      "ht_abs ht' xs = om_put (HInt h') v (ht_abs ht xs)" "ht_holds ht' a (HInt h') v"
      using put_found [OF inv Some, of v sz] by blast
    have "ht_inv (?bump ht') xs" "ht_holds (?bump ht') a (HInt h') v" using H(2,4) by (simp_all add: ht_holds_def)
    moreover have "ht_abs (?bump ht') xs = om_bump h' (om_put (HInt h') v (ht_abs ht xs))"
      using om_bump_abs [of ht' h' xs] H(3) by simp
    ultimately show ?thesis using Some H(1) by (auto simp: S Let_def)
  next
    case None
    let ?b = "new_bucket [] 0 h' v sz"
    have inv': "ht_inv (?bump ht) xs" using inv by simp
    have "ht_lookup (?bump ht) xs = ht_lookup ht xs" by (simp add: ht_lookup_def fun_eq_iff)
    then have l: "ht_lookup (?bump ht) xs (bk_key ?b) = None" using None by simp
    obtain ht' xs' where H: "ZEND_HASH_IF_FULL_DO_RESIZE (ht_inserted ?b (?bump ht)) = Some ht'" "ht_inv ht' xs'"
      "ht_abs ht' xs' = om_put (HInt h') v (ht_abs (?bump ht) xs)" "ht_holds ht' (ht_brk (?bump ht)) (HInt h') v"
      using put_new [OF inv' l new_bucket_ok] by auto
    have abs: "ht_abs ht' xs' = om_bump h' (om_put (HInt h') v (ht_abs ht xs))"
      using H(3) om_bump_abs [of ht h' xs] by (simp only: om_put_bump)
    have nf: "nNextFreeElement (ht_inserted b ht) = nNextFreeElement ht" for b by (simp add: ht_inserted_def Let_def)
    have b0: "\<lparr>bk_h = h', bk_nKeyLength = 0, bk_pData = INIT_DATA v sz, pListNext = None, pListLast = None, pNext = None,
        pLast = None, bk_arKey = []\<rparr> = ?b" by (simp add: new_bucket_def)
    have "zend_hash_index_update_or_next_insert ht h v sz flag = Some (SUCCESS, Some (ht_brk ht), ht')"
      using None H(1)
      by (simp add: insert_steps [OF inv new_bucket_sel(4-7), unfolded new_bucket_sel] S Let_def ht_alloc_eq b0 nf split: if_splits)
    moreover have "ht_brk (?bump ht) = ht_brk ht" by simp
    then have "ht_holds ht' (ht_brk ht) (HInt h') v" using H(4) by (simp only:)
    ultimately show ?thesis using None H(2) abs by auto
  qed
qed

subsection \<open>Deletion\<close>

lemma ht_inv_next:
  assumes "ht_inv ht (us @ a # vs)"
  shows "fld pListNext (ht_store ht) a = (case vs of [] \<Rightarrow> None | v # _ \<Rightarrow> Some v)"
    and "fld pListLast (ht_store ht) a = (if us = [] then None else Some (last us))"
  using dll_mid [OF ht_invD(2) [OF assms, unfolded ht_order_def]] by auto

lemma ht_inv_head_tail:
  assumes "ht_inv ht xs"
  shows "pListHead ht = (case xs of [] \<Rightarrow> None | x # _ \<Rightarrow> Some x)" "pListTail ht = (if xs = [] then None else Some (last xs))"
  using dll_first [OF ht_invD(2) [OF assms, unfolded ht_order_def]] dll_last [OF ht_invD(2) [OF assms, unfolded ht_order_def]] by auto

text \<open>The cursor is on key \<open>k\<close> exactly when the internal pointer is on the bucket of \<open>k\<close>.\<close>

lemma ht_cur_iff:
  assumes "ht_inv ht xs" "a \<in> set xs"
  shows "om_cur (ht_abs ht xs) = Some (fld bk_key (ht_store ht) a) \<longleftrightarrow> pInternalPointer ht = Some a"
proof -
  have "inj_on (fld bk_key (ht_store ht)) (set xs)" "\<And>q. pInternalPointer ht = Some q \<Longrightarrow> q \<in> set xs"
    using ht_invD(4) [OF assms(1)] by (auto simp: ht_content_def)
  then show ?thesis using assms(2) by (auto simp: inj_on_def)
qed

lemma deleted_abs:
  assumes inv: "ht_inv ht (us @ a # vs)"
  shows "ht_abs (ht_deleted a ht) (us @ vs) = om_del (fld bk_key (ht_store ht) a) (ht_abs ht (us @ a # vs))"
proof -
  let ?k = "fld bk_key (ht_store ht) a" and ?ht = "ht_deleted a ht" and ?M = "ht_abs ht (us @ a # vs)"
  note D = ht_invD [OF inv] and un = ht_inv_unlinkable [OF inv, of a, simplified]
  have keys: "fld bk_key (ht_store ?ht) x = fld bk_key (ht_store ht) x" if "x \<noteq> a" for x
    using same_data_trans [OF st_unchain_fld(2) [OF un] st_unglobal_fld(2) [OF st_unchain_fld(7) [OF un]]] that
    by (simp add: ht_deleted_fld same_data_def)
  have f: "pInternalPointer ?ht = (if pInternalPointer ht = Some a then fld pListNext (ht_store ht) a else pInternalPointer ht)"
    "nNextFreeElement ?ht = nNextFreeElement ht" "pDestructor ?ht = pDestructor ht"
    "ht_dtor_log ?ht = ht_dtor_log ht @ (if pDestructor ht then [fld bk_val (ht_store ht) a] else [])"
    by (simp_all add: ht_deleted_def Let_def)
  have sk: "?k \<notin> fst ` set (ht_list ht us)" "?k \<notin> fst ` set (ht_list ht vs)" using ht_inv_split_keys [OF inv] .
  have get: "om_get ?M ?k = Some (fld bk_val (ht_store ht) a)"
    using sk(1) by (simp add: om_get_def map_of_append map_add_Some_iff) (metis dom_map_of_conv_image_fst domIff)
  have cur: "om_cur (ht_abs ?ht (us @ vs)) =
      (if om_cur ?M = Some ?k then key_after ?k (om_list ?M) else om_cur ?M)"
  proof (cases "pInternalPointer ht = Some a")
    case True
    have "fld pListNext (ht_store ht) a \<noteq> Some a" using un by (simp add: unlinkable_def)
    then show ?thesis using True ht_inv_next(1) [OF inv] keys sk(1)
      by (cases vs) (auto simp: f key_after_middle)
  next
    case False
    then have "om_cur ?M \<noteq> Some ?k" using ht_cur_iff [OF inv, of a] by simp
    with False keys show ?thesis by (cases "pInternalPointer ht") (auto simp: f)
  qed
  show ?thesis
  proof (rule omap.equality)
    show "om_cur (ht_abs ?ht (us @ vs)) = om_cur (om_del ?k ?M)"
      using get cur by (simp add: om_del_def om_destroy_def del: ht_abs_sel(5))
  qed (use get ht_deleted_inv(2) [OF inv] sk f(2-4) in \<open>simp_all add: om_del_def om_destroy_def delete_middle del: ht_list_append\<close>,
       simp add: delete_middle)
qed

lemma del_key_or_index_spec:
  assumes inv: "ht_inv ht xs"
    and h: "h' = (if flag = HASH_DEL_KEY then zend_inline_hash_func arKey n else h)" and args: "key_args arKey n h'"
    and k: "k = the_key arKey n h'"
  shows "if ht_lookup ht xs k = None then zend_hash_del_key_or_index ht arKey n h flag = Some (FAILURE, ht)
    else \<exists>ht' xs'. zend_hash_del_key_or_index ht arKey n h flag = Some (SUCCESS, ht') \<and> ht_inv ht' xs' \<and>
      ht_abs ht' xs' = om_del k (ht_abs ht xs)"
proof -
  have scan: "chain_scan ht (\<lambda>_ b. bk_h b = h' \<and> bk_nKeyLength b = n \<and> (bk_nKeyLength b = 0 \<or> memcmp_eq (bk_arKey b) arKey n))
      (arBuckets ht ! nIndex ht h') = Some (ht_lookup ht xs k)"
    unfolding k by (rule ht_scan_key [OF inv args]) auto
  note S = zend_hash_del_key_or_index_def [of ht arKey n h flag, unfolded h [symmetric] Let_def]
    ht_head_eq [OF ht_invD(10) [OF inv]] scan
  show ?thesis
  proof (cases "ht_lookup ht xs k")
    case (Some a)
    note L = ht_lookup_Some [OF inv Some]
    obtain us vs where xs: "xs = us @ a # vs" using L(1) by (meson split_list)
    have "bk_ok (the (ht_store ht a))" using ht_invD(4) [OF inv] L(1) by (auto simp: ht_content_def fld_def)
    then have "fld bk_h (ht_store ht) a = h'" using bk_key_eq_iff [OF _ args, of "the (ht_store ht a)"] L(2) by (simp add: fld_def k)
    then have "hash_delete_bucket (nIndex ht h') a ht = Some (ht_deleted a ht)"
      using delete_bucket_inv(1) [OF inv L(1)] by simp
    then show ?thesis
      using Some ht_deleted_inv(1) [OF inv [unfolded xs]] deleted_abs [OF inv [unfolded xs]] L(2) xs by (auto simp: S)
  qed (simp add: S)
qed

subsection \<open>Lookup\<close>

lemma find_spec:
  assumes inv: "ht_inv ht xs" and args: "key_args arKey n h"
  shows "zend_hash_quick_find ht arKey n h =
      Some (case ht_lookup ht xs (the_key arKey n h) of Some a \<Rightarrow> (SUCCESS, Some a) | None \<Rightarrow> (FAILURE, None))"
    and "zend_hash_quick_exists ht arKey n h = Some (ht_lookup ht xs (the_key arKey n h) \<noteq> None)"
    and "h = zend_inline_hash_func arKey n \<Longrightarrow> zend_hash_find ht arKey n = zend_hash_quick_find ht arKey n h"
    and "h = zend_inline_hash_func arKey n \<Longrightarrow> zend_hash_exists ht arKey n = zend_hash_quick_exists ht arKey n h"
proof -
  have s: "chain_scan ht (\<lambda>_ b. bk_h b = h \<and> bk_nKeyLength b = n \<and> memcmp_eq (bk_arKey b) arKey n) (arBuckets ht ! nIndex ht h) =
      Some (ht_lookup ht xs (the_key arKey n h))"
    by (rule ht_scan_key [OF inv args]) auto
  have s0: "chain_scan ht (\<lambda>_ b. bk_h b = h \<and> bk_nKeyLength b = 0) (arBuckets ht ! nIndex ht h) = Some (ht_lookup ht xs (HInt h))"
    by (rule trans [OF ht_scan_key [OF inv key_args_0]]) auto
  note S = zend_hash_quick_find_def zend_hash_quick_exists_def zend_hash_index_find_def zend_hash_index_exists_def
    zend_hash_find_def zend_hash_exists_def ht_head_eq [OF ht_invD(10) [OF inv]] Let_def
  show "zend_hash_quick_find ht arKey n h =
      Some (case ht_lookup ht xs (the_key arKey n h) of Some a \<Rightarrow> (SUCCESS, Some a) | None \<Rightarrow> (FAILURE, None))"
    "zend_hash_quick_exists ht arKey n h = Some (ht_lookup ht xs (the_key arKey n h) \<noteq> None)"
    by (cases "n = 0"; simp add: S s s0)+
  show "zend_hash_find ht arKey n = zend_hash_quick_find ht arKey n h" if "h = zend_inline_hash_func arKey n"
    using s s0 that by (cases "n = 0") (simp_all add: S)
  show "zend_hash_exists ht arKey n = zend_hash_quick_exists ht arKey n h" if "h = zend_inline_hash_func arKey n"
    using s s0 that by (cases "n = 0") (simp_all add: S)
qed

lemma index_find_spec:
  assumes "ht_inv ht xs"
  shows "zend_hash_index_find ht h = Some (case ht_lookup ht xs (HInt h) of Some a \<Rightarrow> (SUCCESS, Some a) | None \<Rightarrow> (FAILURE, None))"
    and "zend_hash_index_exists ht h = Some (ht_lookup ht xs (HInt h) \<noteq> None)"
  using find_spec(1,2) [OF assms key_args_0, of "[]" h] by (simp_all add: zend_hash_quick_find_def zend_hash_quick_exists_def)

subsection \<open>Initialisation\<close>

lemma init_shift_spec:
  assumes "i \<le> 31" "nSize < 0x80000000"
  shows "\<exists>j. hash_init_shift nSize i = Some j \<and> i \<le> j \<and> j \<le> 31 \<and> nSize \<le> push_bit j 1 \<and> (j = i \<or> push_bit (j - 1) 1 < nSize)"
  using assms
proof (induction "31 - i" arbitrary: i)
  case 0
  then show ?case by (subst hash_init_shift.simps) auto
next
  case (Suc d)
  show ?case
  proof (cases "push_bit i 1 < nSize")
    case True
    obtain j where j: "hash_init_shift nSize (i + 1) = Some j" "i + 1 \<le> j" "j \<le> 31" "nSize \<le> push_bit j 1"
      "j = i + 1 \<or> push_bit (j - 1) 1 < nSize"
      using Suc.hyps(1) [of "i + 1"] Suc.hyps(2) Suc.prems by force
    have "push_bit (j - 1) 1 < nSize" using j(5) True by auto
    then show ?thesis using j True by (subst hash_init_shift.simps) auto
  next
    case False
    then show ?thesis using Suc.prems by (subst hash_init_shift.simps) auto
  qed
qed

definition om_empty :: "bool \<Rightarrow> 'v list \<Rightarrow> 'v omap" where
  "om_empty dtor log = \<lparr>om_list = [], om_cur = None, om_next = 0, om_dtor = dtor, om_log = log\<rparr>"

lemma init_inv:
  assumes fresh: "dom (ht_store ht) = {}" and ok: "persistent \<longrightarrow> calloc_ok"
  shows "\<exists>ht'. zend_hash_init calloc_ok ht nSize dtor persistent = Some (SUCCESS, ht') \<and> ht_inv ht' [] \<and>
    ht_abs ht' [] = om_empty dtor (ht_dtor_log ht) \<and> (nSize \<le> 0x80000000 \<longrightarrow> nSize \<le> nTableSize ht') \<and>
    nApplyCount ht' = 0 \<and> bApplyProtection ht'"
proof -
  have "\<exists>i. (if 0x80000000 \<le> nSize then Some 0x80000000 else do { i \<leftarrow> hash_init_shift nSize 3; Some (push_bit i 1) }) =
      Some (2 ^ i :: uint) \<and> 3 \<le> i \<and> i \<le> 31 \<and> (nSize \<le> 0x80000000 \<longrightarrow> nSize \<le> 2 ^ i)"
  proof (cases "0x80000000 \<le> nSize")
    case True
    then show ?thesis by (intro exI [of _ 31]) simp
  next
    case False
    then obtain j where "hash_init_shift nSize 3 = Some j" "3 \<le> j" "j \<le> 31" "nSize \<le> push_bit j 1"
      using init_shift_spec [of 3 nSize] by (auto simp: not_le)
    then show ?thesis using False by (intro exI [of _ j]) (simp add: push_bit_eq_mult)
  qed
  then obtain i where i: "(if 0x80000000 \<le> nSize then Some 0x80000000 else do { i \<leftarrow> hash_init_shift nSize 3; Some (push_bit i 1) }) =
      Some (2 ^ i :: uint)" "3 \<le> i" "i \<le> 31" "nSize \<le> 0x80000000 \<longrightarrow> nSize \<le> 2 ^ i" by blast
  have store: "ht_store ht = Map.empty" using fresh by simp
  show ?thesis
    unfolding zend_hash_init_def i(1) using ok i(2-4)
    by (auto simp: store ht_inv_def ht_shape_def ht_order_def ht_chains_def ht_content_def chains_empty ht_abs_def om_empty_def Let_def)
qed

subsection \<open>What the operations do, on represented maps\<close>

lemma ht_repr_holds:
  assumes "ht_repr ht M" "ht_holds ht a k v"
  shows "om_get M k = Some v"
proof -
  obtain xs where xs: "ht_inv ht xs" "ht_abs ht xs = M" using assms(1) by (auto simp: ht_repr_def)
  have "a \<in> set xs" "inj_on (fld bk_key (ht_store ht)) (set xs)"
    using assms(2) ht_invD(4,5) [OF xs(1)] by (auto simp: ht_holds_def ht_content_def)
  then have "ht_lookup ht xs k = Some a"
    unfolding ht_lookup_def using assms(2) by (intro find_unique) (auto simp: ht_holds_def inj_on_def)
  then show ?thesis using assms(2) xs(2) om_get_abs [of ht xs k] by (auto simp: ht_holds_def)
qed

lemma key_args_hash: "unat n \<le> length arKey \<Longrightarrow> key_args arKey n (zend_inline_hash_func arKey n)"
  by (simp add: key_args_def)

lemma repr_index_update:
  assumes "ht_repr ht M" and h': "h' = (if flag AND HASH_NEXT_INSERT \<noteq> 0 then om_next M else h)"
  shows "if (flag AND HASH_NEXT_INSERT \<noteq> 0 \<or> flag AND HASH_ADD \<noteq> 0) \<and> om_get M (HInt h') \<noteq> None
    then zend_hash_index_update_or_next_insert ht h v sz flag = Some (FAILURE, None, ht)
    else \<exists>a ht'. zend_hash_index_update_or_next_insert ht h v sz flag = Some (SUCCESS, Some a, ht') \<and>
      ht_repr ht' (om_bump h' (om_put (HInt h') v M)) \<and> ht_holds ht' a (HInt h') v"
proof -
  obtain xs where xs: "ht_inv ht xs" "ht_abs ht xs = M" using assms(1) by (auto simp: ht_repr_def)
  then have "h' = (if flag AND HASH_NEXT_INSERT \<noteq> 0 then nNextFreeElement ht else h)" using h' by auto
  from index_update_spec [OF xs(1) this, of v sz] show ?thesis
    using om_get_abs [of ht xs "HInt h'"] xs(2) unfolding ht_repr_def by (auto split: if_splits)
qed

lemma repr_quick_add_or_update:
  assumes "ht_repr ht M" "n \<noteq> 0" "key_args arKey n h" and k: "k = the_key arKey n h"
  shows "if flag AND HASH_ADD \<noteq> 0 \<and> om_get M k \<noteq> None
    then zend_hash_quick_add_or_update ht arKey n h v sz flag = Some (FAILURE, None, ht)
    else \<exists>a ht'. zend_hash_quick_add_or_update ht arKey n h v sz flag = Some (SUCCESS, Some a, ht') \<and>
      ht_repr ht' (om_put k v M) \<and> ht_holds ht' a k v"
proof -
  obtain xs where xs: "ht_inv ht xs" "ht_abs ht xs = M" using assms(1) by (auto simp: ht_repr_def)
  from quick_add_or_update_spec [OF xs(1) assms(2,3) k, of flag v sz] show ?thesis
    using om_get_abs [of ht xs k] xs(2) unfolding ht_repr_def by (auto split: if_splits)
qed

lemma repr_add_or_update:
  assumes "ht_repr ht M" "n \<noteq> 0" "unat n \<le> length arKey"
  shows "zend_hash_add_or_update ht arKey n v sz flag =
    zend_hash_quick_add_or_update ht arKey n (zend_inline_hash_func arKey n) v sz flag"
  using add_or_update_quick [OF _ assms(2,3)] assms(1) by (auto simp: ht_repr_def)

lemma repr_del:
  assumes "ht_repr ht M"
    and h: "h' = (if flag = HASH_DEL_KEY then zend_inline_hash_func arKey n else h)" and args: "key_args arKey n h'"
    and k: "k = the_key arKey n h'"
  shows "if om_get M k = None then zend_hash_del_key_or_index ht arKey n h flag = Some (FAILURE, ht)
    else \<exists>ht'. zend_hash_del_key_or_index ht arKey n h flag = Some (SUCCESS, ht') \<and> ht_repr ht' (om_del k M)"
proof -
  obtain xs where xs: "ht_inv ht xs" "ht_abs ht xs = M" using assms(1) by (auto simp: ht_repr_def)
  from del_key_or_index_spec [OF xs(1) h args k] show ?thesis
    using om_get_abs [of ht xs k] xs(2) unfolding ht_repr_def by (auto split: if_splits)
qed

text \<open>The value behind the data pointer a lookup hands out.\<close>

definition data_of :: "'v HashTable \<Rightarrow> (zresult \<times> addr option) option \<Rightarrow> 'v option option" where
  "data_of ht r =
     (case r of
        None \<Rightarrow> None
      | Some (res, p) \<Rightarrow>
          if res = SUCCESS then map_option (\<lambda>b. Some (bk_val b)) (deref (ht_store ht) p) else Some None)"

lemma repr_find:
  assumes "ht_repr ht M" "key_args arKey n h"
  shows "data_of ht (zend_hash_quick_find ht arKey n h) = Some (om_get M (the_key arKey n h))"
    and "zend_hash_quick_exists ht arKey n h = Some (om_get M (the_key arKey n h) \<noteq> None)"
    and "h = zend_inline_hash_func arKey n \<Longrightarrow> zend_hash_find ht arKey n = zend_hash_quick_find ht arKey n h"
    and "h = zend_inline_hash_func arKey n \<Longrightarrow> zend_hash_exists ht arKey n = zend_hash_quick_exists ht arKey n h"
proof -
  obtain xs where xs: "ht_inv ht xs" "ht_abs ht xs = M" using assms(1) by (auto simp: ht_repr_def)
  note F = find_spec [OF xs(1) assms(2)]
  let ?k = "the_key arKey n h"
  have g: "om_get M ?k = map_option (fld bk_val (ht_store ht)) (ht_lookup ht xs ?k)" using om_get_abs [of ht xs ?k] xs(2) by simp
  show "zend_hash_quick_exists ht arKey n h = Some (om_get M ?k \<noteq> None)" using F(2) g by simp
  show "data_of ht (zend_hash_quick_find ht arKey n h) = Some (om_get M ?k)"
  proof (cases "ht_lookup ht xs ?k")
    case (Some a)
    then have "a \<in> dom (ht_store ht)" using ht_lookup_Some(1) [OF xs(1)] ht_invD(5) [OF xs(1)] by auto
    then show ?thesis using Some F(1) g by (auto simp: data_of_def fld_def)
  qed (use F(1) g in \<open>simp add: data_of_def\<close>)
  show "h = zend_inline_hash_func arKey n \<Longrightarrow> zend_hash_find ht arKey n = zend_hash_quick_find ht arKey n h"
    "h = zend_inline_hash_func arKey n \<Longrightarrow> zend_hash_exists ht arKey n = zend_hash_quick_exists ht arKey n h"
    using F(3,4) by blast+
qed

lemma repr_index_find:
  assumes "ht_repr ht M"
  shows "data_of ht (zend_hash_index_find ht h) = Some (om_get M (HInt h))"
    and "zend_hash_index_exists ht h = Some (om_get M (HInt h) \<noteq> None)"
  using repr_find(1,2) [OF assms key_args_0, of "[]" h] by (simp_all add: zend_hash_quick_find_def zend_hash_quick_exists_def)

subsection \<open>The interface of a keyed table\<close>

text \<open>
  The contract clients of a hash table rely on (symbol tables with numeric keys, the resource
  list), over keys of the abstract map: a store under an admissible key succeeds and is an
  update of the represented map, a delete removes the key, a lookup returns the represented
  value, and none of them faults.
\<close>

definition om_store :: "hkey \<Rightarrow> 'v \<Rightarrow> 'v omap \<Rightarrow> 'v omap" where
  "om_store k v M = (case k of HInt h \<Rightarrow> om_bump h (om_put k v M) | HStr _ \<Rightarrow> om_put k v M)"

locale keyed_table =
  fixes rep :: "'t \<Rightarrow> 'v omap \<Rightarrow> bool"
    and key_ok :: "hkey \<Rightarrow> bool"
    and put :: "'t \<Rightarrow> hkey \<Rightarrow> 'v \<Rightarrow> 't option"
    and del :: "'t \<Rightarrow> hkey \<Rightarrow> (zresult \<times> 't) option"
    and look :: "'t \<Rightarrow> hkey \<Rightarrow> 'v option option"
  assumes put_law: "rep t M \<Longrightarrow> key_ok k \<Longrightarrow> \<exists>t'. put t k v = Some t' \<and> rep t' (om_store k v M)"
    and del_law: "rep t M \<Longrightarrow> key_ok k \<Longrightarrow>
      \<exists>t'. del t k = Some (if om_get M k = None then FAILURE else SUCCESS, t') \<and> rep t' (om_del k M)"
    and look_law: "rep t M \<Longrightarrow> key_ok k \<Longrightarrow> look t k = Some (om_get M k)"
    and rep_distinct: "rep t M \<Longrightarrow> distinct (map fst (om_list M))"

lemma map_of_update: "map_of (AList.update k v kvs) k' = (if k' = k then Some v else map_of kvs k')"
  by (simp add: AList.update_conv')

lemma om_get_put: "om_get (om_put k v M) k' = (if k' = k then Some v else om_get M k')"
  by (auto simp: om_put_def om_get_def om_destroy_def map_of_update map_add_def split: option.split)

lemma om_list_bump [simp]: "om_list (om_bump h M) = om_list M"
  by (simp add: om_bump_def)

lemma om_get_store: "om_get (om_store k v M) k' = (if k' = k then Some v else om_get M k')"
  using om_get_put [of k v M k'] by (auto simp: om_store_def om_get_def split: hkey.split)

lemma om_get_del:
  "distinct (map fst (om_list M)) \<Longrightarrow> om_get (om_del k M) k' = (if k' = k then None else om_get M k')"
  by (auto simp: om_del_def om_get_def om_destroy_def AList.delete_conv' split: option.split)

lemma om_keys_put:
  "map fst (om_list (om_put k v M)) = map fst (om_list M) @ (if om_get M k = None then [k] else [])"
proof -
  have "map fst (AList.update k v kvs) = map fst kvs" if "map_of kvs k \<noteq> None" for kvs
    using that by (auto simp: AList.update_keys map_of_eq_None_iff)
  then show ?thesis by (auto simp: om_put_def om_get_def om_destroy_def split: option.split)
qed

context keyed_table
begin

text \<open>Read after write, and independence of other keys.\<close>

lemma put_then_look:
  assumes "rep t M" "key_ok k" "key_ok k'"
  shows "\<exists>t'. put t k v = Some t' \<and> look t' k' = (if k' = k then Some (Some v) else look t k')"
  using put_law [OF assms(1,2), of v] look_law assms om_get_store by metis

lemma del_then_look:
  assumes "rep t M" "key_ok k" "key_ok k'"
  shows "\<exists>r t'. del t k = Some (r, t') \<and> look t' k' = (if k' = k then Some None else look t k')"
  using del_law [OF assms(1,2)] look_law assms om_get_del [OF rep_distinct [OF assms(1)]] by metis

text \<open>Overwriting a key keeps its place in the order; a new key goes to the end.\<close>

lemma put_order:
  assumes "rep t M" "key_ok k"
  shows "\<exists>t' M'. put t k v = Some t' \<and> rep t' M' \<and>
    map fst (om_list M') = map fst (om_list M) @ (if om_get M k = None then [k] else [])"
  using put_law [OF assms, of v] om_keys_put [of k v M] by (force simp: om_store_def split: hkey.splits)

end

text \<open>The table provides the interface. A string key is passed with its length.\<close>

definition hkey_ok :: "hkey \<Rightarrow> bool" where
  "hkey_ok k = (case k of HInt _ \<Rightarrow> True | HStr s \<Rightarrow> s \<noteq> [] \<and> length s < 2 ^ 32)"

definition ht_put :: "'v HashTable \<Rightarrow> hkey \<Rightarrow> 'v \<Rightarrow> 'v HashTable option" where
  "ht_put ht k v = map_option (\<lambda>(_, _, ht). ht)
     (case k of HInt h \<Rightarrow> zend_hash_index_update ht h v sizeof_void_ptr
      | HStr s \<Rightarrow> zend_hash_update ht s (of_nat (length s)) v sizeof_void_ptr)"

definition ht_del :: "'v HashTable \<Rightarrow> hkey \<Rightarrow> (zresult \<times> 'v HashTable) option" where
  "ht_del ht k = (case k of HInt h \<Rightarrow> zend_hash_index_del ht h | HStr s \<Rightarrow> zend_hash_del ht s (of_nat (length s)))"

definition ht_look :: "'v HashTable \<Rightarrow> hkey \<Rightarrow> 'v option option" where
  "ht_look ht k = data_of ht (case k of HInt h \<Rightarrow> zend_hash_index_find ht h | HStr s \<Rightarrow> zend_hash_find ht s (of_nat (length s)))"

lemma hkey_okD:
  assumes "hkey_ok (HStr s)"
  shows "(of_nat (length s) :: uint) \<noteq> 0" "unat (of_nat (length s) :: uint) = length s"
    "the_key s (of_nat (length s)) h = HStr s"
proof -
  show u: "unat (of_nat (length s) :: uint) = length s" using assms by (simp add: hkey_ok_def unat_of_nat_less)
  show n: "(of_nat (length s) :: uint) \<noteq> 0"
  proof
    assume "(of_nat (length s) :: uint) = 0"
    then show False using u assms by (simp add: hkey_ok_def)
  qed
  then show "the_key s (of_nat (length s)) h = HStr s" using u by (simp add: the_key_def)
qed

lemma om_del_absent: "om_get M k = None \<Longrightarrow> om_del k M = M"
  by (simp add: om_del_def)

lemma ht_repr_distinct: "ht_repr ht M \<Longrightarrow> distinct (map fst (om_list M))"
  using ht_list_distinct by (auto simp: ht_repr_def)

interpretation ht: keyed_table ht_repr hkey_ok ht_put ht_del ht_look
proof
  fix ht :: "'v HashTable" and M k v assume r: "ht_repr ht M" and k: "hkey_ok k"
  show "\<exists>ht'. ht_put ht k v = Some ht' \<and> ht_repr ht' (om_store k v M)"
  proof (cases k)
    case (HInt h)
    then show ?thesis using repr_index_update [OF r refl, of HASH_UPDATE h v sizeof_void_ptr]
      by (auto simp: ht_put_def zend_hash_index_update_def flag_defs om_store_def)
  next
    case (HStr s)
    note O = hkey_okD [OF k [unfolded HStr]]
    have a: "unat (of_nat (length s) :: uint) \<le> length s" using O(2) by simp
    show ?thesis
      using repr_quick_add_or_update [OF r O(1) key_args_hash [OF a] refl, of HASH_UPDATE v sizeof_void_ptr]
        repr_add_or_update [OF r O(1) a] HStr
      by (auto simp: ht_put_def zend_hash_update_def flag_defs om_store_def O(3))
  qed
  show "\<exists>ht'. ht_del ht k = Some (if om_get M k = None then FAILURE else SUCCESS, ht') \<and> ht_repr ht' (om_del k M)"
  proof (cases k)
    case (HInt h)
    then show ?thesis using repr_del [OF r refl _ refl, where flag = HASH_DEL_INDEX and arKey = "[]" and n = 0 and h = h] r
      by (auto simp: ht_del_def zend_hash_index_del_def flag_defs om_del_absent split: if_splits)
  next
    case (HStr s)
    note O = hkey_okD [OF k [unfolded HStr]]
    show ?thesis using repr_del [OF r refl _ refl, where flag = HASH_DEL_KEY and arKey = s and n = "of_nat (length s)" and h = 0] r HStr
      by (auto simp: ht_del_def zend_hash_del_def om_del_absent key_args_hash O(2,3) split: if_splits)
  qed
  show "ht_look ht k = Some (om_get M k)"
  proof (cases k)
    case (HInt h)
    then show ?thesis using repr_index_find(1) [OF r] by (simp add: ht_look_def)
  next
    case (HStr s)
    note O = hkey_okD [OF k [unfolded HStr]]
    have a: "unat (of_nat (length s) :: uint) \<le> length s" using O(2) by simp
    show ?thesis using repr_find(1,3) [OF r key_args_hash [OF a]] HStr O(3) by (simp add: ht_look_def)
  qed
qed (rule ht_repr_distinct)

end
