(* ===== verification/Hash_Props.thy ===== *)
theory Hash_Props
  imports Hash_Map
begin

unbundle bit_operations_syntax

text \<open>
  The properties of the hash table's core: initialisation, insertion and update by string and by
  index, the next free index, deletion and lookup.
\<close>

subsection \<open>Example tables, for the instances of the theorems\<close>

text \<open>A table header before \<open>zend_hash_init\<close> has run.\<close>

definition blank_table :: "'v HashTable" where
  "blank_table = \<lparr>nTableSize = 0, nTableMask = 0, nNumOfElements = 0, nNextFreeElement = 0, pInternalPointer = None,
     pListHead = None, pListTail = None, arBuckets = [], pDestructor = False, ht_persistent = False, nApplyCount = 0,
     bApplyProtection = False, ht_store = Map.empty, ht_brk = 0, ht_dtor_log = [], ht_realloc_ok = True\<rparr>"

definition key_a :: hkey where "key_a = HStr [97, 0]"

text \<open>\<open>array("a" => 1, 5 => 2)\<close> with a destructor and the internal pointer on the first element.\<close>

definition map_ex :: "nat omap" where
  "map_ex = \<lparr>om_list = [(key_a, 1), (HInt 5, 2)], om_cur = Some key_a, om_next = 6, om_dtor = True, om_log = []\<rparr>"

lemma blank_init:
  "\<exists>ht :: 'v HashTable. zend_hash_init True blank_table 8 dtor False = Some (SUCCESS, ht) \<and> ht_repr ht (om_empty dtor [])"
  using init_inv [of "blank_table :: 'v HashTable" False True 8 dtor] by (auto simp: blank_table_def ht_repr_def)

lemma map_ex_exists: "\<exists>ht. ht_repr ht map_ex"
proof -
  obtain h0 :: "nat HashTable" where h0: "ht_repr h0 (om_empty True [])" using blank_init by blast
  have okk: "hkey_ok key_a" "hkey_ok (HInt 5)" by (simp_all add: key_a_def hkey_ok_def)
  obtain h1 :: "nat HashTable" where h1: "ht_repr h1 (om_store key_a 1 (om_empty True []))"
    using ht.put_law [OF h0, of key_a 1] okk by blast
  obtain h2 :: "nat HashTable" where "ht_repr h2 (om_store (HInt 5) 2 (om_store key_a 1 (om_empty True [])))"
    using ht.put_law [OF h1, of "HInt 5" 2] okk by blast
  moreover have "om_store (HInt 5) 2 (om_store key_a 1 (om_empty True [])) = map_ex"
    by (simp add: om_store_def om_put_def om_get_def om_empty_def om_bump_def map_ex_def key_a_def LONG_MAX_def)
  ultimately show ?thesis by auto
qed

subsection \<open>Initialisation\<close>

text \<open>C30: \<open>_zend_hash_init\<close> on an unused header finds its table size in at most 29 rounds and
  returns a table that is well formed and represents the empty map; the size is a power of two
  of at least the requested number of elements, capped at \<open>2^31\<close>.\<close>

theorem zend_hash_init_empty:
  assumes "dom (ht_store ht) = {}" and "persistent \<longrightarrow> calloc_ok"
  shows "\<exists>ht'. zend_hash_init calloc_ok ht nSize pDtor persistent = Some (SUCCESS, ht') \<and>
    ht_repr ht' (om_empty pDtor (ht_dtor_log ht)) \<and>
    (nSize \<le> 0x80000000 \<longrightarrow> nSize \<le> nTableSize ht') \<and> nApplyCount ht' = 0 \<and> bApplyProtection ht'"
  using init_inv [OF assms, of nSize pDtor] unfolding ht_repr_def by blast

theorem zend_hash_init_empty_witness:
  "\<exists>ht' :: nat HashTable. zend_hash_init True blank_table 100 True True = Some (SUCCESS, ht') \<and>
    ht_repr ht' (om_empty True []) \<and> 100 \<le> nTableSize ht'"
  using zend_hash_init_empty [of "blank_table :: nat HashTable" True True 100 True] by (auto simp: blank_table_def)

subsection \<open>Insertion and update\<close>

text \<open>C1: \<open>_zend_hash_add_or_update\<close> refuses an empty key; with \<open>HASH_ADD\<close> it refuses a key that
  is present and leaves the table as it was; otherwise it succeeds, the table then represents
  the map with the value stored under the key (in place for an old key, whose value is
  destroyed first; at the end for a new one), and \<open>pDest\<close> is the element's data. The variant
  with a precomputed hash does the same.\<close>

theorem zend_hash_add_or_update_refines:
  assumes "ht_repr ht M" and "unat nKeyLength \<le> length arKey"
  defines "k \<equiv> HStr (take (unat nKeyLength) arKey)"
  shows "(if nKeyLength = 0 then zend_hash_add_or_update ht arKey nKeyLength v nDataSize flag = Some (FAILURE, None, ht)
     else if flag AND HASH_ADD \<noteq> 0 \<and> om_get M k \<noteq> None
     then zend_hash_add_or_update ht arKey nKeyLength v nDataSize flag = Some (FAILURE, None, ht)
     else \<exists>a ht'. zend_hash_add_or_update ht arKey nKeyLength v nDataSize flag = Some (SUCCESS, Some a, ht') \<and>
       ht_repr ht' (om_put k v M) \<and> ht_holds ht' a k v) \<and>
    (nKeyLength \<noteq> 0 \<longrightarrow>
       zend_hash_quick_add_or_update ht arKey nKeyLength (zend_inline_hash_func arKey nKeyLength) v nDataSize flag =
       zend_hash_add_or_update ht arKey nKeyLength v nDataSize flag)"
proof (cases "nKeyLength = 0")
  case False
  have "k = the_key arKey nKeyLength (zend_inline_hash_func arKey nKeyLength)" using False by (simp add: k_def the_key_def)
  from repr_quick_add_or_update [OF assms(1) False key_args_hash [OF assms(2)] this, of flag v nDataSize]
  show ?thesis using False repr_add_or_update [OF assms(1) False assms(2)] by simp
qed (simp add: zend_hash_add_or_update_def)

theorem zend_hash_add_or_update_refines_witness:
  "\<exists>ht a ht'. ht_repr ht map_ex \<and> zend_hash_add_or_update ht [97, 0] 2 9 8 HASH_ADD = Some (FAILURE, None, ht) \<and>
    zend_hash_add_or_update ht [97, 0] 2 9 8 HASH_UPDATE = Some (SUCCESS, Some a, ht') \<and>
    ht_repr ht' \<lparr>om_list = [(key_a, 9), (HInt 5, 2)], om_cur = Some key_a, om_next = 6, om_dtor = True, om_log = [1]\<rparr>"
proof -
  obtain ht where ht: "ht_repr ht map_ex" using map_ex_exists by blast
  have l: "unat (2 :: uint) \<le> length [97, 0 :: byte]" by simp
  have g: "om_get map_ex (HStr [97, 0]) = Some 1" by (simp add: map_ex_def om_get_def key_a_def)
  have p: "om_put (HStr [97, 0]) 9 map_ex =
      \<lparr>om_list = [(key_a, 9), (HInt 5, 2)], om_cur = Some key_a, om_next = 6, om_dtor = True, om_log = [1]\<rparr>"
    by (simp add: om_put_def g) (simp add: map_ex_def om_destroy_def key_a_def)
  show ?thesis
    using zend_hash_add_or_update_refines [OF ht l, of 9 8 HASH_ADD] zend_hash_add_or_update_refines [OF ht l, of 9 8 HASH_UPDATE] ht
    by (auto simp: flag_defs g p)
qed

text \<open>C2: \<open>_zend_hash_index_update_or_next_insert\<close> stores under the index it was given, or under
  the next free index with \<open>HASH_NEXT_INSERT\<close>; it refuses to overwrite with \<open>HASH_NEXT_INSERT\<close>
  or \<open>HASH_ADD\<close> and then changes nothing; otherwise the map has the value under the index and
  the next free index has moved past it.\<close>

theorem zend_hash_index_update_or_next_insert_refines:
  fixes flag :: uint and h :: ulong
  assumes "ht_repr ht M"
  defines "i \<equiv> (if flag AND HASH_NEXT_INSERT \<noteq> 0 then om_next M else h)"
  shows "if (flag AND HASH_NEXT_INSERT \<noteq> 0 \<or> flag AND HASH_ADD \<noteq> 0) \<and> om_get M (HInt i) \<noteq> None
    then zend_hash_index_update_or_next_insert ht h v nDataSize flag = Some (FAILURE, None, ht)
    else \<exists>a ht'. zend_hash_index_update_or_next_insert ht h v nDataSize flag = Some (SUCCESS, Some a, ht') \<and>
      ht_repr ht' (om_bump i (om_put (HInt i) v M)) \<and> ht_holds ht' a (HInt i) v"
  unfolding i_def by (rule repr_index_update [OF assms(1) refl])

theorem zend_hash_index_update_or_next_insert_refines_witness:
  "\<exists>ht a ht'. ht_repr ht map_ex \<and> zend_hash_index_update_or_next_insert ht 0 3 8 HASH_NEXT_INSERT = Some (SUCCESS, Some a, ht') \<and>
    ht_repr ht' \<lparr>om_list = [(key_a, 1), (HInt 5, 2), (HInt 6, 3)], om_cur = Some key_a, om_next = 7, om_dtor = True, om_log = []\<rparr>"
proof -
  obtain ht where ht: "ht_repr ht map_ex" using map_ex_exists by blast
  have g: "om_get map_ex (HInt 6) = None" by (simp add: map_ex_def om_get_def key_a_def)
  have p: "om_bump 6 (om_put (HInt 6) 3 map_ex) =
      \<lparr>om_list = [(key_a, 1), (HInt 5, 2), (HInt 6, 3)], om_cur = Some key_a, om_next = 7, om_dtor = True, om_log = []\<rparr>"
    by (simp add: om_put_def g) (simp add: map_ex_def om_bump_def key_a_def LONG_MAX_def)
  have n: "om_next map_ex = 6" by (simp add: map_ex_def)
  show ?thesis
    using zend_hash_index_update_or_next_insert_refines [OF ht, of HASH_NEXT_INSERT 0 3 8] ht
    by (auto simp: flag_defs g p n)
qed

text \<open>The next free index is past every index in use, unless it has reached \<open>LONG_MAX\<close>.\<close>

definition om_fresh :: "'v omap \<Rightarrow> bool" where
  "om_fresh M \<longleftrightarrow> 0 \<le> sint (om_next M) \<and>
     (om_next M = LONG_MAX \<or> (\<forall>h. om_get M (HInt h) \<noteq> None \<longrightarrow> sint h < sint (om_next M)))"

lemma om_get_bump [simp]: "om_get (om_bump h M) = om_get M"
  by (simp add: om_get_def om_bump_def fun_eq_iff)

lemma om_next_put [simp]: "om_next (om_put k v M) = om_next M"
  by (simp add: om_put_def om_destroy_def split: option.split)

lemma om_next_del [simp]: "om_next (om_del k M) = om_next M"
  by (simp add: om_del_def om_destroy_def split: option.split)

lemma bump_fresh:
  assumes "om_fresh M"
  shows "om_fresh (om_bump h (om_put (HInt h) v M))"
proof (cases "sint (om_next M) \<le> sint h")
  case le: True
  then have s: "om_next (om_bump h (om_put (HInt h) v M)) = (if h < LONG_MAX then h + 1 else LONG_MAX)"
    by (simp add: om_bump_def)
  show ?thesis
  proof (cases "h < LONG_MAX")
    case True
    have "uint h < 2 ^ 63 - 1" using True by (simp add: LONG_MAX_def word_less_def)
    moreover have "uint (h + 1) = uint h + 1" using True by (intro uint_plus1) (simp add: LONG_MAX_def)
    ultimately have "sint (h + 1) = sint h + 1" by (simp add: sint_ulong)
    moreover have "sint x < sint h + 1" if "om_get M (HInt x) \<noteq> None" for x
    proof -
      have "om_next M \<noteq> LONG_MAX" using le True assms \<open>uint h < 2 ^ 63 - 1\<close> by (auto simp: sint_ulong LONG_MAX_def)
      then have "sint x < sint (om_next M)" using assms that by (auto simp: om_fresh_def)
      then show ?thesis using le by simp
    qed
    moreover have "0 \<le> sint h + 1" using assms le by (simp add: om_fresh_def)
    ultimately show ?thesis
      unfolding om_fresh_def s using True by (auto simp: om_get_put split: if_splits)
  next
    case False
    then show ?thesis unfolding om_fresh_def s by (simp add: LONG_MAX_def sint_ulong)
  qed
next
  case False
  then have "om_bump h (om_put (HInt h) v M) = om_put (HInt h) v M" by (simp add: om_bump_def)
  then show ?thesis using assms False by (auto simp: om_fresh_def om_get_put)
qed



subsection \<open>Deletion and lookup\<close>

text \<open>C3: \<open>zend_hash_del_key_or_index\<close>, by string, by string with a precomputed hash, and by index,
  fails and changes nothing when the key is absent; otherwise the key is gone, its value is
  destroyed once, every other key keeps its value and place, and a cursor that was on the
  deleted element is on its successor.\<close>

theorem zend_hash_del_key_or_index_refines:
  assumes "ht_repr ht M" and "key_args arKey nKeyLength (if flag = HASH_DEL_KEY then zend_inline_hash_func arKey nKeyLength else h)"
  defines "k \<equiv> the_key arKey nKeyLength (if flag = HASH_DEL_KEY then zend_inline_hash_func arKey nKeyLength else h)"
  shows "(if om_get M k = None then zend_hash_del_key_or_index ht arKey nKeyLength h flag = Some (FAILURE, ht)
     else \<exists>ht'. zend_hash_del_key_or_index ht arKey nKeyLength h flag = Some (SUCCESS, ht') \<and> ht_repr ht' (om_del k M)) \<and>
    (\<forall>k'. om_get (om_del k M) k' = (if k' = k then None else om_get M k'))"
  using repr_del [OF assms(1) refl assms(2) refl] om_get_del [OF ht_repr_distinct [OF assms(1)], of k]
  by (simp add: k_def)

theorem zend_hash_del_key_or_index_refines_witness:
  "\<exists>ht ht'. ht_repr ht map_ex \<and> zend_hash_del_key_or_index ht [97, 0] 2 0 HASH_DEL_KEY = Some (SUCCESS, ht') \<and>
    ht_repr ht' \<lparr>om_list = [(HInt 5, 2)], om_cur = Some (HInt 5), om_next = 6, om_dtor = True, om_log = [1]\<rparr>"
proof -
  obtain ht where ht: "ht_repr ht map_ex" using map_ex_exists by blast
  have a: "key_args [97, 0] 2 (if HASH_DEL_KEY = HASH_DEL_KEY then zend_inline_hash_func [97, 0] 2 else 0)"
    by (simp add: key_args_def)
  have k: "the_key [97, 0] 2 (if HASH_DEL_KEY = HASH_DEL_KEY then zend_inline_hash_func [97, 0] 2 else 0) = key_a"
    by (simp add: the_key_def key_a_def)
  have g: "om_get map_ex key_a = Some 1" by (simp add: map_ex_def om_get_def)
  have d: "om_del key_a map_ex = \<lparr>om_list = [(HInt 5, 2)], om_cur = Some (HInt 5), om_next = 6, om_dtor = True, om_log = [1]\<rparr>"
    by (simp add: om_del_def g) (simp add: map_ex_def om_destroy_def key_a_def key_after_def AList.delete_eq)
  from zend_hash_del_key_or_index_refines [OF ht a] show ?thesis unfolding k using ht by (auto simp: g d)
qed

text \<open>C4: all lookups agree with the represented map: \<open>zend_hash_find\<close>, \<open>zend_hash_quick_find\<close> and
  \<open>zend_hash_index_find\<close> hand out the value the map has, or fail when it has none, and the three
  \<open>exists\<close> functions say whether it has one.\<close>

theorem zend_hash_find_refines:
  assumes "ht_repr ht M" and "nKeyLength \<noteq> 0" and "unat nKeyLength \<le> length arKey"
  defines "k \<equiv> HStr (take (unat nKeyLength) arKey)" and "h \<equiv> zend_inline_hash_func arKey nKeyLength"
  shows "data_of ht (zend_hash_find ht arKey nKeyLength) = Some (om_get M k) \<and>
    data_of ht (zend_hash_quick_find ht arKey nKeyLength h) = Some (om_get M k) \<and>
    zend_hash_exists ht arKey nKeyLength = Some (om_get M k \<noteq> None) \<and>
    zend_hash_quick_exists ht arKey nKeyLength h = Some (om_get M k \<noteq> None) \<and>
    data_of ht (zend_hash_index_find ht i) = Some (om_get M (HInt i)) \<and>
    zend_hash_index_exists ht i = Some (om_get M (HInt i) \<noteq> None)"
proof -
  have "the_key arKey nKeyLength h = k" using assms(2) by (simp add: k_def the_key_def)
  then show ?thesis
    using repr_find [OF assms(1) key_args_hash [OF assms(3)]] repr_index_find [OF assms(1)] by (simp add: h_def)
qed

theorem zend_hash_find_refines_witness:
  "\<exists>ht. ht_repr ht map_ex \<and> data_of ht (zend_hash_find ht [97, 0] 2) = Some (Some 1) \<and> zend_hash_exists ht [97, 0] 2 = Some True"
proof -
  obtain ht where ht: "ht_repr ht map_ex" using map_ex_exists by blast
  have l: "unat (2 :: uint) \<le> length [97, 0 :: byte]" by simp
  have g: "om_get map_ex (HStr [97, 0]) = Some 1" by (simp add: map_ex_def om_get_def key_a_def)
  show ?thesis using zend_hash_find_refines [OF ht _ l] ht by (auto simp: g)
qed

text \<open>C34: a lookup with key length 0 is not refused, unlike an insertion: the hash of the empty
  string is the seed 5381, and a bucket with \<open>nKeyLength\<close> 0 is an integer key, so
  \<open>zend_hash_find(ht, "", 0)\<close> finds the element with index 5381, and \<open>zend_hash_del(ht, "", 0)\<close>
  deletes it.\<close>

theorem zend_hash_find_length_0_is_index_5381:
  assumes "ht_repr ht M"
  shows "data_of ht (zend_hash_find ht arKey 0) = Some (om_get M (HInt 5381)) \<and>
    (om_get M (HInt 5381) \<noteq> None \<longrightarrow>
      (\<exists>ht'. zend_hash_del ht arKey 0 = Some (SUCCESS, ht') \<and> ht_repr ht' (om_del (HInt 5381) M)))"
proof -
  have h: "zend_inline_hash_func arKey 0 = 5381" by (simp add: zend_inline_hash_func_foldl)
  show ?thesis
    using repr_find(1,3) [OF assms key_args_0 [of arKey "zend_inline_hash_func arKey 0"]]
      repr_del [OF assms refl key_args_0 [of arKey] refl, where flag = HASH_DEL_KEY and h = 0]
    by (auto simp: h zend_hash_del_def flag_defs)
qed

theorem zend_hash_find_length_0_is_index_5381_witness:
  "\<exists>ht :: nat HashTable. (\<exists>M. ht_repr ht M \<and> om_get M (HInt 5381) = Some 4) \<and> data_of ht (zend_hash_find ht [] 0) = Some (Some 4)"
proof -
  obtain h0 :: "nat HashTable" where "ht_repr h0 (om_empty True [])" using blank_init by blast
  then obtain ht :: "nat HashTable" where ht: "ht_repr ht (om_store (HInt 5381) 4 (om_empty True []))"
    using ht.put_law [of h0 "om_empty True []" "HInt 5381" 4] by (auto simp: hkey_ok_def)
  have g: "om_get (om_store (HInt 5381) 4 (om_empty True [])) (HInt 5381) = Some 4" by (simp add: om_get_store)
  show ?thesis using zend_hash_find_length_0_is_index_5381 [OF ht] ht g by auto
qed

end
