(* ===== verification/Hash_Ops.thy ===== *)
theory Hash_Ops
  imports Hash_Props
begin

unbundle bit_operations_syntax

text \<open>
  The operations of \<open>Zend/zend_hash.c\<close> that work on a whole table: destroying and cleaning it,
  applying a callback to its elements in either direction, with removal and early stop, and the
  recursion guard around them; then the cursor operations.
\<close>

subsection \<open>Destroying and cleaning\<close>

lemma free_all_spec:
  assumes "dseg (fld pListNext (ht_store ht)) p f b xs t None" "set xs \<subseteq> dom (ht_store ht)" "distinct xs"
  shows "hash_free_all f ht = Some (ht\<lparr>ht_store := (ht_store ht) |` (- set xs),
    ht_dtor_log := ht_dtor_log ht @ (if pDestructor ht then map (fld bk_val (ht_store ht)) xs else [])\<rparr>)"
  using assms
proof (induction xs arbitrary: ht f b)
  case Nil
  then show ?case by (simp add: hash_free_all.simps restrict_map_def)
next
  case (Cons a xs)
  obtain bk where bk: "ht_store ht a = Some bk" using Cons.prems(2) by auto
  have bkn: "pListNext bk = fld pListNext (ht_store ht) a" using bk by (simp add: fld_def)
  define h1 where "h1 = ht_free a (ht_call_dtor (bk_pData bk) ht)"
  have h1: "ht_store h1 = (ht_store ht)(a := None)" "pDestructor h1 = pDestructor ht"
    "ht_dtor_log h1 = ht_dtor_log ht @ (if pDestructor ht then [bk_val bk] else [])"
    by (auto simp: h1_def ht_free_def ht_call_dtor_def bk_val_def)
  have ne: "x \<noteq> a" if "x \<in> set xs" for x using that Cons.prems(3) by auto
  have seg: "dseg (fld pListNext (ht_store h1)) p (pListNext bk) (Some a) xs t None"
    using Cons.prems(1) bkn by (subst dseg_frame [of _ _ "fld pListNext (ht_store ht)" _ p]) (auto simp: h1 fld_drop ne)
  have "hash_free_all (pListNext bk) h1 = Some (h1\<lparr>ht_store := (ht_store h1) |` (- set xs),
    ht_dtor_log := ht_dtor_log h1 @ (if pDestructor h1 then map (fld bk_val (ht_store h1)) xs else [])\<rparr>)"
    by (rule Cons.IH [OF seg]) (use Cons.prems h1 in auto)
  moreover have "map (fld bk_val (ht_store h1)) xs = map (fld bk_val (ht_store ht)) xs" by (simp add: h1 fld_drop ne)
  moreover have "(ht_store ht)(a := None) |` (- set xs) = ht_store ht |` (- set (a # xs))" by (auto simp: restrict_map_def)
  moreover have "hash_free_all f ht = hash_free_all (pListNext bk) h1"
    using Cons.prems(1) bk by (simp add: hash_free_all.simps [of "Some a"] h1_def)
  moreover have "fld bk_val (ht_store ht) a = bk_val bk" using bk by (simp add: fld_def)
  moreover have "h1\<lparr>ht_store := s, ht_dtor_log := l\<rparr> = ht\<lparr>ht_store := s, ht_dtor_log := l\<rparr>" for s l
    by (simp add: h1_def ht_free_def ht_call_dtor_def)
  ultimately show ?case by (simp add: h1)
qed

lemma free_all_ht:
  assumes inv: "ht_inv ht xs"
    and h1: "ht_store h1 = ht_store ht" "pDestructor h1 = pDestructor ht" "ht_dtor_log h1 = ht_dtor_log ht"
  shows "hash_free_all (pListHead ht) h1 = Some (h1\<lparr>ht_store := Map.empty,
    ht_dtor_log := ht_dtor_log ht @ (if pDestructor ht then map snd (ht_list ht xs) else [])\<rparr>)"
proof -
  note D = ht_invD [OF inv]
  have "ht_store ht |` (- set xs) = Map.empty" using D(5) by (auto simp: restrict_map_def fun_eq_iff domIff)
  moreover have "map (fld bk_val (ht_store ht)) xs = map snd (ht_list ht xs)" by (simp add: ht_list_def)
  ultimately show ?thesis
    using free_all_spec [of h1 "fld pListLast (ht_store ht)" "pListHead ht" None xs "pListTail ht"] D(2,5,6)
    by (simp add: h1 ht_order_def dll_def)
qed

text \<open>C31: \<open>zend_hash_destroy\<close> calls the destructor exactly once for every element, in insertion
  order, and frees every bucket and the array of heads; \<open>zend_hash_clean\<close> does the same to the
  elements and leaves an empty table of the same size that can be used again.\<close>

theorem zend_hash_destroy_clean:
  assumes "ht_repr ht M"
  shows "(\<exists>ht'. zend_hash_destroy ht = Some ht' \<and> ht_store ht' = Map.empty \<and> arBuckets ht' = [] \<and>
       ht_dtor_log ht' = om_log M @ (if om_dtor M then map snd (om_list M) else [])) \<and>
    (\<exists>ht'. zend_hash_clean ht = Some ht' \<and> nTableSize ht' = nTableSize ht \<and>
       ht_repr ht' (om_empty (om_dtor M) (om_log M @ (if om_dtor M then map snd (om_list M) else []))))"
proof -
  obtain xs where xs: "ht_inv ht xs" "ht_abs ht xs = M" using assms by (auto simp: ht_repr_def)
  note D = ht_invD [OF xs(1)]
  have M: "om_log M = ht_dtor_log ht" "om_dtor M = pDestructor ht" "om_list M = ht_list ht xs" using xs(2) by auto
  let ?t = "replicate (unat (nTableSize ht)) None @ drop (unat (nTableSize ht)) (arBuckets ht)"
  let ?h = "ht\<lparr>arBuckets := ?t, pListHead := None, pListTail := None, nNumOfElements := 0, nNextFreeElement := 0, pInternalPointer := None\<rparr>"
  have t: "?t = replicate (unat (nTableSize ht)) None" using D(1) by (simp add: ht_shape_def)
  have "zend_hash_destroy ht = Some (ht\<lparr>ht_store := Map.empty, arBuckets := [],
      ht_dtor_log := ht_dtor_log ht @ (if pDestructor ht then map snd (ht_list ht xs) else [])\<rparr>)"
    using free_all_ht [OF xs(1), of ht] by (simp add: zend_hash_destroy_def)
  moreover have "zend_hash_clean ht = Some (?h\<lparr>ht_store := Map.empty,
      ht_dtor_log := ht_dtor_log ht @ (if pDestructor ht then map snd (ht_list ht xs) else [])\<rparr>)"
    unfolding zend_hash_clean_def by (rule free_all_ht [OF xs(1)]) simp_all
  moreover have "ht_repr (?h\<lparr>ht_store := Map.empty,
      ht_dtor_log := ht_dtor_log ht @ (if pDestructor ht then map snd (ht_list ht xs) else [])\<rparr>)
     (om_empty (om_dtor M) (om_log M @ (if om_dtor M then map snd (om_list M) else [])))"
    using D(1) unfolding t
    by (intro ht_reprI [where xs = "[]"])
      (simp_all add: ht_inv_def ht_shape_def ht_order_def ht_chains_def ht_content_def chains_empty ht_abs_def om_empty_def M)
  ultimately show ?thesis unfolding M by simp
qed

theorem zend_hash_destroy_clean_witness:
  "\<exists>ht ht' ht''. ht_repr ht map_ex \<and> zend_hash_destroy ht = Some ht' \<and> ht_dtor_log ht' = [1, 2] \<and>
    zend_hash_clean ht = Some ht'' \<and> ht_repr ht'' (om_empty True [1, 2])"
proof -
  obtain ht where ht: "ht_repr ht map_ex" using map_ex_exists by blast
  show ?thesis using zend_hash_destroy_clean [OF ht] ht by (auto simp: map_ex_def)
qed

subsection \<open>Removing elements while walking the table\<close>

lemma ht_deleted_sel [simp]:
  "nApplyCount (ht_deleted a ht) = nApplyCount ht" "bApplyProtection (ht_deleted a ht) = bApplyProtection ht"
  by (simp_all add: ht_deleted_def Let_def)

lemma deleter_step:
  assumes "ht_inv ht (us @ a # vs)"
  shows "zend_hash_apply_deleter ht a = Some (case vs of [] \<Rightarrow> None | v # _ \<Rightarrow> Some v, ht_deleted a ht)"
    and "ht_inv (ht_deleted a ht) (us @ vs)"
    and "ht_abs (ht_deleted a ht) (us @ vs) = om_del (fld bk_key (ht_store ht) a) (ht_abs ht (us @ a # vs))"
    and "\<And>x. x \<in> set (us @ vs) \<Longrightarrow> fld bk_key (ht_store (ht_deleted a ht)) x = fld bk_key (ht_store ht) x"
proof -
  show "zend_hash_apply_deleter ht a = Some (case vs of [] \<Rightarrow> None | v # _ \<Rightarrow> Some v, ht_deleted a ht)"
    using delete_bucket_inv(2) [OF assms, of a] ht_inv_next(1) [OF assms] by simp
  show "ht_inv (ht_deleted a ht) (us @ vs)" by (rule ht_deleted_inv [OF assms])
  show "ht_abs (ht_deleted a ht) (us @ vs) = om_del (fld bk_key (ht_store ht) a) (ht_abs ht (us @ a # vs))"
    by (rule deleted_abs [OF assms])
  have un: "unlinkable a (ht_store ht)" using ht_inv_unlinkable [OF assms, of a] by simp
  show "fld bk_key (ht_store (ht_deleted a ht)) x = fld bk_key (ht_store ht) x" if "x \<in> set (us @ vs)" for x
  proof -
    have "x \<noteq> a" using that ht_invD(6) [OF assms] by auto
    then show ?thesis
      using same_data_trans [OF st_unchain_fld(2) [OF un] st_unglobal_fld(2) [OF st_unchain_fld(7) [OF un]]]
      by (simp add: ht_deleted_fld same_data_def)
  qed
qed

fun om_del_list :: "hkey list \<Rightarrow> 'v omap \<Rightarrow> 'v omap" where
  "om_del_list [] M = M"
| "om_del_list (k # ks) M = om_del_list ks (om_del k M)"

lemma graceful_spec:
  assumes "ht_inv ht xs"
  shows "\<exists>ht'. hash_graceful_loop (pListHead ht) ht = Some ht' \<and> ht_inv ht' [] \<and>
    ht_abs ht' [] = om_del_list (map fst (om_list (ht_abs ht xs))) (ht_abs ht xs)"
  using assms
proof (induction xs arbitrary: ht)
  case Nil
  then show ?case using ht_inv_head_tail [OF Nil] by (simp add: hash_graceful_loop.simps)
next
  case (Cons a xs)
  have inv: "ht_inv ht ([] @ a # xs)" using Cons.prems by simp
  note S = deleter_step [OF inv]
  have hd: "pListHead ht = Some a" using ht_inv_head_tail [OF Cons.prems] by simp
  have "ht_inv (ht_deleted a ht) xs" using S(2) by simp
  note IH = Cons.IH [OF this]
  have "pListHead (ht_deleted a ht) = (case xs of [] \<Rightarrow> None | v # _ \<Rightarrow> Some v)"
    using ht_inv_head_tail(1) [OF S(2)] by simp
  then have "hash_graceful_loop (pListHead ht) ht = hash_graceful_loop (pListHead (ht_deleted a ht)) (ht_deleted a ht)"
    using S(1) hd by (simp add: hash_graceful_loop.simps [of "Some a"])
  moreover have "map fst (ht_list (ht_deleted a ht) xs) = map fst (ht_list ht xs)"
    using S(4) by (simp add: ht_list_def)
  ultimately show ?case using IH S(3) by simp
qed

lemma graceful_reverse_spec:
  assumes "ht_inv ht xs"
  shows "\<exists>ht'. hash_graceful_reverse_loop (pListTail ht) ht = Some ht' \<and> ht_inv ht' [] \<and>
    ht_abs ht' [] = om_del_list (rev (map fst (om_list (ht_abs ht xs)))) (ht_abs ht xs)"
  using assms
proof (induction xs arbitrary: ht rule: rev_induct)
  case Nil
  then show ?case using ht_inv_head_tail [OF Nil] by (simp add: hash_graceful_reverse_loop.simps)
next
  case (snoc a xs)
  have inv: "ht_inv ht (xs @ a # [])" using snoc.prems by simp
  note S = deleter_step [OF inv]
  have tl: "pListTail ht = Some a" using ht_inv_head_tail [OF snoc.prems] by simp
  have "ht_inv (ht_deleted a ht) xs" using S(2) by simp
  note IH = snoc.IH [OF this]
  have "hash_graceful_reverse_loop (pListTail ht) ht =
      hash_graceful_reverse_loop (pListTail (ht_deleted a ht)) (ht_deleted a ht)"
    using S(1) tl by (simp add: hash_graceful_reverse_loop.simps [of "Some a"])
  moreover have "map fst (ht_list (ht_deleted a ht) xs) = map fst (ht_list ht xs)"
    using S(4) by (simp add: ht_list_def)
  ultimately show ?case using IH S(3) by simp
qed

lemma om_del_all:
  assumes "distinct (map fst l)" "om_list M = l"
  shows "om_log (om_del_list (map fst l) M) = om_log M @ (if om_dtor M then map snd l else [])"
  using assms
proof (induction l arbitrary: M)
  case (Cons p l)
  obtain k v where p: "p = (k, v)" by fastforce
  have d: "om_list (om_del k M) = l" "om_log (om_del k M) = om_log M @ (if om_dtor M then [v] else [])" "om_dtor (om_del k M) = om_dtor M"
    using Cons.prems p delete_middle [of k "[]" l v] by (auto simp: om_del_def om_get_def om_destroy_def)
  show ?case using Cons.IH [of "om_del k M"] Cons.prems d p by simp
qed simp

lemma om_del_all_rev:
  assumes "distinct (map fst l)" "om_list M = l"
  shows "om_log (om_del_list (rev (map fst l)) M) = om_log M @ (if om_dtor M then rev (map snd l) else [])"
  using assms
proof (induction l arbitrary: M rule: rev_induct)
  case (snoc p l)
  obtain k v where p: "p = (k, v)" by fastforce
  have k: "k \<notin> fst ` set l" using snoc.prems p by simp
  then have n: "map_of l k = None" by (simp add: map_of_eq_None_iff)
  have d: "om_list (om_del k M) = l" "om_log (om_del k M) = om_log M @ (if om_dtor M then [v] else [])" "om_dtor (om_del k M) = om_dtor M"
    using snoc.prems(2) p k delete_middle [of k l "[]" v]
    by (auto simp: om_del_def om_get_def om_destroy_def map_add_def n)
  show ?case using snoc.IH [of "om_del k M"] snoc.prems d p by simp
qed simp

text \<open>C7: \<open>zend_hash_graceful_destroy\<close> destroys every element once in insertion order, and
  \<open>zend_hash_graceful_reverse_destroy\<close> in the opposite order; both unlink each bucket before
  its destructor runs, return, and leave no bucket allocated.\<close>

theorem zend_hash_graceful_destroy_orders:
  assumes "ht_repr ht M"
  shows "(\<exists>ht'. zend_hash_graceful_destroy ht = Some ht' \<and> ht_store ht' = Map.empty \<and> arBuckets ht' = [] \<and>
       ht_dtor_log ht' = om_log M @ (if om_dtor M then map snd (om_list M) else [])) \<and>
    (\<exists>ht'. zend_hash_graceful_reverse_destroy ht = Some ht' \<and> ht_store ht' = Map.empty \<and> arBuckets ht' = [] \<and>
       ht_dtor_log ht' = om_log M @ (if om_dtor M then rev (map snd (om_list M)) else []))"
proof -
  obtain xs where xs: "ht_inv ht xs" "ht_abs ht xs = M" using assms by (auto simp: ht_repr_def)
  have dis: "distinct (map fst (om_list M))" using ht_repr_distinct [OF assms] .
  obtain h1 where h1: "hash_graceful_loop (pListHead ht) ht = Some h1" "ht_inv h1 []"
    "ht_abs h1 [] = om_del_list (map fst (om_list M)) M" using graceful_spec [OF xs(1)] xs(2) by auto
  obtain h2 where h2: "hash_graceful_reverse_loop (pListTail ht) ht = Some h2" "ht_inv h2 []"
    "ht_abs h2 [] = om_del_list (rev (map fst (om_list M))) M" using graceful_reverse_spec [OF xs(1)] xs(2) by auto
  have "ht_store h1 = Map.empty" "ht_store h2 = Map.empty" using ht_invD(5) [OF h1(2)] ht_invD(5) [OF h2(2)] by simp_all
  moreover have "ht_dtor_log h1 = om_log M @ (if om_dtor M then map snd (om_list M) else [])"
    using arg_cong [OF h1(3), of om_log] om_del_all [OF dis refl] by simp
  moreover have "ht_dtor_log h2 = om_log M @ (if om_dtor M then rev (map snd (om_list M)) else [])"
    using arg_cong [OF h2(3), of om_log] om_del_all_rev [OF dis refl] by simp
  ultimately show ?thesis
    using h1(1) h2(1) by (simp add: zend_hash_graceful_destroy_def zend_hash_graceful_reverse_destroy_def)
qed

theorem zend_hash_graceful_destroy_orders_witness:
  "\<exists>ht h1 h2. ht_repr ht map_ex \<and> zend_hash_graceful_destroy ht = Some h1 \<and> ht_dtor_log h1 = [1, 2] \<and>
    zend_hash_graceful_reverse_destroy ht = Some h2 \<and> ht_dtor_log h2 = [2, 1]"
proof -
  obtain ht where ht: "ht_repr ht map_ex" using map_ex_exists by blast
  show ?thesis using zend_hash_graceful_destroy_orders [OF ht] ht by (auto simp: map_ex_def)
qed

subsection \<open>Applying a callback\<close>

definition om_set :: "hkey \<Rightarrow> 'v \<Rightarrow> 'v omap \<Rightarrow> 'v omap" where
  "om_set k v M = M\<lparr>om_list := AList.update k v (om_list M)\<rparr>"

text \<open>
  The specification: visit the listed keys in turn; the callback's value is stored, the element
  is deleted when the result has \<open>ZEND_HASH_APPLY_REMOVE\<close>, and the walk ends early when it has
  \<open>ZEND_HASH_APPLY_STOP\<close>.
\<close>

fun om_apply :: "('v \<Rightarrow> hkey \<Rightarrow> 'e \<Rightarrow> uint \<times> 'v \<times> 'e) \<Rightarrow> hkey list \<Rightarrow> 'v omap \<Rightarrow> 'e \<Rightarrow> 'v omap \<times> 'e" where
  "om_apply g [] M e = (M, e)"
| "om_apply g (k # ks) M e =
     (let (r, v, e) = g (the (om_get M k)) k e;
          M = om_set k v M;
          M = (if r AND ZEND_HASH_APPLY_REMOVE \<noteq> 0 then om_del k M else M)
      in if r AND ZEND_HASH_APPLY_STOP \<noteq> 0 then (M, e) else om_apply g ks M e)"

text \<open>The callback sees the key only as the key it stands for.\<close>

definition key_callback :: "('v, 'e) apply_func_args \<Rightarrow> ('v \<Rightarrow> hkey \<Rightarrow> 'e \<Rightarrow> uint \<times> 'v \<times> 'e) \<Rightarrow> bool" where
  "key_callback func g \<longleftrightarrow> (\<forall>v hk e. func v hk e = g v (the_key (hk_arKey hk) (hk_nKeyLength hk) (hk_h hk)) e)"

definition same_guard :: "'v HashTable \<Rightarrow> 'v HashTable \<Rightarrow> bool" where
  "same_guard ht ht' \<longleftrightarrow> nApplyCount ht' = nApplyCount ht \<and> bApplyProtection ht' = bApplyProtection ht"

lemma om_set_abs:
  assumes inv: "ht_inv ht (us @ a # vs)"
    and l: "ht_list h1 (us @ a # vs) = ht_list ht us @ (fld bk_key (ht_store ht) a, v) # ht_list ht vs"
    and f: "fld bk_key (ht_store h1) = fld bk_key (ht_store ht)" "pInternalPointer h1 = pInternalPointer ht"
      "nNextFreeElement h1 = nNextFreeElement ht" "pDestructor h1 = pDestructor ht" "ht_dtor_log h1 = ht_dtor_log ht"
  shows "ht_abs h1 (us @ a # vs) = om_set (fld bk_key (ht_store ht) a) v (ht_abs ht (us @ a # vs))"
  using l ht_inv_split_keys(1) [OF inv] by (simp add: om_set_def ht_abs_def f update_middle)

lemma call_func_spec:
  assumes inv: "ht_inv ht (us @ a # vs)" and g: "key_callback func g"
  defines "k \<equiv> fld bk_key (ht_store ht) a"
  assumes r: "g (the (om_get (ht_abs ht (us @ a # vs)) k)) k e = (r, v, e')"
  shows "\<exists>h1. hash_call_func func a ht e = Some (r, h1, e') \<and> ht_inv h1 (us @ a # vs) \<and>
    ht_abs h1 (us @ a # vs) = om_set k v (ht_abs ht (us @ a # vs)) \<and>
    fld bk_key (ht_store h1) = fld bk_key (ht_store ht) \<and> fld pListNext (ht_store h1) = fld pListNext (ht_store ht) \<and>
    fld pListLast (ht_store h1) = fld pListLast (ht_store ht) \<and> same_guard ht h1"
proof -
  obtain b where b: "ht_store ht a = Some b" using ht_invD(5) [OF inv] by auto
  have "pd_val (pd_set v d) = v" for d by (cases d) simp_all
  note P = ht_data_inv [OF inv, of "\<lambda>b. pd_set v (bk_pData b)", OF this]
  let ?h = "ht\<lparr>ht_store := supd (Some a) (\<lambda>b. b\<lparr>bk_pData := pd_set v (bk_pData b)\<rparr>) (ht_store ht)\<rparr>"
  have "om_get (ht_abs ht (us @ a # vs)) k = Some (bk_val b)"
    using ht_repr_holds [of ht "ht_abs ht (us @ a # vs)" a k "bk_val b"] inv b ht_invD(5) [OF inv]
    by (auto simp: ht_repr_def ht_holds_def k_def fld_def)
  then have "func (pd_val (bk_pData b)) (bucket_key b) e = (r, v, e')"
    using g r b by (simp add: key_callback_def bucket_key_def k_def bk_key_def bk_val_def fld_def)
  then have "hash_call_func func a ht e = Some (r, ?h, e')" using P(1) b by (simp add: hash_call_func_def)
  moreover have "ht_abs ?h (us @ a # vs) = om_set k v (ht_abs ht (us @ a # vs))"
    unfolding k_def by (rule om_set_abs [OF inv P(3,4)]) simp_all
  ultimately show ?thesis using P(2,4-6) by (intro exI [of _ ?h]) (simp add: same_guard_def)
qed

lemma same_guard_trans: "same_guard a b \<Longrightarrow> same_guard b c \<Longrightarrow> same_guard a c"
  by (simp add: same_guard_def)

lemma same_guard_deleted: "same_guard ht (ht_deleted a ht)"
  by (simp add: same_guard_def)

lemma apply_loop_spec:
  assumes "ht_inv ht (us @ vs)" "p = (case vs of [] \<Rightarrow> None | v # _ \<Rightarrow> Some v)" and g: "key_callback func g"
  shows "\<exists>ht' xs'. hash_apply_loop func p ht e =
      Some (ht', snd (om_apply g (map (fld bk_key (ht_store ht)) vs) (ht_abs ht (us @ vs)) e)) \<and>
    ht_inv ht' xs' \<and> same_guard ht ht' \<and>
    ht_abs ht' xs' = fst (om_apply g (map (fld bk_key (ht_store ht)) vs) (ht_abs ht (us @ vs)) e)"
  using assms(1,2)
proof (induction vs arbitrary: us ht p e)
  case Nil
  then show ?case by (intro exI [of _ ht] exI [of _ us]) (simp add: hash_apply_loop.simps same_guard_def)
next
  case (Cons a vs)
  let ?k = "fld bk_key (ht_store ht) a" and ?M = "ht_abs ht (us @ a # vs)"
  obtain r v e1 where r: "g (the (om_get ?M ?k)) ?k e = (r, v, e1)" using prod_cases3 by blast
  obtain h1 where h1: "hash_call_func func a ht e = Some (r, h1, e1)" "ht_inv h1 (us @ a # vs)"
    "ht_abs h1 (us @ a # vs) = om_set ?k v ?M" "fld bk_key (ht_store h1) = fld bk_key (ht_store ht)"
    "fld pListNext (ht_store h1) = fld pListNext (ht_store ht)" "same_guard ht h1"
    using call_func_spec [OF Cons.prems(1) g r] by blast
  obtain b1 where b1: "ht_store h1 a = Some b1" using ht_invD(5) [OF h1(2)] by auto
  have nx: "pListNext b1 = (case vs of [] \<Rightarrow> None | v # _ \<Rightarrow> Some v)"
    using ht_inv_next(1) [OF h1(2)] b1 by (simp add: fld_def)
  have p: "p = Some a" using Cons.prems(2) by simp
  show ?case
  proof (cases "r AND ZEND_HASH_APPLY_REMOVE \<noteq> 0")
    case True
    note S = deleter_step [OF h1(2)]
    let ?h = "ht_deleted a h1"
    have sg: "same_guard ht ?h" using h1(6) same_guard_deleted same_guard_trans by blast
    have keys: "map (fld bk_key (ht_store ?h)) vs = map (fld bk_key (ht_store ht)) vs" using S(4) h1(4) by simp
    have M: "ht_abs ?h (us @ vs) = om_del ?k (om_set ?k v ?M)" using S(3) h1(3,4) by simp
    show ?thesis
    proof (cases "r AND ZEND_HASH_APPLY_STOP \<noteq> 0")
      case stop: True
      then show ?thesis using p h1(1) S(1,2) True r M sg
        by (intro exI [of _ ?h] exI [of _ "us @ vs"]) (simp add: hash_apply_loop.simps [of _ "Some a"])
    next
      case False
      obtain ht' xs' where H: "hash_apply_loop func (case vs of [] \<Rightarrow> None | v # _ \<Rightarrow> Some v) ?h e1 =
          Some (ht', snd (om_apply g (map (fld bk_key (ht_store ?h)) vs) (ht_abs ?h (us @ vs)) e1))" "ht_inv ht' xs'"
        "same_guard ?h ht'" "ht_abs ht' xs' = fst (om_apply g (map (fld bk_key (ht_store ?h)) vs) (ht_abs ?h (us @ vs)) e1)"
        using Cons.IH [OF S(2) refl, of e1] by blast
      have "same_guard ht ht'" using sg H(3) same_guard_trans by blast
      then show ?thesis using p h1(1) S(1) True r M False H(1,2,4) keys
        by (intro exI [of _ ht'] exI [of _ xs']) (simp add: hash_apply_loop.simps [of _ "Some a"])
    qed
  next
    case keep: False
    show ?thesis
    proof (cases "r AND ZEND_HASH_APPLY_STOP \<noteq> 0")
      case stop: True
      then show ?thesis using p h1(1-3,6) keep r b1
        by (intro exI [of _ h1] exI [of _ "us @ a # vs"]) (simp add: hash_apply_loop.simps [of _ "Some a"])
    next
      case False
      have inv1: "ht_inv h1 ((us @ [a]) @ vs)" using h1(2) by simp
      obtain ht' xs' where H: "hash_apply_loop func (case vs of [] \<Rightarrow> None | v # _ \<Rightarrow> Some v) h1 e1 =
          Some (ht', snd (om_apply g (map (fld bk_key (ht_store h1)) vs) (ht_abs h1 ((us @ [a]) @ vs)) e1))" "ht_inv ht' xs'"
        "same_guard h1 ht'" "ht_abs ht' xs' = fst (om_apply g (map (fld bk_key (ht_store h1)) vs) (ht_abs h1 ((us @ [a]) @ vs)) e1)"
        using Cons.IH [OF inv1 refl, of e1] by blast
      have "same_guard ht ht'" using h1(6) H(3) same_guard_trans by blast
      moreover have "ht_abs h1 ((us @ [a]) @ vs) = om_set ?k v ?M" using h1(3) by simp
      ultimately show ?thesis using p h1(1,4) keep r False H(1,2,4) b1 nx
        by (intro exI [of _ ht'] exI [of _ xs']) (simp add: hash_apply_loop.simps [of _ "Some a"])
    qed
  qed
qed

lemma reverse_apply_loop_spec:
  assumes "ht_inv ht (vs @ us)" "p = (if vs = [] then None else Some (last vs))" and g: "key_callback func g"
  shows "\<exists>ht' xs'. hash_reverse_apply_loop func p ht e =
      Some (ht', snd (om_apply g (rev (map (fld bk_key (ht_store ht)) vs)) (ht_abs ht (vs @ us)) e)) \<and>
    ht_inv ht' xs' \<and> same_guard ht ht' \<and>
    ht_abs ht' xs' = fst (om_apply g (rev (map (fld bk_key (ht_store ht)) vs)) (ht_abs ht (vs @ us)) e)"
  using assms(1,2)
proof (induction vs arbitrary: us ht p e rule: rev_induct)
  case Nil
  then show ?case by (intro exI [of _ ht] exI [of _ us]) (simp add: hash_reverse_apply_loop.simps same_guard_def)
next
  case (snoc a vs)
  let ?k = "fld bk_key (ht_store ht) a" and ?M = "ht_abs ht (vs @ a # us)"
  have inv: "ht_inv ht (vs @ a # us)" using snoc.prems(1) by simp
  obtain r v e1 where r: "g (the (om_get ?M ?k)) ?k e = (r, v, e1)" using prod_cases3 by blast
  obtain h1 where h1: "hash_call_func func a ht e = Some (r, h1, e1)" "ht_inv h1 (vs @ a # us)"
    "ht_abs h1 (vs @ a # us) = om_set ?k v ?M" "fld bk_key (ht_store h1) = fld bk_key (ht_store ht)"
    "fld pListLast (ht_store h1) = fld pListLast (ht_store ht)" "same_guard ht h1"
    using call_func_spec [OF inv g r] by blast
  obtain b1 where b1: "ht_store h1 a = Some b1" using ht_invD(5) [OF h1(2)] by auto
  have nx: "pListLast b1 = (if vs = [] then None else Some (last vs))"
    using ht_inv_next(2) [OF h1(2)] b1 by (simp add: fld_def)
  have p: "p = Some a" using snoc.prems(2) by simp
  have e: "ht_abs ht ((vs @ [a]) @ us) = ?M" by simp
  show ?case
  proof (cases "r AND ZEND_HASH_APPLY_REMOVE \<noteq> 0")
    case True
    note S = deleter_step [OF h1(2)]
    let ?h = "ht_deleted a h1"
    have sg: "same_guard ht ?h" using h1(6) same_guard_deleted same_guard_trans by blast
    have keys: "map (fld bk_key (ht_store ?h)) vs = map (fld bk_key (ht_store ht)) vs" using S(4) h1(4) by simp
    have M: "ht_abs ?h (vs @ us) = om_del ?k (om_set ?k v ?M)" using S(3) h1(3,4) by simp
    show ?thesis
    proof (cases "r AND ZEND_HASH_APPLY_STOP \<noteq> 0")
      case stop: True
      then show ?thesis using p h1(1) S(1,2) True r M sg b1
        by (intro exI [of _ ?h] exI [of _ "vs @ us"]) (simp add: hash_reverse_apply_loop.simps [of _ "Some a"])
    next
      case False
      obtain ht' xs' where H: "hash_reverse_apply_loop func (pListLast b1) ?h e1 =
          Some (ht', snd (om_apply g (rev (map (fld bk_key (ht_store ?h)) vs)) (ht_abs ?h (vs @ us)) e1))" "ht_inv ht' xs'"
        "same_guard ?h ht'" "ht_abs ht' xs' = fst (om_apply g (rev (map (fld bk_key (ht_store ?h)) vs)) (ht_abs ?h (vs @ us)) e1)"
        using snoc.IH [OF S(2) nx, of e1] by blast
      have "same_guard ht ht'" using sg H(3) same_guard_trans by blast
      then show ?thesis using p h1(1) S(1) True r M False H(1,2,4) keys b1
        by (intro exI [of _ ht'] exI [of _ xs']) (simp add: hash_reverse_apply_loop.simps [of _ "Some a"])
    qed
  next
    case keep: False
    show ?thesis
    proof (cases "r AND ZEND_HASH_APPLY_STOP \<noteq> 0")
      case stop: True
      then show ?thesis using p h1(1-3,6) keep r b1
        by (intro exI [of _ h1] exI [of _ "vs @ a # us"]) (simp add: hash_reverse_apply_loop.simps [of _ "Some a"])
    next
      case False
      obtain ht' xs' where H: "hash_reverse_apply_loop func (pListLast b1) h1 e1 =
          Some (ht', snd (om_apply g (rev (map (fld bk_key (ht_store h1)) vs)) (ht_abs h1 (vs @ a # us)) e1))" "ht_inv ht' xs'"
        "same_guard h1 ht'" "ht_abs ht' xs' = fst (om_apply g (rev (map (fld bk_key (ht_store h1)) vs)) (ht_abs h1 (vs @ a # us)) e1)"
        using snoc.IH [OF h1(2) nx, of e1] by blast
      have "same_guard ht ht'" using h1(6) H(3) same_guard_trans by blast
      then show ?thesis using p h1(1,3,4) keep r False H(1,2,4) b1
        by (intro exI [of _ ht'] exI [of _ xs']) (simp add: hash_reverse_apply_loop.simps [of _ "Some a"])
    qed
  qed
qed

lemma ht_repr_upd [simp]:
  "ht_repr (ht\<lparr>nApplyCount := c\<rparr>) M = ht_repr ht M" "ht_repr (ht\<lparr>bApplyProtection := p\<rparr>) M = ht_repr ht M"
  by (simp_all add: ht_repr_def ht_abs_def)

lemma apply_guarded:
  assumes M: "ht_repr ht M" and g: "key_callback func g" and ok: "\<not> (bApplyProtection ht \<and> 3 \<le> nApplyCount ht)"
  defines "keys \<equiv> map fst (om_list M)"
  shows "\<exists>ht' h1. HASH_PROTECT_RECURSION ht = (False, h1) \<and> pListHead h1 = pListHead ht \<and>
      hash_apply_loop func (pListHead ht) h1 e = Some (ht', snd (om_apply g keys M e)) \<and>
      ht_repr (HASH_UNPROTECT_RECURSION ht') (fst (om_apply g keys M e)) \<and> same_guard ht (HASH_UNPROTECT_RECURSION ht')"
    and "\<exists>ht' h1. HASH_PROTECT_RECURSION ht = (False, h1) \<and> pListTail h1 = pListTail ht \<and>
      hash_reverse_apply_loop func (pListTail ht) h1 e = Some (ht', snd (om_apply g (rev keys) M e)) \<and>
      ht_repr (HASH_UNPROTECT_RECURSION ht') (fst (om_apply g (rev keys) M e)) \<and> same_guard ht (HASH_UNPROTECT_RECURSION ht')"
proof -
  let ?h = "if bApplyProtection ht then ht\<lparr>nApplyCount := nApplyCount ht + 1\<rparr> else ht"
  have p: "HASH_PROTECT_RECURSION ht = (False, ?h)" using ok by (auto simp: HASH_PROTECT_RECURSION_def)
  obtain xs where xs: "ht_inv ht xs" "ht_abs ht xs = M" using M by (auto simp: ht_repr_def)
  have h: "ht_inv ?h xs" "ht_abs ?h xs = M" "ht_store ?h = ht_store ht" using xs by (simp_all add: ht_abs_def)
  have k: "keys = map (fld bk_key (ht_store ht)) xs" using xs(2) ht_list_keys [of ht xs] by (auto simp: keys_def)
  have u: "ht_repr (HASH_UNPROTECT_RECURSION ht') M' \<and> same_guard ht (HASH_UNPROTECT_RECURSION ht')"
    if "ht_inv ht' xs'" "ht_abs ht' xs' = M'" "same_guard ?h ht'" for ht' xs' M'
    using that by (auto simp: HASH_UNPROTECT_RECURSION_def same_guard_def ht_repr_def ht_abs_def split: if_splits)
  have hp: "pListHead ?h = (case xs of [] \<Rightarrow> None | v # _ \<Rightarrow> Some v)" "pListTail ?h = (if xs = [] then None else Some (last xs))"
    using ht_inv_head_tail [OF h(1)] by simp_all
  have hp': "pListHead ht = (case xs of [] \<Rightarrow> None | v # _ \<Rightarrow> Some v)" "pListTail ht = (if xs = [] then None else Some (last xs))"
    using ht_inv_head_tail [OF xs(1)] by simp_all
  obtain a xa where A: "hash_apply_loop func (pListHead ht) ?h e = Some (a, snd (om_apply g keys M e))" "ht_inv a xa" "same_guard ?h a"
    "ht_abs a xa = fst (om_apply g keys M e)"
    using apply_loop_spec [of ?h "[]" xs, OF _ hp'(1) g, of e] h unfolding k h(3) by auto
  obtain r xr where R: "hash_reverse_apply_loop func (pListTail ht) ?h e = Some (r, snd (om_apply g (rev keys) M e))" "ht_inv r xr"
    "same_guard ?h r" "ht_abs r xr = fst (om_apply g (rev keys) M e)"
    using reverse_apply_loop_spec [of ?h xs "[]", OF _ hp'(2) g, of e] h unfolding k h(3) by auto
  show "\<exists>ht' h1. HASH_PROTECT_RECURSION ht = (False, h1) \<and> pListHead h1 = pListHead ht \<and>
      hash_apply_loop func (pListHead ht) h1 e = Some (ht', snd (om_apply g keys M e)) \<and>
      ht_repr (HASH_UNPROTECT_RECURSION ht') (fst (om_apply g keys M e)) \<and> same_guard ht (HASH_UNPROTECT_RECURSION ht')"
    using p A(1) u [OF A(2,4,3)] hp(1) hp'(1) by (intro exI [of _ a] exI [of _ ?h]) simp
  show "\<exists>ht' h1. HASH_PROTECT_RECURSION ht = (False, h1) \<and> pListTail h1 = pListTail ht \<and>
      hash_reverse_apply_loop func (pListTail ht) h1 e = Some (ht', snd (om_apply g (rev keys) M e)) \<and>
      ht_repr (HASH_UNPROTECT_RECURSION ht') (fst (om_apply g (rev keys) M e)) \<and> same_guard ht (HASH_UNPROTECT_RECURSION ht')"
    using p R(1) u [OF R(2,4,3)] hp(2) hp'(2) by (intro exI [of _ r] exI [of _ ?h]) simp
qed

text \<open>C6: outside of the recursion limit, \<open>zend_hash_apply\<close>, \<open>zend_hash_apply_with_argument\<close> and
  \<open>zend_hash_apply_with_arguments\<close> visit the elements in insertion order and
  \<open>zend_hash_reverse_apply\<close> in the opposite order; they store what the callback writes, delete
  the elements it asks to remove (the walk goes on with the right neighbour), end at the first
  stop request, and leave \<open>nApplyCount\<close> as it was.\<close>

theorem zend_hash_apply_refines:
  assumes "ht_repr ht M" and "\<not> (bApplyProtection ht \<and> 3 \<le> nApplyCount ht)" and "key_callback kfunc g"
  defines "keys \<equiv> map fst (om_list M)"
  shows "(\<exists>ht'. zend_hash_apply ht func e = Some (Done (ht', snd (om_apply (\<lambda>v _. func v) keys M e))) \<and>
       ht_repr ht' (fst (om_apply (\<lambda>v _. func v) keys M e)) \<and> same_guard ht ht') \<and>
    zend_hash_apply_with_argument ht func e = zend_hash_apply ht func e \<and>
    (\<exists>ht'. zend_hash_apply_with_arguments ht kfunc e = Some (Done (ht', snd (om_apply g keys M e))) \<and>
       ht_repr ht' (fst (om_apply g keys M e)) \<and> same_guard ht ht') \<and>
    (\<exists>ht'. zend_hash_reverse_apply ht func e = Some (Done (ht', snd (om_apply (\<lambda>v _. func v) (rev keys) M e))) \<and>
       ht_repr ht' (fst (om_apply (\<lambda>v _. func v) (rev keys) M e)) \<and> same_guard ht ht')"
proof (intro conjI)
  have kc: "key_callback (\<lambda>v _. func v) (\<lambda>v _. func v)" by (simp add: key_callback_def)
  note A = apply_guarded [OF assms(1) kc assms(2), of e, folded keys_def]
  note K = apply_guarded(1) [OF assms(1,3,2), of e, folded keys_def]
  show "\<exists>ht'. zend_hash_apply ht func e = Some (Done (ht', snd (om_apply (\<lambda>v _. func v) keys M e))) \<and>
       ht_repr ht' (fst (om_apply (\<lambda>v _. func v) keys M e)) \<and> same_guard ht ht'"
    using A(1) by (auto simp: zend_hash_apply_def)
  show "zend_hash_apply_with_argument ht func e = zend_hash_apply ht func e"
    by (simp add: zend_hash_apply_def zend_hash_apply_with_argument_def)
  show "\<exists>ht'. zend_hash_apply_with_arguments ht kfunc e = Some (Done (ht', snd (om_apply g keys M e))) \<and>
       ht_repr ht' (fst (om_apply g keys M e)) \<and> same_guard ht ht'"
    using K by (auto simp: zend_hash_apply_with_arguments_def)
  show "\<exists>ht'. zend_hash_reverse_apply ht func e = Some (Done (ht', snd (om_apply (\<lambda>v _. func v) (rev keys) M e))) \<and>
       ht_repr ht' (fst (om_apply (\<lambda>v _. func v) (rev keys) M e)) \<and> same_guard ht ht'"
    using A(2) by (auto simp: zend_hash_reverse_apply_def)
qed

text \<open>The callback of the example removes even numbers and counts its calls.\<close>

theorem zend_hash_apply_refines_witness:
  "\<exists>ht ht'. \<not> (bApplyProtection ht \<and> 3 \<le> nApplyCount ht) \<and> ht_repr ht map_ex \<and>
    zend_hash_apply ht (\<lambda>v n. (if even v then 1 else 0, v + 10, n + 1)) (0 :: nat) = Some (Done (ht', 2)) \<and>
    ht_repr ht' \<lparr>om_list = [(key_a, 11)], om_cur = Some key_a, om_next = 6, om_dtor = True, om_log = [12]\<rparr>"
proof -
  obtain h0 where "ht_repr h0 map_ex" using map_ex_exists by blast
  then have ht: "ht_repr (h0\<lparr>nApplyCount := 0\<rparr>) map_ex" by simp
  let ?f = "\<lambda>(v :: nat) (n :: nat). (if even v then 1 else 0 :: uint, v + 10, n + 1)"
  have o: "om_apply (\<lambda>v _. ?f v) (map fst (om_list map_ex)) map_ex 0 =
      (\<lparr>om_list = [(key_a, 11)], om_cur = Some key_a, om_next = 6, om_dtor = True, om_log = [12]\<rparr>, 2)"
    by (simp add: map_ex_def key_a_def flag_defs om_set_def om_get_def om_del_def om_destroy_def AList.delete_eq)
  have k: "key_callback (\<lambda>v _. ?f v) (\<lambda>v _. ?f v)" by (simp add: key_callback_def)
  have ok: "\<not> (bApplyProtection (h0\<lparr>nApplyCount := 0\<rparr>) \<and> 3 \<le> nApplyCount (h0\<lparr>nApplyCount := 0\<rparr>))" by simp
  show ?thesis
    using zend_hash_apply_refines [OF ht ok k, of ?f 0, THEN conjunct1, unfolded o fst_conv snd_conv] ht ok by blast
qed



end
