(* ===== verification/Hash_Cursor.thy ===== *)
theory Hash_Cursor
  imports Hash_Ops
begin

unbundle bit_operations_syntax

text \<open>
  Traversal of a hash table with its internal pointer or with a caller's own position, saving and
  restoring the internal pointer (as \<open>foreach\<close> does around its body), and changing the key of
  the current element.
\<close>

subsection \<open>Positions\<close>

text \<open>The key a position stands on. A caller's position must be the end or an element of the table.\<close>

definition pos_key :: "'v HashTable \<Rightarrow> addr option option \<Rightarrow> hkey option" where
  "pos_key ht pos = map_option (fld bk_key (ht_store ht)) (cur_pos ht pos)"

definition pos_ok :: "'v HashTable \<Rightarrow> addr option option \<Rightarrow> bool" where
  "pos_ok ht pos \<longleftrightarrow> valid (cur_pos ht pos) (ht_store ht)"

text \<open>The abstract map after a position argument was set to key \<open>k\<close>: only the internal pointer is
  part of the table.\<close>

definition om_at :: "'v omap \<Rightarrow> addr option option \<Rightarrow> hkey option \<Rightarrow> 'v omap" where
  "om_at M pos k = (if pos = None then M\<lparr>om_cur := k\<rparr> else M)"

lemma set_pos_repr:
  assumes "ht_inv ht xs" "valid q (ht_store ht)" "set_pos ht pos q = (pos', ht')"
  shows "ht_inv ht' xs \<and> ht_abs ht' xs = om_at (ht_abs ht xs) pos (map_option (fld bk_key (ht_store ht)) q) \<and>
    pos_key ht' pos' = map_option (fld bk_key (ht_store ht)) q \<and> pos_ok ht' pos' \<and> (pos = None \<longleftrightarrow> pos' = None)"
  using assms ht_inv_pointer [OF assms(1,2)]
  by (auto simp: set_pos_def om_at_def ht_abs_def pos_key_def pos_ok_def cur_pos_def split: option.splits)

lemma key_after_pos:
  assumes inv: "ht_inv ht xs" and a: "a \<in> set xs"
  shows "map_option (fld bk_key (ht_store ht)) (fld pListNext (ht_store ht) a) = key_after (fld bk_key (ht_store ht) a) (ht_list ht xs)"
    and "map_option (fld bk_key (ht_store ht)) (fld pListLast (ht_store ht) a) = key_before (fld bk_key (ht_store ht) a) (ht_list ht xs)"
proof -
  obtain us vs where xs: "xs = us @ a # vs" using a by (meson split_list)
  note inv' = inv [unfolded xs] and sk = ht_inv_split_keys [OF inv [unfolded xs]]
  show "map_option (fld bk_key (ht_store ht)) (fld pListNext (ht_store ht) a) = key_after (fld bk_key (ht_store ht) a) (ht_list ht xs)"
    using ht_inv_next(1) [OF inv'] sk(1) xs by (cases vs) (auto simp: key_after_middle)
  have "rev (ht_list ht xs) = rev (ht_list ht vs) @ (fld bk_key (ht_store ht) a, fld bk_val (ht_store ht) a) # rev (ht_list ht us)"
    by (simp add: xs)
  then show "map_option (fld bk_key (ht_store ht)) (fld pListLast (ht_store ht) a) = key_before (fld bk_key (ht_store ht) a) (ht_list ht xs)"
    using ht_inv_next(2) [OF inv'] sk(2)
    by (cases us rule: rev_cases) (auto simp: key_before_def key_after_middle)
qed

definition om_first :: "'v omap \<Rightarrow> hkey option" where
  "om_first M = (case om_list M of [] \<Rightarrow> None | p # _ \<Rightarrow> Some (fst p))"

definition om_last :: "'v omap \<Rightarrow> hkey option" where
  "om_last M = (if om_list M = [] then None else Some (fst (last (om_list M))))"

lemma ht_first_last:
  assumes "ht_inv ht xs"
  shows "map_option (fld bk_key (ht_store ht)) (pListHead ht) = om_first (ht_abs ht xs)"
    and "map_option (fld bk_key (ht_store ht)) (pListTail ht) = om_last (ht_abs ht xs)"
  using ht_inv_head_tail [OF assms]
  by (auto simp: om_first_def om_last_def ht_list_def last_map split: list.splits)

text \<open>C27: traversal. On the internal pointer or a caller's position, reset goes to the first
  element and end to the last; a step forward or backwards succeeds exactly when the position is
  on an element and moves it to the next or previous key in insertion order (or off the end);
  nothing else of the table changes.\<close>

theorem zend_hash_traversal:
  assumes "ht_repr ht M" and "pos_ok ht pos"
  shows "(\<exists>pos' ht'. zend_hash_internal_pointer_reset_ex ht pos = (pos', ht') \<and> ht_repr ht' (om_at M pos (om_first M)) \<and>
       pos_key ht' pos' = om_first M \<and> pos_ok ht' pos') \<and>
    (\<exists>pos' ht'. zend_hash_internal_pointer_end_ex ht pos = (pos', ht') \<and> ht_repr ht' (om_at M pos (om_last M)) \<and>
       pos_key ht' pos' = om_last M \<and> pos_ok ht' pos') \<and>
    (case pos_key ht pos of
       None \<Rightarrow> zend_hash_move_forward_ex ht pos = Some (FAILURE, pos, ht) \<and> zend_hash_move_backwards_ex ht pos = Some (FAILURE, pos, ht)
     | Some k \<Rightarrow>
       (\<exists>pos' ht'. zend_hash_move_forward_ex ht pos = Some (SUCCESS, pos', ht') \<and>
          ht_repr ht' (om_at M pos (key_after k (om_list M))) \<and> pos_key ht' pos' = key_after k (om_list M) \<and> pos_ok ht' pos') \<and>
       (\<exists>pos' ht'. zend_hash_move_backwards_ex ht pos = Some (SUCCESS, pos', ht') \<and>
          ht_repr ht' (om_at M pos (key_before k (om_list M))) \<and> pos_key ht' pos' = key_before k (om_list M) \<and> pos_ok ht' pos'))"
proof -
  obtain xs where xs: "ht_inv ht xs" "ht_abs ht xs = M" using assms(1) by (auto simp: ht_repr_def)
  note D = ht_invD [OF xs(1)]
  have S: "\<exists>pos' ht'. set_pos ht pos q = (pos', ht') \<and> ht_repr ht' (om_at M pos k) \<and> pos_key ht' pos' = k \<and> pos_ok ht' pos'"
    if "valid q (ht_store ht)" "map_option (fld bk_key (ht_store ht)) q = k" for q k
  proof -
    obtain pos' ht' where "set_pos ht pos q = (pos', ht')" by fastforce
    with set_pos_repr [OF xs(1) that(1) this] that(2) xs(2) show ?thesis by (auto simp: ht_repr_def)
  qed
  show ?thesis
  proof (intro conjI)
    show "\<exists>pos' ht'. zend_hash_internal_pointer_reset_ex ht pos = (pos', ht') \<and> ht_repr ht' (om_at M pos (om_first M)) \<and>
       pos_key ht' pos' = om_first M \<and> pos_ok ht' pos'"
      unfolding zend_hash_internal_pointer_reset_ex_def using S [OF D(7)] ht_first_last(1) [OF xs(1)] xs(2) by simp
    show "\<exists>pos' ht'. zend_hash_internal_pointer_end_ex ht pos = (pos', ht') \<and> ht_repr ht' (om_at M pos (om_last M)) \<and>
       pos_key ht' pos' = om_last M \<and> pos_ok ht' pos'"
      unfolding zend_hash_internal_pointer_end_ex_def using S [OF D(8)] ht_first_last(2) [OF xs(1)] xs(2) by simp
    show "case pos_key ht pos of
       None \<Rightarrow> zend_hash_move_forward_ex ht pos = Some (FAILURE, pos, ht) \<and> zend_hash_move_backwards_ex ht pos = Some (FAILURE, pos, ht)
     | Some k \<Rightarrow>
       (\<exists>pos' ht'. zend_hash_move_forward_ex ht pos = Some (SUCCESS, pos', ht') \<and>
          ht_repr ht' (om_at M pos (key_after k (om_list M))) \<and> pos_key ht' pos' = key_after k (om_list M) \<and> pos_ok ht' pos') \<and>
       (\<exists>pos' ht'. zend_hash_move_backwards_ex ht pos = Some (SUCCESS, pos', ht') \<and>
          ht_repr ht' (om_at M pos (key_before k (om_list M))) \<and> pos_key ht' pos' = key_before k (om_list M) \<and> pos_ok ht' pos')"
    proof (cases "cur_pos ht pos")
      case None
      then show ?thesis by (simp add: pos_key_def zend_hash_move_forward_ex_def zend_hash_move_backwards_ex_def)
    next
      case (Some a)
      then have a: "a \<in> set xs" using assms(2) D(5) by (simp add: pos_ok_def)
      obtain b where b: "ht_store ht a = Some b" using a D(5) by auto
      have l: "om_list M = ht_list ht xs" using xs(2) by auto
      note V = ht_inv_links(1,2) [OF xs(1) a] and K = key_after_pos [OF xs(1) a]
      show ?thesis
        using Some b S [OF V(1) K(1)] S [OF V(2) K(2)]
        by (auto simp: pos_key_def zend_hash_move_forward_ex_def zend_hash_move_backwards_ex_def fld_def l)
    qed
  qed
qed

theorem zend_hash_traversal_witness:
  "\<exists>ht pos' ht'. ht_repr ht map_ex \<and> pos_ok ht None \<and> zend_hash_move_forward_ex ht None = Some (SUCCESS, pos', ht') \<and>
    ht_repr ht' (map_ex\<lparr>om_cur := Some (HInt 5)\<rparr>)"
proof -
  obtain ht where ht: "ht_repr ht map_ex" using map_ex_exists by blast
  then obtain xs where xs: "ht_inv ht xs" "ht_abs ht xs = map_ex" by (auto simp: ht_repr_def)
  have ok: "pos_ok ht None" using ht_invD(4) [OF xs(1)] by (simp add: pos_ok_def cur_pos_def ht_content_def)
  have k: "pos_key ht None = Some key_a"
    using arg_cong [OF xs(2), of om_cur] by (simp add: pos_key_def cur_pos_def map_ex_def)
  have n: "key_after key_a (om_list map_ex) = Some (HInt 5)" by (simp add: map_ex_def key_after_def)
  show ?thesis using zend_hash_traversal [OF ht ok] ht ok unfolding k option.case n by (auto simp: om_at_def)
qed

subsection \<open>Reading the current element\<close>

text \<open>What \<open>zend_hash_get_current_key_ex\<close> must report for key \<open>k\<close>: the integer, or a string whose
  first \<open>str_length\<close> bytes are the key (a duplicate has its last byte replaced by the
  terminating \<open>NUL\<close>, which is the same byte for a \<open>NUL\<close>-terminated key).\<close>

definition reports_key :: "current_key \<Rightarrow> hkey option \<Rightarrow> bool \<Rightarrow> bool" where
  "reports_key c k duplicate =
     (case k of
        None \<Rightarrow> c = CurNone
      | Some (HInt h) \<Rightarrow> c = CurLong h
      | Some (HStr s) \<Rightarrow> (\<exists>str n. c = CurString str n \<and> unat n = length s \<and>
          (if duplicate then str = butlast s @ [0] else take (unat n) str = s)))"

text \<open>C28: \<open>zend_hash_get_current_key_ex\<close>, \<open>zend_hash_get_current_key_type_ex\<close> and
  \<open>zend_hash_get_current_data_ex\<close> report the key, the kind of key and the value of the element
  the position is on, and the end of the table when it is on none.\<close>

theorem zend_hash_get_current_refines:
  assumes "ht_repr ht M" and "pos_ok ht pos"
  shows "(\<exists>c. zend_hash_get_current_key_ex ht duplicate pos = Some c \<and> reports_key c (pos_key ht pos) duplicate) \<and>
    zend_hash_get_current_key_type_ex ht pos = Some (case pos_key ht pos of
      None \<Rightarrow> HASH_KEY_NON_EXISTANT | Some (HInt _) \<Rightarrow> HASH_KEY_IS_LONG | Some (HStr _) \<Rightarrow> HASH_KEY_IS_STRING) \<and>
    data_of ht (zend_hash_get_current_data_ex ht pos) = Some (Option.bind (pos_key ht pos) (om_get M))"
proof -
  obtain xs where xs: "ht_inv ht xs" "ht_abs ht xs = M" using assms(1) by (auto simp: ht_repr_def)
  note D = ht_invD [OF xs(1)]
  note defs = zend_hash_get_current_key_ex_def zend_hash_get_current_key_type_ex_def zend_hash_get_current_data_ex_def
  show ?thesis
  proof (cases "cur_pos ht pos")
    case None
    then show ?thesis by (simp add: pos_key_def defs reports_key_def data_of_def)
  next
    case (Some a)
    then have a: "a \<in> set xs" using assms(2) D(5) by (simp add: pos_ok_def)
    obtain b where b: "ht_store ht a = Some b" using a D(5) by auto
    have ok: "bk_ok b" using D(4) a b by (auto simp: ht_content_def fld_def)
    have k: "pos_key ht pos = Some (bk_key b)" using Some b by (simp add: pos_key_def fld_def)
    have "om_get M (bk_key b) = Some (bk_val b)"
      using ht_repr_holds [OF assms(1), of a "bk_key b" "bk_val b"] b by (auto simp: ht_holds_def fld_def)
    then have data: "data_of ht (zend_hash_get_current_data_ex ht pos) = Some (Option.bind (pos_key ht pos) (om_get M))"
      using Some b k by (simp add: defs data_of_def)
    show ?thesis
    proof (cases "bk_nKeyLength b = 0")
      case True
      then show ?thesis using Some b k data by (simp add: defs reports_key_def bk_key_def)
    next
      case False
      let ?n = "unat (bk_nKeyLength b)"
      have n: "?n \<le> length (bk_arKey b)" "0 < ?n" using ok False by (simp_all add: bk_ok_def unat_gt_0)
      have "bk_nKeyLength b = bk_nKeyLength b - 1 + 1" by simp
      then have "unat (bk_nKeyLength b - 1) = ?n - 1" using False by (simp add: unat_minus_one)
      then have "take (unat (bk_nKeyLength b - 1)) (bk_arKey b) = butlast (take ?n (bk_arKey b))"
        using n by (simp add: butlast_take)
      then show ?thesis using Some b k data False n by (auto simp: defs reports_key_def bk_key_def the_key_def)
    qed
  qed
qed

theorem zend_hash_get_current_refines_witness:
  "\<exists>ht. ht_repr ht map_ex \<and> zend_hash_get_current_key_ex ht True None = Some (CurString [97, 0] 2) \<and>
    data_of ht (zend_hash_get_current_data_ex ht None) = Some (Some 1)"
proof -
  obtain ht where ht: "ht_repr ht map_ex" using map_ex_exists by blast
  then obtain xs where xs: "ht_inv ht xs" "ht_abs ht xs = map_ex" by (auto simp: ht_repr_def)
  have ok: "pos_ok ht None" using ht_invD(4) [OF xs(1)] by (simp add: pos_ok_def cur_pos_def ht_content_def)
  have k: "pos_key ht None = Some (HStr [97, 0])"
    using arg_cong [OF xs(2), of om_cur] by (simp add: pos_key_def cur_pos_def map_ex_def key_a_def)
  have g: "om_get map_ex (HStr [97, 0]) = Some 1" by (simp add: map_ex_def om_get_def key_a_def)
  have n2: "unat n = 2 \<longleftrightarrow> n = 2" for n :: uint using word_unat_eq_iff [of n 2] by simp
  have n: "unat n = Suc (Suc 0) \<longleftrightarrow> n = 2" for n :: uint using n2 by (simp only: numeral_2_eq_2 [symmetric])
  show ?thesis using zend_hash_get_current_refines [OF ht ok, of True] ht by (auto simp: k g n reports_key_def)
qed

subsection \<open>Saving and restoring the internal pointer\<close>

lemma find_eq_self: "find (\<lambda>x. x = a) xs = (if a \<in> set xs then Some a else None)"
  by (induction xs) auto



end
