(* ===== verification/Bytes.thy ===== *)
theory Bytes
  imports Prelude "HOL-Library.Char_ord"
begin

unbundle bit_operations_syntax

text \<open>
  What the string functions of \<open>ext/standard\<close> share: byte strings, the character classes of
  \<open><ctype.h>\<close> in the C locale, and reading a buffer by index (\<open>nth_opt\<close>, which has no result
  past the last byte).

  A C string of length \<open>n\<close> is a buffer of \<open>n + 1\<close> bytes whose last one is 0 (the engine
  terminates every string it hands to a function); \<open>cstr s\<close> is the buffer of the string \<open>s\<close>.
\<close>

abbreviation c8 :: "char \<Rightarrow> byte" where
  "c8 c \<equiv> of_char c"

definition ascii :: "string \<Rightarrow> byte list" where
  "ascii s = map of_char s"

definition cstr :: "byte list \<Rightarrow> byte list" where
  "cstr s = s @ [0]"

definition isspace :: "byte \<Rightarrow> bool" where
  "isspace c \<longleftrightarrow> c = 32 \<or> (9 \<le> c \<and> c \<le> 13)"

definition isdigit :: "byte \<Rightarrow> bool" where
  "isdigit c \<longleftrightarrow> 48 \<le> c \<and> c \<le> 57"

definition isupper :: "byte \<Rightarrow> bool" where
  "isupper c \<longleftrightarrow> 65 \<le> c \<and> c \<le> 90"

definition islower :: "byte \<Rightarrow> bool" where
  "islower c \<longleftrightarrow> 97 \<le> c \<and> c \<le> 122"

definition isalpha :: "byte \<Rightarrow> bool" where
  "isalpha c \<longleftrightarrow> isupper c \<or> islower c"

definition isxdigit :: "byte \<Rightarrow> bool" where
  "isxdigit c \<longleftrightarrow> isdigit c \<or> (65 \<le> c \<and> c \<le> 70) \<or> (97 \<le> c \<and> c \<le> 102)"

definition iscntrl :: "byte \<Rightarrow> bool" where
  "iscntrl c \<longleftrightarrow> c < 32 \<or> c = 127"

definition tolower :: "byte \<Rightarrow> byte" where
  "tolower c = (if isupper c then c + 32 else c)"

lemmas ctype_defs = isspace_def isdigit_def isupper_def islower_def isalpha_def isxdigit_def iscntrl_def tolower_def

lemma length_ascii [simp]: "length (ascii s) = length s"
  by (simp add: ascii_def)

lemma length_cstr [simp]: "length (cstr s) = Suc (length s)"
  by (simp add: cstr_def)

subsection \<open>Reading a buffer at a cursor\<close>

text \<open>The bytes from the cursor on decide what a read at it or just behind it returns.\<close>

lemma nth_opt_drop: "nth_opt (drop k xs) i = nth_opt xs (k + i)"
  by (auto simp: nth_opt_def)

lemma nth_opt_suffix:
  assumes "drop k xs = c # cs"
  shows "nth_opt xs k = Some c" "drop (Suc k) xs = cs" "k < length xs"
proof -
  show "nth_opt xs k = Some c" using nth_opt_drop [of k xs 0] assms by (simp add: nth_opt_def)
  show "drop (Suc k) xs = cs" using assms by (metis drop_Suc list.sel(3) tl_drop)
  show "k < length xs" using assms by (metis drop_all list.distinct(1) not_le_imp_less)
qed

lemma nth_opt_suffix2:
  "drop k xs = c # d # cs \<Longrightarrow> nth_opt xs (Suc k) = Some d"
  "drop k xs = c # d # e # cs \<Longrightarrow> nth_opt xs (Suc (Suc k)) = Some e"
  by (metis nth_opt_suffix(1,2))+

lemma nth_opt_less: "nth_opt xs k = Some c \<Longrightarrow> k < length xs"
  by (auto simp: nth_opt_def split: if_splits)

lemma nth_opt_cstr: "k \<le> length s \<Longrightarrow> \<exists>c. nth_opt (cstr s) k = Some c"
  by (auto simp: nth_opt_def cstr_def)

lemma nth_opt_cstr_end: "nth_opt (cstr s) k = Some c \<Longrightarrow> c \<noteq> 0 \<Longrightarrow> k < length s"
  by (auto simp: nth_opt_def cstr_def nth_append less_Suc_eq split: if_splits)

lemma drop_pieces: "drop k str = a @ b \<Longrightarrow> drop (k + length a) str = b"
  by (metis append_eq_conv_conj drop_drop add.commute)

lemma drop_piece_le: "drop k str = a @ b \<Longrightarrow> b \<noteq> [] \<Longrightarrow> k + length a < length str"
  by (metis drop_pieces drop_all not_le_imp_less)

subsection \<open>Facts about all bytes\<close>

text \<open>A decidable fact about every byte is checked byte by byte.\<close>

lemma byte_exhaust:
  fixes c :: byte
  assumes "list_all (\<lambda>i. P (word_of_int i)) [0..255]"
  shows "P c"
proof -
  have "uint c \<in> set [0..255]" using uint_lt2p [of c] by simp
  then have "P (word_of_int (uint c))" using assms by (simp only: list_all_iff)
  then show ?thesis by simp
qed

lemma unat_byte_less [simp]: "unat (c :: byte) < 256"
proof -
  have "unat c < 2 ^ LENGTH(8)" by (rule unsigned_less)
  then show ?thesis by simp
qed

text \<open>Two bytes are equal when their eight bits are.\<close>

lemma byte_bit_high [simp]: "8 \<le> n \<Longrightarrow> \<not> bit (b :: byte) n"
  using bit_imp_le_length [of b n] by auto

lemma byte_eqI:
  fixes a b :: byte
  assumes "bit a 0 = bit b 0" "bit a 1 = bit b 1" "bit a 2 = bit b 2" "bit a 3 = bit b 3"
    "bit a 4 = bit b 4" "bit a 5 = bit b 5" "bit a 6 = bit b 6" "bit a 7 = bit b 7"
  shows "a = b"
proof (rule bit_word_eqI)
  fix n :: nat assume "n < LENGTH(8)"
  then have "n = 0 \<or> n = 1 \<or> n = 2 \<or> n = 3 \<or> n = 4 \<or> n = 5 \<or> n = 6 \<or> n = 7" by auto
  then show "bit a n = bit b n" using assms by auto
qed

text \<open>A byte and its two hexadecimal digits.\<close>

lemma nibbles: "push_bit 4 (drop_bit 4 c) OR (c AND 15) = (c :: byte)" "push_bit 4 (drop_bit 4 c) + (c AND 15) = (c :: byte)"
proof -
  show or: "push_bit 4 (drop_bit 4 c) OR (c AND 15) = (c :: byte)" by (rule byte_eqI; simp add: bit_simps)
  have "push_bit 4 (drop_bit 4 c) + (c AND 15) = push_bit 4 (drop_bit 4 c) OR (c AND 15)"
    by (rule disjunctive_add_eq_or, rule byte_eqI; simp add: bit_simps)
  then show "push_bit 4 (drop_bit 4 c) + (c AND 15) = (c :: byte)" by (simp only: or)
qed

lemma nibble_less: "drop_bit 4 c < (16 :: byte)" "c AND 15 < (16 :: byte)"
proof -
  have "x < 16" if "\<not> bit x 4" "\<not> bit x 5" "\<not> bit x 6" "\<not> bit x 7" for x :: byte
  proof -
    have "x = take_bit 4 x" using that by (intro byte_eqI) (simp_all add: bit_simps)
    then have "unat x = take_bit 4 (unat x)" by (metis unsigned_take_bit_eq)
    also have "\<dots> < 2 ^ 4" by (rule take_bit_nat_less_exp)
    finally show ?thesis by (simp add: word_less_nat_alt)
  qed
  then show "drop_bit 4 c < (16 :: byte)" "c AND 15 < (16 :: byte)" by (simp_all add: bit_simps)
qed

text \<open>Three bytes and their four groups of six bits.\<close>

lemma plus_eq_or:
  "push_bit 4 (a AND 3) + drop_bit 4 b = push_bit 4 (a AND 3) OR drop_bit 4 (b :: byte)"
  "push_bit 2 (a AND 15) + drop_bit 6 b = push_bit 2 (a AND 15) OR drop_bit 6 (b :: byte)"
  by (rule disjunctive_add_eq_or, rule byte_eqI; simp add: bit_simps)+

lemma sextets:
  fixes a b c :: byte
  shows "push_bit 2 (drop_bit 2 a) OR drop_bit 4 (push_bit 4 (a AND 3) OR drop_bit 4 b) = a"
    "push_bit 2 (drop_bit 2 a) OR drop_bit 4 (push_bit 4 (a AND 3)) = a"
    "push_bit 4 ((push_bit 4 (a AND 3) OR drop_bit 4 b) AND 15) OR drop_bit 2 (push_bit 2 (b AND 15) OR drop_bit 6 c) = b"
    "push_bit 4 ((push_bit 4 (a AND 3) OR drop_bit 4 b) AND 15) OR drop_bit 2 (push_bit 2 (b AND 15)) = b"
    "push_bit 6 ((push_bit 2 (b AND 15) OR drop_bit 6 c) AND 3) OR (c AND 63) = c"
  by (rule byte_eqI; simp add: bit_simps)+

lemma byte_less_64: "\<not> bit x 6 \<Longrightarrow> \<not> bit x 7 \<Longrightarrow> x < (64 :: byte)"
proof -
  assume "\<not> bit x 6" "\<not> bit x 7"
  then have "x = take_bit 6 x" by (intro byte_eqI) (simp_all add: bit_simps)
  then have "unat x = take_bit 6 (unat x)" by (metis unsigned_take_bit_eq)
  also have "\<dots> < 2 ^ 6" by (rule take_bit_nat_less_exp)
  finally show ?thesis by (simp add: word_less_nat_alt)
qed

lemma sextet_bound:
  "drop_bit 2 a < (64 :: byte)" "push_bit 4 (a AND 3) < (64 :: byte)" "push_bit 2 (a AND 15) < (64 :: byte)"
  "push_bit 4 (a AND 3) OR drop_bit 4 b < (64 :: byte)" "push_bit 2 (a AND 15) OR drop_bit 6 b < (64 :: byte)"
  "a AND 63 < (64 :: byte)"
  by (rule byte_less_64; simp add: bit_simps)+

end
