(* ===== verification/Base64.thy ===== *)
theory Base64
  imports Bytes
begin

unbundle bit_operations_syntax

text \<open>
  \<open>ext/standard/base64.c\<close>. The encoder reads exactly the \<open>length\<close> bytes it is given. The
  decoder reads a buffer by index, up to and including the terminating 0, and writes a buffer of
  \<open>length + 1\<close> cells, \<open>None\<close> while uninitialised; \<open>|=\<close> on such a cell, a read past the end of
  the string and a write past the end of the result have no result. \<open>NULL\<close> is \<open>Some None\<close>.
\<close>

definition base64_table :: "byte list" where
  "base64_table = ascii ''ABCDEFGHIJKLMNOPQRSTUVWXYZabcdefghijklmnopqrstuvwxyz0123456789+/'' @ [0]"

definition base64_pad :: byte where
  "base64_pad = c8 CHR ''=''"

definition base64_reverse_table :: "int list" where
  "base64_reverse_table = [
    -2, -2, -2, -2, -2, -2, -2, -2, -2, -1, -1, -2, -2, -1, -2, -2,
    -2, -2, -2, -2, -2, -2, -2, -2, -2, -2, -2, -2, -2, -2, -2, -2,
    -1, -2, -2, -2, -2, -2, -2, -2, -2, -2, -2, 62, -2, -2, -2, 63,
    52, 53, 54, 55, 56, 57, 58, 59, 60, 61, -2, -2, -2, -2, -2, -2,
    -2,  0,  1,  2,  3,  4,  5,  6,  7,  8,  9, 10, 11, 12, 13, 14,
    15, 16, 17, 18, 19, 20, 21, 22, 23, 24, 25, -2, -2, -2, -2, -2,
    -2, 26, 27, 28, 29, 30, 31, 32, 33, 34, 35, 36, 37, 38, 39, 40,
    41, 42, 43, 44, 45, 46, 47, 48, 49, 50, 51, -2, -2, -2, -2, -2]
    @ replicate 128 (-2)"

subsection \<open>Encoding\<close>

text \<open>The indices of the table are \<open>int\<close> expressions of at most six bits.\<close>

definition base64_char :: "byte \<Rightarrow> byte" where
  "base64_char i = base64_table ! unat i"

fun base64_encode_loop :: "byte list \<Rightarrow> byte list" where
  "base64_encode_loop (c0 # c1 # c2 # current) =
     base64_char (drop_bit 2 c0) #
     base64_char (push_bit 4 (c0 AND 0x03) + drop_bit 4 c1) #
     base64_char (push_bit 2 (c1 AND 0x0f) + drop_bit 6 c2) #
     base64_char (c2 AND 0x3f) #
     base64_encode_loop current"
| "base64_encode_loop [c0, c1] =
     [base64_char (drop_bit 2 c0),
      base64_char (push_bit 4 (c0 AND 0x03) + drop_bit 4 c1),
      base64_char (push_bit 2 (c1 AND 0x0f)),
      base64_pad]"
| "base64_encode_loop [c0] =
     [base64_char (drop_bit 2 c0), base64_char (push_bit 4 (c0 AND 0x03)), base64_pad, base64_pad]"
| "base64_encode_loop [] = []"

definition php_base64_encode :: "byte list \<Rightarrow> int \<Rightarrow> byte list option" where
  "php_base64_encode str len =
     (if len < 0 then None else Some (base64_encode_loop (take (nat len) str)))"

text \<open>The size of the block \<open>result\<close> points to.\<close>

definition base64_encode_alloc :: "int \<Rightarrow> int" where
  "base64_encode_alloc len = (len + 2) div 3 * 4 + 1"

subsection \<open>Decoding\<close>

definition buf_or :: "nat \<Rightarrow> byte \<Rightarrow> byte option list \<Rightarrow> byte option list option" where
  "buf_or j v result = do { c \<leftarrow> nth_opt result j; b \<leftarrow> c; upd_opt result j (Some (b OR v)) }"

text \<open>The \<open>switch\<close> over the position in the group of four; the second value is the new \<open>j\<close>.\<close>

definition base64_put :: "nat \<Rightarrow> byte \<Rightarrow> nat \<Rightarrow> byte option list \<Rightarrow> (nat \<times> byte option list) option" where
  "base64_put i ch j result =
     (if i mod 4 = 0 then do {
        result \<leftarrow> upd_opt result j (Some (push_bit 2 ch));
        Some (j, result)
      }
      else if i mod 4 = 1 then do {
        result \<leftarrow> buf_or j (drop_bit 4 ch) result;
        result \<leftarrow> upd_opt result (j + 1) (Some (push_bit 4 (ch AND 0x0f)));
        Some (j + 1, result)
      }
      else if i mod 4 = 2 then do {
        result \<leftarrow> buf_or j (drop_bit 2 ch) result;
        result \<leftarrow> upd_opt result (j + 1) (Some (push_bit 6 (ch AND 0x03)));
        Some (j + 1, result)
      }
      else do {
        result \<leftarrow> buf_or j ch result;
        Some (j + 1, result)
      })"

text \<open>\<open>while (isspace(*(++current))) continue;\<close>, started behind the first increment.\<close>

function base64_skip_space :: "byte list \<Rightarrow> nat \<Rightarrow> nat option" where
  "base64_skip_space str current =
     (case nth_opt str current of
        None \<Rightarrow> None
      | Some c \<Rightarrow> if isspace c then base64_skip_space str (current + 1) else Some current)"
  by pat_completeness auto
termination
  by (relation "measure (\<lambda>(str, current). Suc (length str) - current)") (auto dest: nth_opt_less)

declare base64_skip_space.simps [simp del]

lemma base64_skip_space_ge: "base64_skip_space str current = Some k \<Longrightarrow> current \<le> k"
  by (induction str current rule: base64_skip_space.induct)
    (subst (asm) base64_skip_space.simps, auto split: option.splits if_splits)

function base64_decode_loop ::
    "byte list \<Rightarrow> bool \<Rightarrow> nat \<Rightarrow> int \<Rightarrow> nat \<Rightarrow> nat \<Rightarrow> byte option list
      \<Rightarrow> (byte \<times> nat \<times> nat \<times> byte option list) option option" where
  "base64_decode_loop str strict current len i j result =
     (case nth_opt str current of
        None \<Rightarrow> None
      | Some ch \<Rightarrow>
          if ch = 0 \<or> \<not> len > 0 then Some (Some (ch, i, j, result))
          else if ch = base64_pad then
            (case nth_opt str (current + 1) of
               None \<Rightarrow> None
             | Some next_ch \<Rightarrow>
                 if next_ch \<noteq> base64_pad \<and> (i mod 4 = 1 \<or> (strict \<and> len - 1 > 0)) then
                   if i mod 4 \<noteq> 1 then
                     (case base64_skip_space str (current + 2) of
                        None \<Rightarrow> None
                      | Some current' \<Rightarrow>
                          if nth_opt str current' = Some 0
                          then base64_decode_loop str strict current' (len - 1) i j result
                          else Some None)
                   else Some None
                 else base64_decode_loop str strict (current + 1) (len - 1) i j result)
          else let v = base64_reverse_table ! unat ch in
            if (\<not> strict \<and> v < 0) \<or> v = -1
            then base64_decode_loop str strict (current + 1) (len - 1) i j result
            else if v = -2 then Some None
            else case base64_put i (word_of_int v) j result of
                   None \<Rightarrow> None
                 | Some (j, result) \<Rightarrow> base64_decode_loop str strict (current + 1) (len - 1) (i + 1) j result)"
  by pat_completeness auto
termination
  by (relation "measure (\<lambda>(str, strict, current, len, i, j, result). Suc (length str) - current)")
    (auto dest!: nth_opt_less base64_skip_space_ge)

declare base64_decode_loop.simps [simp del]

definition php_base64_decode_ex :: "byte list \<Rightarrow> int \<Rightarrow> bool \<Rightarrow> byte list option option" where
  "php_base64_decode_ex str len strict =
     (case base64_decode_loop str strict 0 len 0 0 (replicate (nat (len + 1)) None) of
        None \<Rightarrow> None
      | Some None \<Rightarrow> Some None
      | Some (Some (ch, i, j, result)) \<Rightarrow>
          if ch = base64_pad \<and> i mod 4 = 1 then Some None
          else do {
            result \<leftarrow> (if ch = base64_pad \<and> i mod 4 = 2 then upd_opt result (j + 1) (Some 0)
                       else if ch = base64_pad \<and> i mod 4 = 3 then upd_opt result j (Some 0)
                       else Some result);
            result \<leftarrow> upd_opt result j (Some 0);
            out \<leftarrow> those (take j result);
            Some (Some out)
          })"

definition php_base64_decode :: "byte list \<Rightarrow> int \<Rightarrow> byte list option option" where
  "php_base64_decode str len = php_base64_decode_ex str len False"

subsection \<open>Six-bit groups and the tables\<close>

lemma base64_tables: "map (\<lambda>c. base64_reverse_table ! unat c) (take 64 base64_table) = [0..63]"
  by code_simp

lemma base64_table_chars: "0 \<notin> set (take 64 base64_table)" "base64_pad \<notin> set (take 64 base64_table)"
  by code_simp+

lemma base64_char_reverse:
  assumes "x < 64"
  shows "base64_char x \<noteq> 0" "base64_char x \<noteq> base64_pad" "base64_reverse_table ! unat (base64_char x) = uint x"
proof -
  have x: "unat x < 64" using assms by (simp add: word_less_nat_alt)
  have len: "length (take 64 base64_table) = 64" by (simp add: base64_table_def)
  have c: "base64_char x = take 64 base64_table ! unat x" using x by (simp add: base64_char_def)
  then have "base64_char x \<in> set (take 64 base64_table)" using x len by (metis nth_mem)
  then show "base64_char x \<noteq> 0" "base64_char x \<noteq> base64_pad" using base64_table_chars by metis+
  have "base64_reverse_table ! unat (take 64 base64_table ! unat x) =
      map (\<lambda>c. base64_reverse_table ! unat c) (take 64 base64_table) ! unat x"
    using x len by (metis nth_map)
  also have "\<dots> = 0 + int (unat x)" unfolding base64_tables by (rule nth_upto) (use x in linarith)
  also have "\<dots> = uint x" by simp
  finally show "base64_reverse_table ! unat (base64_char x) = uint x" by (simp only: c)
qed

subsection \<open>Round trip\<close>

lemma upd_opt_app: "length xs = j \<Longrightarrow> upd_opt (xs @ y # ys) j z = Some (xs @ z # ys)"
  by (auto simp: upd_opt_def)

lemma nth_opt_app: "length xs = j \<Longrightarrow> nth_opt (xs @ y # ys) j = Some y"
  by (auto simp: nth_opt_def)

lemma base64_decode_char:
  assumes "drop cur str = base64_char x # cs" "x < 64" "len > 0"
  shows "base64_decode_loop str strict cur len i j result =
    (case base64_put i x j result of None \<Rightarrow> None
     | Some (j, result) \<Rightarrow> base64_decode_loop str strict (Suc cur) (len - 1) (Suc i) j result)"
proof -
  note c = base64_char_reverse [OF assms(2)]
  have "\<not> uint x < 0" "uint x \<noteq> - 1" "uint x \<noteq> - 2" using uint_ge_0 [of x] by linarith+
  then show ?thesis unfolding Suc_eq_plus1
    by (subst base64_decode_loop.simps) (simp add: nth_opt_suffix(1) [OF assms(1)] c assms(3) Let_def)
qed

lemma base64_puts:
  assumes "length out = j"
  shows "i mod 4 = 0 \<Longrightarrow> base64_put i x j (map Some out @ r0 # rs) = Some (j, map Some out @ Some (push_bit 2 x) # rs)"
    "i mod 4 = 1 \<Longrightarrow> base64_put i x j (map Some out @ Some b # r1 # rs) =
       Some (Suc j, map Some (out @ [b OR drop_bit 4 x]) @ Some (push_bit 4 (x AND 15)) # rs)"
    "i mod 4 = 2 \<Longrightarrow> base64_put i x j (map Some out @ Some b # r1 # rs) =
       Some (Suc j, map Some (out @ [b OR drop_bit 2 x]) @ Some (push_bit 6 (x AND 3)) # rs)"
    "i mod 4 = 3 \<Longrightarrow> base64_put i x j (map Some out @ Some b # rs) = Some (Suc j, map Some (out @ [b OR x]) @ rs)"
  using assms by (auto simp: base64_put_def buf_or_def upd_opt_def nth_opt_def list_update_append nth_append)

text \<open>Four characters of a full group write three bytes.\<close>

lemma base64_decode_group:
  assumes str: "drop cur str = base64_char x0 # base64_char x1 # base64_char x2 # base64_char x3 # cs"
    and x: "x0 < 64" "x1 < 64" "x2 < 64" "x3 < 64"
    and len: "len > 3" and i: "i mod 4 = 0" and out: "length out = j"
  shows "base64_decode_loop str strict cur len i j (map Some out @ r0 # r1 # r2 # rs) =
    base64_decode_loop str strict (Suc (Suc (Suc (Suc cur)))) (len - 4) (Suc (Suc (Suc (Suc i)))) (Suc (Suc (Suc j)))
      (map Some (out @ [push_bit 2 x0 OR drop_bit 4 x1, push_bit 4 (x1 AND 15) OR drop_bit 2 x2, push_bit 6 (x2 AND 3) OR x3]) @ rs)"
proof -
  have d: "drop (Suc cur) str = base64_char x1 # base64_char x2 # base64_char x3 # cs"
    "drop (Suc (Suc cur)) str = base64_char x2 # base64_char x3 # cs" "drop (Suc (Suc (Suc cur))) str = base64_char x3 # cs"
    using str by (metis nth_opt_suffix(2))+
  have m: "Suc i mod 4 = 1" "Suc (Suc i) mod 4 = 2" "Suc (Suc (Suc i)) mod 4 = 3" using i by presburger+
  have l: "len > 0" "len - 1 > 0" "len - 1 - 1 > 0" "len - 1 - 1 - 1 > 0" using len by linarith+
  have o: "length (out @ [u]) = Suc j" "length ((out @ [u]) @ [v]) = Suc (Suc j)" for u v using out by auto
  show ?thesis
    by (simp only: base64_decode_char [OF str x(1) l(1)] base64_puts(1) [OF out i] option.case prod.case
        base64_decode_char [OF d(1) x(2) l(2)] base64_puts(2) [OF out m(1)]
        base64_decode_char [OF d(2) x(3) l(3)] base64_puts(3) [OF o(1) m(2)]
        base64_decode_char [OF d(3) x(4) l(4)] base64_puts(4) [OF o(2) m(3)]) simp
qed

lemma base64_decode_end: "drop cur str = 0 # cs \<Longrightarrow> base64_decode_loop str strict cur len i j result = Some (Some (0, i, j, result))"
  by (subst base64_decode_loop.simps) (simp add: nth_opt_suffix(1))

text \<open>The padding at the end of an encoding is skipped in strict mode too.\<close>

lemma base64_decode_pad:
  assumes "drop cur str = base64_pad # c # cs" "len > 0" "c = base64_pad \<or> i mod 4 \<noteq> 1 \<and> len = 1"
  shows "base64_decode_loop str strict cur len i j result = base64_decode_loop str strict (Suc cur) (len - 1) i j result"
  using assms(2,3)
  by (subst base64_decode_loop.simps) (auto simp: nth_opt_suffix(1) [OF assms(1)] nth_opt_suffix2(1) [OF assms(1)] base64_pad_def)

lemma base64_decode_encoded:
  assumes "drop cur str = base64_encode_loop s @ [0]" "len = int (length (base64_encode_loop s))" "i mod 4 = 0"
    and "length out = j" "length s < length rs"
  shows "\<exists>i' rs'. base64_decode_loop str strict cur len i j (map Some out @ rs) =
      Some (Some (0, i', j + length s, map Some (out @ s) @ rs')) \<and> rs' \<noteq> []"
  using assms
proof (induction s arbitrary: cur len i j out rs rule: base64_encode_loop.induct)
  case (1 c0 c1 c2 s)
  have "Suc (Suc (Suc (Suc (length s)))) \<le> length rs" using 1(6) by simp
  then obtain r0 r1 r2 ss where rs: "rs = r0 # r1 # r2 # ss" "Suc (length s) \<le> length ss"
    by (simp only: Suc_le_length_iff) blast
  have d: "drop cur str = base64_char (drop_bit 2 c0) # base64_char (push_bit 4 (c0 AND 3) OR drop_bit 4 c1) #
      base64_char (push_bit 2 (c1 AND 15) OR drop_bit 6 c2) # base64_char (c2 AND 63) # base64_encode_loop s @ [0]"
    using 1(2) by (simp only: base64_encode_loop.simps append_Cons plus_eq_or)
  have d4: "drop (Suc (Suc (Suc (Suc cur)))) str = base64_encode_loop s @ [0]"
    by (rule nth_opt_suffix(2) [OF nth_opt_suffix(2) [OF nth_opt_suffix(2) [OF nth_opt_suffix(2) [OF d]]]])
  have l4: "len - 4 = int (length (base64_encode_loop s))" using 1(3) by simp
  have m4: "Suc (Suc (Suc (Suc i))) mod 4 = 0" using 1(4) by presburger
  have o4: "length (out @ [c0, c1, c2]) = Suc (Suc (Suc j))" using 1(5) by simp
  have l3: "3 < len" using 1(3) by simp
  have r4: "length s < length ss" using rs(2) by simp
  obtain i' rs' where IH: "base64_decode_loop str strict (Suc (Suc (Suc (Suc cur)))) (len - 4) (Suc (Suc (Suc (Suc i)))) (Suc (Suc (Suc j)))
      (map Some (out @ [c0, c1, c2]) @ ss) = Some (Some (0, i', Suc (Suc (Suc j)) + length s, map Some ((out @ [c0, c1, c2]) @ s) @ rs'))" "rs' \<noteq> []"
    using 1(1) [OF d4 l4 m4 o4 r4] by blast
  have "base64_decode_loop str strict cur len i j (map Some out @ r0 # r1 # r2 # ss) =
      base64_decode_loop str strict (Suc (Suc (Suc (Suc cur)))) (len - 4) (Suc (Suc (Suc (Suc i)))) (Suc (Suc (Suc j)))
      (map Some (out @ [c0, c1, c2]) @ ss)"
    by (simp only: base64_decode_group [OF d sextet_bound(1,4,5,6) l3 1(4,5)] sextets)
  with IH rs(1) show ?case by (intro exI [of _ i'] exI [of _ rs']) simp
next
  case (2 c0 c1)
  have "Suc (Suc (Suc 0)) \<le> length rs" using 2(5) by simp
  then obtain r0 r1 r2 ss where rs: "rs = r0 # r1 # r2 # ss" by (simp only: Suc_le_length_iff) blast
  have d: "drop cur str = [base64_char (drop_bit 2 c0), base64_char (push_bit 4 (c0 AND 3) OR drop_bit 4 c1),
      base64_char (push_bit 2 (c1 AND 15)), base64_pad, 0]"
    using 2(1) by (simp only: base64_encode_loop.simps append_Cons append_Nil plus_eq_or)
  note d1 = nth_opt_suffix(2) [OF d] note d2 = nth_opt_suffix(2) [OF d1] note d3 = nth_opt_suffix(2) [OF d2]
  note d4 = nth_opt_suffix(2) [OF d3]
  have m: "Suc i mod 4 = 1" "Suc (Suc i) mod 4 = 2" "Suc (Suc (Suc i)) mod 4 = 3" using 2(3) by presburger+
  have o: "length (out @ [u]) = Suc j" for u using 2(4) by simp
  have l: "len = 4" using 2(2) by simp
  have "base64_decode_loop str strict cur 4 i j (map Some out @ r0 # r1 # r2 # ss) =
      Some (Some (0, Suc (Suc (Suc i)), Suc (Suc j), map Some ((out @ [c0]) @ [c1]) @ Some (push_bit 6 (push_bit 2 (c1 AND 15) AND 3)) # ss))"
    using base64_decode_pad [OF d3, of "4 - 1 - 1 - 1" "Suc (Suc (Suc i))" strict] m
    by (simp only: base64_decode_char [OF d sextet_bound(1)] base64_puts(1) [OF 2(4,3)] option.case prod.case
        base64_decode_char [OF d1 sextet_bound(4)] base64_puts(2) [OF 2(4) m(1)]
        base64_decode_char [OF d2 sextet_bound(3)] base64_puts(3) [OF o m(2)] base64_decode_end [OF d4] sextets) simp
  then show ?case by (simp add: rs l)
next
  case (3 c0)
  have "Suc (Suc 0) \<le> length rs" using 3(5) by simp
  then obtain r0 r1 ss where rs: "rs = r0 # r1 # ss" by (simp only: Suc_le_length_iff) blast
  have d: "drop cur str = [base64_char (drop_bit 2 c0), base64_char (push_bit 4 (c0 AND 3)), base64_pad, base64_pad, 0]"
    using 3(1) by (simp only: base64_encode_loop.simps append_Cons append_Nil plus_eq_or)
  note d1 = nth_opt_suffix(2) [OF d] note d2 = nth_opt_suffix(2) [OF d1] note d3 = nth_opt_suffix(2) [OF d2]
  note d4 = nth_opt_suffix(2) [OF d3]
  have m: "Suc i mod 4 = 1" "Suc (Suc i) mod 4 = 2" using 3(3) by presburger+
  have l: "len = 4" using 3(2) by simp
  have "base64_decode_loop str strict cur 4 i j (map Some out @ r0 # r1 # ss) =
      Some (Some (0, Suc (Suc i), Suc j, map Some (out @ [c0]) @ Some (push_bit 4 (push_bit 4 (c0 AND 3) AND 15)) # ss))"
    using base64_decode_pad [OF d2, of "4 - 1 - 1" "Suc (Suc i)" strict] base64_decode_pad [OF d3, of "4 - 1 - 1 - 1" "Suc (Suc i)" strict] m
    by (simp only: base64_decode_char [OF d sextet_bound(1)] base64_puts(1) [OF 3(4,3)] option.case prod.case
        base64_decode_char [OF d1 sextet_bound(2)] base64_puts(2) [OF 3(4) m(1)] base64_decode_end [OF d4] sextets) simp
  then show ?case by (simp add: rs l)
next
  case 4
  then show ?case by (auto simp: base64_decode_end)
qed

lemma those_map_Some: "those (map Some xs) = Some xs"
  by (induction xs) auto

lemma length_base64_encode: "length (base64_encode_loop s) = (length s + 2) div 3 * 4"
proof (induction s rule: base64_encode_loop.induct)
  case (1 c0 c1 c2 s)
  have "(length (c0 # c1 # c2 # s) + 2) div 3 = (length s + 2) div 3 + 1" by simp
  then show ?case using 1 by (simp only: base64_encode_loop.simps list.size) simp
qed auto


subsection \<open>Any input\<close>

text \<open>What holds of the result block after \<open>i\<close> accepted characters.\<close>

definition base64_ok :: "nat \<Rightarrow> nat \<Rightarrow> nat \<Rightarrow> byte option list \<Rightarrow> bool" where
  "base64_ok n i j result \<longleftrightarrow> length result = Suc n \<and> j = i div 4 * 3 + (i mod 4 - 1) \<and>
     (\<forall>k < j. result ! k \<noteq> None) \<and> (i mod 4 \<noteq> 0 \<longrightarrow> result ! j \<noteq> None)"

lemma base64_put_ok:
  assumes ok: "base64_ok n i j result" and i: "i < n"
  shows "\<exists>j' result'. base64_put i x j result = Some (j', result') \<and> base64_ok n (Suc i) j' result'"
proof -
  have "i div 4 * 3 + (i mod 4 - 1) \<le> i" using div_mult_mod_eq [of i 4] by linarith
  then have j: "j + 1 \<le> n" "length result = Suc n" using assms by (auto simp: base64_ok_def)
  have filled: "k < j \<Longrightarrow> result ! k \<noteq> None" for k using ok by (simp add: base64_ok_def)
  consider "i mod 4 = 0" | "i mod 4 = 1" | "i mod 4 = 2" | "i mod 4 = 3" by linarith
  then show ?thesis
  proof cases
    case 1
    then have "j = i div 4 * 3" "Suc i mod 4 = 1" "Suc i div 4 = i div 4"
      using ok by (auto simp: base64_ok_def)
    then show ?thesis using 1 j filled by (auto simp: base64_put_def base64_ok_def upd_opt_def)
  next
    case 2
    then have "j = i div 4 * 3" "Suc i mod 4 = 2" "Suc i div 4 = i div 4" "\<exists>b. result ! j = Some b"
      using ok by (auto simp: base64_ok_def) presburger+
    then show ?thesis using 2 j filled
      by (auto simp: base64_put_def buf_or_def base64_ok_def upd_opt_def nth_opt_def nth_list_update less_Suc_eq)
  next
    case 3
    then have "j = i div 4 * 3 + 1" "Suc i mod 4 = 3" "Suc i div 4 = i div 4" "\<exists>b. result ! j = Some b"
      using ok by (auto simp: base64_ok_def) presburger+
    then show ?thesis using 3 j filled
      by (auto simp: base64_put_def buf_or_def base64_ok_def upd_opt_def nth_opt_def nth_list_update less_Suc_eq)
  next
    case 4
    then have "j = i div 4 * 3 + 2" "Suc i mod 4 = 0" "Suc i div 4 = Suc (i div 4)" "\<exists>b. result ! j = Some b"
      using ok by (auto simp: base64_ok_def) presburger+
    moreover have "k < Suc j \<Longrightarrow> (result[j := Some v]) ! k \<noteq> None" for k v
      using filled j by (auto simp: nth_list_update less_Suc_eq)
    moreover have "Suc i div 4 * 3 = Suc j" using calculation by simp
    ultimately show ?thesis using 4 j
      by (auto simp del: not_None_eq simp: base64_put_def buf_or_def base64_ok_def upd_opt_def nth_opt_def)
  qed
qed

lemma base64_skip_space_returns:
  "k \<le> length s \<Longrightarrow> \<exists>k'. base64_skip_space (cstr s) k = Some k' \<and> k' \<le> length s"
proof (induction "length s - k" arbitrary: k)
  case 0
  then have "nth_opt (cstr s) k = Some 0" by (auto simp: nth_opt_def cstr_def nth_append)
  then show ?case using 0 by (subst base64_skip_space.simps) (simp add: isspace_def)
next
  case (Suc m)
  obtain c where c: "nth_opt (cstr s) k = Some c" using nth_opt_cstr Suc.prems by blast
  show ?case using Suc.hyps c Suc.prems by (subst base64_skip_space.simps) auto
qed

lemma base64_decode_loop_ok:
  assumes "base64_ok (length s) i j result" "int cur + len = int (length s)" "len \<ge> 0" "i \<le> cur"
  shows "\<exists>r. base64_decode_loop (cstr s) strict cur len i j result = Some r \<and>
    (\<forall>ch i' j' result'. r = Some (ch, i', j', result') \<longrightarrow>
       base64_ok (length s) i' j' result' \<and> i' \<le> length s \<and> ch = 0)"
  using assms
proof (induction "nat len" arbitrary: cur len i j result rule: less_induct)
  case less
  have cur: "cur \<le> length s" using less.prems by linarith
  obtain ch where ch: "nth_opt (cstr s) cur = Some ch" using nth_opt_cstr [OF cur] by blast
  show ?case
  proof (cases "ch = 0 \<or> \<not> len > 0")
    case True
    have "ch = 0"
    proof (rule ccontr)
      assume "ch \<noteq> 0"
      then show False using nth_opt_cstr_end [OF ch] True less.prems by linarith
    qed
    moreover have "base64_decode_loop (cstr s) strict cur len i j result = Some (Some (ch, i, j, result))"
      using ch True by (subst base64_decode_loop.simps) auto
    ultimately show ?thesis using less.prems cur by auto
  next
    case False
    have next_cur: "Suc cur \<le> length s" and bounds: "int (Suc cur) + (len - 1) = int (length s)" "nat (len - 1) < nat len"
      using less.prems False by linarith+
    obtain c' where c': "nth_opt (cstr s) (Suc cur) = Some c'" using nth_opt_cstr [OF next_cur] by blast
    have i: "i < length s" using less.prems next_cur by linarith
    define post where "post = (\<lambda>r. \<exists>v. r = Some v \<and> (\<forall>(ch :: byte) i' j' result'. v = Some (ch, i', j', result') \<longrightarrow>
        base64_ok (length s) i' j' result' \<and> i' \<le> length s \<and> ch = 0))"
    have null: "post (Some None)" by (simp add: post_def)
    have skip: "post (base64_decode_loop (cstr s) strict (cur + 1) (len - 1) i j result)"
      using less.hyps [of "len - 1" i j result "Suc cur"] less.prems bounds False by (auto simp: post_def)
    have put: "post (case base64_put i x j result of None \<Rightarrow> None
       | Some (j, result) \<Rightarrow> base64_decode_loop (cstr s) strict (cur + 1) (len - 1) (i + 1) j result)" for x
      using base64_put_ok [OF less.prems(1) i, of x] less.hyps [of "len - 1" "Suc i" _ _ "Suc cur"] less.prems bounds False
      unfolding post_def by fastforce
    have spaces: "post (case base64_skip_space (cstr s) (cur + 2) of None \<Rightarrow> None
       | Some k \<Rightarrow> if nth_opt (cstr s) k = Some 0 then base64_decode_loop (cstr s) strict k (len - 1) i j result else Some None)"
      if "len - 1 > 0"
    proof -
      have "cur + 2 \<le> length s" using that less.prems by linarith
      then obtain k where k: "base64_skip_space (cstr s) (cur + 2) = Some k" using base64_skip_space_returns by blast
      have "nth_opt (cstr s) k = Some 0 \<Longrightarrow>
          base64_decode_loop (cstr s) strict k (len - 1) i j result = Some (Some (0, i, j, result))"
        by (subst base64_decode_loop.simps) auto
      then show ?thesis using k less.prems i by (auto simp: post_def)
    qed
    have eq: "base64_decode_loop (cstr s) strict cur len i j result =
      (if ch = base64_pad then
         if c' \<noteq> base64_pad \<and> (i mod 4 = 1 \<or> strict \<and> len - 1 > 0) then
           if i mod 4 \<noteq> 1 then
             case base64_skip_space (cstr s) (cur + 2) of None \<Rightarrow> None
             | Some k \<Rightarrow> if nth_opt (cstr s) k = Some 0 then base64_decode_loop (cstr s) strict k (len - 1) i j result else Some None
           else Some None
         else base64_decode_loop (cstr s) strict (cur + 1) (len - 1) i j result
       else let v = base64_reverse_table ! unat ch in
         if \<not> strict \<and> v < 0 \<or> v = - 1 then base64_decode_loop (cstr s) strict (cur + 1) (len - 1) i j result
         else if v = - 2 then Some None
         else case base64_put i (word_of_int v) j result of None \<Rightarrow> None
           | Some (j, result) \<Rightarrow> base64_decode_loop (cstr s) strict (cur + 1) (len - 1) (i + 1) j result)"
      by (subst base64_decode_loop.simps) (simp only: ch c' [unfolded Suc_eq_plus1] option.case False if_False)
    have "post (base64_decode_loop (cstr s) strict cur len i j result)"
      unfolding eq Let_def by (auto simp only: skip put null split: if_split intro: spaces)
    then show ?thesis by (simp add: post_def)
  qed
qed

lemma those_filled: "\<forall>k < n. xs ! k \<noteq> None \<Longrightarrow> n \<le> length xs \<Longrightarrow> \<exists>ys. those (take n xs) = Some ys \<and> length ys = n"
proof (induction n arbitrary: xs)
  case (Suc n)
  then obtain x xs' where xs: "xs = x # xs'" by (cases xs) auto
  then have "\<exists>ys. those (take n xs') = Some ys \<and> length ys = n" using Suc.prems by (intro Suc.IH) auto
  moreover have "x \<noteq> None" using Suc.prems(1) xs by force
  ultimately show ?case by (auto simp: xs)
qed simp

text \<open>C15: on any string at all, \<open>php_base64_decode_ex\<close> returns, reads no byte behind the
  terminator, never uses an uninitialised byte of its result and never writes outside of it;
  what it returns is \<open>NULL\<close> or at most three bytes for four characters.\<close>

theorem base64_decode_safe:
  "\<exists>r. php_base64_decode_ex (cstr s) (int (length s)) strict = Some r \<and> (\<forall>out. r = Some out \<longrightarrow> 4 * length out \<le> 3 * length s)"
proof -
  have "base64_ok (length s) 0 0 (replicate (nat (int (length s) + 1)) None)" by (simp add: base64_ok_def)
  from base64_decode_loop_ok [OF this, of 0 "int (length s)" strict]
  obtain v where v: "base64_decode_loop (cstr s) strict 0 (int (length s)) 0 0 (replicate (nat (int (length s) + 1)) None) = Some v"
    and ok: "\<And>ch i j result. v = Some (ch, i, j, result) \<Longrightarrow> base64_ok (length s) i j result \<and> i \<le> length s \<and> ch = 0"
    by auto
  show ?thesis
  proof (cases v)
    case None
    then show ?thesis by (simp add: php_base64_decode_ex_def v)
  next
    case (Some w)
    obtain ch i j result where w: "w = (ch, i, j, result)" by (cases w)
    have r: "base64_ok (length s) i j result" "i \<le> length s" "ch = 0" using ok Some w by auto
    have "i mod 4 < 4" by simp
    then have "4 * (i div 4 * 3 + (i mod 4 - 1)) \<le> 3 * (i div 4 * 4 + i mod 4)" by (cases "i mod 4") auto
    then have "4 * (i div 4 * 3 + (i mod 4 - 1)) \<le> 3 * i" by (simp only: div_mult_mod_eq)
    then have j: "4 * j \<le> 3 * length s" "j < length result" using r by (auto simp: base64_ok_def)
    have "\<forall>k < j. (result[j := Some 0]) ! k \<noteq> None" using r(1) by (simp add: base64_ok_def)
    from those_filled [OF this] j(2) obtain out where "those (take j (result[j := Some 0])) = Some out" "length out = j" by auto
    then show ?thesis using j by (simp add: php_base64_decode_ex_def v Some w r(3) base64_pad_def upd_opt_def)
  qed
qed

text \<open>In strict mode one character behind the padding is accepted, whatever it is, when it is
  the last one: the loop that skips white space starts behind the character it should look at.\<close>

lemma base64_strict_accepts_garbage:
  "c \<noteq> 0 \<Longrightarrow> c \<noteq> base64_pad \<Longrightarrow> php_base64_decode_ex (cstr (ascii ''QQ='' @ [c])) 4 True = Some (Some (ascii ''A''))"
proof -
  assume c: "c \<noteq> 0" "c \<noteq> base64_pad"
  have two: "Suc (Suc 0) = 2" and five: "replicate 5 None = [None, None, None, None, None :: byte option]"
    by (simp_all add: eval_nat_numeral)
  have tab: "base64_reverse_table ! 81 = 16" by code_simp
  have str: "ascii ''QQ='' = [81, 81, 61]" "ascii ''A'' = [65]" by (simp_all add: ascii_def)
  have skip: "base64_skip_space [81, 81, 61, c, 0] 4 = Some 4"
    by (subst base64_skip_space.simps) (simp add: nth_opt_def isspace_def)
  have "base64_decode_loop [81, 81, 61, c, 0] True 4 1 2 1 [Some 65, Some 0, None, None, None] =
      Some (Some (0, 2, 1, [Some 65, Some 0, None, None, None]))"
    by (subst base64_decode_loop.simps) (simp add: nth_opt_def)
  then have "base64_decode_loop [81, 81, 61, c, 0] True 2 2 2 1 [Some 65, Some 0, None, None, None] =
      Some (Some (0, 2, 1, [Some 65, Some 0, None, None, None]))"
    using c by (subst base64_decode_loop.simps) (simp add: nth_opt_def base64_pad_def skip)
  then have "base64_decode_loop [81, 81, 61, c, 0] True 1 3 1 0 [Some 64, None, None, None, None] =
      Some (Some (0, 2, 1, [Some 65, Some 0, None, None, None]))"
    by (subst base64_decode_loop.simps)
      (simp add: nth_opt_def base64_pad_def tab Let_def base64_put_def buf_or_def upd_opt_def two)
  then have "base64_decode_loop [81, 81, 61, c, 0] True 0 4 0 0 (replicate 5 None) =
      Some (Some (0, 2, 1, [Some 65, Some 0, None, None, None]))"
    by (subst base64_decode_loop.simps)
      (simp add: nth_opt_def base64_pad_def tab Let_def base64_put_def upd_opt_def two five)
  then show ?thesis
    by (simp add: php_base64_decode_ex_def str cstr_def base64_pad_def upd_opt_def)
qed

theorem base64_decode_safe_witness:
  "\<exists>r. php_base64_decode_ex (cstr [61, 81, 32]) 3 True = Some r \<and> (\<forall>out. r = Some out \<longrightarrow> length out \<le> 2)"
  using base64_decode_safe [of "[61, 81, 32]" True] by fastforce

end
