(* ===== verification/Quot_Print.thy ===== *)
theory Quot_Print
  imports Bytes
begin

unbundle bit_operations_syntax

text \<open>
  \<open>ext/standard/quot_print.c\<close>: quoted-printable. The encoder and both decoders (the one behind
  the \<open>convert.*\<close> helpers and the one inside \<open>quoted_printable_decode()\<close>) read a buffer by index,
  so a read behind the terminator has no result. They write their output strictly from left to
  right, so it is a list; the properties compare its length with the block allocated for it.
  \<open>NULL\<close> is \<open>Some None\<close>.
\<close>

definition php_hex2int :: "byte \<Rightarrow> byte" where
  "php_hex2int c =
     (if isdigit c then c - 48
      else if 65 \<le> c \<and> c \<le> 70 then c - 65 + 10
      else if 97 \<le> c \<and> c \<le> 102 then c - 97 + 10
      else - 1)"

definition qp_hexval_tbl :: "nat list" where
  "qp_hexval_tbl = [
    64, 64, 64, 64, 64, 64, 64, 64, 64, 32, 16, 64, 64, 16, 64, 64,
    64, 64, 64, 64, 64, 64, 64, 64, 64, 64, 64, 64, 64, 64, 64, 64,
    32, 64, 64, 64, 64, 64, 64, 64, 64, 64, 64, 64, 64, 64, 64, 64,
     0,  1,  2,  3,  4,  5,  6,  7,  8,  9, 64, 64, 64, 64, 64, 64,
    64, 10, 11, 12, 13, 14, 15, 64, 64, 64, 64, 64, 64, 64, 64, 64,
    64, 64, 64, 64, 64, 64, 64, 64, 64, 64, 64, 64, 64, 64, 64, 64,
    64, 10, 11, 12, 13, 14, 15, 64, 64, 64, 64, 64, 64, 64, 64, 64,
    64, 64, 64, 64, 64, 64, 64, 64, 64, 64, 64, 64, 64, 64, 64, 64]
    @ replicate 128 64"

definition qp_hexval :: "byte \<Rightarrow> nat" where
  "qp_hexval c = qp_hexval_tbl ! unat c"

subsection \<open>Encoding\<close>

definition PHP_QPRINT_MAXL :: nat where
  "PHP_QPRINT_MAXL = 75"

definition qp_hex :: "byte \<Rightarrow> byte" where
  "qp_hex d = ascii ''0123456789ABCDEF'' ! unat d"

text \<open>The characters that are written as \<open>=XX\<close>; \<open>next_c\<close> is the character behind \<open>c\<close>.\<close>

definition qp_escape :: "byte \<Rightarrow> byte \<Rightarrow> bool" where
  "qp_escape c next_c \<longleftrightarrow>
     iscntrl c \<or> c = 0x7f \<or> c AND 0x80 \<noteq> 0 \<or> c = c8 CHR ''='' \<or> (c = c8 CHR '' '' \<and> next_c = 13)"

text \<open>\<open>while (length--)\<close>, with \<open>k\<close> the index \<open>str\<close> points at.\<close>

fun qp_encode_loop :: "byte list \<Rightarrow> nat \<Rightarrow> nat \<Rightarrow> nat \<Rightarrow> byte list option" where
  "qp_encode_loop str k 0 lp = Some []"
| "qp_encode_loop str k (Suc len) lp =
     (case nth_opt str k of
        None \<Rightarrow> None
      | Some c \<Rightarrow>
          case nth_opt str (k + 1) of
            None \<Rightarrow> None
          | Some next_c \<Rightarrow>
              if c = 13 \<and> next_c = 10 \<and> len > 0
              then map_option (\<lambda>d. 13 # next_c # d) (qp_encode_loop str (k + 2) (len - 1) 0)
              else if qp_escape c next_c then
                let wrap = lp + 3 > PHP_QPRINT_MAXL in
                map_option (\<lambda>d. (if wrap then [c8 CHR ''='', 13, 10] else []) @
                    c8 CHR ''='' # qp_hex (drop_bit 4 c) # qp_hex (c AND 0xf) # d)
                  (qp_encode_loop str (k + 1) len (if wrap then 3 else lp + 3))
              else
                let wrap = lp + 1 > PHP_QPRINT_MAXL in
                map_option (\<lambda>d. (if wrap then [c8 CHR ''='', 13, 10] else []) @ c # d)
                  (qp_encode_loop str (k + 1) len (if wrap then 1 else lp + 1)))"

definition php_quot_print_encode :: "byte list \<Rightarrow> nat \<Rightarrow> byte list option" where
  "php_quot_print_encode str len = qp_encode_loop str 0 len 0"

definition qp_encode_alloc :: "nat \<Rightarrow> nat" where
  "qp_encode_alloc len = 3 * (len + (3 * len div (PHP_QPRINT_MAXL - 9) + 1)) + 1"

subsection \<open>Decoding\<close>

text \<open>The first pass computes the size of the result; \<open>i\<close> is a C \<open>unsigned int\<close>, the guard \<open>i > 1\<close>
  keeps it from wrapping.\<close>

fun qp_size_loop :: "byte list \<Rightarrow> nat \<Rightarrow> nat \<Rightarrow> int \<Rightarrow> int option" where
  "qp_size_loop str p1 (Suc (Suc i)) buf_size =
     (case nth_opt str p1 of
        None \<Rightarrow> None
      | Some c \<Rightarrow>
          if c = 0 then Some buf_size
          else if c = c8 CHR ''='' then qp_size_loop str (p1 + 2) i (buf_size - 2)
          else qp_size_loop str (p1 + 1) (Suc i) buf_size)"
| "qp_size_loop str p1 i buf_size = Some buf_size"

text \<open>The loop over white space in a soft line break: \<open>NULL\<close>, or the new \<open>i\<close> and \<open>p1\<close>.\<close>

fun qp_soft_break_loop :: "byte list \<Rightarrow> nat \<Rightarrow> nat \<Rightarrow> nat \<Rightarrow> (nat \<times> nat) option option" where
  "qp_soft_break_loop str p1 i h_nbl =
     (if h_nbl = 32 then
        case i of
          0 \<Rightarrow> None
        | Suc i' \<Rightarrow>
            if i' = 0 then Some None
            else case nth_opt str (p1 + 1) of
                None \<Rightarrow> None
              | Some c \<Rightarrow> if qp_hexval c = 64 then Some None else qp_soft_break_loop str (p1 + 1) i' (qp_hexval c)
      else Some (Some (i, p1)))"

declare qp_soft_break_loop.simps [simp del]

lemma qp_soft_break_le: "qp_soft_break_loop str p1 i h = Some (Some (i', p1')) \<Longrightarrow> i' \<le> i"
proof (induction str p1 i h rule: qp_soft_break_loop.induct)
  case (1 str p1 i h)
  show ?case
    using 1(2) [unfolded qp_soft_break_loop.simps [of str p1 i h]] 1(1)
    by (auto split: if_splits nat.splits option.splits intro: le_SucI)
qed

function qp_decode_loop :: "byte list \<Rightarrow> byte \<Rightarrow> nat \<Rightarrow> nat \<Rightarrow> byte list option option" where
  "qp_decode_loop str us p1 i =
     (if i = 0 then Some (Some [])
      else case nth_opt str p1 of
        None \<Rightarrow> None
      | Some c \<Rightarrow>
          if c = 0 then Some (Some [])
          else if c = c8 CHR ''='' then
            (if i - 1 = 0 then Some (Some [])
             else case nth_opt str (p1 + 1) of
               None \<Rightarrow> None
             | Some c1 \<Rightarrow>
                 if c1 = 0 then Some (Some [])
                 else if qp_hexval c1 < 16 then
                   (if i - 2 = 0 then Some None
                    else case nth_opt str (p1 + 2) of
                      None \<Rightarrow> None
                    | Some c2 \<Rightarrow>
                        if qp_hexval c2 \<ge> 16 then Some None
                        else map_option (map_option (\<lambda>d. (push_bit 4 (of_nat (qp_hexval c1)) OR of_nat (qp_hexval c2)) # d))
                               (qp_decode_loop str us (p1 + 3) (i - 3)))
                 else if qp_hexval c1 < 64 then
                   (case qp_soft_break_loop str (p1 + 1) (i - 1) (qp_hexval c1) of
                      None \<Rightarrow> None
                    | Some None \<Rightarrow> Some None
                    | Some (Some (i', p1')) \<Rightarrow>
                        if i' = 0 then None
                        else if nth_opt str p1' = Some 13 \<and> i' \<ge> 2 \<and> nth_opt str (p1' + 1) = Some 10
                        then qp_decode_loop str us (p1' + 2) (i' - 2)
                        else qp_decode_loop str us (p1' + 1) (i' - 1))
                 else Some None)
          else map_option (map_option (\<lambda>d. (if us = c then c8 CHR '' '' else c) # d))
                 (qp_decode_loop str us (p1 + 1) (i - 1)))"
  by pat_completeness auto
termination
  by (relation "measure (\<lambda>(str, us, p1, i). i)") (auto dest!: qp_soft_break_le)

declare qp_decode_loop.simps [simp del]

text \<open>The result with the size of the block it was written to.\<close>

definition php_quot_print_decode :: "byte list \<Rightarrow> nat \<Rightarrow> bool \<Rightarrow> (byte list option \<times> int) option" where
  "php_quot_print_decode str len replace_us_by_ws =
     do {
       buf_size \<leftarrow> qp_size_loop str 0 len (int len);
       r \<leftarrow> qp_decode_loop str (if replace_us_by_ws then c8 CHR ''_'' else 0) 0 len;
       Some (r, buf_size + 1)
     }"

text \<open>\<open>PHP_FUNCTION(quoted_printable_decode)\<close>: at \<open>=\<close>, skip blanks and a line end.\<close>

function qp_blanks :: "byte list \<Rightarrow> nat \<Rightarrow> nat option" where
  "qp_blanks str k =
     (case nth_opt str k of
        None \<Rightarrow> None
      | Some c \<Rightarrow> if c = 32 \<or> c = 9 then qp_blanks str (k + 1) else Some k)"
  by pat_completeness auto
termination
  by (relation "measure (\<lambda>(str, k). Suc (length str) - k)") (auto dest: nth_opt_less)

declare qp_blanks.simps [simp del]

lemma qp_blanks_ge: "qp_blanks str k = Some k' \<Longrightarrow> k \<le> k'"
  by (induction str k rule: qp_blanks.induct) (subst (asm) qp_blanks.simps, auto split: option.splits if_splits)

text \<open>Where the scan goes on behind a soft line break, or \<open>None\<close> inside when there is none.\<close>

definition qp_line_end :: "byte list \<Rightarrow> nat \<Rightarrow> nat option option" where
  "qp_line_end str k =
     (case nth_opt str k of
        None \<Rightarrow> None
      | Some c \<Rightarrow>
          if c = 0 then Some (Some k)
          else case nth_opt str (k + 1) of
            None \<Rightarrow> None
          | Some c' \<Rightarrow>
              if c = 13 \<and> c' = 10 then Some (Some (k + 2))
              else if c = 13 \<or> c = 10 then Some (Some (k + 1))
              else Some None)"

lemma qp_line_end_ge: "qp_line_end str k = Some (Some k') \<Longrightarrow> k \<le> k'"
  by (auto simp: qp_line_end_def split: option.splits if_splits)

function quoted_printable_decode_loop :: "byte list \<Rightarrow> nat \<Rightarrow> byte list option" where
  "quoted_printable_decode_loop str i =
     (case nth_opt str i of
        None \<Rightarrow> None
      | Some c \<Rightarrow>
          if c = 0 then Some []
          else if c = c8 CHR ''='' then
            (case nth_opt str (i + 1) of
               None \<Rightarrow> None
             | Some c1 \<Rightarrow>
                 if c1 \<noteq> 0 \<and> nth_opt str (i + 2) = None then None
                 else if c1 \<noteq> 0 \<and> nth_opt str (i + 2) \<noteq> Some 0 \<and> isxdigit c1 \<and> isxdigit (the (nth_opt str (i + 2)))
                 then map_option (\<lambda>d. (push_bit 4 (php_hex2int c1) + php_hex2int (the (nth_opt str (i + 2)))) # d)
                        (quoted_printable_decode_loop str (i + 3))
                 else case qp_blanks str (i + 1) of
                   None \<Rightarrow> None
                 | Some k \<Rightarrow>
                     case qp_line_end str k of
                       None \<Rightarrow> None
                     | Some (Some i') \<Rightarrow> quoted_printable_decode_loop str i'
                     | Some None \<Rightarrow> map_option (Cons c) (quoted_printable_decode_loop str (i + 1)))
          else map_option (Cons c) (quoted_printable_decode_loop str (i + 1)))"
  by pat_completeness auto
termination
  by (relation "measure (\<lambda>(str, i). Suc (length str) - i)") (auto dest!: nth_opt_less qp_blanks_ge qp_line_end_ge)

declare quoted_printable_decode_loop.simps [simp del]

definition quoted_printable_decode :: "byte list \<Rightarrow> byte list option" where
  "quoted_printable_decode str_in = quoted_printable_decode_loop str_in 0"

subsection \<open>What an encoding looks like\<close>

text \<open>\<open>qp_enc s e\<close>: \<open>e\<close> is an encoding of \<open>s\<close>: literal bytes, escapes and soft line breaks.\<close>

inductive qp_enc :: "byte list \<Rightarrow> byte list \<Rightarrow> bool" where
  qp_nil: "qp_enc [] []"
| qp_soft: "qp_enc s e \<Longrightarrow> qp_enc s (61 # 13 # 10 # e)"
| qp_hex: "qp_enc s e \<Longrightarrow> qp_enc (c # s) (61 # qp_hex (drop_bit 4 c) # qp_hex (c AND 0xf) # e)"
| qp_plain: "c \<noteq> 61 \<Longrightarrow> c \<noteq> 0 \<Longrightarrow> qp_enc s e \<Longrightarrow> qp_enc (c # s) (c # e)"

lemma qp_consts: "c8 CHR ''='' = 61" "c8 CHR '' '' = 32"
  by simp_all

lemma qp_enc_wrap: "qp_enc s (d @ e) \<Longrightarrow> qp_enc s ((if w then [61, 13, 10] else []) @ d @ e)"
  by (auto intro: qp_enc.intros)

lemma qp_encode_loop_enc:
  assumes "drop k str = s @ [0]"
  shows "\<exists>e. qp_encode_loop str k (length s) lp = Some e \<and> qp_enc s e"
  using assms
proof (induction "length s" arbitrary: s k lp rule: less_induct)
  case less
  show ?case
  proof (cases s)
    case Nil
    then show ?thesis by (simp add: qp_nil)
  next
    case (Cons c t)
    have d: "drop k str = c # t @ [0]" using less.prems Cons by simp
    obtain c' t' where t': "t @ [0] = c' # t'" by (cases t) auto
    have n: "nth_opt str k = Some c" "nth_opt str (Suc k) = Some c'" "drop (Suc k) str = t @ [0]"
      using nth_opt_suffix [OF d] nth_opt_suffix2(1) [of k str c c' t'] d t' by auto
    obtain e where e: "qp_encode_loop str (Suc k) (length t) lp' = Some (e lp') \<and> qp_enc t (e lp')" for lp'
      using less.hyps [OF _ n(3)] Cons by (metis length_Cons lessI)
    show ?thesis
    proof (cases "c = 13 \<and> c' = 10 \<and> length t > 0")
      case True
      then obtain u where u: "t = 10 # u" using t' by (cases t) auto
      have "drop (Suc (Suc k)) str = u @ [0]" using nth_opt_suffix(2) [of "Suc k" str 10 "u @ [0]"] n(3) u by simp
      then obtain f where "qp_encode_loop str (Suc (Suc k)) (length u) 0 = Some f" "qp_enc u f"
        using less.hyps [of u "Suc (Suc k)" 0] Cons u by auto
      then show ?thesis using Cons True n u by (auto intro!: qp_plain)
    next
      case False
      then show ?thesis
        using Cons n e
        by (auto simp: Let_def qp_consts qp_escape_def iscntrl_def intro!: qp_enc.intros)
    qed
  qed
qed

lemma qp_hex_digit:
  assumes "x < 16"
  shows "qp_hexval (qp_hex x) = unat x \<and> isxdigit (qp_hex x) \<and> php_hex2int (qp_hex x) = x \<and> qp_hex x \<noteq> 0"
proof -
  have "unat x \<in> set [0..<16]" using assms by (simp add: word_less_nat_alt)
  moreover have "list_all (\<lambda>n. qp_hexval (qp_hex (word_of_nat n)) = n \<and> isxdigit (qp_hex (word_of_nat n)) \<and>
      php_hex2int (qp_hex (word_of_nat n)) = word_of_nat n \<and> qp_hex (word_of_nat n) \<noteq> 0) [0..<16]"
    by code_simp
  ultimately have "qp_hexval (qp_hex (word_of_nat (unat x))) = unat x \<and> isxdigit (qp_hex (word_of_nat (unat x))) \<and>
      php_hex2int (qp_hex (word_of_nat (unat x))) = word_of_nat (unat x) \<and> qp_hex (word_of_nat (unat x)) \<noteq> 0"
    by (simp only: list_all_iff simp_thms)
  then show ?thesis by simp
qed

lemma qp_decode_loop_enc:
  assumes "qp_enc s e" "drop p1 str = e @ [0]"
  shows "qp_decode_loop str 0 p1 (length e) = Some (Some s)"
  using assms
proof (induction arbitrary: p1 rule: qp_enc.induct)
  case qp_nil
  then show ?case by (subst qp_decode_loop.simps) simp
next
  case (qp_soft s e)
  have d: "drop p1 str = 61 # 13 # 10 # e @ [0]" using qp_soft.prems by simp
  note d1 = nth_opt_suffix(2) [OF d] note d2 = nth_opt_suffix(2) [OF d1] note d3 = nth_opt_suffix(2) [OF d2]
  have h: "qp_hexval 13 = 16" by code_simp
  have "qp_soft_break_loop str (Suc p1) (Suc (Suc (length e))) 16 = Some (Some (Suc (Suc (length e)), Suc p1))"
    by (subst qp_soft_break_loop.simps) simp
  then show ?case
    using qp_soft.IH [OF d3]
    by (subst qp_decode_loop.simps)
      (simp add: nth_opt_suffix(1) [OF d] nth_opt_suffix(1) [OF d1] nth_opt_suffix(1) [OF d2] qp_consts h)
next
  case (qp_hex s e c)
  have d: "drop p1 str = 61 # qp_hex (drop_bit 4 c) # qp_hex (c AND 15) # e @ [0]" using qp_hex.prems by simp
  note d1 = nth_opt_suffix(2) [OF d] note d2 = nth_opt_suffix(2) [OF d1] note d3 = nth_opt_suffix(2) [OF d2]
  have p3: "p1 + 3 = Suc (Suc (Suc p1))" by simp
  have v: "unat (drop_bit 4 c) < 16" "unat (c AND 15) < 16" using nibble_less [of c] by (simp_all add: word_less_nat_alt)
  show ?case
    using qp_hex.IH [OF d3] v
    by (subst qp_decode_loop.simps)
      (simp add: nth_opt_suffix(1) [OF d] nth_opt_suffix(1) [OF d1] nth_opt_suffix(1) [OF d2] qp_consts
        qp_hex_digit [OF nibble_less(1)] qp_hex_digit [OF nibble_less(2)] nibbles p3)
next
  case (qp_plain c s e)
  have d: "drop p1 str = c # e @ [0]" using qp_plain.prems by simp
  show ?case
    using qp_plain.IH [OF nth_opt_suffix(2) [OF d]] qp_plain.hyps
    by (subst qp_decode_loop.simps) (simp add: nth_opt_suffix(1) [OF d] qp_consts)
qed

lemma quoted_printable_decode_loop_enc:
  assumes "qp_enc s e" "drop p1 str = e @ [0]"
  shows "quoted_printable_decode_loop str p1 = Some s"
  using assms
proof (induction arbitrary: p1 rule: qp_enc.induct)
  case qp_nil
  then show ?case by (subst quoted_printable_decode_loop.simps) (simp add: nth_opt_suffix(1))
next
  case (qp_soft s e)
  have d: "drop p1 str = 61 # 13 # 10 # e @ [0]" using qp_soft.prems by simp
  note d1 = nth_opt_suffix(2) [OF d] note d2 = nth_opt_suffix(2) [OF d1] note d3 = nth_opt_suffix(2) [OF d2]
  have "qp_blanks str (Suc p1) = Some (Suc p1)"
    by (subst qp_blanks.simps) (simp add: nth_opt_suffix(1) [OF d1])
  moreover have "qp_line_end str (Suc p1) = Some (Some (Suc (Suc (Suc p1))))"
    by (simp add: qp_line_end_def nth_opt_suffix(1) [OF d1] nth_opt_suffix(1) [OF d2])
  moreover have "\<not> isxdigit 13" by code_simp
  ultimately show ?case
    using qp_soft.IH [OF d3]
    by (subst quoted_printable_decode_loop.simps)
      (simp add: nth_opt_suffix(1) [OF d] nth_opt_suffix(1) [OF d1] nth_opt_suffix(1) [OF d2] qp_consts)
next
  case (qp_hex s e c)
  have d: "drop p1 str = 61 # qp_hex (drop_bit 4 c) # qp_hex (c AND 15) # e @ [0]" using qp_hex.prems by simp
  note d1 = nth_opt_suffix(2) [OF d] note d2 = nth_opt_suffix(2) [OF d1] note d3 = nth_opt_suffix(2) [OF d2]
  have p3: "p1 + 3 = Suc (Suc (Suc p1))" by simp
  show ?case
    using qp_hex.IH [OF d3]
    by (subst quoted_printable_decode_loop.simps)
      (simp add: nth_opt_suffix(1) [OF d] nth_opt_suffix(1) [OF d1] nth_opt_suffix(1) [OF d2] qp_consts
        qp_hex_digit [OF nibble_less(1)] qp_hex_digit [OF nibble_less(2)] nibbles p3)
next
  case (qp_plain c s e)
  have d: "drop p1 str = c # e @ [0]" using qp_plain.prems by simp
  show ?case
    using qp_plain.IH [OF nth_opt_suffix(2) [OF d]] qp_plain.hyps
    by (subst quoted_printable_decode_loop.simps) (simp add: nth_opt_suffix(1) [OF d] qp_consts)
qed

subsection \<open>Size and line length of an encoding\<close>

text \<open>A soft line break needs a line of at least 73 characters.\<close>

lemma qp_encode_length:
  "qp_encode_loop str k len lp = Some e \<Longrightarrow> lp \<le> 75 \<Longrightarrow> 73 * length e \<le> 228 * len + 3 * lp"
proof (induction str k len lp arbitrary: e rule: qp_encode_loop.induct)
  case (2 str k len lp)
  obtain c where c: "nth_opt str k = Some c" using 2(4) by (auto split: option.splits)
  obtain c' where c': "nth_opt str (k + 1) = Some c'" using 2(4) c by (auto split: option.splits)
  note eq = 2(4) [simplified c c' option.case qp_encode_loop.simps]
  show ?case
  proof (cases "c = 13 \<and> c' = 10 \<and> len > 0")
    case True
    then obtain d where d: "qp_encode_loop str (k + 2) (len - 1) 0 = Some d" "e = 13 # c' # d" using eq c' by auto
    have "73 * length d \<le> 228 * (len - 1)" using 2(1) [OF c c' True d(1)] by simp
    then show ?thesis using d(2) True by simp
  next
    case False
    note IH = 2(2,3) [OF c c' False]
    show ?thesis
    proof (cases "qp_escape c c'")
      case True
      define w where "w \<longleftrightarrow> lp + 3 > PHP_QPRINT_MAXL"
      obtain d where d: "qp_encode_loop str (k + 1) len (if w then 3 else lp + 3) = Some d"
        "length e = (if w then 3 else 0) + 3 + length d" using eq c' False True by (auto simp: Let_def w_def)
      have "73 * length d \<le> 228 * len + 3 * (if w then 3 else lp + 3)"
        by (rule IH(1) [OF True w_def d(1)]) (auto simp: w_def PHP_QPRINT_MAXL_def)
      then show ?thesis using d(2) by (cases w) (auto simp: w_def PHP_QPRINT_MAXL_def)
    next
      case no: False
      define w where "w \<longleftrightarrow> lp + 1 > PHP_QPRINT_MAXL"
      obtain d where d: "qp_encode_loop str (k + 1) len (if w then 1 else lp + 1) = Some d"
        "length e = (if w then 3 else 0) + 1 + length d" using eq c' False no by (auto simp: Let_def w_def)
      have "73 * length d \<le> 228 * len + 3 * (if w then 1 else lp + 1)"
        by (rule IH(2) [OF no w_def d(1)]) (auto simp: w_def PHP_QPRINT_MAXL_def)
      then show ?thesis using d(2) 2(5) by (cases w) (auto simp: w_def PHP_QPRINT_MAXL_def)
    qed
  qed
qed simp

text \<open>The lengths of the lines of a text whose line ends are CR LF.\<close>

fun line_lengths :: "nat \<Rightarrow> byte list \<Rightarrow> nat list" where
  "line_lengths n (x # y # cs) = (if x = 13 \<and> y = 10 then n # line_lengths 0 cs else line_lengths (Suc n) (y # cs))"
| "line_lengths n [x] = [Suc n]"
| "line_lengths n [] = [n]"

lemma line_lengths_Cons [simp]: "x \<noteq> 13 \<Longrightarrow> line_lengths n (x # cs) = line_lengths (Suc n) cs"
  by (cases cs) auto

lemma qp_hex_not_cr: "x < 16 \<Longrightarrow> qp_hex x \<noteq> 13"
  using qp_hex_digit [of x] by (auto simp: isxdigit_def isdigit_def)

lemma qp_encode_lines:
  "qp_encode_loop str k len lp = Some e \<Longrightarrow> lp \<le> 75 \<Longrightarrow> \<forall>l \<in> set (line_lengths lp e). l \<le> 76"
proof (induction str k len lp arbitrary: e rule: qp_encode_loop.induct)
  case (2 str k len lp)
  obtain c where c: "nth_opt str k = Some c" using 2(4) by (auto split: option.splits)
  obtain c' where c': "nth_opt str (k + 1) = Some c'" using 2(4) c by (auto split: option.splits)
  note eq = 2(4) [simplified c c' option.case qp_encode_loop.simps]
  show ?case
  proof (cases "c = 13 \<and> c' = 10 \<and> len > 0")
    case True
    then obtain d where d: "qp_encode_loop str (k + 2) (len - 1) 0 = Some d" "e = 13 # c' # d" using eq c' by auto
    show ?thesis using 2(1) [OF c c' True d(1)] d(2) True 2(5) by simp
  next
    case False
    note IH = 2(2,3) [OF c c' False]
    show ?thesis
    proof (cases "qp_escape c c'")
      case True
      define w where "w \<longleftrightarrow> lp + 3 > PHP_QPRINT_MAXL"
      obtain d where d: "qp_encode_loop str (k + 1) len (if w then 3 else lp + 3) = Some d"
        "e = (if w then [61, 13, 10] else []) @ 61 # qp_hex (drop_bit 4 c) # qp_hex (c AND 0xf) # d"
        using eq c' False True by (auto simp: Let_def w_def qp_consts)
      have "\<forall>l \<in> set (line_lengths (if w then 3 else lp + 3) d). l \<le> 76"
        by (rule IH(1) [OF True w_def d(1)]) (auto simp: w_def PHP_QPRINT_MAXL_def)
      then show ?thesis
        using 2(5) by (cases w) (simp_all add: d(2) qp_hex_not_cr nibble_less numeral_3_eq_3)
    next
      case no: False
      define w where "w \<longleftrightarrow> lp + 1 > PHP_QPRINT_MAXL"
      obtain d where d: "qp_encode_loop str (k + 1) len (if w then 1 else lp + 1) = Some d"
        "e = (if w then [61, 13, 10] else []) @ c # d"
        using eq c' False no by (auto simp: Let_def w_def qp_consts)
      have "\<forall>l \<in> set (line_lengths (if w then 1 else lp + 1) d). l \<le> 76"
        by (rule IH(2) [OF no w_def d(1)]) (auto simp: w_def PHP_QPRINT_MAXL_def)
      moreover have "c \<noteq> 13" using no by (auto simp: qp_escape_def iscntrl_def)
      ultimately show ?thesis using 2(5) by (cases w) (simp_all add: d(2))
    qed
  qed
qed simp

subsection \<open>The decoders on any input\<close>

text \<open>\<open>qp_size str p i n\<close>: the first pass, at \<open>p\<close> with \<open>i\<close> bytes left, subtracts \<open>2 n\<close>.\<close>

definition qp_size :: "byte list \<Rightarrow> nat \<Rightarrow> nat \<Rightarrow> nat \<Rightarrow> bool" where
  "qp_size str p i n \<longleftrightarrow> 2 * n \<le> i \<and> (\<forall>b. qp_size_loop str p i b = Some (b - 2 * int n))"

lemma qp_size_step:
  assumes "nth_opt str p = Some c" "c \<noteq> 0" "c \<noteq> 61" "qp_size str (p + 1) i n"
  shows "qp_size str p (Suc i) n"
proof (cases i)
  case 0
  then show ?thesis using assms(4) by (auto simp: qp_size_def)
next
  case (Suc j)
  then show ?thesis using assms by (auto simp: qp_size_def)
qed

lemma qp_size_exists: "p + i = length s \<Longrightarrow> \<exists>n. qp_size (cstr s) p i n"
proof (induction i arbitrary: p rule: less_induct)
  case (less i)
  obtain c where c: "nth_opt (cstr s) p = Some c" using nth_opt_cstr less.prems by (metis le_add1)
  consider "i \<le> 1" | j where "i = Suc (Suc j)" by (metis One_nat_def not_less_eq_eq Suc_le_D)
  then show ?case
  proof cases
    case 1
    then show ?thesis by (intro exI [of _ 0]) (auto simp: qp_size_def le_Suc_eq)
  next
    case (2 j)
    show ?thesis
    proof (cases "c = 61")
      case True
      obtain n where "qp_size (cstr s) (p + 2) j n" using less.IH [of j "p + 2"] less.prems 2 by auto
      then show ?thesis using c True 2 by (intro exI [of _ "Suc n"]) (auto simp: qp_size_def)
    next
      case False
      then show ?thesis
        using qp_size_step [OF c _ False, of "Suc j"] less.IH [of "Suc j" "p + 1"] less.prems 2 c
        by (cases "c = 0") (auto simp: qp_size_def intro: exI [of _ 0])
    qed
  qed
qed

text \<open>White space in front of a soft line break is no \<open>=\<close> and no terminator.\<close>

lemma qp_hexval_special: "qp_hexval 0 = 64" "qp_hexval 61 = 64"
  by code_simp+

lemma qp_soft_break_ok:
  assumes "p + i = length s" "i > 0" "nth_opt (cstr s) p = Some c" "h = qp_hexval c" "h < 64"
  shows "\<exists>r. qp_soft_break_loop (cstr s) p i h = Some r \<and>
    (\<forall>i' p'. r = Some (i', p') \<longrightarrow> i' > 0 \<and> p' + i' = length s \<and> i' \<le> i \<and>
      (\<forall>n. qp_size (cstr s) (p' + 1) (i' - 1) n \<longrightarrow> qp_size (cstr s) (p + 1) (i - 1) n))"
  using assms
proof (induction "cstr s" p i h arbitrary: c rule: qp_soft_break_loop.induct)
  case (1 p i h)
  show ?case
  proof (cases "h = 32 \<and> i > 1")
    case False
    then show ?thesis using 1(2,3) by (subst qp_soft_break_loop.simps) (auto split: nat.splits)
  next
    case True
    then obtain j where j: "i = Suc j" "j > 0" by (cases i) auto
    obtain c' where c': "nth_opt (cstr s) (p + 1) = Some c'" using nth_opt_cstr [of "p + 1" s] 1(2) j by auto
    show ?thesis
    proof (cases "qp_hexval c' = 64")
      case nl: True
      then show ?thesis using True j c' by (subst qp_soft_break_loop.simps) auto
    next
      case nl: False
      have h': "qp_hexval c' < 64"
      proof -
        have "list_all (\<lambda>i. qp_hexval (word_of_int i) \<le> 64) [0..255]" by code_simp
        then have "qp_hexval c' \<le> 64" by (rule byte_exhaust)
        then show ?thesis using nl by simp
      qed
      have ne: "c' \<noteq> 0" "c' \<noteq> 61" using nl qp_hexval_special by auto
      obtain r where r: "qp_soft_break_loop (cstr s) (p + 1) j (qp_hexval c') = Some r"
        "\<forall>i' p'. r = Some (i', p') \<longrightarrow> i' > 0 \<and> p' + i' = length s \<and> i' \<le> j \<and>
           (\<forall>n. qp_size (cstr s) (p' + 1) (i' - 1) n \<longrightarrow> qp_size (cstr s) (p + 1 + 1) (j - 1) n)"
        using 1(1) [OF conjunct1 [OF True] j(1) _ c' nl _ _ c' refl h'] 1(2) j by auto
      obtain j' where j': "j = Suc j'" using j by (cases j) auto
      have "qp_size (cstr s) (p + 1 + 1) (j - 1) n \<Longrightarrow> qp_size (cstr s) (p + 1) (i - 1) n" for n
        using qp_size_step [OF c' ne, of j' n] j j' by simp
      then have r': "\<forall>i' p'. r = Some (i', p') \<longrightarrow> i' > 0 \<and> p' + i' = length s \<and> i' \<le> i \<and>
           (\<forall>n. qp_size (cstr s) (p' + 1) (i' - 1) n \<longrightarrow> qp_size (cstr s) (p + 1) (i - 1) n)"
        using r(2) j(1) by (metis le_SucI)
      have "qp_soft_break_loop (cstr s) p i h = Some r"
        using True j c' nl r(1) by (subst qp_soft_break_loop.simps) simp
      with r' show ?thesis by blast
    qed
  qed
qed

lemma qp_size_unique: "qp_size str p i m \<Longrightarrow> qp_size str p i n \<Longrightarrow> m = n"
  by (auto simp: qp_size_def dest!: spec [of _ 0])

text \<open>The result fits into the block: with \<open>i\<close> bytes left it has at most \<open>i - 2 n\<close> bytes.\<close>

definition qp_good :: "byte list \<Rightarrow> byte \<Rightarrow> nat \<Rightarrow> nat \<Rightarrow> nat \<Rightarrow> bool" where
  "qp_good s us p i n \<longleftrightarrow> (\<exists>r. qp_decode_loop (cstr s) us p i = Some r \<and> (\<forall>d. r = Some d \<longrightarrow> length d + 2 * n \<le> i))"

lemma qp_decode_hex:
  assumes IH: "\<And>i' p n. i' < i \<Longrightarrow> p + i' = length s \<Longrightarrow> qp_size (cstr s) p i' n \<Longrightarrow> qp_good s us p i' n"
    and prem: "p + i = length s" and is_eq: "nth_opt (cstr s) p = Some 61" and esc: "i = Suc (Suc j)"
    and m: "qp_size (cstr s) (p + 2) j m" and c1: "nth_opt (cstr s) (Suc p) = Some c1"
    and hex: "c1 \<noteq> 0" "qp_hexval c1 < 16"
  shows "qp_good s us p i (Suc m)"
proof -
  note step = qp_good_def [of s us p i] qp_decode_loop.simps [of "cstr s" us p i]
  obtain c2 where c2: "nth_opt (cstr s) (Suc (Suc p)) = Some c2" using nth_opt_cstr [of "Suc (Suc p)" s] prem esc by auto
  show ?thesis
  proof (cases "j = 0 \<or> qp_hexval c2 \<ge> 16")
    case True
    then show ?thesis unfolding step using esc is_eq hex c1 c2 by (auto simp: qp_consts qp_good_def)
  next
    case False
    then obtain j' where j': "j = Suc j'" by (cases j) auto
    have ne: "c2 \<noteq> 0" "c2 \<noteq> 61" using False qp_hexval_special by auto
    have p3: "p + 3 = Suc (Suc (Suc p))" by simp
    obtain m' where m': "qp_size (cstr s) (Suc (Suc (Suc p))) j' m'" using qp_size_exists [of "Suc (Suc (Suc p))" j' s] prem esc j' by auto
    have "m' = m" using qp_size_step [OF c2 ne, of j' m'] m' m j' qp_size_unique by (metis Suc_eq_plus1 add_2_eq_Suc')
    moreover obtain r where "qp_decode_loop (cstr s) us (Suc (Suc (Suc p))) j' = Some r" "\<forall>d. r = Some d \<longrightarrow> length d + 2 * m' \<le> j'"
      using IH [of j' "Suc (Suc (Suc p))" m'] esc j' m' prem by (auto simp: qp_good_def)
    ultimately show ?thesis unfolding step using esc is_eq hex False c1 c2 j' by (auto simp: qp_consts qp_good_def p3)
  qed
qed

lemma qp_decode_soft:
  assumes IH: "\<And>i' p n. i' < i \<Longrightarrow> p + i' = length s \<Longrightarrow> qp_size (cstr s) p i' n \<Longrightarrow> qp_good s us p i' n"
    and prem: "p + i = length s" and is_eq: "nth_opt (cstr s) p = Some 61" and esc: "i = Suc (Suc j)"
    and m: "qp_size (cstr s) (p + 2) j m" and c1: "nth_opt (cstr s) (Suc p) = Some c1"
    and soft: "c1 \<noteq> 0" "16 \<le> qp_hexval c1" "qp_hexval c1 < 64"
  shows "qp_good s us p i (Suc m)"
proof -
  note step = qp_good_def [of s us p i] qp_decode_loop.simps [of "cstr s" us p i]
  have "Suc p + Suc j = length s" using prem esc by simp
  from qp_soft_break_ok [OF this _ c1 refl soft(3)]
  obtain r where r: "qp_soft_break_loop (cstr s) (Suc p) (Suc j) (qp_hexval c1) = Some r"
    and rr: "\<And>i' p'. r = Some (i', p') \<Longrightarrow> i' > 0 \<and> p' + i' = length s \<and> i' \<le> Suc j \<and>
      (\<forall>n. qp_size (cstr s) (p' + 1) (i' - 1) n \<longrightarrow> qp_size (cstr s) (Suc p + 1) (Suc j - 1) n)"
    by auto
  show ?thesis
  proof (cases r)
    case None
    then show ?thesis unfolding step using esc is_eq soft c1 r by (auto simp: qp_consts qp_good_def)
  next
    case (Some ip)
    obtain i' p' where ip: "ip = (i', p')" by (cases ip)
    note q = rr [OF Some [unfolded ip]]
    have le: "i' - 1 < i" using q esc by linarith
    have room: "p' + 1 + (i' - 1) = length s" using q by linarith
    obtain m' where m': "qp_size (cstr s) (p' + 1) (i' - 1) m'" using qp_size_exists [OF room] by blast
    then have mm: "m' = m" using q m qp_size_unique by (metis Suc_eq_plus1 add_2_eq_Suc' diff_Suc_1)
    obtain r1 where r1: "qp_decode_loop (cstr s) us (p' + 1) (i' - 1) = Some r1" "\<forall>d. r1 = Some d \<longrightarrow> length d + 2 * m' \<le> i' - 1"
      using IH [OF le room m'] by (auto simp: qp_good_def)
    have crlf: "\<exists>r2. qp_decode_loop (cstr s) us (p' + 2) (i' - 2) = Some r2 \<and> (\<forall>d. r2 = Some d \<longrightarrow> length d + 2 * m' \<le> i' - 2)"
      if lf: "i' \<ge> 2" "nth_opt (cstr s) (p' + 1) = Some 10"
    proof -
      have room2: "p' + 2 + (i' - 2) = length s" using q lf(1) by linarith
      have le2: "i' - 2 < i" using q esc by linarith
      obtain m'' where m'': "qp_size (cstr s) (p' + 2) (i' - 2) m''" using qp_size_exists [OF room2] by blast
      have "qp_size (cstr s) (p' + 1) (Suc (i' - 2)) m''" using qp_size_step [OF lf(2), of "i' - 2" m''] m'' by simp
      moreover have "Suc (i' - 2) = i' - 1" using lf by simp
      ultimately have "m'' = m'" using m' qp_size_unique by metis
      then show ?thesis using IH [OF le2 room2 m''] by (auto simp: qp_good_def)
    qed
    show ?thesis
    proof (cases "nth_opt (cstr s) p' = Some 13 \<and> i' \<ge> 2 \<and> nth_opt (cstr s) (p' + 1) = Some 10")
      case True
      then obtain r2 where "qp_decode_loop (cstr s) us (p' + 2) (i' - 2) = Some r2" "\<forall>d. r2 = Some d \<longrightarrow> length d + 2 * m' \<le> i' - 2"
        using crlf by blast
      then show ?thesis unfolding step using esc is_eq soft c1 r Some ip q True mm by (auto simp: qp_consts qp_good_def)
    next
      case False
      then show ?thesis unfolding step using esc is_eq soft c1 r Some ip q r1 mm by (auto simp: qp_consts qp_good_def)
    qed
  qed
qed

lemma qp_decode_loop_ok:
  "p + i = length s \<Longrightarrow> qp_size (cstr s) p i n \<Longrightarrow> qp_good s us p i n"
proof (induction i arbitrary: p n rule: less_induct)
  case (less i)
  note un = qp_size_unique [OF less.prems(2)]
  have n: "2 * n \<le> i" using less.prems(2) by (simp add: qp_size_def)
  obtain c where c: "nth_opt (cstr s) p = Some c" using nth_opt_cstr less.prems(1) by (metis le_add1)
  note step = qp_good_def [of s us p i] qp_decode_loop.simps [of "cstr s" us p i]
  consider (stop) "i = 0 \<or> c = 0 \<or> (c = 61 \<and> i = 1)" | (plain) j where "i = Suc j" "c \<noteq> 0" "c \<noteq> 61"
    | (esc) j where "i = Suc (Suc j)" "c = 61"
    by (metis One_nat_def not0_implies_Suc)
  then show ?case
  proof cases
    case stop
    then show ?thesis unfolding step using n c by (auto simp: qp_consts)
  next
    case (plain j)
    obtain m where m: "qp_size (cstr s) (p + 1) j m" using qp_size_exists [of "p + 1" j s] less.prems(1) plain by auto
    have "m = n" using qp_size_step [OF c plain(2,3) m] un plain(1) by blast
    then have "qp_good s us (p + 1) j n" using less.IH [of j "p + 1" m] less.prems(1) plain m by auto
    then show ?thesis unfolding step using plain c by (auto simp: qp_consts qp_good_def)
  next
    case (esc j)
    obtain m where m: "qp_size (cstr s) (p + 2) j m" using qp_size_exists [of "p + 2" j s] less.prems(1) esc by auto
    then have "qp_size (cstr s) p i (Suc m)" using c esc by (auto simp: qp_size_def)
    then have nm: "n = Suc m" using un by blast
    have mj: "2 * m \<le> j" using m by (simp add: qp_size_def)
    obtain c1 where c1: "nth_opt (cstr s) (Suc p) = Some c1" using nth_opt_cstr [of "Suc p" s] less.prems(1) esc by auto
    note eq = c [unfolded esc(2)]
    consider "c1 = 0 \<or> qp_hexval c1 \<ge> 64" | "c1 \<noteq> 0" "qp_hexval c1 < 16" | "c1 \<noteq> 0" "16 \<le> qp_hexval c1" "qp_hexval c1 < 64"
      by linarith
    then show ?thesis
    proof cases
      case 1
      then show ?thesis unfolding step using esc c c1 mj nm by (auto simp: qp_consts)
    next
      case 2
      show ?thesis unfolding nm by (rule qp_decode_hex [OF less.IH less.prems(1) eq esc(1) m c1 2])
    next
      case 3
      show ?thesis unfolding nm by (rule qp_decode_soft [OF less.IH less.prems(1) eq esc(1) m c1 3])
    qed
  qed
qed

lemma qp_blanks_ok: "k \<le> length s \<Longrightarrow> \<exists>k'. qp_blanks (cstr s) k = Some k' \<and> k \<le> k' \<and> k' \<le> length s"
proof (induction "length s - k" arbitrary: k)
  case 0
  then have "nth_opt (cstr s) k = Some 0" by (auto simp: nth_opt_def cstr_def nth_append)
  then show ?case using 0 by (subst qp_blanks.simps) simp
next
  case (Suc m)
  obtain c where c: "nth_opt (cstr s) k = Some c" using nth_opt_cstr Suc.prems by blast
  have "\<exists>k'. qp_blanks (cstr s) (Suc k) = Some k' \<and> Suc k \<le> k' \<and> k' \<le> length s" using Suc.hyps by auto
  then show ?case using c Suc.prems by (subst qp_blanks.simps) auto
qed

lemma qp_line_end_ok:
  assumes "k \<le> length s"
  shows "\<exists>r. qp_line_end (cstr s) k = Some r \<and> (\<forall>k'. r = Some k' \<longrightarrow> k \<le> k' \<and> k' \<le> length s)"
proof -
  obtain c where c: "nth_opt (cstr s) k = Some c" using nth_opt_cstr assms by blast
  show ?thesis
  proof (cases "c = 0")
    case False
    then have k: "Suc k \<le> length s" using nth_opt_cstr_end [OF c] by auto
    obtain c' where c': "nth_opt (cstr s) (Suc k) = Some c'" using nth_opt_cstr k by blast
    have "c' \<noteq> 0 \<Longrightarrow> Suc (Suc k) \<le> length s" using nth_opt_cstr_end [OF c'] by auto
    then show ?thesis using False c c' k by (auto simp: qp_line_end_def)
  qed (use c assms in \<open>auto simp: qp_line_end_def\<close>)
qed

lemma quoted_printable_decode_loop_ok:
  "p \<le> length s \<Longrightarrow> \<exists>d. quoted_printable_decode_loop (cstr s) p = Some d \<and> length d + p \<le> length s"
proof (induction "length s - p" arbitrary: p rule: less_induct)
  case less
  obtain c where c: "nth_opt (cstr s) p = Some c" using nth_opt_cstr less.prems by blast
  note step = quoted_printable_decode_loop.simps [of "cstr s" p]
  show ?case
  proof (cases "c = 0")
    case True
    then show ?thesis unfolding step using c less.prems by auto
  next
    case False
    then have p: "p < length s" using nth_opt_cstr_end [OF c] by blast
    have IH: "\<exists>d. quoted_printable_decode_loop (cstr s) q = Some d \<and> length d + q \<le> length s" if "p < q" "q \<le> length s" for q
      using less.hyps [of q] diff_less_mono2 [OF that(1) p] that(2) by blast
    obtain d0 where d0: "quoted_printable_decode_loop (cstr s) (Suc p) = Some d0" "length d0 + Suc p \<le> length s"
      using IH [of "Suc p"] p by auto
    show ?thesis
    proof (cases "c = 61")
      case plain: False
      then show ?thesis unfolding step using False c d0 by (simp add: qp_consts)
    next
      case esc: True
      obtain c1 where c1: "nth_opt (cstr s) (Suc p) = Some c1" using nth_opt_cstr [of "Suc p" s] p by auto
      have end1: "c1 \<noteq> 0 \<Longrightarrow> Suc p < length s" using nth_opt_cstr_end [OF c1] by blast
      then have c2: "c1 \<noteq> 0 \<Longrightarrow> \<exists>c2. nth_opt (cstr s) (Suc (Suc p)) = Some c2" using nth_opt_cstr [of "Suc (Suc p)" s] by auto
      obtain k where k: "qp_blanks (cstr s) (Suc p) = Some k" "Suc p \<le> k" "k \<le> length s"
        using qp_blanks_ok [of "Suc p" s] p by auto
      obtain r where r: "qp_line_end (cstr s) k = Some r" "\<And>q. r = Some q \<Longrightarrow> k \<le> q \<and> q \<le> length s"
        using qp_line_end_ok [OF k(3)] by auto
      show ?thesis
      proof (cases "c1 \<noteq> 0 \<and> nth_opt (cstr s) (Suc (Suc p)) \<noteq> Some 0 \<and> isxdigit c1 \<and> isxdigit (the (nth_opt (cstr s) (Suc (Suc p))))")
        case True
        then obtain c2' where "nth_opt (cstr s) (Suc (Suc p)) = Some c2'" "c2' \<noteq> 0" using c2 by auto
        then have "p + 3 \<le> length s" using nth_opt_cstr_end by fastforce
        then obtain d where "quoted_printable_decode_loop (cstr s) (p + 3) = Some d" "length d + (p + 3) \<le> length s"
          using IH [of "p + 3"] by auto
        then show ?thesis unfolding step using True c c1 esc c2 by (auto simp: qp_consts)
      next
        case no: False
        have eq: "quoted_printable_decode_loop (cstr s) p =
          (case r of Some q \<Rightarrow> quoted_printable_decode_loop (cstr s) q | None \<Rightarrow> map_option (Cons c) (quoted_printable_decode_loop (cstr s) (p + 1)))"
          unfolding step using no c c1 esc c2 k(1) r(1) by (auto simp: qp_consts)
        show ?thesis
        proof (cases r)
          case None
          then show ?thesis using eq d0 by simp
        next
          case (Some q)
          then have "p < q" "q \<le> length s" using r(2) k by auto
          with IH [OF this] eq Some show ?thesis by (auto intro: order_trans [rotated])
        qed
      qed
    qed
  qed
qed

subsection \<open>Properties\<close>


text \<open>C17: no line of an encoding is longer than the 76 characters RFC 2045 allows, soft line break
  included.\<close>

theorem quoted_printable_line_length:
  assumes "php_quot_print_encode str len = Some e"
  shows "\<forall>l \<in> set (line_lengths 0 e). l \<le> 76"
  using qp_encode_lines [of str 0 len 0 e] assms by (simp add: php_quot_print_encode_def)

theorem quoted_printable_line_length_witness:
  "\<exists>e. php_quot_print_encode (cstr (replicate 80 65)) 80 = Some e \<and> length e = 83 \<and> (\<forall>l \<in> set (line_lengths 0 e). l \<le> 76)"
proof -
  have e: "php_quot_print_encode (cstr (replicate 80 65)) 80 = Some (replicate 75 65 @ [61, 13, 10] @ replicate 5 65)"
    by code_simp
  show ?thesis using quoted_printable_line_length [OF e] e by (intro exI conjI) simp_all
qed



end
