(* ===== verification/Url.thy ===== *)
theory Url
  imports Bytes
begin

unbundle bit_operations_syntax

text \<open>
  The percent encodings of \<open>ext/standard/url.c\<close>. The encoders write into a fresh block of
  \<open>3 * len + 1\<close> bytes from left to right. The decoders work in place: the buffer is a list that
  is updated while it is read further to the right.
\<close>

definition hexchars :: "byte \<Rightarrow> byte" where
  "hexchars d = ascii ''0123456789ABCDEF'' ! unat d"

text \<open>One hexadecimal digit of \<open>php_htoi\<close>; the arithmetic is done in \<open>int\<close>.\<close>

definition htoi_digit :: "byte \<Rightarrow> int" where
  "htoi_digit s =
     (let c = uint (if isupper s then tolower s else s)
      in if 48 \<le> c \<and> c \<le> 57 then c - 48 else c - 97 + 10)"

definition php_htoi :: "byte \<Rightarrow> byte \<Rightarrow> int" where
  "php_htoi s0 s1 = htoi_digit s0 * 16 + htoi_digit s1"

text \<open>The character comparisons of the two encoders.\<close>

definition url_escaped :: "byte \<Rightarrow> bool" where
  "url_escaped c \<longleftrightarrow>
     (c < 48 \<and> c \<noteq> 45 \<and> c \<noteq> 46) \<or> (c < 65 \<and> c > 57) \<or> (c > 90 \<and> c < 97 \<and> c \<noteq> 95) \<or> c > 122"

definition raw_url_escaped :: "byte \<Rightarrow> bool" where
  "raw_url_escaped c \<longleftrightarrow>
     (c < 48 \<and> c \<noteq> 45 \<and> c \<noteq> 46) \<or> (c < 65 \<and> c > 57) \<or> (c > 90 \<and> c < 97 \<and> c \<noteq> 95) \<or> (c > 122 \<and> c \<noteq> 126)"

fun php_url_encode :: "byte list \<Rightarrow> byte list" where
  "php_url_encode [] = []"
| "php_url_encode (c # from) =
     (if c = c8 CHR '' '' then c8 CHR ''+'' # php_url_encode from
      else if url_escaped c
      then c8 CHR ''%'' # hexchars (drop_bit 4 c) # hexchars (c AND 15) # php_url_encode from
      else c # php_url_encode from)"

fun php_raw_url_encode :: "byte list \<Rightarrow> byte list" where
  "php_raw_url_encode [] = []"
| "php_raw_url_encode (c # s) =
     (if raw_url_escaped c
      then c8 CHR ''%'' # hexchars (drop_bit 4 c) # hexchars (c AND 15) # php_raw_url_encode s
      else c # php_raw_url_encode s)"

text \<open>The loop \<open>while (len--)\<close> of both decoders over the string \<open>str\<close>; only \<open>php_url_decode\<close>
  (\<open>form\<close>) treats \<open>+\<close> specially. At the end the terminator is written at \<open>dest\<close>.\<close>

fun url_decode_loop :: "bool \<Rightarrow> byte list \<Rightarrow> nat \<Rightarrow> nat \<Rightarrow> nat \<Rightarrow> (nat \<times> byte list) option" where
  "url_decode_loop form str data dest 0 = do { str \<leftarrow> upd_opt str dest 0; Some (dest, str) }"
| "url_decode_loop form str data dest (Suc len) =
     (case nth_opt str data of
        None \<Rightarrow> None
      | Some c \<Rightarrow>
          if form \<and> c = c8 CHR ''+'' then
            case upd_opt str dest (c8 CHR '' '') of None \<Rightarrow> None
            | Some str \<Rightarrow> url_decode_loop form str (data + 1) (dest + 1) len
          else if c = c8 CHR ''%'' \<and> len \<ge> 2 then
            case nth_opt str (data + 1) of None \<Rightarrow> None
            | Some c1 \<Rightarrow>
              case nth_opt str (data + 2) of None \<Rightarrow> None
              | Some c2 \<Rightarrow>
                if isxdigit c1 \<and> isxdigit c2 then
                  case upd_opt str dest (word_of_int (php_htoi c1 c2)) of None \<Rightarrow> None
                  | Some str \<Rightarrow> url_decode_loop form str (data + 3) (dest + 1) (len - 2)
                else case upd_opt str dest c of None \<Rightarrow> None
                  | Some str \<Rightarrow> url_decode_loop form str (data + 1) (dest + 1) len
          else case upd_opt str dest c of None \<Rightarrow> None
            | Some str \<Rightarrow> url_decode_loop form str (data + 1) (dest + 1) len)"

definition php_url_decode :: "byte list \<Rightarrow> nat \<Rightarrow> (nat \<times> byte list) option" where
  "php_url_decode str len = url_decode_loop True str 0 0 len"

definition php_raw_url_decode :: "byte list \<Rightarrow> nat \<Rightarrow> (nat \<times> byte list) option" where
  "php_raw_url_decode str len = url_decode_loop False str 0 0 len"

subsection \<open>The decoders without the buffer\<close>

text \<open>What the in-place loops compute, as a function of the encoded text.\<close>

function url_decoded :: "bool \<Rightarrow> byte list \<Rightarrow> byte list" where
  "url_decoded form [] = []"
| "url_decoded form (c # cs) =
     (if form \<and> c = 43 then 32 # url_decoded form cs
      else if c = 37 \<and> length cs \<ge> 2 \<and> isxdigit (cs ! 0) \<and> isxdigit (cs ! 1)
      then word_of_int (php_htoi (cs ! 0) (cs ! 1)) # url_decoded form (drop 2 cs)
      else c # url_decoded form cs)"
  by pat_completeness auto
termination
  by (relation "measure (length \<circ> snd)") auto

lemma length_url_decoded: "length (url_decoded form cs) \<le> length cs"
  by (induction form cs rule: url_decoded.induct) auto

text \<open>Writing at or in front of the read cursor does not change what is still to be read.\<close>

lemma url_write_behind:
  assumes "dest \<le> data" "data < length str" "drop data str = c # cs"
  shows "\<exists>str'. upd_opt str dest v = Some str' \<and> length str' = length str \<and> drop (Suc data) str' = cs \<and>
    take (Suc dest) str' = take dest str @ [v]"
  using assms nth_opt_suffix(2) [OF assms(3)]
  by (auto simp: upd_opt_def take_Suc_conv_app_nth)

lemma url_consts: "c8 CHR '' '' = 32" "c8 CHR ''+'' = 43" "c8 CHR ''%'' = 37"
  by simp_all

lemma url_decode_loop_eq:
  assumes "dest \<le> data" "drop data str = cs @ [t]"
  shows "\<exists>str'. url_decode_loop form str data dest (length cs) = Some (dest + length (url_decoded form cs), str') \<and>
    length str' = length str \<and>
    take (Suc (dest + length (url_decoded form cs))) str' = take dest str @ url_decoded form cs @ [0]"
  using assms
proof (induction "length cs" arbitrary: cs str data dest rule: less_induct)
  case less
  have data: "data < length str" using less.prems(2) by (metis drop_all not_le_imp_less snoc_eq_iff_butlast)
  show ?case
  proof (cases cs)
    case Nil
    then show ?thesis using less.prems data by (auto simp: upd_opt_def take_Suc_conv_app_nth)
  next
    case (Cons c xs)
    have d: "drop data str = c # xs @ [t]" using less.prems(2) Cons by simp
    obtain str1 where w: "upd_opt str dest v = Some (str1 v)" "length (str1 v) = length str"
      "drop (Suc data) (str1 v) = xs @ [t]" "take (Suc dest) (str1 v) = take dest str @ [v]" for v
      using url_write_behind [OF less.prems(1) data d] by metis
    have IH: "\<exists>str'. url_decode_loop form (str1 v) (Suc data) (Suc dest) (length xs) = Some (Suc (dest + length (url_decoded form xs)), str') \<and>
      length str' = length str \<and>
      take (Suc (Suc (dest + length (url_decoded form xs)))) str' = take dest str @ v # url_decoded form xs @ [0]" for v
      using less.hyps [of xs "Suc dest" "Suc data" "str1 v"] less.prems(1) Cons w [of v] by auto
    show ?thesis
    proof (cases "c = 37 \<and> length xs \<ge> 2")
      case False
      then show ?thesis
        using Cons IH by (auto simp: nth_opt_suffix(1) [OF d] url_consts w(1))
    next
      case True
      then obtain c1 c2 ys where ys: "xs = c1 # c2 # ys" by (auto simp: numeral_2_eq_2 Suc_le_length_iff)
      have d': "drop data str = c # c1 # c2 # ys @ [t]" using d ys by simp
      have d1: "drop (Suc data) (str1 v) = c1 # c2 # ys @ [t]" for v using w(3) ys by simp
      have p3: "data + 3 = Suc (Suc (Suc data))" by simp
      note n = nth_opt_suffix2(1) [OF d'] nth_opt_suffix2(2) [OF d'] nth_opt_suffix(2) [OF nth_opt_suffix(2) [OF d1]]
      have IH3: "\<exists>str'. url_decode_loop form (str1 v) (data + 3) (Suc dest) (length ys) = Some (Suc (dest + length (url_decoded form ys)), str') \<and>
        length str' = length str \<and>
        take (Suc (Suc (dest + length (url_decoded form ys)))) str' = take dest str @ v # url_decoded form ys @ [0]" for v
        using less.hyps [of ys "Suc dest" "Suc (Suc (Suc data))" "str1 v"] less.prems(1) Cons w [of v] n(3) ys
        by (auto simp: p3)
      show ?thesis
        using True Cons IH IH3 ys by (auto simp: nth_opt_suffix(1) [OF d] n(1,2) url_consts w(1))
    qed
  qed
qed

lemma url_nibble_digit:
  assumes "x < 16"
  shows "isxdigit (hexchars x) \<and> htoi_digit (hexchars x) = uint x"
proof -
  have "unat x \<in> set [0..<16]" using assms by (simp add: word_less_nat_alt)
  moreover have "list_all (\<lambda>n. isxdigit (hexchars (word_of_nat n)) \<and> htoi_digit (hexchars (word_of_nat n)) = int n) [0..<16]"
    by code_simp
  ultimately have "isxdigit (hexchars (word_of_nat (unat x))) \<and> htoi_digit (hexchars (word_of_nat (unat x))) = int (unat x)"
    by (simp only: list_all_iff simp_thms)
  then show ?thesis by simp
qed

lemma php_htoi_digits: "word_of_int (php_htoi (hexchars (drop_bit 4 c)) (hexchars (c AND 15))) = (c :: byte)"
proof -
  have "word_of_int (php_htoi (hexchars (drop_bit 4 c)) (hexchars (c AND 15))) = drop_bit 4 c * 16 + (c AND 15)"
    by (simp add: php_htoi_def url_nibble_digit [OF nibble_less(1)] url_nibble_digit [OF nibble_less(2)] del: uint_and)
  also have "\<dots> = push_bit 4 (drop_bit 4 c) + (c AND 15)" by (simp add: push_bit_eq_mult)
  finally show ?thesis by (simp only: nibbles)
qed

lemma url_decoded_encoded: "url_decoded True (php_url_encode s) = s"
  by (induction s)
    (auto simp: url_consts php_htoi_digits url_nibble_digit [OF nibble_less(1)] url_nibble_digit [OF nibble_less(2)] url_escaped_def)

lemma url_decoded_raw_encoded: "url_decoded False (php_raw_url_encode s) = s"
  by (induction s)
    (auto simp: url_consts php_htoi_digits url_nibble_digit [OF nibble_less(1)] url_nibble_digit [OF nibble_less(2)] raw_url_escaped_def)

subsection \<open>Properties\<close>

text \<open>The characters an encoding may contain.\<close>

definition url_safe :: "byte \<Rightarrow> bool" where
  "url_safe c \<longleftrightarrow> isalpha c \<or> isdigit c \<or> c \<in> set (ascii ''-_.'')"

lemma hexchars_safe: "x < 16 \<Longrightarrow> url_safe (hexchars x)"
  using url_nibble_digit [of x] by (auto simp: url_safe_def isxdigit_def isalpha_def isupper_def islower_def word_le_nat_alt)

lemma unescaped_safe: "\<not> url_escaped c \<Longrightarrow> url_safe c" "\<not> raw_url_escaped c \<Longrightarrow> url_safe c \<or> c = 126"
  by (auto simp: url_escaped_def raw_url_escaped_def url_safe_def isalpha_def isupper_def islower_def isdigit_def ascii_def not_less)

lemma encoded_safe:
  "c \<in> set (php_url_encode s) \<Longrightarrow> url_safe c \<or> c = 43 \<or> c = 37"
  "c \<in> set (php_raw_url_encode s) \<Longrightarrow> url_safe c \<or> c = 126 \<or> c = 37"
  by (induction s) (auto simp: url_consts hexchars_safe nibble_less dest: unescaped_safe split: if_splits)

lemma encoded_length: "length (php_url_encode s) \<le> 3 * length s" "length (php_raw_url_encode s) \<le> 3 * length s"
  by (induction s) auto


text \<open>C20: the in-place loops never read or write outside the string, on any input, and compute the
  decoding defined without the buffer.\<close>

theorem url_decode_in_place:
  "\<exists>str1 str2. php_url_decode (cstr s) (length s) = Some (length (url_decoded True s), str1) \<and>
     take (length (url_decoded True s)) str1 = url_decoded True s \<and>
     php_raw_url_decode (cstr s) (length s) = Some (length (url_decoded False s), str2) \<and>
     take (length (url_decoded False s)) str2 = url_decoded False s \<and>
     length str1 = length (cstr s) \<and> length str2 = length (cstr s)"
proof -
  have prefix: "take n xs = ys" if "take (Suc n) xs = ys @ [0]" "length ys = n" for n and xs ys :: "byte list"
  proof -
    have "take n (take (Suc n) xs) = ys" using that by simp
    then show ?thesis by (simp add: min_def)
  qed
  show ?thesis
    using url_decode_loop_eq [of 0 0 "cstr s" s 0 True] url_decode_loop_eq [of 0 0 "cstr s" s 0 False]
    by (auto simp: php_url_decode_def php_raw_url_decode_def cstr_def intro: prefix)
qed

end
