(* ===== verification/Url_Parse.thy ===== *)
theory Url_Parse
  imports Bytes
begin

text \<open>
  \<open>php_url_parse_ex\<close> of \<open>ext/standard/url.c\<close>, the parser behind \<open>parse_url()\<close>.

  Pointers into the string are indices. A read outside of the buffer, \<open>str[-1]\<close> included, and a
  search or copy with a negative size have no result. The \<open>goto\<close> targets \<open>parse_port\<close>,
  \<open>just_path\<close>, \<open>nohost\<close> and \<open>label_parse\<close> are definitions of their own, applied to the
  variables that are live there. \<open>NULL\<close> is \<open>Some None\<close>.
\<close>

record php_url =
  u_scheme :: "byte list option"
  u_user :: "byte list option"
  u_pass :: "byte list option"
  u_host :: "byte list option"
  u_port :: nat
  u_path :: "byte list option"
  u_query :: "byte list option"
  u_fragment :: "byte list option"

definition url_calloc :: php_url where
  "url_calloc = \<lparr>u_scheme = None, u_user = None, u_pass = None, u_host = None, u_port = 0,
     u_path = None, u_query = None, u_fragment = None\<rparr>"

subsection \<open>The string functions it calls\<close>

fun find_first :: "byte \<Rightarrow> byte list \<Rightarrow> nat option" where
  "find_first c [] = None"
| "find_first c (x # xs) = (if x = c then Some 0 else map_option Suc (find_first c xs))"

fun find_last :: "byte \<Rightarrow> byte list \<Rightarrow> nat option" where
  "find_last c [] = None"
| "find_last c (x # xs) = (case find_last c xs of Some i \<Rightarrow> Some (Suc i) | None \<Rightarrow> if x = c then Some 0 else None)"

text \<open>The \<open>hi - lo\<close> bytes at \<open>lo\<close>.\<close>

definition span :: "byte list \<Rightarrow> nat \<Rightarrow> nat \<Rightarrow> byte list option" where
  "span str lo hi = (if lo \<le> hi \<and> hi \<le> length str then Some (take (hi - lo) (drop lo str)) else None)"

definition memchr :: "byte list \<Rightarrow> nat \<Rightarrow> byte \<Rightarrow> nat \<Rightarrow> nat option option" where
  "memchr str s c e = map_option (\<lambda>xs. map_option (\<lambda>i. s + i) (find_first c xs)) (span str s e)"

definition zend_memrchr :: "byte list \<Rightarrow> nat \<Rightarrow> byte \<Rightarrow> nat \<Rightarrow> nat option option" where
  "zend_memrchr str s c e = map_option (\<lambda>xs. map_option (\<lambda>i. s + i) (find_last c xs)) (span str s e)"

text \<open>\<open>strchr\<close> looks no further than the first 0 from \<open>s\<close> on.\<close>

definition strchr :: "byte list \<Rightarrow> nat \<Rightarrow> byte \<Rightarrow> nat option option" where
  "strchr str s c =
     (case find_first 0 (drop s str) of
        None \<Rightarrow> None
      | Some n \<Rightarrow> Some (map_option (\<lambda>i. s + i) (find_first c (take n (drop s str)))))"

definition php_replace_controlchars_ex :: "byte list \<Rightarrow> byte list" where
  "php_replace_controlchars_ex = map (\<lambda>c. if iscntrl c then c8 CHR ''_'' else c)"

text \<open>\<open>estrndup\<close> followed by \<open>php_replace_controlchars_ex\<close>.\<close>

definition url_dup :: "byte list \<Rightarrow> nat \<Rightarrow> nat \<Rightarrow> byte list option" where
  "url_dup str lo hi = map_option php_replace_controlchars_ex (span str lo hi)"

text \<open>\<open>strtol(buf, NULL, 10)\<close> of at most five characters.\<close>

fun strtol_digits :: "int \<Rightarrow> byte list \<Rightarrow> int" where
  "strtol_digits v [] = v"
| "strtol_digits v (c # cs) = (if isdigit c then strtol_digits (v * 10 + (uint c - 48)) cs else v)"

definition strtol :: "byte list \<Rightarrow> int" where
  "strtol buf =
     (case dropWhile isspace buf of
        [] \<Rightarrow> 0
      | c # cs \<Rightarrow> if c = 45 then - strtol_digits 0 cs else if c = 43 then strtol_digits 0 cs else strtol_digits 0 (c # cs))"

text \<open>\<open>while (isdigit(*p)) p++\<close>, with at most \<open>n\<close> rounds.\<close>

fun skip_digits :: "byte list \<Rightarrow> nat \<Rightarrow> nat \<Rightarrow> nat option" where
  "skip_digits str p 0 = Some p"
| "skip_digits str p (Suc n) =
     (case nth_opt str p of None \<Rightarrow> None | Some c \<Rightarrow> if isdigit c then skip_digits str (Suc p) n else Some p)"

subsection \<open>Path, query and fragment\<close>

text \<open>A component is only set when it is not empty.\<close>

definition url_part :: "byte list \<Rightarrow> nat \<Rightarrow> nat \<Rightarrow> byte list option option" where
  "url_part str lo hi = (if hi = lo then Some None else map_option Some (url_dup str lo hi))"

definition url_label_parse :: "byte list \<Rightarrow> nat \<Rightarrow> nat \<Rightarrow> php_url \<Rightarrow> php_url option option" where
  "url_label_parse str p ue ret =
     do { f \<leftarrow> url_part str (p + 1) ue; Some (Some (ret\<lparr>u_fragment := f\<rparr>)) }"

definition url_nohost :: "byte list \<Rightarrow> nat \<Rightarrow> nat \<Rightarrow> php_url \<Rightarrow> php_url option option" where
  "url_nohost str s ue ret =
     do {
       q \<leftarrow> memchr str s (c8 CHR ''?'') ue;
       case q of
         Some p \<Rightarrow> do {
           h \<leftarrow> strchr str s (c8 CHR ''#'');
           case h of
             Some pp \<Rightarrow>
               if pp < p then do {
                 path \<leftarrow> url_part str s pp;
                 url_label_parse str pp ue (ret\<lparr>u_path := path\<rparr>)
               }
               else do {
                 path \<leftarrow> url_part str s p;
                 query \<leftarrow> url_part str (p + 1) pp;
                 url_label_parse str pp ue (ret\<lparr>u_path := path, u_query := query\<rparr>)
               }
           | None \<Rightarrow> do {
               path \<leftarrow> url_part str s p;
               query \<leftarrow> url_part str (p + 1) ue;
               Some (Some (ret\<lparr>u_path := path, u_query := query\<rparr>))
             }
         }
       | None \<Rightarrow> do {
           h \<leftarrow> memchr str s (c8 CHR ''#'') ue;
           case h of
             Some p \<Rightarrow> do {
               path \<leftarrow> url_part str s p;
               url_label_parse str p ue (ret\<lparr>u_path := path\<rparr>)
             }
           | None \<Rightarrow> do {
               path \<leftarrow> url_dup str s ue;
               Some (Some (ret\<lparr>u_path := Some path\<rparr>))
             }
         }
     }"

text \<open>\<open>ue = s + length\<close> is the end of the string again.\<close>

definition url_just_path :: "byte list \<Rightarrow> nat \<Rightarrow> nat \<Rightarrow> php_url \<Rightarrow> php_url option option" where
  "url_just_path str s len ret = url_nohost str s (s + len) ret"

subsection \<open>User, password, host and port\<close>

text \<open>Where the authority ends.\<close>

definition url_authority_end :: "byte list \<Rightarrow> nat \<Rightarrow> nat \<Rightarrow> nat option" where
  "url_authority_end str s ue =
     do {
       p \<leftarrow> memchr str s (c8 CHR ''/'') ue;
       case p of
         Some p \<Rightarrow> Some p
       | None \<Rightarrow> do {
           query \<leftarrow> memchr str s (c8 CHR ''?'') ue;
           fragment \<leftarrow> memchr str s (c8 CHR ''#'') ue;
           Some (case (query, fragment) of
             (Some q, Some f) \<Rightarrow> if q > f then f else q
           | (Some q, None) \<Rightarrow> q
           | (None, Some f) \<Rightarrow> f
           | (None, None) \<Rightarrow> ue)
         }
     }"

definition url_login :: "byte list \<Rightarrow> nat \<Rightarrow> nat \<Rightarrow> php_url \<Rightarrow> (nat \<times> php_url) option" where
  "url_login str s e ret =
     do {
       at \<leftarrow> zend_memrchr str s (c8 CHR ''@'') e;
       case at of
         None \<Rightarrow> Some (s, ret)
       | Some p \<Rightarrow> do {
           colon \<leftarrow> memchr str s (c8 CHR '':'') p;
           ret \<leftarrow> (case colon of
             Some pp \<Rightarrow> do {
               user \<leftarrow> url_part str s pp;
               pass \<leftarrow> url_part str (pp + 1) p;
               Some (ret\<lparr>u_user := user, u_pass := pass\<rparr>)
             }
           | None \<Rightarrow> do { user \<leftarrow> url_dup str s p; Some (ret\<lparr>u_user := Some user\<rparr>) });
           Some (p + 1, ret)
         }
     }"

text \<open>\<open>for(p = e; *p != ':' && p >= s; p--);\<close>: the byte is read before the bound is checked, so
  when no colon is found \<open>s[-1]\<close> is read too. The result is the colon, if there is one at or
  behind \<open>s\<close>.\<close>

fun url_find_colon :: "byte list \<Rightarrow> nat \<Rightarrow> nat \<Rightarrow> nat option option" where
  "url_find_colon str s p =
     (case nth_opt str p of
        None \<Rightarrow> None
      | Some c \<Rightarrow>
          if c = c8 CHR '':'' then Some (if p \<ge> s then Some p else None)
          else if p < s then Some None
          else if p = 0 then None
          else url_find_colon str s (p - 1))"

declare url_find_colon.simps [simp del]

definition url_host :: "byte list \<Rightarrow> nat \<Rightarrow> nat \<Rightarrow> php_url \<Rightarrow> php_url option option" where
  "url_host str s ue ret =
     do {
       e \<leftarrow> url_authority_end str s ue;
       (s, ret) \<leftarrow> url_login str s e ret;
       first \<leftarrow> nth_opt str s;
       ipv6 \<leftarrow> (if first = c8 CHR ''['' then
                 if e = 0 then None else map_option (\<lambda>c. c = c8 CHR '']'') (nth_opt str (e - 1))
               else Some False);
       colon \<leftarrow> (if ipv6 then Some None else url_find_colon str s e);
       r \<leftarrow> (case colon of
               Some p \<Rightarrow>
                 if u_port ret = 0 then
                   if int e - int (p + 1) > 5 then Some None
                   else if p + 1 < e then do {
                     buf \<leftarrow> span str (p + 1) e;
                     let port = strtol buf;
                     Some (if port > 0 \<and> port \<le> 65535 then Some (p, ret\<lparr>u_port := nat port\<rparr>) else None)
                   }
                   else Some (Some (p, ret))
                 else Some (Some (p, ret))
             | None \<Rightarrow> Some (Some (e, ret)));
       case r of
         None \<Rightarrow> Some None
       | Some (p, ret) \<Rightarrow>
           if int p - int s < 1 then Some None
           else do {
             host \<leftarrow> url_dup str s p;
             let ret = ret\<lparr>u_host := Some host\<rparr>;
             if e = ue then Some (Some ret) else url_nohost str e ue ret
           }
     }"

definition url_parse_port :: "byte list \<Rightarrow> nat \<Rightarrow> nat \<Rightarrow> nat \<Rightarrow> nat \<Rightarrow> php_url \<Rightarrow> php_url option option" where
  "url_parse_port str s e ue len ret =
     do {
       let p = e + 1;
       pp \<leftarrow> skip_digits str p 6;
       c \<leftarrow> nth_opt str pp;
       if pp - p > 0 \<and> pp - p < 6 \<and> (c = c8 CHR ''/'' \<or> c = 0) then do {
         buf \<leftarrow> span str p pp;
         let port = strtol buf;
         if port > 0 \<and> port \<le> 65535 then url_host str s ue (ret\<lparr>u_port := nat port\<rparr>) else Some None
       }
       else if p = pp \<and> c = 0 then Some None
       else url_just_path str s len ret
     }"

subsection \<open>Scheme\<close>

definition scheme_char :: "byte \<Rightarrow> bool" where
  "scheme_char c \<longleftrightarrow> isalpha c \<or> isdigit c \<or> c = c8 CHR ''+'' \<or> c = c8 CHR ''.'' \<or> c = c8 CHR ''-''"

text \<open>\<open>!strncasecmp("file", scheme, sizeof("file"))\<close> compares the terminators too.\<close>

definition is_file_scheme :: "byte list \<Rightarrow> bool" where
  "is_file_scheme scheme \<longleftrightarrow> map tolower scheme = ascii ''file''"

definition php_url_parse_ex :: "byte list \<Rightarrow> nat \<Rightarrow> php_url option option" where
  "php_url_parse_ex str len =
     do {
       let ret = url_calloc;
       let s = 0;
       let ue = s + len;
       e \<leftarrow> memchr str s (c8 CHR '':'') ue;
       case e of
         None \<Rightarrow> url_just_path str s len ret
       | Some e \<Rightarrow>
           if e = s then url_parse_port str s e ue len ret
           else do {
             name \<leftarrow> span str s e;
             if \<not> list_all scheme_char name then
               if e + 1 < ue then url_parse_port str s e ue len ret else url_just_path str s len ret
             else do {
               c1 \<leftarrow> nth_opt str (e + 1);
               scheme \<leftarrow> url_dup str s e;
               if c1 = 0 then Some (Some (ret\<lparr>u_scheme := Some scheme\<rparr>))
               else if c1 \<noteq> c8 CHR ''/'' then do {
                 p \<leftarrow> skip_digits str (e + 1) (length str);
                 c \<leftarrow> nth_opt str p;
                 if (c = 0 \<or> c = c8 CHR ''/'') \<and> p - e < 7 then url_parse_port str s e ue len ret
                 else url_just_path str (e + 1) (len - (e + 1 - s)) (ret\<lparr>u_scheme := Some scheme\<rparr>)
               }
               else do {
                 let ret = ret\<lparr>u_scheme := Some scheme\<rparr>;
                 c2 \<leftarrow> nth_opt str (e + 2);
                 if c2 = c8 CHR ''/'' then
                   if is_file_scheme scheme then do {
                     c3 \<leftarrow> nth_opt str (e + 3);
                     if c3 = c8 CHR ''/'' then do {
                       c5 \<leftarrow> nth_opt str (e + 5);
                       url_nohost str (if c5 = c8 CHR '':'' then e + 4 else e + 3) ue ret
                     }
                     else url_host str (e + 3) ue ret
                   }
                   else url_host str (e + 3) ue ret
                 else if is_file_scheme scheme then url_nohost str (e + 1) ue ret
                 else url_just_path str (e + 1) (len - (e + 1 - s)) ret
               }
             }
           }
     }"

definition php_url_parse :: "byte list \<Rightarrow> php_url option option" where
  "php_url_parse str =
     (case find_first 0 str of None \<Rightarrow> None | Some n \<Rightarrow> php_url_parse_ex str n)"

subsection \<open>Searching in a string given by its pieces\<close>

lemma find_first_append: "c \<notin> set a \<Longrightarrow> find_first c (a @ c # b) = Some (length a)"
  by (induction a) auto

lemma find_first_None: "find_first c a = None \<longleftrightarrow> c \<notin> set a"
  by (induction a) auto

lemma find_last_None: "find_last c a = None \<longleftrightarrow> c \<notin> set a"
  by (induction a) (auto split: option.splits)

lemma find_last_append: "c \<notin> set b \<Longrightarrow> find_last c (a @ c # b) = Some (length a)"
proof (induction a)
  case Nil
  then have "find_last c b = None" by (simp add: find_last_None)
  then show ?case by simp
qed simp

lemma span_piece: "drop lo str = a @ b \<Longrightarrow> hi = lo + length a \<Longrightarrow> lo \<le> length str \<Longrightarrow> span str lo hi = Some a"
proof -
  assume d: "drop lo str = a @ b" and hi: "hi = lo + length a" and "lo \<le> length str"
  then have "length str - lo = length a + length b" by (metis length_append length_drop)
  then show ?thesis using d hi \<open>lo \<le> length str\<close> by (simp add: span_def)
qed

lemma memchr_found:
  assumes "drop s str = a @ c # b @ r" "c \<notin> set a" "e = s + length a + Suc (length b)" "s \<le> length str"
  shows "memchr str s c e = Some (Some (s + length a))"
  using span_piece [of s str "a @ c # b" r e] assms by (simp add: memchr_def find_first_append)

lemma memchr_none:
  assumes "drop s str = a @ r" "c \<notin> set a" "e = s + length a" "s \<le> length str"
  shows "memchr str s c e = Some None"
  using span_piece [OF assms(1,3,4)] assms(2) by (simp add: memchr_def find_first_None)

lemma memrchr_found:
  assumes "drop s str = a @ c # b @ r" "c \<notin> set b" "e = s + length a + Suc (length b)" "s \<le> length str"
  shows "zend_memrchr str s c e = Some (Some (s + length a))"
  using span_piece [of s str "a @ c # b" r e] assms by (simp add: zend_memrchr_def find_last_append)

lemma memrchr_none:
  assumes "drop s str = a @ r" "c \<notin> set a" "e = s + length a" "s \<le> length str"
  shows "zend_memrchr str s c e = Some None"
  using span_piece [OF assms(1,3,4)] assms(2) by (simp add: zend_memrchr_def find_last_None)

lemma strchr_found:
  assumes "drop s str = a @ c # b @ [0]" "c \<notin> set a" "0 \<notin> set a" "0 \<notin> set b" "c \<noteq> 0"
  shows "strchr str s c = Some (Some (s + length a))"
proof -
  have "find_first 0 (drop s str) = Some (length (a @ c # b))"
    using find_first_append [of 0 "a @ c # b" "[]"] assms by simp
  then show ?thesis using find_first_append [OF assms(2), of b] assms(1) by (simp add: strchr_def)
qed

text \<open>The characters a component of a URL may have: none is changed on the way into the result.\<close>

definition url_text :: "byte list \<Rightarrow> bool" where
  "url_text a \<longleftrightarrow> (\<forall>c \<in> set a. \<not> iscntrl c)"

lemma url_text_nonzero: "url_text a \<Longrightarrow> 0 \<notin> set a"
  by (auto simp: url_text_def iscntrl_def)

lemma url_text_unchanged: "url_text a \<Longrightarrow> php_replace_controlchars_ex a = a"
  by (auto simp: url_text_def php_replace_controlchars_ex_def intro: map_idI)

lemma url_dup_piece: "drop lo str = a @ b \<Longrightarrow> hi = lo + length a \<Longrightarrow> lo \<le> length str \<Longrightarrow> url_text a \<Longrightarrow> url_dup str lo hi = Some a"
  by (simp add: url_dup_def span_piece url_text_unchanged)

lemma url_part_piece:
  "drop lo str = a @ b \<Longrightarrow> hi = lo + length a \<Longrightarrow> lo \<le> length str \<Longrightarrow> url_text a \<Longrightarrow>
     url_part str lo hi = Some (if a = [] then None else Some a)"
  by (auto simp: url_part_def url_dup_piece)

subsection \<open>The parser on a composed URL\<close>

lemma url_parse_consts: "c8 CHR ''?'' = 63" "c8 CHR ''#'' = 35" "c8 CHR ''/'' = 47" "c8 CHR '':'' = 58" "c8 CHR ''@'' = 64"
  "c8 CHR ''['' = 91" "c8 CHR '']'' = 93" "c8 CHR ''+'' = 43" "c8 CHR ''.'' = 46" "c8 CHR ''-'' = 45"
  by simp_all

lemma url_nohost_pieces:
  assumes d: "drop s str = path @ 63 # query @ 35 # fragment @ [0]"
    and ue: "ue = s + length path + length query + length fragment + 2"
    and tx: "url_text path" "url_text query" "url_text fragment" "63 \<notin> set path" "35 \<notin> set path" "35 \<notin> set query"
    and ne: "path \<noteq> []" "query \<noteq> []" "fragment \<noteq> []"
  shows "url_nohost str s ue ret = Some (Some (ret\<lparr>u_path := Some path, u_query := Some query, u_fragment := Some fragment\<rparr>))"
proof -
  have s: "s \<le> length str" using d by (metis drop_all append_is_Nil_conv ne(1) nat_le_linear)
  have q: "memchr str s 63 ue = Some (Some (s + length path))"
    by (rule memchr_found [of s str path 63 "query @ 35 # fragment" "[0]"]) (use d ue tx s in auto)
  have h: "strchr str s 35 = Some (Some (s + length (path @ 63 # query)))"
    by (rule strchr_found [of s str "path @ 63 # query" 35 fragment])
      (use d tx in \<open>auto dest: url_text_nonzero\<close>)
  have dq: "drop (s + length path + 1) str = query @ 35 # fragment @ [0]"
    using drop_pieces [of s str "path @ [63]" "query @ 35 # fragment @ [0]"] d by simp
  have df: "drop (s + length (path @ 63 # query) + 1) str = fragment @ [0]"
    using drop_pieces [of s str "path @ 63 # query @ [35]" "fragment @ [0]"] d by (simp add: add_ac)
  have le: "s + length path + 1 \<le> length str" "s + length (path @ 63 # query) + 1 \<le> length str"
    using drop_piece_le [of s str "path @ [63]" "query @ 35 # fragment @ [0]"]
      drop_piece_le [of s str "path @ 63 # query @ [35]" "fragment @ [0]"] d by auto
  define q1 q2 where "q1 = s + length path" and "q2 = s + length (path @ 63 # query)"
  have "q1 < q2" by (simp add: q1_def q2_def)
  moreover have "url_part str s q1 = Some (Some path)"
    using url_part_piece [OF d q1_def s tx(1)] ne by simp
  moreover have "url_part str (q1 + 1) q2 = Some (Some query)"
    using url_part_piece [OF dq _ le(1) tx(2)] ne by (simp add: q1_def q2_def add.assoc)
  moreover have "url_part str (q2 + 1) ue = Some (Some fragment)"
    using url_part_piece [OF df _ le(2) tx(3), of ue] ne ue by (simp add: q2_def)
  ultimately show ?thesis
    using q h unfolding q1_def [symmetric] q2_def [symmetric]
    by (simp add: url_nohost_def url_parse_consts url_label_parse_def)
qed

lemma url_find_colon_at:
  assumes "nth_opt str p = Some 58" "s \<le> p" "\<forall>q. p < q \<and> q \<le> e \<longrightarrow> (\<exists>c. nth_opt str q = Some c \<and> c \<noteq> 58)" "p \<le> e"
  shows "url_find_colon str s e = Some (Some p)"
  using assms(3,4)
proof (induction e)
  case 0
  then show ?case using assms(1,2) by (subst url_find_colon.simps) (simp add: url_parse_consts)
next
  case (Suc e)
  show ?case
  proof (cases "p = Suc e")
    case True
    then show ?thesis using assms(1,2) by (subst url_find_colon.simps) (simp add: url_parse_consts)
  next
    case False
    then have "p \<le> e" using Suc.prems(2) by simp
    moreover have "\<exists>c. nth_opt str (Suc e) = Some c \<and> c \<noteq> 58" using Suc.prems(1) \<open>p \<le> e\<close> by simp
    then obtain c where "nth_opt str (Suc e) = Some c" "c \<noteq> 58" by blast
    ultimately show ?thesis
      using Suc.IH Suc.prems(1) assms(2) by (subst url_find_colon.simps) (simp add: url_parse_consts)
  qed
qed

text \<open>The text of the login in front of the host.\<close>

fun login_text :: "(byte list \<times> byte list) option \<Rightarrow> byte list" where
  "login_text None = []"
| "login_text (Some (user, pass)) = user @ 58 # pass @ [64]"

definition login_ok :: "(byte list \<times> byte list) option \<Rightarrow> bool" where
  "login_ok login \<longleftrightarrow> (case login of None \<Rightarrow> True
     | Some (user, pass) \<Rightarrow> user \<noteq> [] \<and> pass \<noteq> [] \<and> url_text (user @ pass) \<and> 58 \<notin> set user \<and> 47 \<notin> set (user @ pass))"

lemma url_login_pieces:
  assumes d: "drop s str = login_text login @ h @ r" and e: "e = s + length (login_text login) + length h"
    and ok: "login_ok login" and h: "64 \<notin> set h" and s: "s \<le> length str"
  shows "url_login str s e ret = Some (s + length (login_text login),
    ret\<lparr>u_user := (case login of None \<Rightarrow> u_user ret | Some (u, _) \<Rightarrow> Some u),
        u_pass := (case login of None \<Rightarrow> u_pass ret | Some (_, p) \<Rightarrow> Some p)\<rparr>)"
proof (cases login)
  case None
  have "zend_memrchr str s 64 e = Some None"
    by (rule memrchr_none [of s str h r]) (use d e h s None in auto)
  then show ?thesis by (simp add: url_login_def url_parse_consts None)
next
  case (Some up)
  obtain user pass where up: "up = (user, pass)" by (cases up)
  have d': "drop s str = user @ 58 # pass @ 64 # h @ r" using d Some up by simp
  have ok': "user \<noteq> []" "pass \<noteq> []" "url_text user" "url_text pass" "58 \<notin> set user"
    using ok Some up by (auto simp: login_ok_def url_text_def)
  have at: "zend_memrchr str s 64 e = Some (Some (s + length (user @ 58 # pass)))"
    by (rule memrchr_found [of s str _ 64 h r]) (use d' e h s Some up in auto)
  have colon: "memchr str s 58 (s + length (user @ 58 # pass)) = Some (Some (s + length user))"
    by (rule memchr_found [of s str user 58 pass "64 # h @ r"]) (use d' ok' s in auto)
  have dp: "drop (s + length user + 1) str = pass @ 64 # h @ r"
    using drop_pieces [of s str "user @ [58]" "pass @ 64 # h @ r"] d' by simp
  have le: "s + length user + 1 \<le> length str" using drop_piece_le [of s str "user @ [58]" "pass @ 64 # h @ r"] d' by simp
  define q1 q2 where "q1 = s + length user" and "q2 = s + length (user @ 58 # pass)"
  have "url_part str s q1 = Some (Some user)" using url_part_piece [OF d' q1_def s ok'(3)] ok' by simp
  moreover have "url_part str (q1 + 1) q2 = Some (Some pass)"
    using url_part_piece [OF dp _ le ok'(4)] ok' by (simp add: q1_def q2_def add.assoc)
  moreover have "q2 + 1 = s + length (login_text login)" by (simp add: q2_def Some up)
  ultimately show ?thesis
    using at colon unfolding q1_def [symmetric] q2_def [symmetric]
    by (simp add: url_login_def url_parse_consts Some up)
qed

lemma url_host_pieces:
  assumes d: "drop s str = login_text login @ host @ 58 # ds @ 47 # r"
    and e: "e = s + length (login_text login) + length host + length ds + 1" and ue: "e < ue" "ue \<le> length str"
    and login: "login_ok login" and host: "host \<noteq> []" "url_text host" "hd host \<noteq> 91" "set host \<inter> {47, 58, 64} = {}"
    and ds: "list_all isdigit ds" "ds \<noteq> []" "length ds \<le> 5" "0 < strtol ds" "strtol ds \<le> 65535"
    and ret: "u_port ret = 0"
  shows "url_host str s ue ret = url_nohost str e ue
    (ret\<lparr>u_user := (case login of None \<Rightarrow> u_user ret | Some (u, _) \<Rightarrow> Some u),
         u_pass := (case login of None \<Rightarrow> u_pass ret | Some (_, p) \<Rightarrow> Some p),
         u_port := nat (strtol ds), u_host := Some host\<rparr>)"
proof -
  define l where "l = length (login_text login)"
  define h where "h = host @ 58 # ds"
  have s: "s \<le> length str" using ue e by simp
  have dig: "c \<noteq> 47 \<and> c \<noteq> 58 \<and> c \<noteq> 64" if "c \<in> set ds" for c
    using ds(1) that by (auto simp: list_all_iff isdigit_def)
  have d1: "drop s str = (login_text login @ h) @ 47 # r" and d2: "drop s str = login_text login @ h @ 47 # r"
    using d by (simp_all add: h_def)
  have elen: "e = s + length (login_text login @ h)" by (simp add: e h_def)
  have no_slash: "47 \<notin> set (login_text login @ h)"
    using login host(4) dig by (cases login rule: login_text.cases) (auto simp: login_ok_def h_def)
  obtain m where m: "ue = Suc (e + m)" using less_imp_Suc_add [OF ue(1)] by blast
  have r: "drop e str = 47 # r" using drop_pieces [OF d1] elen by simp
  have rl: "m \<le> length r" using ue(2) m arg_cong [OF r, of length] by simp
  have ae: "memchr str s 47 ue = Some (Some e)"
    using memchr_found [of s str "login_text login @ h" 47 "take m r" "drop m r" ue] d1 no_slash elen m rl s by simp
  have dh: "drop (s + l) str = host @ 58 # ds @ 47 # r" using drop_pieces [OF d2] by (simp add: l_def h_def)
  have lg: "url_login str s e ret = Some (s + l, ret\<lparr>u_user := (case login of None \<Rightarrow> u_user ret | Some (u, _) \<Rightarrow> Some u),
        u_pass := (case login of None \<Rightarrow> u_pass ret | Some (_, p) \<Rightarrow> Some p)\<rparr>)"
    unfolding l_def by (rule url_login_pieces [OF d2 _ login _ s]) (use host(4) dig elen in \<open>auto simp: h_def\<close>)
  obtain c cs where hc: "host = c # cs" "c \<noteq> 91" using host(1,3) by (cases host) auto
  have first: "nth_opt str (s + l) = Some c" using nth_opt_suffix(1) dh hc by auto
  define p where "p = s + l + length host"
  have dcol: "drop p str = 58 # ds @ 47 # r" using drop_pieces [OF dh] by (simp add: p_def)
  have pe: "e = p + Suc (length ds)" by (simp add: e p_def l_def)
  have "\<exists>c. nth_opt str q = Some c \<and> c \<noteq> 58" if pq: "p < q" "q \<le> e" for q
  proof -
    obtain i where i: "q = Suc (p + i)" using less_imp_Suc_add [OF pq(1)] by blast
    then have "nth_opt str q = nth_opt (ds @ 47 # r) i"
      using nth_opt_drop [of "Suc p" str i] nth_opt_suffix(2) [OF dcol] by simp
    then show ?thesis using i pq(2) pe dig by (auto simp: nth_opt_def nth_append less_Suc_eq_le)
  qed
  then have col: "url_find_colon str (s + l) e = Some (Some p)"
    using nth_opt_suffix(1) [OF dcol] pe by (intro url_find_colon_at) (auto simp: p_def)
  have dds: "drop (p + 1) str = ds @ 47 # r" using nth_opt_suffix(2) [OF dcol] by simp
  have pl: "p + 1 \<le> length str" using nth_opt_suffix(3) [OF dcol] by simp
  have buf: "span str (p + 1) e = Some ds" by (rule span_piece [OF dds _ pl]) (simp add: pe)
  have hst: "url_dup str (s + l) p = Some host"
    by (rule url_dup_piece [OF dh _ _ host(2)]) (use s pl in \<open>auto simp: p_def\<close>)
  have "\<not> int e - int (p + 1) > 5" "p + 1 < e" "\<not> int p - int (s + l) < 1" "e \<noteq> ue"
    using pe ds(2,3) host(1) ue(1) by (auto simp: p_def Suc_le_eq)
  then show ?thesis
    using ds(4,5) hc(2) ret
    by (simp add: url_host_def url_authority_end_def url_parse_consts ae lg first col buf [folded Suc_eq_plus1] hst Let_def)
qed

subsection \<open>Properties\<close>

definition compose_url ::
    "byte list \<Rightarrow> (byte list \<times> byte list) option \<Rightarrow> byte list \<Rightarrow> byte list \<Rightarrow> byte list \<Rightarrow> byte list \<Rightarrow> byte list \<Rightarrow> byte list" where
  "compose_url scheme login host port path query fragment =
     scheme @ ascii ''://'' @ login_text login @ host @ ascii '':'' @ port @ ascii ''/'' @ path @
     ascii ''?'' @ query @ ascii ''#'' @ fragment"

text \<open>C21: \<open>php_url_parse_ex\<close> takes a full URL \<open>scheme://[user:pass@]host:port/path?query#fragment\<close>
  apart into exactly the components it was composed of, reading nothing outside of the string.\<close>

theorem php_url_parse_composed:
  assumes "scheme \<noteq> []" "list_all scheme_char scheme" "login_ok login"
    and "host \<noteq> []" "url_text host" "hd host \<noteq> 91" "set host \<inter> {47, 58, 64} = {}"
    and "list_all isdigit port" "port \<noteq> []" "length port \<le> 5" "0 < strtol port" "strtol port \<le> 65535"
    and "url_text path" "set path \<inter> {63, 35} = {}" "url_text query" "query \<noteq> []" "35 \<notin> set query"
    and "url_text fragment" "fragment \<noteq> []"
  defines "u \<equiv> compose_url scheme login host port path query fragment"
  shows "php_url_parse_ex (cstr u) (length u) = Some (Some
    \<lparr>u_scheme = Some scheme, u_user = map_option fst login, u_pass = map_option snd login, u_host = Some host,
     u_port = nat (strtol port), u_path = Some (47 # path), u_query = Some query, u_fragment = Some fragment\<rparr>)"
proof -
  define tail where "tail = path @ 63 # query @ 35 # fragment @ [0]"
  define s where "s = length scheme + 3"
  define e where "e = s + length (login_text login) + length host + length port + 1"
  have u: "cstr u = scheme @ 58 # 47 # 47 # login_text login @ host @ 58 # port @ 47 # tail"
    by (simp add: u_def compose_url_def cstr_def ascii_def tail_def)
  have len: "length u = e + (length path + length query + length fragment + 3)"
    by (simp add: u_def compose_url_def ascii_def e_def s_def)
  have sc: "c \<noteq> 58 \<and> \<not> iscntrl c" if "c \<in> set scheme" for c
    using assms(2) that by (auto simp: list_all_iff scheme_char_def isalpha_def isupper_def islower_def isdigit_def iscntrl_def url_parse_consts word_le_nat_alt word_less_nat_alt)
  have no_slash: "47 \<notin> set (login_text login @ host)"
    using assms(3,7) by (cases login rule: login_text.cases) (auto simp: login_ok_def)
  obtain c cs where c: "login_text login @ host = c # cs" using assms(4) by (cases "login_text login @ host") auto
  have d0: "drop 0 (cstr u) = scheme @ 58 # (47 # 47 # login_text login @ host @ 58 # port @ 47 # path @ 63 # query @ 35 # fragment) @ [0]"
    by (simp add: u tail_def)
  have colon: "memchr (cstr u) 0 58 (length u) = Some (Some (length scheme))"
    using memchr_found [OF d0, of "length u"] sc by (auto simp: len e_def s_def)
  have name: "span (cstr u) 0 (length scheme) = Some scheme"
    by (rule span_piece) (auto simp: u)
  have dup: "url_dup (cstr u) 0 (length scheme) = Some scheme"
    by (rule url_dup_piece) (auto simp: u url_text_def sc)
  have dk: "drop (length scheme) (cstr u) = 58 # 47 # 47 # login_text login @ host @ 58 # port @ 47 # tail" by (simp add: u)
  have n: "nth_opt (cstr u) (Suc (length scheme)) = Some 47" "nth_opt (cstr u) (Suc (Suc (length scheme))) = Some 47"
    using nth_opt_suffix2 dk by fastforce+
  have ds: "drop s (cstr u) = login_text login @ host @ 58 # port @ 47 # tail"
    using drop_pieces [of "length scheme" "cstr u" "[58, 47, 47]"] dk by (simp add: s_def numeral_3_eq_3)
  have "nth_opt (cstr u) s = Some c" using nth_opt_suffix(1) [of s "cstr u" c "cs @ 58 # port @ 47 # tail"] ds c by (metis append.assoc append_Cons)
  then have n3: "nth_opt (cstr u) (length scheme + 3) = Some c" "c \<noteq> 47" using no_slash c by (auto simp: s_def)
  have de: "drop e (cstr u) = (47 # path) @ 63 # query @ 35 # fragment @ [0]"
    using drop_pieces [of s "cstr u" "login_text login @ host @ 58 # port" "47 # tail"] ds by (simp add: e_def tail_def add_ac)
  have nohost: "url_nohost (cstr u) e (length u) ret = Some (Some (ret\<lparr>u_path := Some (47 # path), u_query := Some query, u_fragment := Some fragment\<rparr>))" for ret
    by (rule url_nohost_pieces [OF de]) (use assms(13-19) len in \<open>auto simp: url_text_def iscntrl_def\<close>)
  have host: "url_host (cstr u) s (length u) (url_calloc\<lparr>u_scheme := Some scheme\<rparr>) = url_nohost (cstr u) e (length u)
    (url_calloc\<lparr>u_scheme := Some scheme, u_user := map_option fst login, u_pass := map_option snd login,
       u_port := nat (strtol port), u_host := Some host\<rparr>)"
    by (subst url_host_pieces [OF ds e_def _ _ assms(3-12)])
      (auto simp: len url_calloc_def split: option.splits)
  show ?thesis
    using assms(1,2) host nohost n3
    by (simp add: php_url_parse_ex_def url_parse_consts colon name dup n Let_def s_def url_calloc_def)
qed

theorem php_url_parse_composed_witness:
  "\<exists>r. php_url_parse_ex (cstr (ascii ''http://me:pw@host:8080/dir/file?a=b#top'')) 39 = Some (Some r) \<and>
     u_host r = Some (ascii ''host'') \<and> u_port r = 8080 \<and> u_user r = Some (ascii ''me'') \<and> u_query r = Some (ascii ''a=b'')"
proof -
  have u: "compose_url (ascii ''http'') (Some (ascii ''me'', ascii ''pw'')) (ascii ''host'') (ascii ''8080'') (ascii ''dir/file'')
      (ascii ''a=b'') (ascii ''top'') = ascii ''http://me:pw@host:8080/dir/file?a=b#top''"
    by code_simp
  have p: "nat (strtol (ascii ''8080'')) = 8080" by code_simp
  have len: "length (ascii ''http://me:pw@host:8080/dir/file?a=b#top'') = 39" by code_simp
  have "php_url_parse_ex (cstr (ascii ''http://me:pw@host:8080/dir/file?a=b#top'')) (length (ascii ''http://me:pw@host:8080/dir/file?a=b#top'')) = Some (Some
    \<lparr>u_scheme = Some (ascii ''http''), u_user = map_option fst (Some (ascii ''me'', ascii ''pw'')), u_pass = map_option snd (Some (ascii ''me'', ascii ''pw'')),
     u_host = Some (ascii ''host''), u_port = nat (strtol (ascii ''8080'')), u_path = Some (47 # ascii ''dir/file''), u_query = Some (ascii ''a=b''), u_fragment = Some (ascii ''top'')\<rparr>)"
    unfolding u [symmetric] by (rule php_url_parse_composed; code_simp)
  then show ?thesis unfolding len p by simp
qed

text \<open>C22: when the text in front of a port has a slash and no other colon, as in \<open>x/:80\<close>, the search
  for the colon of the host steps in front of the string and reads \<open>str[-1]\<close>; and for
  \<open>file:///\<close> the test for a Windows drive letter reads the byte behind the terminator.\<close>

theorem php_url_parse_reads_outside:
  assumes "list_all scheme_char t" "list_all isdigit port" "port \<noteq> []" "length port \<le> 5" "0 < strtol port" "strtol port \<le> 65535"
  shows "php_url_parse_ex (cstr (t @ ascii ''/:'' @ port)) (length t + 2 + length port) = None \<and>
    php_url_parse_ex (cstr (ascii ''file:///'')) 8 = None"
proof
  show "php_url_parse_ex (cstr (ascii ''file:///'')) 8 = None" by code_simp
  define u where "u = cstr (t @ ascii ''/:'' @ port)"
  have u: "u = t @ 47 # 58 # port @ [0]" by (simp add: u_def cstr_def ascii_def)
  define len where "len = length t + 2 + length port"
  have sc: "c \<noteq> 58 \<and> c \<noteq> 47 \<and> c \<noteq> 64 \<and> c \<noteq> 91" if "c \<in> set t" for c
    using assms(1) that by (auto simp: list_all_iff scheme_char_def isalpha_def isupper_def islower_def isdigit_def url_parse_consts)
  have dig: "c \<noteq> 47 \<and> c \<noteq> 64" if "c \<in> set port" for c
    using assms(2) that by (auto simp: list_all_iff isdigit_def)
  have colon: "memchr u 0 58 len = Some (Some (length t + 1))"
    using memchr_found [of 0 u "t @ [47]" 58 port "[0]" len] sc by (auto simp: u len_def)
  have lt: "Suc (Suc (length t)) < len" using assms(3) by (simp add: len_def)
  have name: "span u 0 (Suc (length t)) = Some (t @ [47])" by (rule span_piece) (auto simp: u)
  have "\<not> list_all scheme_char (t @ [47])" by (auto simp: scheme_char_def isalpha_def isupper_def islower_def isdigit_def)
  then have "php_url_parse_ex u len = url_parse_port u 0 (length t + 1) len len url_calloc"
    using lt by (simp add: php_url_parse_ex_def url_parse_consts colon name)
  also have "\<dots> = None"
  proof -
    have dp: "drop (length t + 2) u = port @ [0]" by (simp add: u)
    have skip: "skip_digits u p n = Some (p + length ds)" if "drop p u = ds @ [0]" "list_all isdigit ds" "length ds < n" for p n ds
      using that
    proof (induction ds arbitrary: p n)
      case Nil
      then show ?case by (cases n) (auto simp: nth_opt_suffix(1) isdigit_def)
    next
      case (Cons d ds)
      have d: "drop p u = d # ds @ [0]" using Cons.prems(1) by simp
      show ?case using Cons.IH [OF nth_opt_suffix(2) [OF d]] Cons.prems by (cases n) (auto simp: nth_opt_suffix(1) [OF d])
    qed
    define q where "q = Suc (Suc (length t)) + length port"
    have q: "Suc (Suc (length t)) < q" "q - Suc (Suc (length t)) < 6" using assms(3,4) by (simp_all add: q_def)
    have pp: "skip_digits u (Suc (Suc (length t))) 6 = Some q"
      using skip [OF dp assms(2)] assms(4) by (simp add: q_def)
    have end0: "nth_opt u q = Some 0" by (simp add: q_def u nth_opt_def nth_append)
    have buf: "span u (Suc (Suc (length t))) q = Some port"
      by (rule span_piece [of _ _ _ "[0]"]) (auto simp: u q_def)
    have host: "url_host u 0 len ret = None" for ret
    proof -
      have ae: "memchr u 0 47 len = Some (Some (length t))"
        using memchr_found [of 0 u t 47 "58 # port" "[0]" len] sc by (auto simp: u len_def)
      have at: "zend_memrchr u 0 64 (length t) = Some None"
        by (rule memrchr_none [of 0 u t "47 # 58 # port @ [0]"]) (use sc in \<open>auto simp: u\<close>)
      obtain c where c: "nth_opt u 0 = Some c" "c \<noteq> 91" using sc by (cases t) (auto simp: u nth_opt_def)
      have "url_find_colon u 0 p = None" if "p \<le> length t" for p
        using that
      proof (induction p)
        case 0
        have "c \<noteq> 58" using c sc by (cases t) (auto simp: u nth_opt_def)
        then show ?case using c by (subst url_find_colon.simps) (simp add: url_parse_consts)
      next
        case (Suc p)
        have "nth_opt u (Suc p) \<noteq> Some 58" "nth_opt u (Suc p) \<noteq> None"
          using Suc.prems sc by (auto simp: u nth_opt_def nth_append dest: nth_mem)
        then show ?case using Suc by (subst url_find_colon.simps) (auto simp: url_parse_consts)
      qed
      then show ?thesis using c by (simp add: url_host_def url_authority_end_def url_login_def url_parse_consts ae at)
    qed
    show ?thesis
      using assms(5,6) q by (simp add: url_parse_port_def pp end0 buf host url_parse_consts Let_def)
  qed
  finally show "php_url_parse_ex (cstr (t @ ascii ''/:'' @ port)) (length t + 2 + length port) = None"
    by (simp only: u_def len_def)
qed

theorem php_url_parse_reads_outside_witness:
  "php_url_parse_ex (cstr (ascii ''x/:80'')) 5 = None"
proof -
  have eq: "ascii ''x'' @ ascii ''/:'' @ ascii ''80'' = ascii ''x/:80''" "length (ascii ''x'') + 2 + length (ascii ''80'') = 5"
    by code_simp+
  have "php_url_parse_ex (cstr (ascii ''x'' @ ascii ''/:'' @ ascii ''80'')) (length (ascii ''x'') + 2 + length (ascii ''80'')) = None"
    by (rule conjunct1 [OF php_url_parse_reads_outside]; code_simp)
  then show ?thesis by (simp only: eq)
qed

end
