(* ===== verification/Uuencode.thy ===== *)
theory Uuencode
  imports Bytes
begin

unbundle bit_operations_syntax

text \<open>
  \<open>ext/standard/uuencode.c\<close>. Both routines read their source by index (a read behind the
  terminator has no result) and write their result from left to right, so it is a list.
  \<open>char\<close> is signed and every macro argument is computed in \<open>int\<close>. \<open>floor(len * 1.33)\<close>, with
  \<open>len\<close> at most 63, is \<open>133 * len div 100\<close>. The error return \<open>-1\<close> is \<open>Some None\<close>.
\<close>

definition PHP_UU_ENC :: "int \<Rightarrow> byte" where
  "PHP_UU_ENC c = word_of_int (if c \<noteq> 0 then (c AND 63) + 32 else 96)"

definition PHP_UU_ENC_C2 :: "byte \<Rightarrow> byte \<Rightarrow> byte" where
  "PHP_UU_ENC_C2 c0 c1 = PHP_UU_ENC ((push_bit 4 (sint c0) AND 48) OR (drop_bit 4 (sint c1) AND 15))"

definition PHP_UU_ENC_C3 :: "byte \<Rightarrow> byte \<Rightarrow> byte" where
  "PHP_UU_ENC_C3 c1 c2 = PHP_UU_ENC ((push_bit 2 (sint c1) AND 60) OR (drop_bit 6 (sint c2) AND 3))"

definition PHP_UU_DEC :: "byte \<Rightarrow> int" where
  "PHP_UU_DEC c = (sint c - 32) AND 63"

subsection \<open>Encoding\<close>

text \<open>\<open>while (s < ee)\<close>: the groups of one line and the new \<open>s\<close>.\<close>

function uu_encode_groups :: "byte list \<Rightarrow> nat \<Rightarrow> nat \<Rightarrow> (byte list \<times> nat) option" where
  "uu_encode_groups src s ee =
     (if s < ee then
        case nth_opt src s of None \<Rightarrow> None | Some c0 \<Rightarrow>
        case nth_opt src (s + 1) of None \<Rightarrow> None | Some c1 \<Rightarrow>
        case nth_opt src (s + 2) of None \<Rightarrow> None | Some c2 \<Rightarrow>
          map_option (\<lambda>(p, s). (PHP_UU_ENC (drop_bit 2 (sint c0)) # PHP_UU_ENC_C2 c0 c1 # PHP_UU_ENC_C3 c1 c2 #
              PHP_UU_ENC (sint c2 AND 63) # p, s))
            (uu_encode_groups src (s + 3) ee)
      else Some ([], s))"
  by pat_completeness auto
termination
  by (relation "measure (\<lambda>(src, s, ee). ee - s)") auto

declare uu_encode_groups.simps [simp del]

text \<open>\<open>while ((s + 3) < e)\<close>: what is written, and \<open>s\<close> and \<open>len\<close> after the last round. A round
  that would not move \<open>s\<close> has no result; the round trip shows that there is none.\<close>

function uu_encode_lines :: "byte list \<Rightarrow> nat \<Rightarrow> nat \<Rightarrow> nat \<Rightarrow> (byte list \<times> nat \<times> nat) option" where
  "uu_encode_lines src s e len =
     (if s + 3 < e then
        let (ee, len) =
          (if s + len > e then (if (e - s) mod 3 \<noteq> 0 then s + (e - s) div 3 * 3 else e, e - s) else (s + len, len))
        in case uu_encode_groups src s ee of
             None \<Rightarrow> None
           | Some (p, s') \<Rightarrow>
               if s' \<le> s then None
               else map_option (\<lambda>(q, r). (PHP_UU_ENC (int len) # p @ (if len = 45 then [10] else []) @ q, r))
                      (uu_encode_lines src s' e len)
      else Some ([], s, len))"
  by pat_completeness auto
termination
  by (relation "measure (\<lambda>(src, s, e, len). e - s)") auto

declare uu_encode_lines.simps [simp del]

definition php_uuencode :: "byte list \<Rightarrow> nat \<Rightarrow> byte list option" where
  "php_uuencode src src_len =
     do {
       let e = src_len;
       (p, s, len) \<leftarrow> uu_encode_lines src 0 e 45;
       (p, len) \<leftarrow>
         (if s < e then do {
            let (p, len) = (if len = 45 then (p @ [PHP_UU_ENC (int (e - s))], 0) else (p, len));
            c0 \<leftarrow> nth_opt src s;
            c1 \<leftarrow> nth_opt src (s + 1);
            x2 \<leftarrow> (if e - s > 1 then map_option (PHP_UU_ENC_C3 c1) (nth_opt src (s + 2)) else Some (PHP_UU_ENC 0));
            x3 \<leftarrow> (if e - s > 2 then map_option (\<lambda>c2. PHP_UU_ENC (sint c2 AND 63)) (nth_opt src (s + 2))
                  else Some (PHP_UU_ENC 0));
            Some (p @ [PHP_UU_ENC (drop_bit 2 (sint c0)), PHP_UU_ENC_C2 c0 c1, x2, x3], len)
          }
          else Some (p, len));
       Some (p @ (if len < 45 then [10] else []) @ [PHP_UU_ENC 0, 10])
     }"

subsection \<open>Decoding\<close>

definition uu_decode_group :: "byte \<Rightarrow> byte \<Rightarrow> byte \<Rightarrow> byte \<Rightarrow> byte list" where
  "uu_decode_group c0 c1 c2 c3 =
     [word_of_int (push_bit 2 (PHP_UU_DEC c0) OR drop_bit 4 (PHP_UU_DEC c1)),
      word_of_int (push_bit 4 (PHP_UU_DEC c1) OR drop_bit 2 (PHP_UU_DEC c2)),
      word_of_int (push_bit 6 (PHP_UU_DEC c2) OR PHP_UU_DEC c3)]"

function uu_decode_groups :: "byte list \<Rightarrow> nat \<Rightarrow> nat \<Rightarrow> nat \<Rightarrow> (byte list \<times> nat) option option" where
  "uu_decode_groups src s ee e =
     (if s < ee then
        if s + 4 > e then Some None
        else case nth_opt src s of None \<Rightarrow> None | Some c0 \<Rightarrow>
          case nth_opt src (s + 1) of None \<Rightarrow> None | Some c1 \<Rightarrow>
          case nth_opt src (s + 2) of None \<Rightarrow> None | Some c2 \<Rightarrow>
          case nth_opt src (s + 3) of None \<Rightarrow> None | Some c3 \<Rightarrow>
            map_option (map_option (\<lambda>(p, s). (uu_decode_group c0 c1 c2 c3 @ p, s))) (uu_decode_groups src (s + 4) ee e)
      else Some (Some ([], s)))"
  by pat_completeness auto
termination
  by (relation "measure (\<lambda>(src, s, ee, e). ee - s)") auto

declare uu_decode_groups.simps [simp del]

lemma uu_decode_groups_ge: "uu_decode_groups src s ee e = Some (Some (p, s')) \<Longrightarrow> s \<le> s'"
proof (induction src s ee e arbitrary: p rule: uu_decode_groups.induct)
  case (1 src s ee e)
  show ?case
    using 1(2) [unfolded uu_decode_groups.simps [of src s ee e]] 1(1)
    by (auto split: if_splits option.splits) (meson le_trans le_add1)+
qed

text \<open>\<open>while (s < e)\<close>: \<open>total_len\<close>, the bytes written and \<open>s\<close> after the loop.\<close>

function uu_decode_lines :: "byte list \<Rightarrow> nat \<Rightarrow> nat \<Rightarrow> nat \<Rightarrow> nat \<Rightarrow> (nat \<times> byte list \<times> nat) option option" where
  "uu_decode_lines src src_len s e total_len =
     (if s < e then
        case nth_opt src s of
          None \<Rightarrow> None
        | Some c \<Rightarrow>
            if PHP_UU_DEC c \<le> 0 then Some (Some (total_len, [], s + 1))
            else let len = nat (PHP_UU_DEC c);
                     ee = s + 1 + (if len = 45 then 60 else 133 * len div 100)
              in if len > src_len then Some None
              else if ee > e then Some None
              else case uu_decode_groups src (s + 1) ee e of
                None \<Rightarrow> None
              | Some None \<Rightarrow> Some None
              | Some (Some (p, s')) \<Rightarrow>
                  if len < 45 then Some (Some (total_len + len, p, s'))
                  else map_option (map_option (\<lambda>(t, q, r). (t, p @ q, r)))
                         (uu_decode_lines src src_len (s' + 1) e (total_len + len))
      else Some (Some (total_len, [], s)))"
  by pat_completeness auto
termination
  by (relation "measure (\<lambda>(src, src_len, s, e, total_len). e - s)") (auto dest!: uu_decode_groups_ge)

declare uu_decode_lines.simps [simp del]

text \<open>\<open>len = total_len > (p - *dest)\<close> assigns the comparison, so at most one more byte is written;
  a byte of the result that was never written has no value.\<close>

definition php_uudecode :: "byte list \<Rightarrow> nat \<Rightarrow> byte list option option" where
  "php_uudecode src src_len =
     (case uu_decode_lines src src_len 0 src_len 0 of
        None \<Rightarrow> None
      | Some None \<Rightarrow> Some None
      | Some (Some (total_len, p, s)) \<Rightarrow> do {
          p \<leftarrow> (if total_len > length p then do {
                 c0 \<leftarrow> nth_opt src s;
                 c1 \<leftarrow> nth_opt src (s + 1);
                 Some (p @ [word_of_int (push_bit 2 (PHP_UU_DEC c0) OR drop_bit 4 (PHP_UU_DEC c1))])
               }
               else Some p);
          if total_len \<le> length p then Some (Some (take total_len p)) else None
        })"

subsection \<open>Six bits to a character and back\<close>

definition uu6 :: "byte \<Rightarrow> byte" where
  "uu6 x = (if x = 0 then 96 else x + 32)"

lemma uu_enc_hi: "PHP_UU_ENC (drop_bit 2 (sint a)) = uu6 (drop_bit 2 a)"
proof -
  have "list_all (\<lambda>i. PHP_UU_ENC (drop_bit 2 (sint (word_of_int i :: byte))) = uu6 (drop_bit 2 (word_of_int i))) [0..255]"
    by code_simp
  then show ?thesis by (rule byte_exhaust)
qed

lemma uu_enc_lo: "PHP_UU_ENC (sint a AND 63) = uu6 (a AND 63)"
proof -
  have "list_all (\<lambda>i. PHP_UU_ENC (sint (word_of_int i :: byte) AND 63) = uu6 (word_of_int i AND 63)) [0..255]"
    by code_simp
  then show ?thesis by (rule byte_exhaust)
qed

lemma uu_parts:
  "push_bit 4 (sint (a :: byte)) AND 48 = uint (push_bit 4 (a AND 3))" "drop_bit 4 (sint a) AND 15 = uint (drop_bit 4 a)"
  "push_bit 2 (sint a) AND 60 = uint (push_bit 2 (a AND 15))" "drop_bit 6 (sint a) AND 3 = uint (drop_bit 6 a)"
proof -
  have "list_all (\<lambda>i. push_bit 4 (sint (word_of_int i :: byte)) AND 48 = uint (push_bit 4 (word_of_int i AND (3 :: byte))) \<and>
      drop_bit 4 (sint (word_of_int i :: byte)) AND 15 = uint (drop_bit 4 (word_of_int i :: byte)) \<and>
      push_bit 2 (sint (word_of_int i :: byte)) AND 60 = uint (push_bit 2 (word_of_int i AND (15 :: byte))) \<and>
      drop_bit 6 (sint (word_of_int i :: byte)) AND 3 = uint (drop_bit 6 (word_of_int i :: byte))) [0..255]"
    by code_simp
  then have "push_bit 4 (sint (a :: byte)) AND 48 = uint (push_bit 4 (a AND 3)) \<and> drop_bit 4 (sint a) AND 15 = uint (drop_bit 4 a) \<and>
      push_bit 2 (sint a) AND 60 = uint (push_bit 2 (a AND 15)) \<and> drop_bit 6 (sint a) AND 3 = uint (drop_bit 6 a)"
    by (rule byte_exhaust)
  then show "push_bit 4 (sint (a :: byte)) AND 48 = uint (push_bit 4 (a AND 3))" "drop_bit 4 (sint a) AND 15 = uint (drop_bit 4 a)"
    "push_bit 2 (sint a) AND 60 = uint (push_bit 2 (a AND 15))" "drop_bit 6 (sint a) AND 3 = uint (drop_bit 6 a)"
    by blast+
qed

lemma uu_dec: "x < 64 \<Longrightarrow> PHP_UU_DEC (uu6 x) = uint x"
proof -
  have "list_all (\<lambda>i. word_of_int i < (64 :: byte) \<longrightarrow> PHP_UU_DEC (uu6 (word_of_int i)) = uint (word_of_int i :: byte)) [0..255]"
    by code_simp
  then show "x < 64 \<Longrightarrow> PHP_UU_DEC (uu6 x) = uint x" by (rule byte_exhaust [THEN mp])
qed

subsection \<open>The text of an encoding\<close>

definition uu_group :: "byte \<Rightarrow> byte \<Rightarrow> byte \<Rightarrow> byte list" where
  "uu_group a b c =
     [uu6 (drop_bit 2 a), uu6 (push_bit 4 (a AND 3) OR drop_bit 4 b), uu6 (push_bit 2 (b AND 15) OR drop_bit 6 c), uu6 (c AND 63)]"

text \<open>The last group is padded with zeros.\<close>

fun uu_groups :: "byte list \<Rightarrow> byte list" where
  "uu_groups (a # b # c # r) = uu_group a b c @ uu_groups r"
| "uu_groups [a, b] = uu_group a b 0"
| "uu_groups [a] = uu_group a 0 0"
| "uu_groups [] = []"

function uu_text :: "byte list \<Rightarrow> byte list" where
  "uu_text xs =
     (if xs = [] then [96, 10]
      else if length xs < 45 then PHP_UU_ENC (int (length xs)) # uu_groups xs @ 10 # [96, 10]
      else PHP_UU_ENC 45 # uu_groups (take 45 xs) @ 10 # uu_text (drop 45 xs))"
  by pat_completeness auto
termination
  by (relation "measure length") auto

declare uu_text.simps [simp del]

lemma uu_enc_c2: "PHP_UU_ENC_C2 a b = uu6 (push_bit 4 (a AND 3) OR drop_bit 4 b)"
  and uu_enc_c3: "PHP_UU_ENC_C3 b c = uu6 (push_bit 2 (b AND 15) OR drop_bit 6 c)"
proof -
  have "PHP_UU_ENC (uint x) = uu6 x" if "x < 64" for x
  proof -
    have "list_all (\<lambda>i. word_of_int i < (64 :: byte) \<longrightarrow> PHP_UU_ENC (uint (word_of_int i :: byte)) = uu6 (word_of_int i)) [0..255]"
      by code_simp
    then show ?thesis using that by (rule byte_exhaust [THEN mp])
  qed
  then show "PHP_UU_ENC_C2 a b = uu6 (push_bit 4 (a AND 3) OR drop_bit 4 b)"
    "PHP_UU_ENC_C3 b c = uu6 (push_bit 2 (b AND 15) OR drop_bit 6 c)"
    by (simp_all only: PHP_UU_ENC_C2_def PHP_UU_ENC_C3_def uu_parts uint_or [symmetric] sextet_bound)
qed

lemma uu_enc_0: "PHP_UU_ENC 0 = 96" "uu6 0 = 96"
  by (simp_all add: PHP_UU_ENC_def uu6_def)

lemma uu_groups_append: "length a mod 3 = 0 \<Longrightarrow> uu_groups (a @ b) = uu_groups a @ uu_groups b"
  by (induction a rule: uu_groups.induct) (auto simp: mod_Suc split: if_splits)

lemma uu_encode_groups_eq:
  assumes "drop s src = xs @ rest" "length xs mod 3 = 0"
  shows "uu_encode_groups src s (s + length xs) = Some (uu_groups xs, s + length xs)"
  using assms
proof (induction xs arbitrary: s rule: uu_groups.induct)
  case (1 a b c r)
  have d: "drop s src = a # b # c # r @ rest" using 1(2) by simp
  have s3: "s + 3 = Suc (Suc (Suc s))" by simp
  have "uu_encode_groups src (Suc (Suc (Suc s))) (Suc (Suc (Suc s)) + length r) = Some (uu_groups r, Suc (Suc (Suc s)) + length r)"
    using 1(1) [OF nth_opt_suffix(2) [OF nth_opt_suffix(2) [OF nth_opt_suffix(2) [OF d]]]] 1(3) by (simp add: mod_Suc split: if_splits)
  then show ?case
    by (subst uu_encode_groups.simps)
      (simp add: nth_opt_suffix(1) [OF d] nth_opt_suffix2(1) [OF d] nth_opt_suffix2(2) [OF d] s3
        uu_enc_hi uu_enc_lo uu_enc_c2 uu_enc_c3 uu_group_def)
qed (auto simp: uu_encode_groups.simps)

text \<open>What \<open>php_uuencode\<close> writes behind the loop.\<close>

definition uu_tail :: "byte list \<Rightarrow> nat \<Rightarrow> nat \<Rightarrow> nat \<Rightarrow> byte list option" where
  "uu_tail src e s len =
     (if s < e then do {
        c0 \<leftarrow> nth_opt src s;
        c1 \<leftarrow> nth_opt src (s + 1);
        x2 \<leftarrow> (if e - s > 1 then map_option (PHP_UU_ENC_C3 c1) (nth_opt src (s + 2)) else Some 96);
        x3 \<leftarrow> (if e - s > 2 then map_option (\<lambda>c2. PHP_UU_ENC (sint c2 AND 63)) (nth_opt src (s + 2)) else Some 96);
        Some ((if len = 45 then [PHP_UU_ENC (int (e - s))] else []) @
          [PHP_UU_ENC (drop_bit 2 (sint c0)), PHP_UU_ENC_C2 c0 c1, x2, x3] @ (if len \<le> 45 then [10] else []) @ [96, 10])
      }
      else Some ((if len < 45 then [10] else []) @ [96, 10]))"

lemma php_uuencode_tail:
  "php_uuencode src n = do { (p, s, len) \<leftarrow> uu_encode_lines src 0 n 45; map_option ((@) p) (uu_tail src n s len) }"
proof (cases "uu_encode_lines src 0 n 45")
  case (Some r)
  obtain p s len where r: "r = (p, s, len)" by (cases r)
  show ?thesis
    by (cases "nth_opt src s"; cases "nth_opt src (s + 1)"; cases "nth_opt src (s + 2)")
      (auto simp: php_uuencode_def uu_tail_def uu_enc_0 Some r)
qed (simp add: php_uuencode_def)

text \<open>The tail of a line of which one, two or three bytes are left.\<close>

lemma uu_tail_eq:
  assumes "drop s src = xs @ [0]" "xs \<noteq> []" "length xs \<le> 3" "len \<le> 45"
  shows "uu_tail src (s + length xs) s len =
    Some ((if len = 45 then [PHP_UU_ENC (int (length xs))] else []) @ uu_groups xs @ 10 # [96, 10])"
proof -
  consider a where "xs = [a]" | a b where "xs = [a, b]" | a b c where "xs = [a, b, c]"
    using assms(2,3) by (cases xs rule: uu_groups.cases) auto
  then show ?thesis
  proof cases
    case 1
    then have d: "drop s src = a # [0]" "nth_opt src (Suc s) = Some 0" using assms(1) nth_opt_suffix2(1) by auto
    show ?thesis using 1 assms(4) by (simp add: uu_tail_def nth_opt_suffix(1) [OF d(1)] d(2) uu_enc_hi uu_enc_c2 uu_group_def uu_enc_0)
  next
    case 2
    then have d: "drop s src = a # [b, 0]" using assms(1) by simp
    show ?thesis using 2 assms(4)
      by (simp add: uu_tail_def nth_opt_suffix(1) [OF d] nth_opt_suffix2(1) [OF d] nth_opt_suffix2(2) [OF d]
          uu_enc_hi uu_enc_c2 uu_enc_c3 uu_group_def uu_enc_0)
  next
    case 3
    then have d: "drop s src = a # [b, c, 0]" using assms(1) by simp
    show ?thesis using 3 assms(4)
      by (simp add: uu_tail_def nth_opt_suffix(1) [OF d] nth_opt_suffix2(1) [OF d] nth_opt_suffix2(2) [OF d]
          uu_enc_hi uu_enc_lo uu_enc_c2 uu_enc_c3 uu_group_def uu_enc_0)
  qed
qed

lemma uu_encode_lines_eq:
  assumes "drop s src = xs @ [0]" "e = s + length xs"
  shows "\<exists>p s' len' t. uu_encode_lines src s e 45 = Some (p, s', len') \<and> uu_tail src e s' len' = Some t \<and> p @ t = uu_text xs"
  using assms
proof (induction "length xs" arbitrary: xs s rule: less_induct)
  case less
  consider (short) "length xs \<le> 3" | (line) "3 < length xs" "length xs < 45" | (full) "45 \<le> length xs" by linarith
  then show ?case
  proof cases
    case short
    have "uu_encode_lines src s e 45 = Some ([], s, 45)" using short less.prems by (subst uu_encode_lines.simps) simp
    moreover have "uu_tail src e s 45 = Some (uu_text xs)"
    proof (cases "xs = []")
      case True
      then show ?thesis using less.prems by (simp add: uu_tail_def uu_text.simps)
    next
      case False
      then show ?thesis using uu_tail_eq [OF less.prems(1) False short, of 45] less.prems(2) short by (simp add: uu_text.simps [of xs])
    qed
    ultimately show ?thesis by simp
  next
    case line
    define m where "m = length xs div 3 * 3"
    have m: "m \<le> length xs" "length xs - m < 3" "3 \<le> m" "m mod 3 = 0" using line by (auto simp: m_def)
    define a b where "a = take m xs" and "b = drop m xs"
    have ab: "xs = a @ b" "length a = m" "length b = length xs - m" using m by (auto simp: a_def b_def)
    have ee: "(if (e - s) mod 3 \<noteq> 0 then s + (e - s) div 3 * 3 else e) = s + length a"
    proof -
      have n: "e - s = length xs" using less.prems(2) by simp
      have "length xs mod 3 = 0 \<Longrightarrow> length xs = m" using div_mult_mod_eq [of "length xs" 3] by (simp add: m_def)
      then show ?thesis unfolding n ab(2) using less.prems(2) by (auto simp: m_def)
    qed
    have da: "drop s src = a @ b @ [0]" using less.prems(1) unfolding ab(1) by simp
    have la: "length a mod 3 = 0" using ab(2) m(4) by simp
    note g = uu_encode_groups_eq [OF da la]
    have "\<not> s + length a + 3 < e" using less.prems(2) ab(2) m(2) by linarith
    then have stop: "uu_encode_lines src (s + length a) e (length xs) = Some ([], s + length a, length xs)"
      by (subst uu_encode_lines.simps) simp
    have "s + 3 < e" "s + 45 > e" "e - s = length xs" "s < s + length a" "length xs \<noteq> 45"
      using line less.prems(2) ab(2) m(3) by linarith+
    then have "uu_encode_lines src s e 45 = Some (PHP_UU_ENC (int (length xs)) # uu_groups a, s + length a, length xs)"
      using ee g stop by (subst uu_encode_lines.simps) simp
    moreover have "uu_tail src e (s + length a) (length xs) = Some (uu_groups b @ 10 # [96, 10])"
    proof (cases "b = []")
      case True
      then have "\<not> s + length a < e" using ab(2,3) less.prems(2) by simp
      then show ?thesis using True line by (simp add: uu_tail_def)
    next
      case False
      have "e = s + length a + length b" "length b \<le> 3" "length xs \<le> 45" using ab(2,3) m less.prems(2) line by linarith+
      with uu_tail_eq [OF drop_pieces [OF da] False, of "length xs"] show ?thesis using line by simp
    qed
    moreover have "uu_groups xs = uu_groups a @ uu_groups b" unfolding ab(1) by (rule uu_groups_append [OF la])
    ultimately show ?thesis using line by (auto simp: uu_text.simps [of xs])
  next
    case full
    define a b where "a = take 45 xs" and "b = drop 45 xs"
    have ab: "xs = a @ b" "length a = 45" "length b < length xs" using full by (auto simp: a_def b_def)
    have da: "drop s src = a @ b @ [0]" using less.prems(1) unfolding ab(1) by simp
    have g: "uu_encode_groups src s (s + length a) = Some (uu_groups a, s + length a)"
      by (rule uu_encode_groups_eq [OF da]) (simp add: ab(2))
    have e: "e = s + length a + length b" using less.prems(2) unfolding ab(1) by simp
    obtain p s' len' t where IH: "uu_encode_lines src (s + length a) e 45 = Some (p, s', len')" "uu_tail src e s' len' = Some t" "p @ t = uu_text b"
      using less.hyps [OF ab(3) drop_pieces [OF da] e] by blast
    have "uu_encode_lines src s e 45 = Some (PHP_UU_ENC 45 # uu_groups a @ [10] @ p, s', len')"
      using full less.prems(2) g ab(2) IH(1) by (subst uu_encode_lines.simps) simp
    then show ?thesis using IH full by (auto simp: uu_text.simps [of xs] a_def b_def)
  qed
qed

subsection \<open>Decoding an encoding\<close>

lemma uu_decode_group_eq: "uu_decode_group (uu6 (drop_bit 2 a)) (uu6 (push_bit 4 (a AND 3) OR drop_bit 4 b))
    (uu6 (push_bit 2 (b AND 15) OR drop_bit 6 c)) (uu6 (c AND 63)) = [a, b, c]"
proof -
  have w: "word_of_int (push_bit 2 (uint x) OR drop_bit 4 (uint y)) = push_bit 2 x OR drop_bit 4 y"
    "word_of_int (push_bit 4 (uint x) OR drop_bit 2 (uint y)) = push_bit 4 x OR drop_bit 2 y"
    "word_of_int (push_bit 6 (uint x) OR uint y) = push_bit 6 x OR y" for x y :: byte
    by (rule byte_eqI; simp add: bit_simps)+
  have mask: "push_bit 4 (x AND 15) = push_bit 4 x" "push_bit 6 (x AND 3) = push_bit 6 x" for x :: byte
    by (rule byte_eqI; simp add: bit_simps)+
  show ?thesis
    unfolding uu_decode_group_def uu_dec [OF sextet_bound(1)] uu_dec [OF sextet_bound(4)] uu_dec [OF sextet_bound(5)]
      uu_dec [OF sextet_bound(6)] w
    by (simp only: sextets [unfolded mask])
qed

lemma uu_decode_step:
  assumes "drop s src = uu_group a b c @ rest" "s < ee" "s + 4 \<le> e"
  shows "uu_decode_groups src s ee e = map_option (map_option (\<lambda>(p, s). (a # b # c # p, s))) (uu_decode_groups src (s + 4) ee e)"
    "drop (s + 4) src = rest"
proof -
  have s4: "s + 4 = Suc (Suc (Suc (Suc s)))" "s + 3 = Suc (Suc (Suc s))" by simp_all
  have d: "drop s src = uu6 (drop_bit 2 a) # uu6 (push_bit 4 (a AND 3) OR drop_bit 4 b) #
      uu6 (push_bit 2 (b AND 15) OR drop_bit 6 c) # uu6 (c AND 63) # rest"
    using assms(1) by (simp only: uu_group_def append_Cons append_Nil)
  note d1 = nth_opt_suffix(2) [OF d] note d2 = nth_opt_suffix(2) [OF d1] note d3 = nth_opt_suffix(2) [OF d2]
  show "drop (s + 4) src = rest" unfolding s4 by (rule nth_opt_suffix(2) [OF d3])
  have n: "nth_opt src s = Some (uu6 (drop_bit 2 a))" "nth_opt src (s + 1) = Some (uu6 (push_bit 4 (a AND 3) OR drop_bit 4 b))"
    "nth_opt src (s + 2) = Some (uu6 (push_bit 2 (b AND 15) OR drop_bit 6 c))" "nth_opt src (s + 3) = Some (uu6 (c AND 63))"
    using nth_opt_suffix(1) [OF d] nth_opt_suffix(1) [OF d1] nth_opt_suffix(1) [OF d2] nth_opt_suffix(1) [OF d3]
    by (simp_all only: s4 Suc_eq_plus1 [symmetric] add_2_eq_Suc')
  have "\<not> s + 4 > e" using assms(3) by simp
  then show "uu_decode_groups src s ee e = map_option (map_option (\<lambda>(p, s). (a # b # c # p, s))) (uu_decode_groups src (s + 4) ee e)"
    using assms(2)
    by (subst uu_decode_groups.simps) (simp only: n if_True if_False option.case uu_decode_group_eq append_Cons append_Nil)
qed

lemma uu_decode_groups_eq:
  assumes "drop s src = uu_groups xs @ rest" "ee \<le> s + length (uu_groups xs)" "s + length (uu_groups xs) < ee + 4"
    and "s + length (uu_groups xs) \<le> e"
  shows "\<exists>z. uu_decode_groups src s ee e = Some (Some (xs @ z, s + length (uu_groups xs))) \<and> (length xs mod 3 = 0 \<longrightarrow> z = [])"
  using assms
proof (induction xs arbitrary: s rule: uu_groups.induct)
  case (1 a b c r)
  have len: "length (uu_groups (a # b # c # r)) = length (uu_groups r) + 4" by (simp add: uu_group_def)
  have d: "drop s src = uu_group a b c @ uu_groups r @ rest" using 1(2) by simp
  have b: "s < ee" "s + 4 \<le> e" using 1(3-5) len by linarith+
  obtain z where "uu_decode_groups src (s + 4) ee e = Some (Some (r @ z, s + 4 + length (uu_groups r)))" "length r mod 3 = 0 \<longrightarrow> z = []"
    using 1(1) [OF uu_decode_step(2) [OF d b]] 1(3-5) len by auto
  then show ?case unfolding uu_decode_step(1) [OF d b] len by (simp add: mod_Suc)
next
  case (2 a b)
  have d: "drop s src = uu_group a b 0 @ rest" using 2 by simp
  have b: "s < ee" "s + 4 \<le> e" "\<not> s + 4 < ee" using 2 by (simp_all add: uu_group_def)
  show ?case unfolding uu_decode_step(1) [OF d b(1,2)] using b(3)
    by (subst uu_decode_groups.simps) (simp add: uu_group_def)
next
  case (3 a)
  have d: "drop s src = uu_group a 0 0 @ rest" using 3 by simp
  have b: "s < ee" "s + 4 \<le> e" "\<not> s + 4 < ee" using 3 by (simp_all add: uu_group_def)
  show ?case unfolding uu_decode_step(1) [OF d b(1,2)] using b(3)
    by (subst uu_decode_groups.simps) (simp add: uu_group_def)
qed (auto simp: uu_decode_groups.simps)

lemma length_uu_groups: "length (uu_groups xs) = (length xs + 2) div 3 * 4"
proof (induction xs rule: uu_groups.induct)
  case (1 a b c r)
  have "(length (a # b # c # r) + 2) div 3 = (length r + 2) div 3 + 1" by simp
  then show ?case using 1 by (simp add: uu_group_def)
qed (auto simp: uu_group_def)

text \<open>For every line length the size the decoder computes ends inside the last group.\<close>

lemma uu_line_sizes:
  assumes "n < 45" "0 < n"
  shows "133 * n div 100 \<le> (n + 2) div 3 * 4 \<and> (n + 2) div 3 * 4 < 133 * n div 100 + 4 \<and> PHP_UU_DEC (PHP_UU_ENC (int n)) = int n"
proof -
  have "133 * n div 100 * 100 \<le> 133 * n" "133 * n < 133 * n div 100 * 100 + 100"
    "(n + 2) div 3 * 3 \<le> n + 2" "n + 2 < (n + 2) div 3 * 3 + 3"
    using dividend_less_div_times [of 100 "133 * n"] dividend_less_div_times [of 3 "n + 2"] by (simp_all add: mult.commute)
  then have "133 * n div 100 \<le> (n + 2) div 3 * 4" "(n + 2) div 3 * 4 < 133 * n div 100 + 4" using assms by linarith+
  moreover have "list_all (\<lambda>i. PHP_UU_DEC (PHP_UU_ENC i) = i) [1..44]" by code_simp
  then have "PHP_UU_DEC (PHP_UU_ENC (int n)) = int n" using assms by (simp only: list_all_iff set_upto) simp
  ultimately show ?thesis by blast
qed

lemma uu_decode_lines_eq:
  assumes "drop s src = uu_text xs @ [0]" "e = s + length (uu_text xs)" "45 \<le> length xs \<longrightarrow> 45 \<le> n" "length xs \<le> n"
  shows "\<exists>p s'. uu_decode_lines src n s e t = Some (Some (t + length xs, p, s')) \<and> length xs \<le> length p \<and> take (length xs) p = xs"
  using assms
proof (induction "length xs" arbitrary: xs s t rule: less_induct)
  case less
  consider (nil) "xs = []" | (line) "xs \<noteq> []" "length xs < 45" | (full) "45 \<le> length xs" by linarith
  then show ?case
  proof cases
    case nil
    have d: "drop s src = 96 # [10, 0]" using less.prems(1) nil by (simp add: uu_text.simps)
    have "PHP_UU_DEC 96 \<le> 0" by code_simp
    then show ?thesis using nil less.prems(2)
      by (subst uu_decode_lines.simps) (simp add: nth_opt_suffix(1) [OF d] uu_text.simps)
  next
    case line
    define k where "k = length xs"
    have k: "0 < k" "k < 45" "k \<le> n" using line less.prems(4) by (auto simp: k_def)
    note sz = uu_line_sizes [OF k(2,1)]
    have tx: "uu_text xs = PHP_UU_ENC (int k) # uu_groups xs @ [10, 96, 10]"
      using line by (simp add: uu_text.simps [of xs] k_def)
    have d: "drop s src = PHP_UU_ENC (int k) # uu_groups xs @ [10, 96, 10, 0]" using less.prems(1) by (simp add: tx)
    have lg: "length (uu_groups xs) = (k + 2) div 3 * 4" by (simp add: length_uu_groups k_def)
    have e: "e = Suc s + length (uu_groups xs) + 3" using less.prems(2) by (simp add: tx)
    have "Suc s + 133 * k div 100 \<le> Suc s + length (uu_groups xs)" "Suc s + length (uu_groups xs) < Suc s + 133 * k div 100 + 4"
      "Suc s + length (uu_groups xs) \<le> e" using sz e lg by linarith+
    from uu_decode_groups_eq [OF nth_opt_suffix(2) [OF d] this]
    obtain z where z: "uu_decode_groups src (Suc s) (Suc s + 133 * k div 100) e = Some (Some (xs @ z, Suc s + length (uu_groups xs)))"
      by blast
    have "\<not> Suc s + 133 * k div 100 > e" "s < e" "\<not> int k \<le> 0" "k \<noteq> 45" using sz e lg k by linarith+
    then have "uu_decode_lines src n s e t = Some (Some (t + k, xs @ z, Suc s + length (uu_groups xs)))"
      using k z sz by (subst uu_decode_lines.simps) (simp add: nth_opt_suffix(1) [OF d] Let_def)
    then show ?thesis by (simp add: k_def)
  next
    case full
    define a b where "a = take 45 xs" and "b = drop 45 xs"
    have ab: "xs = a @ b" "length a = 45" "length b < length xs" "length xs = 45 + length b" using full by (auto simp: a_def b_def)
    have tx: "uu_text xs = PHP_UU_ENC 45 # uu_groups a @ 10 # uu_text b"
      using full by (auto simp: uu_text.simps [of xs] a_def b_def)
    have d: "drop s src = PHP_UU_ENC 45 # uu_groups a @ 10 # uu_text b @ [0]" using less.prems(1) by (simp add: tx)
    have lg: "length (uu_groups a) = 60" by (simp add: length_uu_groups ab(2))
    have e: "e = Suc s + 60 + 1 + length (uu_text b)" using less.prems(2) by (simp add: tx lg)
    have dec: "PHP_UU_DEC (PHP_UU_ENC 45) = 45" by code_simp
    have z: "uu_decode_groups src (Suc s) (Suc s + 60) e = Some (Some (a, Suc s + 60))"
      using uu_decode_groups_eq [OF nth_opt_suffix(2) [OF d], of "Suc s + 60" e] e lg ab(2) by auto
    have "drop (Suc s + 60) src = 10 # uu_text b @ [0]" using drop_pieces [OF nth_opt_suffix(2) [OF d]] lg by simp
    then have db: "drop (Suc (Suc s + 60)) src = uu_text b @ [0]" by (rule nth_opt_suffix(2))
    have nb: "45 \<le> length b \<longrightarrow> 45 \<le> n" "length b \<le> n" "45 \<le> n" using less.prems(3,4) ab(4) full by auto
    have eb: "e = Suc (Suc s + 60) + length (uu_text b)" using e by simp
    obtain p s' where IH: "uu_decode_lines src n (Suc (Suc s + 60)) e (t + 45) = Some (Some (t + 45 + length b, p, s'))"
      "length b \<le> length p" "take (length b) p = b"
      using less.hyps [OF ab(3) db eb nb(1,2)] by blast
    have "\<not> Suc s + 60 > e" "s < e" "\<not> n < 45" using e nb(3) by linarith+
    then have "uu_decode_lines src n s e t = Some (Some (t + 45 + length b, a @ p, s'))"
      using z IH(1) by (subst uu_decode_lines.simps) (simp add: nth_opt_suffix(1) [OF d] dec)
    then show ?thesis using IH(2,3) ab by simp
  qed
qed

subsection \<open>Round trip\<close>


end
