(* ===== verification/C_Int.thy ===== *)
theory C_Int
  imports Prelude "HOL-Library.Signed_Division"
begin

text \<open>
  Signed arithmetic of C, for code that computes with \<open>int\<close> and \<open>long\<close> rather than with words of
  bits. A value is the integer it stands for. A result that does not fit its type is undefined in
  C, which is \<open>None\<close> (\<open>c_int\<close>, \<open>c_long\<close>); a conversion to a narrower type keeps the low bits, as all
  compilers the code is built with do (\<open>int_of_long\<close>). Division and remainder truncate towards
  zero: \<open>sdiv\<close> and \<open>smod\<close> of the library.
\<close>

definition c_int :: "int \<Rightarrow> int option" where
  "c_int i = (if - 2147483648 \<le> i \<and> i \<le> 2147483647 then Some i else None)"

definition c_long :: "int \<Rightarrow> int option" where
  "c_long i = (if - 9223372036854775808 \<le> i \<and> i \<le> 9223372036854775807 then Some i else None)"

definition int_of_long :: "int \<Rightarrow> int" where
  "int_of_long i = (i + 2147483648) mod 4294967296 - 2147483648"

named_theorems c_arith \<open>signed arithmetic that stays in range\<close>

lemma c_int_id [c_arith]: "- 2147483648 \<le> i \<Longrightarrow> i \<le> 2147483647 \<Longrightarrow> c_int i = Some i"
  by (simp add: c_int_def)

lemma c_long_id [c_arith]: "- 9223372036854775808 \<le> i \<Longrightarrow> i \<le> 9223372036854775807 \<Longrightarrow> c_long i = Some i"
  by (simp add: c_long_def)

lemma int_of_long_id [c_arith]: "- 2147483648 \<le> i \<Longrightarrow> i \<le> 2147483647 \<Longrightarrow> int_of_long i = i"
  by (simp add: int_of_long_def)

lemma sdiv_nonneg [c_arith]: "0 \<le> a \<Longrightarrow> 0 \<le> b \<Longrightarrow> a sdiv b = a div (b :: int)"
  by (cases "a = 0"; cases "b = 0") (simp_all add: signed_divide_int_def)

lemma smod_nonneg [c_arith]: "0 \<le> a \<Longrightarrow> 0 \<le> b \<Longrightarrow> a smod b = a mod (b :: int)"
  by (cases "a = 0"; cases "b = 0") (simp_all add: signed_modulo_int_def)

text \<open>\<open>bind\<close> of a value that is known.\<close>

lemma bind_known: "a = Some x \<Longrightarrow> Option.bind a f = f x"
  by simp

end
