(* ===== verification/Calendar.thy ===== *)
theory Calendar
  imports C_Int
begin

text \<open>
  The Gregorian, Julian and French calendars of \<open>ext/calendar\<close>: \<open>gregor.c\<close>, \<open>julian.c\<close>,
  \<open>french.c\<close>, and \<open>dow.c\<close>. A date is \<open>(year, month, day)\<close>; there is no year 0, and \<open>- 1\<close> is 1 B.C.
  A conversion is \<open>None\<close> where the arithmetic of the code overflows \<open>int\<close>. The interface
  \<open>day_count\<close> states what a pair of conversions promises.
\<close>

type_synonym date = "int \<times> int \<times> int"

subsection \<open>Gregorian calendar\<close>

definition GREGOR_SDN_OFFSET :: int where "GREGOR_SDN_OFFSET = 32045"
definition DAYS_PER_5_MONTHS :: int where "DAYS_PER_5_MONTHS = 153"
definition DAYS_PER_4_YEARS :: int where "DAYS_PER_4_YEARS = 1461"
definition DAYS_PER_400_YEARS :: int where "DAYS_PER_400_YEARS = 146097"

text \<open>The last steps of both conversions from a day number: the year begins in January, and there is
  no year 0.\<close>

definition sdn_year_begin :: "int \<Rightarrow> int \<Rightarrow> int \<Rightarrow> date option" where
  "sdn_year_begin year month day =
     do {
       year \<leftarrow> c_int (if month < 10 then year else year + 1);
       let month = (if month < 10 then month + 3 else month - 9);
       year \<leftarrow> c_int (year - 4800);
       year \<leftarrow> c_int (if year \<le> 0 then year - 1 else year);
       Some (year, month, day)
     }"

definition SdnToGregorian :: "int \<Rightarrow> date option" where
  "SdnToGregorian sdn =
     (if sdn \<le> 0 \<or> sdn > (9223372036854775807 - 4 * GREGOR_SDN_OFFSET) sdiv 4 then Some (0, 0, 0)
      else do {
        let temp = (sdn + GREGOR_SDN_OFFSET) * 4 - 1;
        let century = int_of_long (temp sdiv DAYS_PER_400_YEARS);
        let temp = ((temp smod DAYS_PER_400_YEARS) sdiv 4) * 4 + 3;
        centuries \<leftarrow> c_int (century * 100);
        let year = int_of_long (centuries + temp sdiv DAYS_PER_4_YEARS);
        let dayOfYear = (temp smod DAYS_PER_4_YEARS) sdiv 4 + 1;
        let temp = dayOfYear * 5 - 3;
        let month = temp sdiv DAYS_PER_5_MONTHS;
        let day = (temp smod DAYS_PER_5_MONTHS) sdiv 5 + 1;
        sdn_year_begin year month day
      })"

text \<open>The sum at the end does not overflow, since its first term is at most \<open>2\<^sup>2\<^sup>9\<close>.\<close>

definition GregorianToSdn :: "int \<Rightarrow> int \<Rightarrow> int \<Rightarrow> int option" where
  "GregorianToSdn inputYear inputMonth inputDay =
     (if inputYear = 0 \<or> inputYear < - 4714 \<or> inputMonth \<le> 0 \<or> inputMonth > 12 \<or> inputDay \<le> 0 \<or> inputDay > 31
      then Some 0
      else if inputYear = - 4714 \<and> inputMonth < 11 then Some 0
      else if inputYear = - 4714 \<and> inputMonth = 11 \<and> inputDay < 25 then Some 0
      else do {
        year \<leftarrow> c_int (if inputYear < 0 then inputYear + 4801 else inputYear + 4800);
        let month = (if inputMonth > 2 then inputMonth - 3 else inputMonth + 9);
        let year = (if inputMonth > 2 then year else year - 1);
        centuries \<leftarrow> c_int (year sdiv 100 * DAYS_PER_400_YEARS);
        years \<leftarrow> c_int (year smod 100 * DAYS_PER_4_YEARS);
        Some (centuries sdiv 4 + years sdiv 4 + (month * DAYS_PER_5_MONTHS + 2) sdiv 5 + inputDay - GREGOR_SDN_OFFSET)
      })"

subsection \<open>Julian calendar\<close>

definition JULIAN_SDN_OFFSET :: int where "JULIAN_SDN_OFFSET = 32083"

definition SdnToJulian :: "int \<Rightarrow> date option" where
  "SdnToJulian sdn =
     (if sdn \<le> 0 then Some (0, 0, 0)
      else if sdn > (9223372036854775807 - JULIAN_SDN_OFFSET * 4 + 1) sdiv 4 \<or> sdn < (- 9223372036854775808) sdiv 4
      then Some (0, 0, 0)
      else
        let temp = sdn * 4 + (JULIAN_SDN_OFFSET * 4 - 1);
            yearl = temp sdiv DAYS_PER_4_YEARS
        in if yearl > 2147483647 \<or> yearl < - 2147483648 then Some (0, 0, 0)
           else
             let dayOfYear = (temp smod DAYS_PER_4_YEARS) sdiv 4 + 1;
                 temp = dayOfYear * 5 - 3;
                 month = temp sdiv DAYS_PER_5_MONTHS;
                 day = (temp smod DAYS_PER_5_MONTHS) sdiv 5 + 1
             in sdn_year_begin yearl month day)"

definition JulianToSdn :: "int \<Rightarrow> int \<Rightarrow> int \<Rightarrow> int option" where
  "JulianToSdn inputYear inputMonth inputDay =
     (if inputYear = 0 \<or> inputYear < - 4713 \<or> inputMonth \<le> 0 \<or> inputMonth > 12 \<or> inputDay \<le> 0 \<or> inputDay > 31
      then Some 0
      else if inputYear = - 4713 \<and> inputMonth = 1 \<and> inputDay = 1 then Some 0
      else do {
        year \<leftarrow> c_int (if inputYear < 0 then inputYear + 4801 else inputYear + 4800);
        let month = (if inputMonth > 2 then inputMonth - 3 else inputMonth + 9);
        let year = (if inputMonth > 2 then year else year - 1);
        years \<leftarrow> c_int (year * DAYS_PER_4_YEARS);
        Some (years sdiv 4 + (month * DAYS_PER_5_MONTHS + 2) sdiv 5 + inputDay - JULIAN_SDN_OFFSET)
      })"

subsection \<open>French republican calendar\<close>

definition FRENCH_SDN_OFFSET :: int where "FRENCH_SDN_OFFSET = 2375474"
definition DAYS_PER_MONTH :: int where "DAYS_PER_MONTH = 30"
definition FIRST_VALID :: int where "FIRST_VALID = 2375840"
definition LAST_VALID :: int where "LAST_VALID = 2380952"

definition SdnToFrench :: "int \<Rightarrow> date option" where
  "SdnToFrench sdn =
     (if sdn < FIRST_VALID \<or> sdn > LAST_VALID then Some (0, 0, 0)
      else
        let temp = (sdn - FRENCH_SDN_OFFSET) * 4 - 1;
            dayOfYear = (temp smod DAYS_PER_4_YEARS) sdiv 4
        in Some (temp sdiv DAYS_PER_4_YEARS, dayOfYear sdiv DAYS_PER_MONTH + 1, dayOfYear smod DAYS_PER_MONTH + 1))"

definition FrenchToSdn :: "int \<Rightarrow> int \<Rightarrow> int \<Rightarrow> int option" where
  "FrenchToSdn year month day =
     (if year < 1 \<or> year > 14 \<or> month < 1 \<or> month > 13 \<or> day < 1 \<or> day > 30 then Some 0
      else Some (year * DAYS_PER_4_YEARS sdiv 4 + (month - 1) * DAYS_PER_MONTH + day + FRENCH_SDN_OFFSET))"

subsection \<open>Day of the week\<close>

definition DayOfWeek :: "int \<Rightarrow> int option" where
  "DayOfWeek sdn =
     do {
       n \<leftarrow> c_long (sdn + 1);
       let dow = n smod 7;
       Some (if dow \<ge> 0 then dow else dow + 7)
     }"

lemmas calendar_consts = GREGOR_SDN_OFFSET_def DAYS_PER_5_MONTHS_def DAYS_PER_4_YEARS_def DAYS_PER_400_YEARS_def
  JULIAN_SDN_OFFSET_def FRENCH_SDN_OFFSET_def DAYS_PER_MONTH_def FIRST_VALID_def LAST_VALID_def

subsection \<open>Counting by periods of two lengths\<close>

text \<open>A period has \<open>B / e\<close> days on average; \<open>n\<close> periods have \<open>(n * B + k) div e\<close> days. The code finds the
  period of day \<open>x\<close>, and the day in it, by one division by \<open>B\<close>.\<close>

lemma div_between: "e * k \<le> n \<Longrightarrow> n < e * k + e \<Longrightarrow> n div e = k" for e k n :: int
  by (rule int_div_pos_eq [of _ _ _ "n - e * k"]) auto

lemma div_bounds:
  fixes e n :: int
  assumes "0 < e"
  shows "e * (n div e) \<le> n" "n < e * (n div e) + e"
  using mult_div_mod_eq [of e n] pos_mod_sign [OF assms, of n] pos_mod_bound [OF assms, of n] by linarith+

lemma period_of_day:
  fixes e B c x :: int
  assumes "0 < e" "0 < B" "0 \<le> c" "c < e"
  defines "q \<equiv> (e * x + c) div B" and "r \<equiv> ((e * x + c) mod B) div e"
  shows "(q * B + (e - 1 - c)) div e + r = x" "0 \<le> r" "x < ((q + 1) * B + (e - 1 - c)) div e"
proof -
  define s where "s = (e * x + c) mod B"
  have s: "e * x + c = q * B + s" "0 \<le> s" "s < B" using assms(2) by (simp_all add: q_def s_def)
  have r: "e * r \<le> s" "s < e * r + e"
    using div_bounds [OF assms(1), of s] by (simp_all add: r_def s_def [symmetric])
  have "(q * B + (e - 1 - c)) div e = x - r"
    using s r assms(3,4) by (intro div_between) (simp_all add: algebra_simps)
  then show "(q * B + (e - 1 - c)) div e + r = x" by simp
  show "0 \<le> r" using s(2) assms(1) by (simp add: r_def s_def [symmetric] pos_imp_zdiv_nonneg_iff)
  have "e * (x + 1) \<le> (q + 1) * B + (e - 1 - c)" using s by (simp add: algebra_simps)
  then have "x + 1 \<le> ((q + 1) * B + (e - 1 - c)) div e" using assms(1) by (metis zdiv_mono1 nonzero_mult_div_cancel_left order_less_irrefl)
  then show "x < ((q + 1) * B + (e - 1 - c)) div e" by simp
qed

lemma day_of_period:
  fixes e B c x q r :: int
  assumes "0 < e" "0 < B" "0 \<le> c" "c < e"
    and x: "(q * B + (e - 1 - c)) div e + r = x" "0 \<le> r" "x < ((q + 1) * B + (e - 1 - c)) div e"
  shows "(e * x + c) div B = q" "((e * x + c) mod B) div e = r"
proof -
  define p where "p = (q * B + (e - 1 - c)) div e"
  have p: "e * p \<le> q * B + (e - 1 - c)" "q * B + (e - 1 - c) < e * p + e"
    using div_bounds [OF assms(1), of "q * B + (e - 1 - c)"] by (simp_all add: p_def)
  have xr: "x = p + r" using x(1) by (simp add: p_def)
  have er: "e * x = e * p + e * r" by (simp add: xr algebra_simps)
  have e0: "0 \<le> e * r" using assms(1) x(2) by simp
  have "e * (x + 1) \<le> (q + 1) * B + (e - 1 - c)"
    using mult_left_mono [of "x + 1" "((q + 1) * B + (e - 1 - c)) div e" e] div_bounds(1) [OF assms(1), of "(q + 1) * B + (e - 1 - c)"]
      x(3) assms(1) by linarith
  then have up: "e * x + c < q * B + B" by (simp add: algebra_simps)
  have lo: "q * B \<le> e * x + c" using p er e0 by linarith
  show q: "(e * x + c) div B = q" using up lo by (intro div_between) (simp_all add: mult.commute)
  have "(e * x + c) mod B = e * x + c - q * B" using q by (metis minus_div_mult_eq_mod)
  moreover have "(e * x + c - q * B) div e = r" using p er by (intro div_between) linarith+
  ultimately show "((e * x + c) mod B) div e = r" by simp
qed

subsection \<open>Months\<close>

text \<open>The days before a month and the days of a month, both counted from March.\<close>

definition before_month :: "int \<Rightarrow> int" where
  "before_month m = (m * 153 + 2) div 5"

definition month_days :: "bool \<Rightarrow> int \<Rightarrow> int" where
  "month_days leap m = (if m = 2 then (if leap then 29 else 28) else if m \<in> {4, 6, 9, 11} then 30 else 31)"

lemma march_month_cases:
  assumes "0 \<le> (m::int)" "m \<le> 11"
  shows "m \<in> {0, 1, 2, 3, 4, 5, 6, 7, 8, 9, 10, 11}"
  using assms by (simp, presburger)

lemma before_month_days:
  assumes "0 \<le> m" "m \<le> 10"
  shows "before_month (m + 1) = before_month m + month_days leap (if m < 10 then m + 3 else m - 9)"
  using march_month_cases [of m] assms by (auto simp: before_month_def month_days_def)

text \<open>The year day \<open>n\<close>, counted from March: month and day of month.\<close>

lemma month_of_day:
  assumes "0 \<le> n" "n < 366"
  defines "m \<equiv> (5 * n + 2) div 153" and "d \<equiv> ((5 * n + 2) mod 153) div 5"
  shows "0 \<le> m" "m \<le> 11" "0 \<le> d" "n = before_month m + d" "n < before_month (m + 1)"
proof -
  show "0 \<le> m" "m \<le> 11" using assms(1,2) by (simp_all add: m_def)
  have p: "(i * 153 + (5 - 1 - 2)) div 5 = before_month i" for i by (simp add: before_month_def)
  note * = period_of_day [of 5 153 2 n, folded m_def d_def, unfolded p]
  show "0 \<le> d" by (rule *(2)) simp_all
  show "n = before_month m + d" by (rule *(1) [symmetric]) simp_all
  show "n < before_month (m + 1)" by (rule *(3)) simp_all
qed

lemma day_of_month:
  assumes "0 \<le> d" "before_month m + d < before_month (m + 1)"
  shows "(5 * (before_month m + d) + 2) div 153 = m" "((5 * (before_month m + d) + 2) mod 153) div 5 = d"
proof -
  have p: "(i * 153 + (5 - 1 - 2)) div 5 = before_month i" for i by (simp add: before_month_def)
  note * = day_of_period [of 5 153 2 m d "before_month m + d", unfolded p]
  show "(5 * (before_month m + d) + 2) div 153 = m" by (rule *(1)) (use assms in simp_all)
  show "((5 * (before_month m + d) + 2) mod 153) div 5 = d" by (rule *(2)) (use assms in simp_all)
qed

lemma date_of_year_day:
  assumes "0 \<le> n" "n < 365 + of_bool leap"
  defines "m \<equiv> (5 * n + 2) div 153" and "d \<equiv> ((5 * n + 2) mod 153) div 5"
  shows "0 \<le> m" "m \<le> 11" "0 \<le> d" "d < month_days leap (if m < 10 then m + 3 else m - 9)" "n = before_month m + d"
proof -
  have n: "n < 366" using assms(2) by (simp add: of_bool_def split: if_splits)
  note md = month_of_day [OF assms(1) n, folded m_def d_def]
  then show "0 \<le> m" "m \<le> 11" "0 \<le> d" "n = before_month m + d" by simp_all
  show "d < month_days leap (if m < 10 then m + 3 else m - 9)"
  proof (cases "m = 11")
    case True
    then show ?thesis using md(4) assms(2) by (cases leap) (simp_all add: before_month_def month_days_def)
  next
    case False
    then have "m \<le> 10" using md(2) by simp
    then show ?thesis using before_month_days [of m leap] md by simp
  qed
qed

lemma year_day_of_date:
  assumes "0 \<le> m" "m \<le> 11" "0 \<le> d" "d < month_days leap (if m < 10 then m + 3 else m - 9)"
  defines "n \<equiv> before_month m + d"
  shows "0 \<le> n" "n < 365 + of_bool leap" "(5 * n + 2) div 153 = m" "((5 * n + 2) mod 153) div 5 = d"
proof -
  have m: "m \<in> {0, 1, 2, 3, 4, 5, 6, 7, 8, 9, 10, 11}" using march_month_cases assms(1,2) by blast
  then show "0 \<le> n" "n < 365 + of_bool leap"
    using assms(3,4) by (auto simp: n_def before_month_def month_days_def)
  have "d < before_month (m + 1) - before_month m"
    using m assms(4) by (auto simp: before_month_def month_days_def split: if_splits)
  then show "(5 * n + 2) div 153 = m" "((5 * n + 2) mod 153) div 5 = d"
    using day_of_month [of d m] assms(3) by (simp_all add: n_def)
qed

subsection \<open>Dates of the Gregorian and the Julian calendar\<close>

text \<open>\<open>astro\<close> numbers the years with a year 0, 1 B.C.; the code counts from March of the year
  \<open>- 4800\<close> of that numbering.\<close>

definition astro :: "int \<Rightarrow> int" where
  "astro y = (if y < 0 then y + 1 else y)"

definition gregorian_leap :: "int \<Rightarrow> bool" where
  "gregorian_leap a \<longleftrightarrow> a mod 4 = 0 \<and> (a mod 100 \<noteq> 0 \<or> a mod 400 = 0)"

definition julian_leap :: "int \<Rightarrow> bool" where
  "julian_leap a \<longleftrightarrow> a mod 4 = 0"

definition calendar_date :: "(int \<Rightarrow> bool) \<Rightarrow> int \<Rightarrow> int \<Rightarrow> int \<Rightarrow> bool" where
  "calendar_date leap y m d \<longleftrightarrow> y \<noteq> 0 \<and> 1 \<le> m \<and> m \<le> 12 \<and> 1 \<le> d \<and> d \<le> month_days (leap (astro y)) m"

definition march_year :: "int \<Rightarrow> int \<Rightarrow> int" where
  "march_year y m = (if m > 2 then astro y + 4800 else astro y + 4799)"

definition march_month :: "int \<Rightarrow> int" where
  "march_month m = (if m > 2 then m - 3 else m + 9)"

text \<open>The days before March of a year.\<close>

definition gregorian_year :: "int \<Rightarrow> int" where
  "gregorian_year Y = (Y div 100 * 146097) div 4 + (Y mod 100 * 1461) div 4"

definition julian_year :: "int \<Rightarrow> int" where
  "julian_year Y = (Y * 1461) div 4"

lemma gregorian_leap_century:
  assumes "0 \<le> q" "q \<le> 99"
  shows "gregorian_leap (100 * c + q + 1) \<longleftrightarrow> q mod 4 = 3 \<and> (q \<noteq> 99 \<or> c mod 4 = 3)"
proof -
  have "(100 * c + q + 1) mod 4 = (q + 1) mod 4" "(100 * c + q + 1) mod 100 = (q + 1) mod 100"
    using mod_mult_self2 [of "q + 1" 4 "25 * c"] mod_mult_self2 [of "q + 1" 100 c] by (simp_all add: ac_simps)
  moreover have "(q + 1) mod 4 = 0 \<longleftrightarrow> q mod 4 = 3" "(c + 1) mod 4 = 0 \<longleftrightarrow> c mod 4 = 3" by presburger+
  moreover have "(q + 1) mod 100 = 0 \<longleftrightarrow> q = 99" using assms by (cases "q = 99") (simp_all add: mod_pos_pos_trivial)
  moreover have "(100 * c + 99 + 1) mod 400 = 100 * ((c + 1) mod 4)"
    using mult_mod_right [of 100 "c + 1" 4] by (simp add: algebra_simps)
  ultimately show ?thesis unfolding gregorian_leap_def by (cases "q = 99") auto
qed

lemma gregorian_year_parts:
  assumes "0 \<le> q" "q \<le> 99"
  shows "gregorian_year (100 * c + q) = (c * 146097) div 4 + (q * 1461) div 4"
  using assms by (simp add: gregorian_year_def)

lemma quarter_days:
  "(c * 146097) div 4 = 36524 * c + c div 4" "(c * 1461) div 4 = 365 * c + c div 4" for c :: int
proof -
  have "c * 146097 = c + 4 * (36524 * c)" "c * 1461 = c + 4 * (365 * c)" by simp_all
  then show "(c * 146097) div 4 = 36524 * c + c div 4" "(c * 1461) div 4 = 365 * c + c div 4"
    by (simp_all only: div_mult_self2 [of 4 c, simplified] add.commute)
qed

lemma quarter_next: "(c + 1) div 4 = c div 4 + of_bool (c mod 4 = 3)" for c :: int
  by (cases "c mod 4 = 3") (simp_all, presburger+)

lemma gregorian_year_of_day:
  assumes "0 \<le> x"
  defines "c \<equiv> (4 * x + 3) div 146097" and "doc \<equiv> ((4 * x + 3) mod 146097) div 4"
  defines "q \<equiv> (4 * doc + 3) div 1461" and "n \<equiv> ((4 * doc + 3) mod 1461) div 4"
  shows "0 \<le> c" "0 \<le> doc" "doc \<le> 36524" "0 \<le> q" "q \<le> 99" "0 \<le> n" "n < 365 + of_bool (gregorian_leap (100 * c + q + 1))"
    "x = gregorian_year (100 * c + q) + n"
proof -
  have p: "(i * B + (4 - 1 - 3)) div 4 = i * B div 4" "(0::int) < 4" "(0::int) < 146097" "(0::int) < 1461" "(0::int) \<le> 3" "(3::int) < 4"
    for i B :: int by simp_all
  show c: "0 \<le> c" using assms(1) by (simp add: c_def pos_imp_zdiv_nonneg_iff)
  have doc: "0 \<le> doc" "(c * 146097) div 4 + doc = x" "x < ((c + 1) * 146097) div 4"
    using period_of_day [of 4 146097 3 x, folded c_def doc_def] by (simp_all only: p)
  have n: "0 \<le> n" "(q * 1461) div 4 + n = doc" "doc < ((q + 1) * 1461) div 4"
    using period_of_day [of 4 1461 3 doc, folded q_def n_def] by (simp_all only: p)
  have doc36: "doc < 36524 + of_bool (c mod 4 = 3)"
    using doc(2,3) unfolding quarter_days quarter_next by simp
  then show "doc \<le> 36524" by (cases "c mod 4 = 3") simp_all
  then show q: "0 \<le> q" "q \<le> 99" using doc(1) by (simp_all add: q_def)
  show "0 \<le> doc" "0 \<le> n" by fact+
  show "x = gregorian_year (100 * c + q) + n" using gregorian_year_parts [OF q, of c] doc(2) n(2) by simp
  have "n < 365 + of_bool (q mod 4 = 3)" using n(2,3) unfolding quarter_days quarter_next by simp
  moreover have "n < 365 + of_bool (c mod 4 = 3)" if "q = 99"
    using n(2) doc36 that by (simp add: quarter_days)
  ultimately show "n < 365 + of_bool (gregorian_leap (100 * c + q + 1))"
    unfolding gregorian_leap_century [OF q] by (cases "q = 99") auto
qed

lemma day_of_gregorian_year:
  assumes "0 \<le> q" "q \<le> 99" "0 \<le> n" "n < 365 + of_bool (gregorian_leap (100 * c + q + 1))"
  defines "x \<equiv> gregorian_year (100 * c + q) + n"
  shows "(4 * x + 3) div 146097 = c" "((4 * x + 3) mod 146097) div 4 = 365 * q + q div 4 + n"
    "(4 * (365 * q + q div 4 + n) + 3) div 1461 = q" "((4 * (365 * q + q div 4 + n) + 3) mod 1461) div 4 = n"
proof -
  define doc where "doc = 365 * q + q div 4 + n"
  have lt: "n < 365 + of_bool (q mod 4 = 3)" "q = 99 \<longrightarrow> n < 365 + of_bool (c mod 4 = 3)"
    using assms(4) unfolding gregorian_leap_century [OF assms(1,2)] by (auto simp: of_bool_def split: if_splits)
  have doc: "0 \<le> doc" "doc < 36524 + of_bool (c mod 4 = 3)"
  proof -
    show "0 \<le> doc" using assms(1,3) by (simp add: doc_def)
    show "doc < 36524 + of_bool (c mod 4 = 3)"
    proof (cases "q = 99")
      case True
      then show ?thesis using lt by (simp add: doc_def)
    next
      case False
      then have "q \<le> 98" "q div 4 \<le> 24" using assms(2) by simp_all
      moreover have "n < 366" using lt(1) by (simp add: of_bool_def split: if_splits)
      ultimately have "doc < 36524" by (simp add: doc_def)
      then show ?thesis by simp
    qed
  qed
  have x: "x = (c * 146097) div 4 + doc"
    using gregorian_year_parts [OF assms(1,2), of c] by (simp add: x_def doc_def quarter_days)
  have p: "(i * B + (4 - 1 - 3)) div 4 = i * B div 4" "(0::int) < 4" "(0::int) < 146097" "(0::int) < 1461" "(0::int) \<le> 3" "(3::int) < 4"
    for i B :: int by simp_all
  have "x < ((c + 1) * 146097) div 4" using x doc(2) unfolding quarter_days quarter_next by simp
  then show "(4 * x + 3) div 146097 = c" "((4 * x + 3) mod 146097) div 4 = 365 * q + q div 4 + n"
    using day_of_period [of 4 146097 3 c doc x, unfolded p(1), OF p(2,3,5,6)] x doc(1) by (simp_all only: doc_def)
  have "doc < ((q + 1) * 1461) div 4" using lt unfolding quarter_days quarter_next by (simp add: doc_def)
  moreover have "(q * 1461) div 4 + n = doc" by (simp add: quarter_days doc_def)
  ultimately show "(4 * (365 * q + q div 4 + n) + 3) div 1461 = q" "((4 * (365 * q + q div 4 + n) + 3) mod 1461) div 4 = n"
    using day_of_period [of 4 1461 3 q n doc, unfolded p(1), OF p(2,4,5,6)] assms(3) by (simp_all only: doc_def)
qed

lemma sdn_year_begin_date:
  assumes "y \<noteq> 0" "1 \<le> m" "m \<le> 12" "0 \<le> march_year y m" "march_year y m \<le> 2147483646"
  shows "sdn_year_begin (march_year y m) (march_month m) d = Some (y, m, d)"
  using assms by (auto simp: sdn_year_begin_def march_year_def march_month_def astro_def c_int_def split: if_splits)

lemma march_date_exists:
  assumes "0 \<le> m" "m \<le> 11"
  obtains y m' where "y \<noteq> 0" "1 \<le> m'" "m' \<le> 12" "march_year y m' = Y" "march_month m' = m"
    "m' = (if m < 10 then m + 3 else m - 9)"
proof -
  define a where "a = (if m < 10 then Y - 4800 else Y - 4799)"
  define y where "y = (if a \<le> 0 then a - 1 else a)"
  have "astro y = a" "y \<noteq> 0" by (auto simp: astro_def y_def)
  then show thesis
    using assms by (intro that [of y "if m < 10 then m + 3 else m - 9"]) (auto simp: march_year_def march_month_def a_def)
qed

lemma month_days_march:
  assumes "\<And>a. leap (a + 4800) = leap a"
  shows "month_days (leap (astro y)) m = month_days (leap (march_year y m + 1)) m"
  using assms [of "astro y"] by (simp add: month_days_def march_year_def add.commute)

lemma march_month_inv: "1 \<le> m \<Longrightarrow> m \<le> 12 \<Longrightarrow>
    0 \<le> march_month m \<and> march_month m \<le> 11 \<and> (if march_month m < 10 then march_month m + 3 else march_month m - 9) = m"
  by (simp add: march_month_def)

text \<open>Year and year day, both from March, against a date; the code computes the date from them.\<close>

lemma date_of_march:
  assumes "\<And>a. leap (a + 4800) = leap a" "0 \<le> Y" "Y \<le> 2147483646" "0 \<le> n" "n < 365 + of_bool (leap (Y + 1))"
  obtains y m d where "calendar_date leap y m d" "march_year y m = Y" "before_month (march_month m) + (d - 1) = n"
    "sdn_year_begin Y ((5 * n + 2) div 153) (((5 * n + 2) mod 153) div 5 + 1) = Some (y, m, d)"
proof -
  define m d where "m = (5 * n + 2) div 153" and "d = ((5 * n + 2) mod 153) div 5"
  note md = date_of_year_day [OF assms(4,5), folded m_def d_def]
  obtain y m' where y: "y \<noteq> 0" "1 \<le> m'" "m' \<le> 12" "march_year y m' = Y" "march_month m' = m"
      "m' = (if m < 10 then m + 3 else m - 9)"
    by (rule march_date_exists [OF md(1,2)])
  show thesis
  proof (rule that [of y m' "d + 1"])
    have "d < month_days (leap (march_year y m' + 1)) m'" unfolding y(4) using md(4) y(6) by simp
    then show "calendar_date leap y m' (d + 1)"
      using y(1-3) md(3) month_days_march [of leap, OF assms(1), of y m'] by (simp add: calendar_date_def)
    show "sdn_year_begin Y ((5 * n + 2) div 153) (((5 * n + 2) mod 153) div 5 + 1) = Some (y, m', d + 1)"
      using sdn_year_begin_date [OF y(1-3)] y(4,5) assms(2,3) unfolding m_def [symmetric] d_def [symmetric] by simp
  qed (use y md in simp_all)
qed

lemma march_of_date:
  assumes "\<And>a. leap (a + 4800) = leap a" "calendar_date leap y m d" "0 \<le> march_year y m" "march_year y m \<le> 2147483646"
  defines "n \<equiv> before_month (march_month m) + (d - 1)"
  shows "0 \<le> n" "n < 365 + of_bool (leap (march_year y m + 1))"
    "sdn_year_begin (march_year y m) ((5 * n + 2) div 153) (((5 * n + 2) mod 153) div 5 + 1) = Some (y, m, d)"
proof -
  have ymd: "y \<noteq> 0" "1 \<le> m" "m \<le> 12" "1 \<le> d" "d \<le> month_days (leap (march_year y m + 1)) m"
    using assms(2) month_days_march [of leap, OF assms(1), of y m] by (simp_all add: calendar_date_def)
  note mm = march_month_inv [OF ymd(2,3)]
  have d: "0 \<le> d - 1" "d - 1 < month_days (leap (march_year y m + 1)) (if march_month m < 10 then march_month m + 3 else march_month m - 9)"
    using ymd mm by simp_all
  note n = year_day_of_date [OF mm [THEN conjunct1] mm [THEN conjunct2, THEN conjunct1] d, folded n_def]
  show "0 \<le> n" "n < 365 + of_bool (leap (march_year y m + 1))" by (fact n)+
  show "sdn_year_begin (march_year y m) ((5 * n + 2) div 153) (((5 * n + 2) mod 153) div 5 + 1) = Some (y, m, d)"
    using sdn_year_begin_date [OF ymd(1-3) assms(3,4)] by (simp add: n)
qed

lemma month_days_bound: "month_days leap m \<le> 31"
  by (simp add: month_days_def)

subsection \<open>The conversions\<close>

text \<open>The code's arithmetic, with the truncated divisions of operands that are not negative.\<close>

lemma GregorianToSdn_eq:
  assumes "y \<noteq> 0" "1 \<le> m" "m \<le> 12" "1 \<le> d" "d \<le> 31" "march_year y m < 1470000"
    and "y \<ge> - 4714" "y = - 4714 \<longrightarrow> m > 11 \<or> m = 11 \<and> d \<ge> 25"
  shows "GregorianToSdn y m d = Some (gregorian_year (march_year y m) + before_month (march_month m) + d - 32045)"
proof -
  define Y where "Y = march_year y m"
  have Y: "87 \<le> Y" "Y < 1470000" using assms by (auto simp: Y_def march_year_def astro_def split: if_splits)
  have div: "0 \<le> Y div 100" "Y div 100 \<le> 14699" "0 \<le> Y mod 100" "Y mod 100 \<le> 99" using Y by simp_all
  have c: "c_int (if y < 0 then y + 4801 else y + 4800) = Some (astro y + 4800)"
    using assms by (simp add: astro_def march_year_def c_int_def split: if_splits)
  have Ym: "(if m > 2 then astro y + 4800 else astro y + 4800 - 1) = Y" by (simp add: Y_def march_year_def)
  have Mm: "(if m > 2 then m - 3 else m + 9) = march_month m" by (simp add: march_month_def)
  have m0: "0 \<le> march_month m" using assms(2) by (simp add: march_month_def)
  have "GregorianToSdn y m d = do {
      centuries \<leftarrow> c_int (Y sdiv 100 * 146097);
      years \<leftarrow> c_int (Y smod 100 * 1461);
      Some (centuries sdiv 4 + years sdiv 4 + (march_month m * 153 + 2) sdiv 5 + d - 32045) }"
    using assms(1-5,7,8) by (simp add: GregorianToSdn_def calendar_consts c Let_def Ym Mm) auto
  also have "\<dots> = Some (gregorian_year Y + before_month (march_month m) + d - 32045)"
    using Y div m0 by (simp add: c_arith gregorian_year_def before_month_def)
  finally show ?thesis by (simp only: Y_def)
qed

lemma SdnToGregorian_eq:
  assumes "0 < sdn" "sdn \<le> 536874430"
  defines "x \<equiv> sdn + 32044"
  defines "doc \<equiv> ((4 * x + 3) mod 146097) div 4"
  defines "n \<equiv> ((4 * doc + 3) mod 1461) div 4"
  shows "SdnToGregorian sdn = sdn_year_begin (100 * ((4 * x + 3) div 146097) + (4 * doc + 3) div 1461)
    ((5 * n + 2) div 153) (((5 * n + 2) mod 153) div 5 + 1)"
proof -
  define c q where "c = (4 * x + 3) div 146097" and "q = (4 * doc + 3) div 1461"
  have x: "0 \<le> x" using assms(1) by (simp add: x_def)
  note p = gregorian_year_of_day [OF x, folded c_def doc_def q_def n_def]
  have c: "c \<le> 14699" using assms(2) by (simp add: c_def x_def)
  have n: "n \<le> 365" using p(7) by (simp add: of_bool_def split: if_splits)
  have guard: "\<not> (sdn \<le> 0 \<or> sdn > (9223372036854775807 - 4 * 32045) sdiv 4)"
    using assms(1,2) by (simp add: sdiv_nonneg)
  have eqs: "(sdn + 32045) * 4 - 1 = 4 * x + 3" "doc * 4 + 3 = 4 * doc + 3" "(n + 1) * 5 - 3 = 5 * n + 2" "c * 100 + q = 100 * c + q"
    by (simp_all add: x_def)
  have divs: "(4 * x + 3) sdiv 146097 = c" "((4 * x + 3) smod 146097) sdiv 4 = doc"
    "(4 * doc + 3) sdiv 1461 = q" "((4 * doc + 3) smod 1461) sdiv 4 = n"
    "(5 * n + 2) sdiv 153 = (5 * n + 2) div 153" "((5 * n + 2) smod 153) sdiv 5 = ((5 * n + 2) mod 153) div 5"
  proof -
    have nn: "0 \<le> 4 * x + 3" "0 \<le> 4 * doc + 3" "0 \<le> 5 * n + 2" using x p(2,6) by simp_all
    show "(4 * x + 3) sdiv 146097 = c" "(4 * doc + 3) sdiv 1461 = q" "(5 * n + 2) sdiv 153 = (5 * n + 2) div 153"
      unfolding c_def q_def by (rule sdiv_nonneg [OF nn(1)] sdiv_nonneg [OF nn(2)] sdiv_nonneg [OF nn(3)], simp)+
    show "((4 * x + 3) smod 146097) sdiv 4 = doc" "((4 * doc + 3) smod 1461) sdiv 4 = n"
      "((5 * n + 2) smod 153) sdiv 5 = ((5 * n + 2) mod 153) div 5"
      unfolding doc_def [symmetric] n_def [symmetric] smod_nonneg [OF nn(1), of 146097, simplified] smod_nonneg [OF nn(2), of 1461, simplified] smod_nonneg [OF nn(3), of 153, simplified]
      unfolding doc_def n_def by (rule sdiv_nonneg, simp, simp)+
  qed
  have casts: "int_of_long c = c" "c_int (c * 100) = Some (c * 100)" "int_of_long (100 * c + q) = 100 * c + q"
    using c p(1,4,5) by (simp_all add: c_arith)
  show ?thesis
    unfolding SdnToGregorian_def calendar_consts Let_def c_def [symmetric] q_def [symmetric]
    by (simp only: guard eqs divs casts if_False bind.bind_lunit)
qed

lemma gregorian_leap_4800: "gregorian_leap (a + 4800) = gregorian_leap a"
  using mod_mult_self2 [of a 4 1200] mod_mult_self2 [of a 100 48] mod_mult_self2 [of a 400 12]
  by (simp add: gregorian_leap_def)

text \<open>The dates that have a day number: from 25 November 4714 B.C. on, and before March of the year
  in which the products of the code leave the range of \<open>int\<close>.\<close>

definition gregorian_date :: "int \<Rightarrow> int \<Rightarrow> int \<Rightarrow> bool" where
  "gregorian_date y m d \<longleftrightarrow> calendar_date gregorian_leap y m d \<and> march_year y m < 1470000 \<and> y \<ge> - 4714 \<and>
     (y = - 4714 \<longrightarrow> m > 11 \<or> m = 11 \<and> d \<ge> 25)"

lemma gregorian_from_to:
  assumes "1 \<le> sdn" "sdn \<le> 536874430"
  shows "\<exists>y m d. SdnToGregorian sdn = Some (y, m, d) \<and> gregorian_date y m d \<and> GregorianToSdn y m d = Some sdn"
proof -
  define x where "x = sdn + 32044"
  have x: "32045 \<le> x" "0 \<le> x" using assms by (simp_all add: x_def)
  define doc where "doc = ((4 * x + 3) mod 146097) div 4"
  define n where "n = ((4 * doc + 3) mod 1461) div 4"
  define Y where "Y = 100 * ((4 * x + 3) div 146097) + (4 * doc + 3) div 1461"
  note p = gregorian_year_of_day [OF x(2), folded doc_def, folded n_def, folded Y_def]
  have c: "(4 * x + 3) div 146097 \<le> 14699" using assms(2) by (simp add: x_def)
  have Y: "0 \<le> Y" "Y < 1470000" "Y \<le> 2147483646" using p(1,4,5) c by (simp_all add: Y_def)
  have eq: "SdnToGregorian sdn = sdn_year_begin Y ((5 * n + 2) div 153) (((5 * n + 2) mod 153) div 5 + 1)"
    using SdnToGregorian_eq [of sdn, folded x_def, folded doc_def, folded n_def, folded Y_def] assms by simp
  obtain y m d where d: "calendar_date gregorian_leap y m d" "march_year y m = Y" "before_month (march_month m) + (d - 1) = n"
      "sdn_year_begin Y ((5 * n + 2) div 153) (((5 * n + 2) mod 153) div 5 + 1) = Some (y, m, d)"
    by (rule date_of_march [OF gregorian_leap_4800 Y(1,3) p(6,7)])
  have date: "y \<noteq> 0" "1 \<le> m" "m \<le> 12" "1 \<le> d" "d \<le> 31"
    using d(1) month_days_bound [of "gregorian_leap (astro y)" m] by (simp_all add: calendar_date_def)
  have n: "n \<le> 365" using p(7) by (simp add: of_bool_def split: if_splits)
  have Y87: "87 \<le> Y"
  proof (rule ccontr)
    assume "\<not> 87 \<le> Y"
    then have "Y \<le> 86" "Y div 4 \<le> 21" by simp_all
    then have "gregorian_year Y \<le> 31411" using Y(1) by (simp add: gregorian_year_def quarter_days)
    with n x(1) p(8) show False by simp
  qed
  have first: "y \<ge> - 4714" "y = - 4714 \<longrightarrow> m > 11 \<or> m = 11 \<and> d \<ge> 25"
  proof -
    show "y \<ge> - 4714" using Y87 d(2) by (simp add: march_year_def astro_def split: if_splits)
    show "y = - 4714 \<longrightarrow> m > 11 \<or> m = 11 \<and> d \<ge> 25"
    proof
      assume y: "y = - 4714"
      then have Y': "Y = 87" "m > 2" using Y87 d(2) by (auto simp: march_year_def astro_def split: if_splits)
      then have "269 \<le> before_month (m - 3) + (d - 1)"
        using x(1) p(8) d(3) by (simp add: gregorian_year_def quarter_days march_month_def)
      then show "m > 11 \<or> m = 11 \<and> d \<ge> 25"
        using Y'(2) date(3,5) march_month_cases [of "m - 3"] by (auto simp: before_month_def)
    qed
  qed
  have "GregorianToSdn y m d = Some sdn"
    using GregorianToSdn_eq [OF date _ first] d(2,3) Y(2) p(8) by (simp add: x_def)
  then show ?thesis using eq d first Y(2) by (auto simp: gregorian_date_def)
qed

lemma gregorian_to_from:
  assumes "gregorian_date y m d"
  shows "\<exists>sdn. GregorianToSdn y m d = Some sdn \<and> 1 \<le> sdn \<and> sdn \<le> 536874430 \<and> SdnToGregorian sdn = Some (y, m, d)"
proof -
  have date: "calendar_date gregorian_leap y m d" "march_year y m < 1470000" "y \<ge> - 4714"
      "y = - 4714 \<longrightarrow> m > 11 \<or> m = 11 \<and> d \<ge> 25" using assms by (simp_all add: gregorian_date_def)
  have ymd: "y \<noteq> 0" "1 \<le> m" "m \<le> 12" "1 \<le> d" "d \<le> 31"
    using date(1) month_days_bound [of "gregorian_leap (astro y)" m] by (simp_all add: calendar_date_def)
  define Y n where "Y = march_year y m" and "n = before_month (march_month m) + (d - 1)"
  have Y: "87 \<le> Y" "0 \<le> Y" "Y \<le> 2147483646" using date ymd by (auto simp: Y_def march_year_def astro_def split: if_splits)
  note n = march_of_date [OF gregorian_leap_4800 date(1) Y(2,3) [unfolded Y_def], folded n_def, folded Y_def]
  define x where "x = gregorian_year Y + n"
  have parts: "100 * (Y div 100) + Y mod 100 = Y" "0 \<le> Y mod 100" "Y mod 100 \<le> 99" by simp_all
  note q = day_of_gregorian_year [OF parts(2,3) n(1), of "Y div 100", unfolded parts(1), OF n(2), folded x_def]
  have sdn: "GregorianToSdn y m d = Some (x - 32044)"
    using GregorianToSdn_eq [OF ymd date(2-4)] by (simp add: x_def n_def Y_def)
  have "32045 \<le> x"
  proof (cases "Y = 87")
    case True
    have "269 \<le> n"
      using date ymd True march_month_cases [of "march_month m"]
      by (auto simp: n_def Y_def march_year_def march_month_def astro_def before_month_def split: if_splits)
    then show ?thesis using True by (simp add: x_def gregorian_year_def quarter_days)
  next
    case False
    then have "1 \<le> Y div 100 \<or> Y mod 100 \<ge> 88"
      using Y(1) pos_imp_zdiv_pos_iff [of 100 Y] by (cases "Y \<ge> 100") (auto simp: mod_pos_pos_trivial)
    moreover have "0 \<le> Y div 100" "0 \<le> Y div 100 div 4" "0 \<le> (Y mod 100) div 4"
      using Y(2) by (simp_all add: pos_imp_zdiv_nonneg_iff)
    moreover have "(Y mod 100) div 4 \<ge> 22" if "Y mod 100 \<ge> 88" using that by simp
    ultimately show ?thesis using n(1) parts(2) unfolding x_def gregorian_year_def quarter_days by linarith
  qed
  moreover have "x \<le> 536906474"
  proof -
    have c: "Y div 100 \<le> 14699" "Y div 100 div 4 \<le> 3674" "(Y mod 100) div 4 \<le> 24" using date(2) by (simp_all add: Y_def)
    have "n \<le> 365" using n(2) by (simp add: of_bool_def split: if_splits)
    then show ?thesis using c parts(3) unfolding x_def gregorian_year_def quarter_days by linarith
  qed
  moreover have "SdnToGregorian (x - 32044) = Some (y, m, d)"
  proof -
    have "0 < x - 32044" "x - 32044 \<le> 536874430" "x - 32044 + 32044 = x" using calculation by simp_all
    then have "SdnToGregorian (x - 32044) = sdn_year_begin Y ((5 * n + 2) div 153) (((5 * n + 2) mod 153) div 5 + 1)"
      using SdnToGregorian_eq [of "x - 32044"] by (simp only: q parts(1))
    then show ?thesis by (simp only: n(3))
  qed
  ultimately show ?thesis using sdn by simp
qed

lemma julian_leap_4800: "julian_leap (a + 4800) = julian_leap a"
  using mod_mult_self2 [of a 4 1200] by (simp add: julian_leap_def)

lemma julian_leap_next: "julian_leap (Y + 1) \<longleftrightarrow> Y mod 4 = 3"
  unfolding julian_leap_def by presburger

lemma julian_year_of_day:
  assumes "0 \<le> x"
  defines "Y \<equiv> (4 * x + 3) div 1461" and "n \<equiv> ((4 * x + 3) mod 1461) div 4"
  shows "0 \<le> Y" "0 \<le> n" "n < 365 + of_bool (julian_leap (Y + 1))" "x = julian_year Y + n"
proof -
  have p: "(i * B + (4 - 1 - 3)) div 4 = i * B div 4" "(0::int) < 4" "(0::int) < 1461" "(0::int) \<le> 3" "(3::int) < 4"
    for i B :: int by simp_all
  show "0 \<le> Y" using assms(1) by (simp add: Y_def pos_imp_zdiv_nonneg_iff)
  note * = period_of_day [of 4 1461 3 x, unfolded p(1), OF p(2-5), folded Y_def n_def]
  show "0 \<le> n" by (rule *)
  show "x = julian_year Y + n" using *(1) by (simp add: julian_year_def)
  show "n < 365 + of_bool (julian_leap (Y + 1))"
    using *(1,3) unfolding quarter_days quarter_next julian_leap_next by simp
qed

lemma day_of_julian_year:
  assumes "0 \<le> n" "n < 365 + of_bool (julian_leap (Y + 1))"
  defines "x \<equiv> julian_year Y + n"
  shows "(4 * x + 3) div 1461 = Y" "((4 * x + 3) mod 1461) div 4 = n"
proof -
  have p: "(i * B + (4 - 1 - 3)) div 4 = i * B div 4" "(0::int) < 4" "(0::int) < 1461" "(0::int) \<le> 3" "(3::int) < 4"
    for i B :: int by simp_all
  have "Y * 1461 div 4 + n = x" by (simp add: x_def julian_year_def)
  moreover have "x < (Y + 1) * 1461 div 4"
    using assms(2) unfolding x_def julian_year_def quarter_days quarter_next julian_leap_next by simp
  ultimately show "(4 * x + 3) div 1461 = Y" "((4 * x + 3) mod 1461) div 4 = n"
    using day_of_period [of 4 1461 3 Y n x, unfolded p(1), OF p(2-5)] assms(1) by simp_all
qed

lemma JulianToSdn_eq:
  assumes "y \<noteq> 0" "1 \<le> m" "m \<le> 12" "1 \<le> d" "d \<le> 31" "march_year y m \<le> 1469872"
    and "y \<ge> - 4713" "\<not> (y = - 4713 \<and> m = 1 \<and> d = 1)"
  shows "JulianToSdn y m d = Some (julian_year (march_year y m) + before_month (march_month m) + d - 32083)"
proof -
  define Y where "Y = march_year y m"
  have Y: "87 \<le> Y" "Y \<le> 1469872" using assms by (auto simp: Y_def march_year_def astro_def split: if_splits)
  have c: "c_int (if y < 0 then y + 4801 else y + 4800) = Some (astro y + 4800)"
    using assms by (simp add: astro_def march_year_def c_int_def split: if_splits)
  have Ym: "(if m > 2 then astro y + 4800 else astro y + 4800 - 1) = Y" by (simp add: Y_def march_year_def)
  have Mm: "(if m > 2 then m - 3 else m + 9) = march_month m" by (simp add: march_month_def)
  have m0: "0 \<le> march_month m" using assms(2) by (simp add: march_month_def)
  have "JulianToSdn y m d = do {
      years \<leftarrow> c_int (Y * 1461);
      Some (years sdiv 4 + (march_month m * 153 + 2) sdiv 5 + d - 32083) }"
    using assms(1-5,7,8) by (simp add: JulianToSdn_def calendar_consts c Let_def Ym Mm) auto
  also have "\<dots> = Some (julian_year Y + before_month (march_month m) + d - 32083)"
    using Y m0 by (simp add: c_arith julian_year_def before_month_def)
  finally show ?thesis by (simp only: Y_def)
qed

lemma SdnToJulian_eq:
  assumes "0 < sdn" "sdn \<le> 536839030"
  defines "x \<equiv> sdn + 32082"
  defines "n \<equiv> ((4 * x + 3) mod 1461) div 4"
  shows "SdnToJulian sdn = sdn_year_begin ((4 * x + 3) div 1461) ((5 * n + 2) div 153) (((5 * n + 2) mod 153) div 5 + 1)"
proof -
  define Y where "Y = (4 * x + 3) div 1461"
  have x: "0 \<le> x" using assms(1) by (simp add: x_def)
  note p = julian_year_of_day [OF x, folded n_def, folded Y_def]
  have Y: "Y \<le> 1469872" using assms(2) by (simp add: Y_def x_def)
  have guard: "\<not> sdn \<le> 0" "\<not> (sdn > (9223372036854775807 - 32083 * 4 + 1) sdiv 4 \<or> sdn < (- 9223372036854775808) sdiv 4)"
    "\<not> (Y > 2147483647 \<or> Y < - 2147483648)"
    using assms(1,2) p(1) Y by (simp_all add: sdiv_nonneg)
  have eqs: "sdn * 4 + (32083 * 4 - 1) = 4 * x + 3" "(n + 1) * 5 - 3 = 5 * n + 2"
    by (simp_all add: x_def)
  have divs: "(4 * x + 3) sdiv 1461 = Y" "((4 * x + 3) smod 1461) sdiv 4 = n"
    "(5 * n + 2) sdiv 153 = (5 * n + 2) div 153" "((5 * n + 2) smod 153) sdiv 5 = ((5 * n + 2) mod 153) div 5"
  proof -
    have nn: "0 \<le> 4 * x + 3" "0 \<le> 5 * n + 2" using x p(2) by simp_all
    show "(4 * x + 3) sdiv 1461 = Y" "(5 * n + 2) sdiv 153 = (5 * n + 2) div 153"
      unfolding Y_def by (rule sdiv_nonneg [OF nn(1)] sdiv_nonneg [OF nn(2)], simp)+
    show "((4 * x + 3) smod 1461) sdiv 4 = n" "((5 * n + 2) smod 153) sdiv 5 = ((5 * n + 2) mod 153) div 5"
      unfolding n_def [symmetric] smod_nonneg [OF nn(1), of 1461, simplified] smod_nonneg [OF nn(2), of 153, simplified]
      unfolding n_def by (rule sdiv_nonneg, simp, simp)+
  qed
  show ?thesis
    unfolding SdnToJulian_def calendar_consts Let_def Y_def [symmetric]
    by (simp only: guard eqs divs if_False)
qed

definition julian_date :: "int \<Rightarrow> int \<Rightarrow> int \<Rightarrow> bool" where
  "julian_date y m d \<longleftrightarrow> calendar_date julian_leap y m d \<and> march_year y m \<le> 1469872 \<and> y \<ge> - 4713 \<and>
     \<not> (y = - 4713 \<and> m = 1 \<and> d = 1)"

lemma julian_from_to:
  assumes "1 \<le> sdn" "sdn \<le> 536839030"
  shows "\<exists>y m d. SdnToJulian sdn = Some (y, m, d) \<and> julian_date y m d \<and> JulianToSdn y m d = Some sdn"
proof -
  define x where "x = sdn + 32082"
  have x: "32083 \<le> x" "0 \<le> x" using assms by (simp_all add: x_def)
  define n where "n = ((4 * x + 3) mod 1461) div 4"
  define Y where "Y = (4 * x + 3) div 1461"
  note p = julian_year_of_day [OF x(2), folded n_def, folded Y_def]
  have n: "n \<le> 365" using p(3) by (simp add: of_bool_def split: if_splits)
  have Y: "0 \<le> Y" "Y \<le> 1469872" "Y \<le> 2147483646" using p(1) assms(2) by (simp_all add: Y_def x_def)
  have eq: "SdnToJulian sdn = sdn_year_begin Y ((5 * n + 2) div 153) (((5 * n + 2) mod 153) div 5 + 1)"
    using SdnToJulian_eq [of sdn, folded x_def, folded n_def, folded Y_def] assms by simp
  obtain y m d where d: "calendar_date julian_leap y m d" "march_year y m = Y" "before_month (march_month m) + (d - 1) = n"
      "sdn_year_begin Y ((5 * n + 2) div 153) (((5 * n + 2) mod 153) div 5 + 1) = Some (y, m, d)"
    by (rule date_of_march [OF julian_leap_4800 Y(1,3) p(2,3)])
  have date: "y \<noteq> 0" "1 \<le> m" "m \<le> 12" "1 \<le> d" "d \<le> 31"
    using d(1) month_days_bound [of "julian_leap (astro y)" m] by (simp_all add: calendar_date_def)
  have Y87: "87 \<le> Y"
  proof (rule ccontr)
    assume "\<not> 87 \<le> Y"
    then have "Y \<le> 86" "Y div 4 \<le> 21" by simp_all
    then have "julian_year Y \<le> 31411" using Y(1) by (simp add: julian_year_def quarter_days)
    with n x(1) p(4) show False by simp
  qed
  have first: "y \<ge> - 4713" "\<not> (y = - 4713 \<and> m = 1 \<and> d = 1)"
  proof -
    have n307: "307 \<le> n" if "Y = 87" using x(1) p(4) that by (simp add: julian_year_def quarter_days)
    have m2: "m \<le> 2" if "Y = 87"
      using n307 [OF that] d(3) date march_month_cases [of "m - 3"] by (auto simp: march_month_def before_month_def split: if_splits)
    show "y \<ge> - 4713" using Y87 m2 d(2) date(1) by (cases "Y = 87") (auto simp: march_year_def astro_def split: if_splits)
    show "\<not> (y = - 4713 \<and> m = 1 \<and> d = 1)"
    proof
      assume *: "y = - 4713 \<and> m = 1 \<and> d = 1"
      then have "Y = 87" using d(2) by (simp add: march_year_def astro_def)
      with n307 d(3) * show False by (simp add: march_month_def before_month_def)
    qed
  qed
  have "JulianToSdn y m d = Some sdn"
    using JulianToSdn_eq [OF date _ first] d(2,3) Y(2) p(4) by (simp add: x_def)
  then show ?thesis using eq d first Y(2) by (auto simp: julian_date_def)
qed

lemma julian_to_from:
  assumes "julian_date y m d"
  shows "\<exists>sdn. JulianToSdn y m d = Some sdn \<and> 1 \<le> sdn \<and> sdn \<le> 536839030 \<and> SdnToJulian sdn = Some (y, m, d)"
proof -
  have date: "calendar_date julian_leap y m d" "march_year y m \<le> 1469872" "y \<ge> - 4713"
      "\<not> (y = - 4713 \<and> m = 1 \<and> d = 1)" using assms by (simp_all add: julian_date_def)
  have ymd: "y \<noteq> 0" "1 \<le> m" "m \<le> 12" "1 \<le> d" "d \<le> 31"
    using date(1) month_days_bound [of "julian_leap (astro y)" m] by (simp_all add: calendar_date_def)
  define Y n where "Y = march_year y m" and "n = before_month (march_month m) + (d - 1)"
  have Y: "87 \<le> Y" "0 \<le> Y" "Y \<le> 2147483646" using date ymd by (auto simp: Y_def march_year_def astro_def split: if_splits)
  note n = march_of_date [OF julian_leap_4800 date(1) Y(2,3) [unfolded Y_def], folded n_def, folded Y_def]
  define x where "x = julian_year Y + n"
  note q = day_of_julian_year [OF n(1,2), folded x_def]
  have sdn: "JulianToSdn y m d = Some (x - 32082)"
    using JulianToSdn_eq [OF ymd date(2-4)] by (simp add: x_def n_def Y_def)
  have "32083 \<le> x"
  proof (cases "Y = 87")
    case True
    have "307 \<le> n"
      using date ymd True march_month_cases [of "march_month m"]
      by (auto simp: n_def Y_def march_year_def march_month_def astro_def before_month_def split: if_splits)
    then show ?thesis using True by (simp add: x_def julian_year_def quarter_days)
  next
    case False
    then have "88 \<le> Y" "22 \<le> Y div 4" using Y(1) by simp_all
    then show ?thesis using n(1) unfolding x_def julian_year_def quarter_days by linarith
  qed
  moreover have "x \<le> 536871112"
  proof -
    have c: "Y \<le> 1469872" "Y div 4 \<le> 367468" using date(2) by (simp_all add: Y_def)
    have n365: "n \<le> 365" using n(2) by (simp add: of_bool_def split: if_splits)
    have "n \<le> 364" if "Y = 1469872" using n(2) unfolding that julian_leap_next by simp
    moreover have "Y div 4 \<le> 367467" if "Y < 1469872" using that by simp
    ultimately show ?thesis using c n365 unfolding x_def julian_year_def quarter_days by (cases "Y = 1469872") auto
  qed
  moreover have "SdnToJulian (x - 32082) = Some (y, m, d)"
  proof -
    have "0 < x - 32082" "x - 32082 \<le> 536839030" "x - 32082 + 32082 = x" using calculation by simp_all
    then have "SdnToJulian (x - 32082) = sdn_year_begin Y ((5 * n + 2) div 153) (((5 * n + 2) mod 153) div 5 + 1)"
      using SdnToJulian_eq [of "x - 32082"] by (simp only: q)
    then show ?thesis by (simp only: n(3))
  qed
  ultimately show ?thesis using sdn by simp
qed

definition french_date :: "int \<Rightarrow> int \<Rightarrow> int \<Rightarrow> bool" where
  "french_date y m d \<longleftrightarrow> 1 \<le> y \<and> y \<le> 14 \<and> 1 \<le> m \<and> m \<le> 13 \<and> 1 \<le> d \<and>
     d \<le> (if m = 13 then 5 + of_bool (y mod 4 = 3) else 30)"

lemma FrenchToSdn_eq:
  assumes "1 \<le> y" "y \<le> 14" "1 \<le> m" "m \<le> 13" "1 \<le> d" "d \<le> 30"
  shows "FrenchToSdn y m d = Some (julian_year y + (m - 1) * 30 + d + 2375474)"
  using assms by (simp add: FrenchToSdn_def calendar_consts sdiv_nonneg julian_year_def)

lemma SdnToFrench_eq:
  assumes "2375840 \<le> sdn" "sdn \<le> 2380952"
  defines "x \<equiv> sdn - 2375475"
  defines "n \<equiv> ((4 * x + 3) mod 1461) div 4"
  shows "SdnToFrench sdn = Some ((4 * x + 3) div 1461, n div 30 + 1, n mod 30 + 1)"
proof -
  have x: "0 \<le> 4 * x + 3" using assms by (simp add: x_def)
  have n: "0 \<le> n" by (simp add: n_def)
  have e: "(sdn - 2375474) * 4 - 1 = 4 * x + 3" by (simp add: x_def)
  have s: "((4 * x + 3) smod 1461) sdiv 4 = n" "(4 * x + 3) sdiv 1461 = (4 * x + 3) div 1461"
    "n sdiv 30 = n div 30" "n smod 30 = n mod 30"
    unfolding smod_nonneg [OF x, of 1461, simplified] sdiv_nonneg [OF x, of 1461, simplified]
      sdiv_nonneg [OF n, of 30, simplified] smod_nonneg [OF n, of 30, simplified]
    by (simp_all add: n_def sdiv_nonneg)
  have guard: "\<not> (sdn < 2375840 \<or> sdn > 2380952)" using assms by simp
  show ?thesis
    unfolding SdnToFrench_def calendar_consts Let_def by (simp only: guard e s if_False)
qed

lemma french_from_to:
  assumes "2375840 \<le> sdn" "sdn \<le> 2380952"
  shows "\<exists>y m d. SdnToFrench sdn = Some (y, m, d) \<and> french_date y m d \<and> FrenchToSdn y m d = Some sdn"
proof -
  define x where "x = sdn - 2375475"
  have x: "365 \<le> x" "x \<le> 5477" "0 \<le> x" using assms by (simp_all add: x_def)
  define n where "n = ((4 * x + 3) mod 1461) div 4"
  define y where "y = (4 * x + 3) div 1461"
  note p = julian_year_of_day [OF x(3), folded n_def, folded y_def]
  have y: "1 \<le> y" "y \<le> 14" using x by (simp_all add: y_def)
  have n: "n < 365 + of_bool (y mod 4 = 3)" using p(3) by (simp add: julian_leap_next)
  then have n366: "n < 366" by (simp add: of_bool_def split: if_splits)
  have nd: "30 * (n div 30) + n mod 30 = n" "0 \<le> n mod 30" "n mod 30 < 30" "0 \<le> n div 30" "n div 30 \<le> 12"
    using p(2) n366 by simp_all
  have date: "french_date y (n div 30 + 1) (n mod 30 + 1)"
  proof -
    have "n mod 30 \<le> (if n div 30 = 12 then 4 + of_bool (y mod 4 = 3) else 29)"
      using nd n by (cases "n div 30 = 12") simp_all
    then show ?thesis using y nd by (auto simp: french_date_def)
  qed
  have "FrenchToSdn y (n div 30 + 1) (n mod 30 + 1) = Some sdn"
    using FrenchToSdn_eq [of y "n div 30 + 1" "n mod 30 + 1"] y nd p(4) by (simp add: x_def)
  then show ?thesis
    using SdnToFrench_eq [OF assms, folded x_def, folded n_def, folded y_def] date by auto
qed

lemma french_to_from:
  assumes "french_date y m d"
  shows "\<exists>sdn. FrenchToSdn y m d = Some sdn \<and> 2375840 \<le> sdn \<and> sdn \<le> 2380952 \<and> SdnToFrench sdn = Some (y, m, d)"
proof -
  have date: "1 \<le> y" "y \<le> 14" "1 \<le> m" "m \<le> 13" "1 \<le> d" "d \<le> 30"
    using assms by (auto simp: french_date_def of_bool_def split: if_splits)
  define n where "n = (m - 1) * 30 + (d - 1)"
  have nn: "0 \<le> n" "n div 30 = m - 1" "n mod 30 = d - 1"
  proof -
    show "0 \<le> n" using date by (simp add: n_def)
    show div: "n div 30 = m - 1" by (rule div_between) (use date in \<open>simp_all add: n_def\<close>)
    show "n mod 30 = d - 1" using mult_div_mod_eq [of 30 n] unfolding div by (simp add: n_def)
  qed
  have n: "n < 365 + of_bool (julian_leap (y + 1))"
    using assms unfolding julian_leap_next by (cases "m = 13") (auto simp: n_def french_date_def)
  define x where "x = julian_year y + n"
  note q = day_of_julian_year [OF nn(1) n, folded x_def]
  have y4: "0 \<le> y div 4" "y div 4 \<le> 3" using date by simp_all
  have "y mod 4 = 3 \<longrightarrow> y \<le> 13" using date(2) by (cases "y = 14") simp_all
  then have x: "365 \<le> x" "x \<le> 5477"
    using nn(1) n date(1,2) y4 unfolding x_def julian_year_def quarter_days julian_leap_next
    by (auto simp: of_bool_def split: if_splits)
  have "SdnToFrench (x + 2375475) = Some (y, m, d)"
    using SdnToFrench_eq [of "x + 2375475"] x by (simp add: q nn)
  moreover have "FrenchToSdn y m d = Some (x + 2375475)"
    using FrenchToSdn_eq [OF date] by (simp add: x_def n_def)
  ultimately show ?thesis using x by simp
qed

lemma DayOfWeek_eq:
  assumes "0 \<le> sdn" "sdn < 9223372036854775807"
  shows "DayOfWeek sdn = Some ((sdn + 1) mod 7)"
  using assms by (simp add: DayOfWeek_def c_arith Let_def)

subsection \<open>The promise of a pair of conversions\<close>

text \<open>Day numbers \<open>lo\<close> to \<open>hi\<close> and the dates of the calendar correspond one to one.\<close>

locale day_count =
  fixes to_jd :: "int \<Rightarrow> int \<Rightarrow> int \<Rightarrow> int option" and from_jd :: "int \<Rightarrow> date option"
    and lo hi :: int and date :: "int \<Rightarrow> int \<Rightarrow> int \<Rightarrow> bool"
  assumes from_to: "lo \<le> sdn \<Longrightarrow> sdn \<le> hi \<Longrightarrow>
      \<exists>y m d. from_jd sdn = Some (y, m, d) \<and> date y m d \<and> to_jd y m d = Some sdn"
    and to_from: "date y m d \<Longrightarrow>
      \<exists>sdn. to_jd y m d = Some sdn \<and> lo \<le> sdn \<and> sdn \<le> hi \<and> from_jd sdn = Some (y, m, d)"
begin

text \<open>The check \<open>sdncal.h\<close> recommends: convert to a day number and back, and compare.\<close>

lemma check_date:
  assumes "to_jd y m d = Some sdn" "lo \<le> sdn" "sdn \<le> hi"
  shows "from_jd sdn = Some (y, m, d) \<longleftrightarrow> date y m d"
  using from_to [OF assms(2,3)] to_from [of y m d] assms(1) by (metis option.inject prod.inject)

lemma one_to_one:
  assumes "date y m d" "date y' m' d'" "to_jd y m d = to_jd y' m' d'"
  shows "(y, m, d) = (y', m', d')"
  using to_from [OF assms(1)] to_from [OF assms(2)] assms(3) by auto

lemma round_trip:
  assumes "lo \<le> sdn" "sdn \<le> hi"
  obtains y m d where "from_jd sdn = Some (y, m, d)" "date y m d" "to_jd y m d = Some sdn"
  using from_to [OF assms] by blast

end

interpretation gregorian: day_count GregorianToSdn SdnToGregorian 1 536874430 gregorian_date
  by unfold_locales (auto intro: gregorian_from_to gregorian_to_from)

interpretation julian: day_count JulianToSdn SdnToJulian 1 536839030 julian_date
  by unfold_locales (auto intro: julian_from_to julian_to_from)

interpretation french: day_count FrenchToSdn SdnToFrench 2375840 2380952 french_date
  by unfold_locales (auto intro: french_from_to french_to_from)

text \<open>\<open>century\<close> is an \<open>int\<close>: day numbers \<open>2\<^sup>3\<^sup>2\<close> centuries apart get the same date, although the guard
  lets them pass.\<close>

lemma SdnToGregorian_truncates: "SdnToGregorian (2451545 + 1073741824 * 146097) = Some (2000, 1, 1)"
  by code_simp

text \<open>C24: the conversions of the Gregorian, Julian and French calendars are inverse to each other
  and total between the dates of the calendar (leap years, lengths of months) and the day
  numbers from the calendar's first day to the last one whose date \<open>int\<close> arithmetic can convert back;
  and the check recommended in \<open>sdncal.h\<close> accepts exactly the dates of the calendar.\<close>

theorem sdn_conversions:
  "(1 \<le> s \<and> s \<le> 536874430 \<longrightarrow>
      (\<exists>y m d. SdnToGregorian s = Some (y, m, d) \<and> gregorian_date y m d \<and> GregorianToSdn y m d = Some s)) \<and>
   (gregorian_date y m d \<longrightarrow>
      (\<exists>s. GregorianToSdn y m d = Some s \<and> 1 \<le> s \<and> s \<le> 536874430 \<and> SdnToGregorian s = Some (y, m, d))) \<and>
   (1 \<le> s \<and> s \<le> 536839030 \<longrightarrow>
      (\<exists>y m d. SdnToJulian s = Some (y, m, d) \<and> julian_date y m d \<and> JulianToSdn y m d = Some s)) \<and>
   (julian_date y m d \<longrightarrow>
      (\<exists>s. JulianToSdn y m d = Some s \<and> 1 \<le> s \<and> s \<le> 536839030 \<and> SdnToJulian s = Some (y, m, d))) \<and>
   (2375840 \<le> s \<and> s \<le> 2380952 \<longrightarrow>
      (\<exists>y m d. SdnToFrench s = Some (y, m, d) \<and> french_date y m d \<and> FrenchToSdn y m d = Some s)) \<and>
   (french_date y m d \<longrightarrow>
      (\<exists>s. FrenchToSdn y m d = Some s \<and> 2375840 \<le> s \<and> s \<le> 2380952 \<and> SdnToFrench s = Some (y, m, d)))"
  by (intro conjI impI gregorian.from_to gregorian.to_from julian.from_to julian.to_from french.from_to french.to_from) simp_all

theorem sdn_conversions_witness:
  "GregorianToSdn 1792 9 22 = Some 2375840 \<and> SdnToGregorian 2375840 = Some (1792, 9, 22) \<and>
   JulianToSdn 1792 9 11 = Some 2375840 \<and> SdnToFrench 2375840 = Some (1, 1, 1)"
proof -
  have g: "\<exists>y m d. SdnToGregorian 2375840 = Some (y, m, d) \<and> GregorianToSdn y m d = Some 2375840"
    and j: "\<exists>y m d. SdnToJulian 2375840 = Some (y, m, d) \<and> JulianToSdn y m d = Some 2375840"
    using sdn_conversions [of 2375840 0 0 0] by auto
  have "SdnToGregorian 2375840 = Some (1792, 9, 22)" "SdnToJulian 2375840 = Some (1792, 9, 11)" "SdnToFrench 2375840 = Some (1, 1, 1)"
    by code_simp+
  with g j show ?thesis by auto
qed

end
