(* ===== verification/Easter.thy ===== *)
theory Easter
  imports Calendar
begin

text \<open>
  \<open>ext/calendar/easter.c\<close>: \<open>_cal_easter\<close> and the two functions that call it. All variables are
  \<open>long\<close>; the arithmetic on the year is \<open>None\<close> where it overflows. The caller supplies the year
  (the code reads the clock when there is none); \<open>mktime\<close> of the C library is a parameter, a
  function of the fields \<open>tm_year\<close>, \<open>tm_mon\<close> and \<open>tm_mday\<close>.
\<close>

definition CAL_EASTER_DEFAULT :: int where "CAL_EASTER_DEFAULT = 0"
definition CAL_EASTER_ROMAN :: int where "CAL_EASTER_ROMAN = 1"
definition CAL_EASTER_ALWAYS_GREGORIAN :: int where "CAL_EASTER_ALWAYS_GREGORIAN = 2"
definition CAL_EASTER_ALWAYS_JULIAN :: int where "CAL_EASTER_ALWAYS_JULIAN = 3"

lemmas easter_consts = CAL_EASTER_DEFAULT_def CAL_EASTER_ROMAN_def CAL_EASTER_ALWAYS_GREGORIAN_def CAL_EASTER_ALWAYS_JULIAN_def

definition easter_julian :: "int \<Rightarrow> int \<Rightarrow> bool" where
  "easter_julian year method \<longleftrightarrow>
     (year \<le> 1582 \<and> method \<noteq> CAL_EASTER_ALWAYS_GREGORIAN) \<or>
     (year \<ge> 1583 \<and> year \<le> 1752 \<and> method \<noteq> CAL_EASTER_ROMAN \<and> method \<noteq> CAL_EASTER_ALWAYS_GREGORIAN) \<or>
     method = CAL_EASTER_ALWAYS_JULIAN"

text \<open>The Dominical number and the Paschal full moon, as days after 21 March.\<close>

definition easter_dom :: "int \<Rightarrow> int \<Rightarrow> int option" where
  "easter_dom year method =
     do {
       n \<leftarrow> (if easter_julian year method then c_long (year + year sdiv 4 + 5)
            else c_long (year + year sdiv 4 - year sdiv 100 + year sdiv 400));
       let dom = n smod 7;
       Some (if dom < 0 then dom + 7 else dom)
     }"

definition easter_pfm :: "int \<Rightarrow> int \<Rightarrow> int option" where
  "easter_pfm year method =
     do {
       let golden = year smod 19 + 1;
       pfm \<leftarrow>
         (if easter_julian year method then Some ((3 - 11 * golden - 7) smod 30)
          else do {
            s \<leftarrow> c_long (year - 1600);
            l \<leftarrow> c_long (year - 1400);
            let solar = s sdiv 100 - s sdiv 400;
            let lunar = (l sdiv 100 * 8) sdiv 25;
            Some ((3 - 11 * golden + solar - lunar) smod 30)
          });
       let pfm = (if pfm < 0 then pfm + 30 else pfm);
       Some (if pfm = 29 \<or> pfm = 28 \<and> golden > 11 then pfm - 1 else pfm)
     }"

definition cal_easter :: "int \<Rightarrow> int \<Rightarrow> int option" where
  "cal_easter year method =
     do {
       dom \<leftarrow> easter_dom year method;
       pfm \<leftarrow> easter_pfm year method;
       let tmp = (4 - pfm - dom) smod 7;
       let tmp = (if tmp < 0 then tmp + 7 else tmp);
       Some (pfm + tmp + 1)
     }"

definition easter_days :: "int \<Rightarrow> int \<Rightarrow> int option" where
  "easter_days year method = cal_easter year method"

text \<open>\<open>FALSE\<close> is \<open>Some None\<close>.\<close>

definition easter_date :: "(int \<times> int \<times> int \<Rightarrow> int) \<Rightarrow> int \<Rightarrow> int \<Rightarrow> int option option" where
  "easter_date mktime year method =
     (if year < 1970 \<or> year > 2037 then Some None
      else do {
        easter \<leftarrow> cal_easter year method;
        Some (Some (mktime (if easter < 11 then (year - 1900, 2, easter + 21) else (year - 1900, 3, easter - 10))))
      })"

subsection \<open>Easter is a Sunday\<close>

text \<open>The code's way to a remainder that is not negative.\<close>

lemma smod_adjust:
  assumes "0 < m"
  shows "(if n smod m < 0 then n smod m + m else n smod m) = n mod (m::int)"
proof (cases "0 \<le> n")
  case True
  moreover have "\<not> n mod m < 0" using pos_mod_sign [OF assms, of n] by linarith
  ultimately show ?thesis using assms by (simp add: smod_nonneg del: pos_mod_sign)
next
  case False
  then have s: "n smod m = - ((- n) mod m)" using assms by (simp add: signed_modulo_int_def)
  show ?thesis
  proof (cases "(- n) mod m = 0")
    case True
    then have "n mod m = 0" by (simp add: zmod_zminus1_not_zero mod_eq_0_iff_dvd)
    then show ?thesis using True by (simp add: s)
  next
    case nz: False
    then have "0 < (- n) mod m" using pos_mod_sign [OF assms, of "- n"] by linarith
    moreover have "n mod m = m - (- n) mod m" using nz zmod_zminus1_eq_if [of "- n" m] by simp
    ultimately show ?thesis by (simp add: s)
  qed
qed

lemma easter_pfm_cases:
  assumes "easter_pfm year method = Some pfm"
  obtains n where "pfm = (if n mod 30 = 29 \<or> n mod 30 = 28 \<and> year smod 19 + 1 > 11 then n mod 30 - 1 else n mod 30)"
proof -
  have thirty: "(if n smod 30 < 0 then n smod 30 + 30 else n smod 30) = n mod 30" for n :: int
    by (rule smod_adjust) simp
  obtain n where "Some pfm = (let p = n smod 30; p = (if p < 0 then p + 30 else p)
      in Some (if p = 29 \<or> p = 28 \<and> year smod 19 + 1 > 11 then p - 1 else p))"
    using assms unfolding easter_pfm_def
    by (cases "easter_julian year method"; cases "c_long (year - 1600)"; cases "c_long (year - 1400)") (auto simp only: Let_def bind.simps if_True if_False option.inject simp_thms)
  then show thesis by (intro that [of n]) (simp only: Let_def thirty option.inject)
qed

lemma easter_pfm_range:
  assumes "easter_pfm year method = Some pfm"
  shows "0 \<le> pfm" "pfm \<le> 28"
proof -
  obtain n where n: "pfm = (if n mod 30 = 29 \<or> n mod 30 = 28 \<and> year smod 19 + 1 > 11 then n mod 30 - 1 else n mod 30)"
    by (rule easter_pfm_cases [OF assms])
  have "0 \<le> n mod 30" "n mod 30 \<le> 29" by simp_all
  with n show "0 \<le> pfm" "pfm \<le> 28" by (auto split: if_splits)
qed

lemma cal_easter_eq:
  assumes "easter_dom year method = Some sun" "easter_pfm year method = Some pfm"
  shows "cal_easter year method = Some (pfm + (4 - pfm - sun) mod 7 + 1)"
  using assms by (simp add: cal_easter_def Let_def smod_adjust)

lemma easter_dom_eq:
  assumes "1 \<le> year" "year \<le> 1400000"
  shows "easter_dom year method = Some ((if easter_julian year method then year + year div 4 + 5
      else year + year div 4 - year div 100 + year div 400) mod 7)"
proof -
  have d: "0 \<le> year div 4" "year div 4 \<le> year" "0 \<le> year div 100" "year div 100 \<le> year" "0 \<le> year div 400" "year div 400 \<le> year"
    using assms by simp_all
  have s: "year sdiv n = year div n" if "0 \<le> n" for n using assms(1) that by (simp add: sdiv_nonneg)
  have l: "c_long (year + year div 4 + 5) = Some (year + year div 4 + 5)"
    "c_long (year + year div 4 - year div 100 + year div 400) = Some (year + year div 4 - year div 100 + year div 400)"
    by (rule c_long_id; use d assms in linarith)+
  show ?thesis
    unfolding easter_dom_def by (simp add: s l Let_def smod_adjust)
qed

lemma easter_pfm_defined:
  assumes "1 \<le> year" "year \<le> 1400000"
  obtains pfm where "easter_pfm year method = Some pfm"
proof -
  have l: "c_long (year - 1600) = Some (year - 1600)" "c_long (year - 1400) = Some (year - 1400)"
    by (rule c_long_id; use assms in linarith)+
  show thesis
    by (cases "easter_pfm year method"; cases "easter_julian year method")
      (use that in \<open>simp_all add: easter_pfm_def l Let_def\<close>)
qed

text \<open>21 March and the Dominical number.\<close>

lemma march21_gregorian:
  assumes "1 \<le> year" "year \<le> 1400000"
  obtains s k where "GregorianToSdn year 3 21 = Some s" "1 \<le> s" "s < 536870000"
    "s + 6 - (year + year div 4 - year div 100 + year div 400) = 7 * k"
proof -
  define c q where "c = year div 100" and "q = year mod 100"
  have y: "year = 100 * c + q" "0 \<le> q" "q \<le> 99" "0 \<le> c" "c \<le> 14000" using assms by (simp_all add: c_def q_def)
  have my: "march_year year 3 = 100 * (c + 48) + q" "march_month 3 = 0"
    using assms(1) y(1) by (simp_all add: march_year_def astro_def march_month_def)
  have d4: "year div 4 = 25 * c + q div 4"
    using y(1) div_mult_self2 [of 4 q "25 * c"] by (simp add: add.commute)
  have d400: "year div 400 = c div 4"
    using zdiv_zmult2_eq [of 4 year 100] by (simp add: c_def)
  have c48: "(c + 48) div 4 = c div 4 + 12" by presburger
  let ?s = "36524 * (c + 48) + (c div 4 + 12) + (365 * q + q div 4) - 32024"
  have "GregorianToSdn year 3 21 = Some ?s"
    using assms y my GregorianToSdn_eq [of year 3 21] gregorian_year_parts [OF y(2,3), of "c + 48"]
    by (simp add: quarter_days c48 before_month_def)
  moreover have "0 \<le> c div 4" "c div 4 \<le> 3500" "0 \<le> q div 4" "q div 4 \<le> 24" using y by simp_all
  then have "1 \<le> ?s" "?s < 536870000" using y by simp_all
  moreover have "?s + 6 - (year + year div 4 - year div 100 + year div 400) = 7 * (5200 * c + 52 * q + 245878)"
    unfolding d4 d400 c_def [symmetric] using y(1) by simp
  ultimately show thesis by (rule that)
qed

lemma march21_julian:
  assumes "1 \<le> year" "year \<le> 1400000"
  obtains s k where "JulianToSdn year 3 21 = Some s" "1 \<le> s" "s < 536870000"
    "s + 6 - (year + year div 4 + 5) = 7 * k"
proof -
  have my: "march_year year 3 = year + 4800" "march_month 3 = 0"
    using assms(1) by (simp_all add: march_year_def astro_def march_month_def)
  have d4: "(year + 4800) div 4 = year div 4 + 1200" by presburger
  have "JulianToSdn year 3 21 = Some (365 * (year + 4800) + (year div 4 + 1200) - 32062)"
    using assms my JulianToSdn_eq [of year 3 21] by (simp add: julian_year_def quarter_days d4 before_month_def)
  moreover have "0 \<le> year div 4" "year div 4 \<le> 350000" using assms by simp_all
  then have "1 \<le> 365 * (year + 4800) + (year div 4 + 1200) - 32062" "365 * (year + 4800) + (year div 4 + 1200) - 32062 < 536870000"
    using assms by simp_all
  moreover have "365 * (year + 4800) + (year div 4 + 1200) - 32062 + 6 - (year + year div 4 + 5) = 7 * (52 * year + 245877)"
    by simp
  ultimately show thesis by (rule that)
qed

lemma april:
  assumes "1970 \<le> year" "year \<le> 2037" "GregorianToSdn year 3 21 = Some s" "1 \<le> e" "e \<le> 35"
  shows "e < 11 \<longrightarrow> GregorianToSdn year 3 (e + 21) = Some (s + e)"
    and "\<not> e < 11 \<longrightarrow> GregorianToSdn year 4 (e - 10) = Some (s + e)"
proof -
  have y: "march_year year 3 = year + 4800" "march_month 3 = 0" "march_year year 4 = year + 4800" "march_month 4 = 1"
    using assms(1) by (simp_all add: march_year_def astro_def march_month_def)
  have s: "s = gregorian_year (year + 4800) - 32024"
    using assms(1-3) GregorianToSdn_eq [of year 3 21] by (simp add: y before_month_def)
  show "e < 11 \<longrightarrow> GregorianToSdn year 3 (e + 21) = Some (s + e)"
    using assms GregorianToSdn_eq [of year 3 "e + 21"] by (simp add: y s before_month_def)
  show "\<not> e < 11 \<longrightarrow> GregorianToSdn year 4 (e - 10) = Some (s + e)"
    using assms GregorianToSdn_eq [of year 4 "e - 10"] by (simp add: y s before_month_def)
qed

lemma easter_date_day:
  assumes "1970 \<le> year" "year \<le> 2037" "cal_easter year method = Some e" "GregorianToSdn year 3 21 = Some s" "1 \<le> e" "e \<le> 35"
  shows "\<exists>mon mday. easter_date mktime year method = Some (Some (mktime (year - 1900, mon, mday))) \<and>
    GregorianToSdn year (mon + 1) mday = Some (s + e)"
proof (cases "e < 11")
  case True
  then have "easter_date mktime year method = Some (Some (mktime (year - 1900, 2, e + 21)))"
    using assms by (simp add: easter_date_def)
  then show ?thesis using april(1) [OF assms(1,2,4-6)] True by (intro exI [of _ 2] exI [of _ "e + 21"]) simp
next
  case False
  then have "easter_date mktime year method = Some (Some (mktime (year - 1900, 3, e - 10)))"
    using assms by (simp add: easter_date_def)
  then show ?thesis using april(2) [OF assms(1,2,4-6)] False by (intro exI [of _ 3] exI [of _ "e - 10"]) simp
qed

subsection \<open>Properties\<close>

text \<open>C25: Easter, as \<open>easter_days\<close> counts it from 21 March, is the first Sunday after the Paschal full
  moon, between 22 March and 25 April, in the calendar the code chose for the year and method; and
  \<open>easter_date\<close> gives \<open>mktime\<close> that same day of March or April.\<close>

theorem easter_sunday:
  assumes "1 \<le> year" "year \<le> 1400000"
  shows "\<exists>e pfm s. easter_days year method = Some e \<and> easter_pfm year method = Some pfm \<and>
      (if easter_julian year method then JulianToSdn year 3 21 else GregorianToSdn year 3 21) = Some s \<and>
      0 \<le> pfm \<and> pfm < e \<and> e \<le> pfm + 7 \<and> 1 \<le> e \<and> e \<le> 35 \<and> DayOfWeek (s + e) = Some 0 \<and>
      (1970 \<le> year \<and> year \<le> 2037 \<and> \<not> easter_julian year method \<longrightarrow>
        (\<exists>mon mday. easter_date mktime year method = Some (Some (mktime (year - 1900, mon, mday))) \<and>
          GregorianToSdn year (mon + 1) mday = Some (s + e)))"
proof -
  obtain pfm where pfm: "easter_pfm year method = Some pfm" by (rule easter_pfm_defined [OF assms])
  note range = easter_pfm_range [OF pfm]
  define D where "D = (if easter_julian year method then year + year div 4 + 5 else year + year div 4 - year div 100 + year div 400)"
  obtain s k where s: "(if easter_julian year method then JulianToSdn year 3 21 else GregorianToSdn year 3 21) = Some s"
      "1 \<le> s" "s < 536870000" "s + 6 - D = 7 * k"
  proof (cases "easter_julian year method")
    case True
    then show thesis using that by (simp add: D_def) (rule march21_julian [OF assms], simp)
  next
    case False
    then show thesis using that by (simp add: D_def) (rule march21_gregorian [OF assms], simp)
  qed
  define t where "t = (4 - pfm - D mod 7) mod 7"
  have t: "0 \<le> t" "t \<le> 6" by (simp_all add: t_def)
  define e where "e = pfm + t + 1"
  have e: "cal_easter year method = Some e"
    using cal_easter_eq [OF easter_dom_eq [OF assms] pfm] by (simp add: e_def t_def D_def)
  define r u where "r = D mod 7" and "u = (4 - pfm - r) div 7"
  have "7 * (D div 7) + r = D" "7 * u + t = 4 - pfm - r" by (simp_all add: r_def u_def t_def)
  then have "s + e + 1 = 7 * (k + D div 7 - u)"
    using s(4) unfolding e_def distrib_left right_diff_distrib by simp
  then have "(s + e + 1) mod 7 = 0" by simp
  then have sunday: "DayOfWeek (s + e) = Some 0"
    using s(2,3) t range by (subst DayOfWeek_eq) (simp_all add: e_def)
  have date: "\<exists>mon mday. easter_date mktime year method = Some (Some (mktime (year - 1900, mon, mday))) \<and>
      GregorianToSdn year (mon + 1) mday = Some (s + e)"
    if gm: "1970 \<le> year" "year \<le> 2037" "\<not> easter_julian year method"
    by (rule easter_date_day [OF gm(1,2) e]) (use range t s(1) gm(3) in \<open>simp_all add: e_def\<close>)
  show ?thesis
    using e pfm s(1) range t sunday date by (auto simp: easter_days_def e_def)
qed

theorem easter_sunday_witness:
  "easter_days 2000 0 = Some 33 \<and> GregorianToSdn 2000 3 21 = Some 2451625 \<and> DayOfWeek 2451658 = Some 0 \<and>
   easter_days 1492 0 = Some 32"
proof -
  have v: "easter_days 2000 0 = Some 33" "GregorianToSdn 2000 3 21 = Some 2451625" "easter_days 1492 0 = Some 32"
    "\<not> easter_julian 2000 0"
    by code_simp+
  show ?thesis using easter_sunday [of 2000 0 "\<lambda>_. 0"] v by auto
qed

end
