(* ===== verification/Gc_State.thy ===== *)
theory Gc_State
  imports Prelude
begin

text \<open>
  What the object store (\<open>Zend/zend_objects_API.c\<close>) and the cycle collector (\<open>Zend/zend_gc.c\<close>) work
  on: the zvals with their reference counts, the element pointers of the hash tables, the buckets
  of the object store, and the collector's globals.

  The word \<open>buffered\<close> of a zval or object packs a colour, in its two low bits, and an address. It is
  the record \<open>gc_ref\<close>; an address is null, an entry of the root buffer, or, for a zval that the
  collector has put on its list, the next zval (\<open>u.next\<close> shares the word; \<open>Next None\<close> is
  \<open>FREE_LIST_END\<close>, and the colour bits of both are those of black). Entries of the root buffer are
  named by their index; the doubly linked list \<open>roots\<close> is the list of its entries in the order of
  \<open>next\<close>, \<open>unused\<close> the stack of returned entries. A hash table is the list of the zvals its buckets point to, in
  the order of \<open>pListHead\<close> and \<open>pListNext\<close>.
\<close>

type_synonym handle = uint

datatype gc_color = GC_BLACK | GC_WHITE | GC_GREY | GC_PURPLE

datatype gc_addr = Null | Buf nat | Next "addr option"

record gc_ref =
  gc_color :: gc_color
  gc_addr :: gc_addr

definition gc_null :: gc_ref where
  "gc_null = \<lparr>gc_color = GC_BLACK, gc_addr = Null\<rparr>"

text \<open>\<open>IS_SCALAR\<close> stands for the types without references to other zvals. An object has its handle
  and the address of its handler table.\<close>

datatype zvalue = IS_NULL | IS_SCALAR | IS_ARRAY addr | IS_OBJECT handle addr

record zval_gc_info =
  z_value :: zvalue
  refcount__gc :: uint
  zv_buffered :: gc_ref

text \<open>A bucket of the object store. Callbacks are named by numbers. \<open>os_next\<close> is the field \<open>next\<close> of the
  union's other arm.\<close>

record store_bucket =
  destructor_called :: bool
  os_valid :: bool
  os_object :: "addr option"
  os_dtor :: "nat option"
  os_free_storage :: "nat option"
  os_clone :: "nat option"
  os_handlers :: "addr option"
  os_refcount :: uint
  os_buffered :: gc_ref
  os_next :: int

record gc_root_buffer =
  rb_handle :: handle
  rb_u :: addr

text \<open>\<open>get_properties\<close> is that slot of a handler table, null or a function from the object to a hash
  table or null. A bucket that was never written is \<open>None\<close>; \<open>os_base\<close> stands for the address of the
  array of buckets, which moves when the array is reallocated.\<close>

record zgc =
  zvals :: "zval_gc_info store"
  tables :: "addr list store"
  symbol_table :: addr
  get_properties :: "addr \<Rightarrow> (handle \<Rightarrow> addr option) option"
  object_buckets :: "store_bucket option list option"
  os_base :: nat
  os_top :: uint
  os_size :: uint
  free_list_head :: int
  gc_enabled :: bool
  gc_active :: bool
  gc_buf :: "nat \<Rightarrow> gc_root_buffer"
  gc_roots :: "nat list"
  gc_unused :: "nat list"
  first_unused :: nat
  last_unused :: nat
  zval_to_free :: gc_addr
  free_list :: gc_addr
  next_to_free :: gc_addr
  gc_runs :: uint
  gc_collected :: uint

subsection \<open>Reading and writing zvals and objects\<close>

definition zv_upd :: "addr \<Rightarrow> (zval_gc_info \<Rightarrow> zval_gc_info) \<Rightarrow> zgc \<Rightarrow> zgc option" where
  "zv_upd a f st = do { s \<leftarrow> poke a f (zvals st); Some (st\<lparr>zvals := s\<rparr>) }"

definition os_get :: "zgc \<Rightarrow> handle \<Rightarrow> store_bucket option" where
  "os_get st h = do { bs \<leftarrow> object_buckets st; b \<leftarrow> nth_opt bs (unat h); b }"

definition os_upd :: "handle \<Rightarrow> (store_bucket \<Rightarrow> store_bucket) \<Rightarrow> zgc \<Rightarrow> zgc option" where
  "os_upd h f st =
     do { bs \<leftarrow> object_buckets st; b \<leftarrow> os_get st h; Some (st\<lparr>object_buckets := Some (bs[unat h := Some (f b)])\<rparr>) }"

text \<open>The macros on the packed word; \<open>GC_SET_PURPLE\<close> sets both colour bits and \<open>GC_SET_BLACK\<close> clears them.\<close>

definition GC_ZVAL_SET_COLOR :: "addr \<Rightarrow> gc_color \<Rightarrow> zgc \<Rightarrow> zgc option" where
  "GC_ZVAL_SET_COLOR a c = zv_upd a (\<lambda>z. z\<lparr>zv_buffered := zv_buffered z\<lparr>gc_color := c\<rparr>\<rparr>)"

definition GC_ZVAL_SET_ADDRESS :: "addr \<Rightarrow> gc_addr \<Rightarrow> zgc \<Rightarrow> zgc option" where
  "GC_ZVAL_SET_ADDRESS a p = zv_upd a (\<lambda>z. z\<lparr>zv_buffered := zv_buffered z\<lparr>gc_addr := p\<rparr>\<rparr>)"

definition GC_OBJ_SET_COLOR :: "handle \<Rightarrow> gc_color \<Rightarrow> zgc \<Rightarrow> zgc option" where
  "GC_OBJ_SET_COLOR h c = os_upd h (\<lambda>b. b\<lparr>os_buffered := os_buffered b\<lparr>gc_color := c\<rparr>\<rparr>)"

definition GC_OBJ_SET_ADDRESS :: "handle \<Rightarrow> gc_addr \<Rightarrow> zgc \<Rightarrow> zgc option" where
  "GC_OBJ_SET_ADDRESS h p = os_upd h (\<lambda>b. b\<lparr>os_buffered := os_buffered b\<lparr>gc_addr := p\<rparr>\<rparr>)"

definition GC_ZVAL_GET_COLOR :: "zgc \<Rightarrow> addr \<Rightarrow> gc_color option" where
  "GC_ZVAL_GET_COLOR st a = map_option (gc_color \<circ> zv_buffered) (zvals st a)"

definition GC_ZVAL_ADDRESS :: "zgc \<Rightarrow> addr \<Rightarrow> gc_addr option" where
  "GC_ZVAL_ADDRESS st a = map_option (gc_addr \<circ> zv_buffered) (zvals st a)"

definition zv_addref :: "addr \<Rightarrow> zgc \<Rightarrow> zgc option" where
  "zv_addref a = zv_upd a (\<lambda>z. z\<lparr>refcount__gc := refcount__gc z + 1\<rparr>)"

definition zv_delref :: "addr \<Rightarrow> zgc \<Rightarrow> zgc option" where
  "zv_delref a = zv_upd a (\<lambda>z. z\<lparr>refcount__gc := refcount__gc z - 1\<rparr>)"

definition os_addref :: "handle \<Rightarrow> zgc \<Rightarrow> zgc option" where
  "os_addref h = os_upd h (\<lambda>b. b\<lparr>os_refcount := os_refcount b + 1\<rparr>)"

definition os_delref :: "handle \<Rightarrow> zgc \<Rightarrow> zgc option" where
  "os_delref h = os_upd h (\<lambda>b. b\<lparr>os_refcount := os_refcount b - 1\<rparr>)"

text \<open>\<open>gc_remove_from_buffer\<close>: unlink the entry and push it on the unused ones.\<close>

definition gc_remove_from_buffer :: "nat \<Rightarrow> zgc \<Rightarrow> zgc option" where
  "gc_remove_from_buffer root st =
     (if root \<in> set (gc_roots st)
      then Some (st\<lparr>gc_roots := remove1 root (gc_roots st), gc_unused := root # gc_unused st\<rparr>)
      else None)"

definition GC_REMOVE_ZOBJ_FROM_BUFFER :: "handle \<Rightarrow> zgc \<Rightarrow> zgc option" where
  "GC_REMOVE_ZOBJ_FROM_BUFFER h st =
     do {
       b \<leftarrow> os_get st h;
       case gc_addr (os_buffered b) of
         Buf i \<Rightarrow>
           if \<not> gc_active st then do {
             st \<leftarrow> gc_remove_from_buffer i st;
             os_upd h (\<lambda>b. b\<lparr>os_buffered := gc_null\<rparr>) st
           }
           else Some st
       | _ \<Rightarrow> Some st
     }"

end
