(* ===== verification/Zend_Gc.thy ===== *)
theory Zend_Gc
  imports Gc_State
begin

text \<open>
  The cycle collector, \<open>Zend/zend_gc.c\<close>: buffering of possible roots and the three phases mark,
  scan and collect. Each recursive C function walks the elements of a zval (\<open>while (p != NULL)\<close>, with
  a \<open>goto\<close> for the last one instead of a call); \<open>gc_walk\<close> is that walk, given what the function does
  with one element before it turns to the elements of that element.
\<close>

subsection \<open>The elements of a zval\<close>

definition is_symbol_table :: "zgc \<Rightarrow> zval_gc_info \<Rightarrow> bool" where
  "is_symbol_table st z \<longleftrightarrow> z_value z = IS_ARRAY (symbol_table st)"

text \<open>\<open>p = Z_OBJPROP_P(pz)->pListHead\<close> behind its guards.\<close>

definition gc_object_props :: "handle \<Rightarrow> addr \<Rightarrow> zgc \<Rightarrow> addr list option" where
  "gc_object_props h hs st =
     do {
       b \<leftarrow> os_get st h;
       if os_valid b then
         case get_properties st hs of
           None \<Rightarrow> Some []
         | Some f \<Rightarrow> (case f h of None \<Rightarrow> Some [] | Some ht \<Rightarrow> tables st ht)
       else Some []
     }"

text \<open>\<open>get_properties\<close> returned null, where each walk returns at once.\<close>

definition gc_props_missing :: "handle \<Rightarrow> addr \<Rightarrow> zgc \<Rightarrow> bool option" where
  "gc_props_missing h hs st =
     do {
       b \<leftarrow> os_get st h;
       Some (os_valid b \<and> (case get_properties st hs of None \<Rightarrow> False | Some f \<Rightarrow> f h = None))
     }"

definition GC_OBJ_GET_COLOR :: "zgc \<Rightarrow> handle \<Rightarrow> gc_color option" where
  "GC_OBJ_GET_COLOR st h = map_option (gc_color \<circ> os_buffered) (os_get st h)"

text \<open>The walk over the elements \<open>ps\<close>; \<open>step\<close> returns the elements to descend to.\<close>

partial_function (option) gc_walk ::
    "(addr \<Rightarrow> zgc \<Rightarrow> (addr list \<times> zgc) option) \<Rightarrow> addr list \<Rightarrow> zgc \<Rightarrow> zgc option" where
  "gc_walk step ps st =
     (case ps of
        [] \<Rightarrow> Some st
      | pz # ps' \<Rightarrow> do {
          (cs, st) \<leftarrow> step pz st;
          st \<leftarrow> gc_walk step cs st;
          gc_walk step ps' st
        })"

definition gc_enter :: "(addr \<Rightarrow> zgc \<Rightarrow> (addr list \<times> zgc) option) \<Rightarrow> (addr \<Rightarrow> zgc \<Rightarrow> (addr list \<times> zgc) option)
    \<Rightarrow> addr \<Rightarrow> zgc \<Rightarrow> zgc option" where
  "gc_enter enter step pz st = do { (cs, st) \<leftarrow> enter pz st; gc_walk step cs st }"

subsection \<open>Scan black\<close>

definition zval_scan_black_enter :: "addr \<Rightarrow> zgc \<Rightarrow> (addr list \<times> zgc) option" where
  "zval_scan_black_enter pz st =
     do {
       st \<leftarrow> GC_ZVAL_SET_COLOR pz GC_BLACK st;
       z \<leftarrow> zvals st pz;
       case z_value z of
         IS_OBJECT h hs \<Rightarrow>
           if object_buckets st = None then Some ([], st)
           else do {
             st \<leftarrow> os_addref h st;
             c \<leftarrow> GC_OBJ_GET_COLOR st h;
             if c \<noteq> GC_BLACK then do {
               st \<leftarrow> GC_OBJ_SET_COLOR h GC_BLACK st;
               p \<leftarrow> gc_object_props h hs st;
               Some (p, st)
             }
             else Some ([], st)
           }
       | IS_ARRAY ht \<Rightarrow>
           if ht \<noteq> symbol_table st then do { p \<leftarrow> tables st ht; Some (p, st) } else Some ([], st)
       | _ \<Rightarrow> Some ([], st)
     }"

definition zval_scan_black_step :: "addr \<Rightarrow> zgc \<Rightarrow> (addr list \<times> zgc) option" where
  "zval_scan_black_step pz st =
     do {
       z \<leftarrow> zvals st pz;
       st \<leftarrow> (if \<not> is_symbol_table st z then zv_addref pz st else Some st);
       c \<leftarrow> GC_ZVAL_GET_COLOR st pz;
       if c \<noteq> GC_BLACK then zval_scan_black_enter pz st else Some ([], st)
     }"

definition zval_scan_black :: "addr \<Rightarrow> zgc \<Rightarrow> zgc option" where
  "zval_scan_black = gc_enter zval_scan_black_enter zval_scan_black_step"

definition zobj_scan_black :: "handle \<Rightarrow> addr \<Rightarrow> zgc \<Rightarrow> zgc option" where
  "zobj_scan_black h hs st =
     do {
       st \<leftarrow> GC_OBJ_SET_COLOR h GC_BLACK st;
       p \<leftarrow> gc_object_props h hs st;
       gc_walk zval_scan_black_step p st
     }"

subsection \<open>Mark grey\<close>

definition zval_mark_grey_enter :: "addr \<Rightarrow> zgc \<Rightarrow> (addr list \<times> zgc) option" where
  "zval_mark_grey_enter pz st =
     do {
       c \<leftarrow> GC_ZVAL_GET_COLOR st pz;
       if c \<noteq> GC_GREY then do {
         st \<leftarrow> GC_ZVAL_SET_COLOR pz GC_GREY st;
         z \<leftarrow> zvals st pz;
         case z_value z of
           IS_OBJECT h hs \<Rightarrow>
             if object_buckets st = None then Some ([], st)
             else do {
               st \<leftarrow> os_delref h st;
               c \<leftarrow> GC_OBJ_GET_COLOR st h;
               if c \<noteq> GC_GREY then do {
                 st \<leftarrow> GC_OBJ_SET_COLOR h GC_GREY st;
                 p \<leftarrow> gc_object_props h hs st;
                 Some (p, st)
               }
               else Some ([], st)
             }
         | IS_ARRAY ht \<Rightarrow>
             if ht = symbol_table st then do { st \<leftarrow> GC_ZVAL_SET_COLOR pz GC_BLACK st; Some ([], st) }
             else do { p \<leftarrow> tables st ht; Some (p, st) }
         | _ \<Rightarrow> Some ([], st)
       }
       else Some ([], st)
     }"

definition zval_mark_grey_step :: "addr \<Rightarrow> zgc \<Rightarrow> (addr list \<times> zgc) option" where
  "zval_mark_grey_step pz st =
     do {
       z \<leftarrow> zvals st pz;
       st \<leftarrow> (if \<not> is_symbol_table st z then zv_delref pz st else Some st);
       zval_mark_grey_enter pz st
     }"

definition zval_mark_grey :: "addr \<Rightarrow> zgc \<Rightarrow> zgc option" where
  "zval_mark_grey = gc_enter zval_mark_grey_enter zval_mark_grey_step"

definition zobj_mark_grey :: "handle \<Rightarrow> addr \<Rightarrow> zgc \<Rightarrow> zgc option" where
  "zobj_mark_grey h hs st =
     do {
       c \<leftarrow> GC_OBJ_GET_COLOR st h;
       if c \<noteq> GC_GREY then do {
         st \<leftarrow> GC_OBJ_SET_COLOR h GC_GREY st;
         p \<leftarrow> gc_object_props h hs st;
         gc_walk zval_mark_grey_step p st
       }
       else Some st
     }"

subsection \<open>Scan\<close>

definition zval_scan_step :: "addr \<Rightarrow> zgc \<Rightarrow> (addr list \<times> zgc) option" where
  "zval_scan_step pz st =
     do {
       c \<leftarrow> GC_ZVAL_GET_COLOR st pz;
       if c = GC_GREY then do {
         z \<leftarrow> zvals st pz;
         if refcount__gc z > 0 then do { st \<leftarrow> zval_scan_black pz st; Some ([], st) }
         else do {
           st \<leftarrow> GC_ZVAL_SET_COLOR pz GC_WHITE st;
           case z_value z of
             IS_OBJECT h hs \<Rightarrow>
               if object_buckets st = None then Some ([], st)
               else do {
                 b \<leftarrow> os_get st h;
                 if gc_color (os_buffered b) = GC_GREY then
                   if os_refcount b > 0 then do { st \<leftarrow> zobj_scan_black h hs st; Some ([], st) }
                   else do {
                     st \<leftarrow> GC_OBJ_SET_COLOR h GC_WHITE st;
                     p \<leftarrow> gc_object_props h hs st;
                     Some (p, st)
                   }
                 else Some ([], st)
               }
           | IS_ARRAY ht \<Rightarrow>
               if ht = symbol_table st then do { st \<leftarrow> GC_ZVAL_SET_COLOR pz GC_BLACK st; Some ([], st) }
               else do { p \<leftarrow> tables st ht; Some (p, st) }
           | _ \<Rightarrow> Some ([], st)
         }
       }
       else Some ([], st)
     }"

definition zval_scan :: "addr \<Rightarrow> zgc \<Rightarrow> zgc option" where
  "zval_scan pz = gc_walk zval_scan_step [pz]"

definition zobj_scan :: "handle \<Rightarrow> addr \<Rightarrow> zgc \<Rightarrow> zgc option" where
  "zobj_scan h hs st =
     (if object_buckets st = None then Some st
      else do {
        b \<leftarrow> os_get st h;
        if gc_color (os_buffered b) = GC_GREY then
          if os_refcount b > 0 then zobj_scan_black h hs st
          else do {
            st \<leftarrow> GC_OBJ_SET_COLOR h GC_WHITE st;
            p \<leftarrow> gc_object_props h hs st;
            gc_walk zval_scan_step p st
          }
        else Some st
      })"

subsection \<open>Collect white\<close>

text \<open>\<open>buffered == (gc_root_buffer*)GC_WHITE\<close>: white, and not in the root buffer.\<close>

definition gc_white :: gc_ref where
  "gc_white = \<lparr>gc_color = GC_WHITE, gc_addr = Null\<rparr>"

text \<open>A zval whose object has no property table is coloured but neither counted nor listed: that
  return comes before both.\<close>

definition zval_collect_white_enter :: "addr \<Rightarrow> zgc \<Rightarrow> (addr list \<times> zgc) option" where
  "zval_collect_white_enter pz st =
     do {
       z \<leftarrow> zvals st pz;
       if zv_buffered z = gc_white then do {
         st \<leftarrow> GC_ZVAL_SET_COLOR pz GC_BLACK st;
         (r, st) \<leftarrow>
           (case z_value z of
              IS_OBJECT h hs \<Rightarrow>
                if object_buckets st = None then Some (Some [], st)
                else do {
                  b \<leftarrow> os_get st h;
                  if os_buffered b = gc_white then do {
                    st \<leftarrow> GC_OBJ_SET_COLOR h GC_PURPLE st;
                    none \<leftarrow> gc_props_missing h hs st;
                    if none then Some (None, st)
                    else do { p \<leftarrow> gc_object_props h hs st; Some (Some p, st) }
                  }
                  else Some (Some [], st)
                }
            | IS_ARRAY ht \<Rightarrow> do { p \<leftarrow> tables st ht; Some (Some p, st) }
            | _ \<Rightarrow> Some (Some [], st));
         case r of
           None \<Rightarrow> Some ([], st)
         | Some p \<Rightarrow> do {
             st \<leftarrow> zv_addref pz st;
             st \<leftarrow> zv_upd pz (\<lambda>z. z\<lparr>zv_buffered := \<lparr>gc_color = GC_BLACK, gc_addr = zval_to_free st\<rparr>\<rparr>) st;
             Some (p, st\<lparr>zval_to_free := Next (Some pz)\<rparr>)
           }
       }
       else Some ([], st)
     }"

definition zval_collect_white_step :: "addr \<Rightarrow> zgc \<Rightarrow> (addr list \<times> zgc) option" where
  "zval_collect_white_step pz st =
     do {
       z \<leftarrow> zvals st pz;
       st \<leftarrow> (if \<not> is_symbol_table st z then zv_addref pz st else Some st);
       zval_collect_white_enter pz st
     }"

definition zval_collect_white :: "addr \<Rightarrow> zgc \<Rightarrow> zgc option" where
  "zval_collect_white = gc_enter zval_collect_white_enter zval_collect_white_step"

definition zobj_collect_white :: "handle \<Rightarrow> addr \<Rightarrow> zgc \<Rightarrow> zgc option" where
  "zobj_collect_white h hs st =
     (if object_buckets st = None then Some st
      else do {
        b \<leftarrow> os_get st h;
        if os_buffered b = gc_white then do {
          st \<leftarrow> GC_OBJ_SET_COLOR h GC_PURPLE st;
          p \<leftarrow> gc_object_props h hs st;
          gc_walk zval_collect_white_step p st
        }
        else Some st
      })"

subsection \<open>The phases over the root buffer\<close>

text \<open>\<open>current = current->next\<close> reads the entry after it may have been removed; removing it leaves its own
  link alone, so the loops run over the list as it was at the start.\<close>

fun gc_mark_roots_loop :: "nat list \<Rightarrow> zgc \<Rightarrow> zgc option" where
  "gc_mark_roots_loop [] st = Some st"
| "gc_mark_roots_loop (current # rest) st =
     do {
       let e = gc_buf st current;
       st \<leftarrow>
         (if rb_handle e \<noteq> 0 then
            if object_buckets st = None then Some st
            else do {
              c \<leftarrow> GC_OBJ_GET_COLOR st (rb_handle e);
              if c = GC_PURPLE then zobj_mark_grey (rb_handle e) (rb_u e) st
              else do {
                st \<leftarrow> GC_OBJ_SET_ADDRESS (rb_handle e) Null st;
                gc_remove_from_buffer current st
              }
            }
          else do {
            c \<leftarrow> GC_ZVAL_GET_COLOR st (rb_u e);
            if c = GC_PURPLE then zval_mark_grey (rb_u e) st
            else do {
              st \<leftarrow> GC_ZVAL_SET_ADDRESS (rb_u e) Null st;
              gc_remove_from_buffer current st
            }
          });
       gc_mark_roots_loop rest st
     }"

definition gc_mark_roots :: "zgc \<Rightarrow> zgc option" where
  "gc_mark_roots st = gc_mark_roots_loop (gc_roots st) st"

fun gc_scan_roots_loop :: "nat list \<Rightarrow> zgc \<Rightarrow> zgc option" where
  "gc_scan_roots_loop [] st = Some st"
| "gc_scan_roots_loop (current # rest) st =
     do {
       let e = gc_buf st current;
       st \<leftarrow> (if rb_handle e \<noteq> 0 then zobj_scan (rb_handle e) (rb_u e) st else zval_scan (rb_u e) st);
       gc_scan_roots_loop rest st
     }"

definition gc_scan_roots :: "zgc \<Rightarrow> zgc option" where
  "gc_scan_roots st = gc_scan_roots_loop (gc_roots st) st"

fun gc_collect_roots_loop :: "nat list \<Rightarrow> zgc \<Rightarrow> zgc option" where
  "gc_collect_roots_loop [] st = Some st"
| "gc_collect_roots_loop (current # rest) st =
     do {
       let e = gc_buf st current;
       st \<leftarrow>
         (if rb_handle e \<noteq> 0 then
            if object_buckets st = None then Some st
            else do {
              st \<leftarrow> GC_OBJ_SET_ADDRESS (rb_handle e) Null st;
              zobj_collect_white (rb_handle e) (rb_u e) st
            }
          else do {
            st \<leftarrow> GC_ZVAL_SET_ADDRESS (rb_u e) Null st;
            zval_collect_white (rb_u e) st
          });
       st \<leftarrow> gc_remove_from_buffer current st;
       gc_collect_roots_loop rest st
     }"

definition gc_collect_roots :: "zgc \<Rightarrow> zgc option" where
  "gc_collect_roots st = gc_collect_roots_loop (gc_roots st) st"

text \<open>The first half of \<open>gc_collect_cycles\<close>: the zvals found are on \<open>free_list\<close>, linked through their
  \<open>u.next\<close>. \<open>None\<close> inside: there is nothing to do, or a collection is running.\<close>

definition gc_find_cycles :: "zgc \<Rightarrow> zgc option option" where
  "gc_find_cycles st =
     (if gc_roots st = [] \<or> gc_active st then Some None
      else do {
        let st = st\<lparr>gc_runs := gc_runs st + 1, zval_to_free := Next None, gc_active := True\<rparr>;
        st \<leftarrow> gc_mark_roots st;
        st \<leftarrow> gc_scan_roots st;
        st \<leftarrow> gc_collect_roots st;
        Some (Some (st\<lparr>free_list := zval_to_free st, zval_to_free := Null, gc_active := False\<rparr>))
      })"

subsection \<open>Possible roots\<close>

definition GC_ROOT_BUFFER_MAX_ENTRIES :: nat where
  "GC_ROOT_BUFFER_MAX_ENTRIES = 10000"

text \<open>A zval that the running collection is about to delete: black, with the link of the free list in
  place of an address inside the root buffer.\<close>

definition gc_on_free_list :: "zval_gc_info \<Rightarrow> zgc \<Rightarrow> bool" where
  "gc_on_free_list z st \<longleftrightarrow>
     free_list st \<noteq> Null \<and> gc_color (zv_buffered z) = GC_BLACK \<and> (case gc_addr (zv_buffered z) of Next _ \<Rightarrow> True | _ \<Rightarrow> False)"

text \<open>An entry for a new root: an unused one, or the next of the array. Otherwise \<open>collect\<close>, which is
  \<open>gc_collect_cycles\<close>, runs with a reference to \<open>zv\<close> held. The second value is the entry and whether a
  collection ran.\<close>

definition gc_new_root :: "(zgc \<Rightarrow> zgc option) \<Rightarrow> addr \<Rightarrow> zgc \<Rightarrow> (zgc \<times> (nat \<times> bool) option) option" where
  "gc_new_root collect zv st =
     (case gc_unused st of
        i # rest \<Rightarrow> Some (st\<lparr>gc_unused := rest\<rparr>, Some (i, False))
      | [] \<Rightarrow>
          if first_unused st \<noteq> last_unused st
          then Some (st\<lparr>first_unused := first_unused st + 1\<rparr>, Some (first_unused st, False))
          else if \<not> gc_enabled st then do { st \<leftarrow> GC_ZVAL_SET_COLOR zv GC_BLACK st; Some (st, None) }
          else do {
            st \<leftarrow> zv_addref zv st;
            st \<leftarrow> collect st;
            st \<leftarrow> zv_delref zv st;
            case gc_unused st of
              [] \<Rightarrow> Some (st, None)
            | i # rest \<Rightarrow> Some (st\<lparr>gc_unused := rest\<rparr>, Some (i, True))
          })"

definition gc_link_root :: "nat \<Rightarrow> gc_root_buffer \<Rightarrow> zgc \<Rightarrow> zgc" where
  "gc_link_root i e st = st\<lparr>gc_roots := i # gc_roots st, gc_buf := (gc_buf st)(i := e)\<rparr>"

definition gc_zobj_possible_root :: "(zgc \<Rightarrow> zgc option) \<Rightarrow> addr \<Rightarrow> handle \<Rightarrow> addr \<Rightarrow> zgc \<Rightarrow> zgc option" where
  "gc_zobj_possible_root collect zv h hs st =
     (if get_properties st hs = None \<or> object_buckets st = None then Some st
      else do {
        c \<leftarrow> GC_OBJ_GET_COLOR st h;
        if c \<noteq> GC_PURPLE then do {
          st \<leftarrow> GC_OBJ_SET_COLOR h GC_PURPLE st;
          b \<leftarrow> os_get st h;
          if gc_addr (os_buffered b) = Null then do {
            (st, r) \<leftarrow> gc_new_root collect zv st;
            case r of
              None \<Rightarrow> Some st
            | Some (i, collected) \<Rightarrow> do {
                st \<leftarrow> (if collected then GC_OBJ_SET_COLOR h GC_PURPLE st else Some st);
                let st = gc_link_root i \<lparr>rb_handle = h, rb_u = hs\<rparr> st;
                GC_OBJ_SET_ADDRESS h (Buf i) st
              }
          }
          else Some st
        }
        else Some st
      })"

definition gc_zval_possible_root :: "(zgc \<Rightarrow> zgc option) \<Rightarrow> addr \<Rightarrow> zgc \<Rightarrow> zgc option" where
  "gc_zval_possible_root collect zv st =
     do {
       z \<leftarrow> zvals st zv;
       if gc_on_free_list z st then Some st
       else case z_value z of
         IS_OBJECT h hs \<Rightarrow>
           if object_buckets st = None then Some st
           else do {
             b \<leftarrow> os_get st h;
             if os_valid b then gc_zobj_possible_root collect zv h hs st else Some st
           }
       | _ \<Rightarrow>
           if gc_color (zv_buffered z) \<noteq> GC_PURPLE then do {
             st \<leftarrow> GC_ZVAL_SET_COLOR zv GC_PURPLE st;
             if gc_addr (zv_buffered z) = Null then do {
               (st, r) \<leftarrow> gc_new_root collect zv st;
               case r of
                 None \<Rightarrow> Some st
               | Some (i, collected) \<Rightarrow> do {
                   st \<leftarrow> (if collected then GC_ZVAL_SET_COLOR zv GC_PURPLE st else Some st);
                   let st = gc_link_root i \<lparr>rb_handle = 0, rb_u = zv\<rparr> st;
                   GC_ZVAL_SET_ADDRESS zv (Buf i) st
                 }
             }
             else Some st
           }
           else Some st
     }"

definition gc_zval_check_possible_root :: "(zgc \<Rightarrow> zgc option) \<Rightarrow> addr \<Rightarrow> zgc \<Rightarrow> zgc option" where
  "gc_zval_check_possible_root collect a st =
     do {
       z \<leftarrow> zvals st a;
       case z_value z of
         IS_ARRAY ht \<Rightarrow> gc_zval_possible_root collect a st
       | IS_OBJECT h hs \<Rightarrow> gc_zval_possible_root collect a st
       | _ \<Rightarrow> Some st
     }"

definition gc_remove_zval_from_buffer :: "addr \<Rightarrow> zgc \<Rightarrow> zgc option" where
  "gc_remove_zval_from_buffer zv st =
     do {
       z \<leftarrow> zvals st zv;
       if gc_on_free_list z st then
         Some (if next_to_free st = Next (Some zv) then st\<lparr>next_to_free := gc_addr (zv_buffered z)\<rparr> else st)
       else case gc_addr (zv_buffered z) of
         Buf i \<Rightarrow> do {
           st \<leftarrow> gc_remove_from_buffer i st;
           zv_upd zv (\<lambda>z. z\<lparr>zv_buffered := gc_null\<rparr>) st
         }
       | _ \<Rightarrow> None
     }"

text \<open>\<open>GC_REMOVE_ZVAL_FROM_BUFFER\<close>\<close>

definition GC_REMOVE_ZVAL_FROM_BUFFER :: "addr \<Rightarrow> zgc \<Rightarrow> zgc option" where
  "GC_REMOVE_ZVAL_FROM_BUFFER zv st =
     do {
       p \<leftarrow> GC_ZVAL_ADDRESS st zv;
       if p \<noteq> Null then gc_remove_zval_from_buffer zv st else Some st
     }"

subsection \<open>Start and reset\<close>

definition gc_globals_ctor :: "zgc \<Rightarrow> zgc" where
  "gc_globals_ctor st = st\<lparr>gc_enabled := False, gc_active := False, last_unused := 0, first_unused := 0, gc_roots := [],
     gc_unused := [], zval_to_free := Null, free_list := Null, next_to_free := Null, gc_runs := 0, gc_collected := 0\<rparr>"

text \<open>\<open>last_unused\<close> is 0 as long as there is no buffer.\<close>

definition gc_reset :: "zgc \<Rightarrow> zgc" where
  "gc_reset st =
     (let st = st\<lparr>gc_runs := 0, gc_collected := 0, gc_roots := [], gc_unused := [], first_unused := 0\<rparr>
      in if last_unused st \<noteq> 0 then st\<lparr>zval_to_free := Null\<rparr> else st)"

definition gc_init :: "zgc \<Rightarrow> zgc" where
  "gc_init st =
     (if last_unused st = 0 \<and> gc_enabled st then gc_reset (st\<lparr>last_unused := GC_ROOT_BUFFER_MAX_ENTRIES\<rparr>) else st)"

text \<open>The buffer is freed and \<open>buf\<close> null, which is \<open>last_unused = 0\<close> here.\<close>

definition root_buffer_dtor :: "zgc \<Rightarrow> zgc" where
  "root_buffer_dtor st = st\<lparr>last_unused := 0\<rparr>"

end
