(* ===== verification/Gc_Graph.thy ===== *)
theory Gc_Graph
  imports Zend_Gc "HOL-Library.Multiset"
begin

text \<open>
  The graph the collector works on. Its nodes are zvals and objects of the store; the elements of
  an array, the properties of an object and the object of a zval are the edges. The zval of the
  global symbol table is not a node: the collector neither counts references to it nor follows
  it. Every step of the collector changes the reference count and the word \<open>buffered\<close> of a node
  (\<open>nmap\<close>) and nothing else of the graph.
\<close>

datatype gc_node = ZV addr | OB handle

definition edges :: "zgc \<Rightarrow> addr list \<Rightarrow> gc_node list" where
  "edges st ps = map ZV (filter (\<lambda>a. \<not> is_symbol_table st (the (zvals st a))) ps)"

text \<open>\<open>hs\<close> gives the handler table of an object; every zval of the object has that one.\<close>

fun kids :: "(handle \<Rightarrow> addr) \<Rightarrow> zgc \<Rightarrow> gc_node \<Rightarrow> gc_node list" where
  "kids hs st (ZV a) =
     (case z_value (the (zvals st a)) of
        IS_ARRAY ht \<Rightarrow> if ht = symbol_table st then [] else edges st (the (tables st ht))
      | IS_OBJECT h _ \<Rightarrow> if object_buckets st = None then [] else [OB h]
      | _ \<Rightarrow> [])"
| "kids hs st (OB h) = edges st (the (gc_object_props h (hs h) st))"

fun rc :: "zgc \<Rightarrow> gc_node \<Rightarrow> uint" where
  "rc st (ZV a) = refcount__gc (the (zvals st a))"
| "rc st (OB h) = os_refcount (the (os_get st h))"

fun ref :: "zgc \<Rightarrow> gc_node \<Rightarrow> gc_ref" where
  "ref st (ZV a) = zv_buffered (the (zvals st a))"
| "ref st (OB h) = os_buffered (the (os_get st h))"

abbreviation col :: "zgc \<Rightarrow> gc_node \<Rightarrow> gc_color" where
  "col st n \<equiv> gc_color (ref st n)"

fun has :: "zgc \<Rightarrow> gc_node \<Rightarrow> bool" where
  "has st (ZV a) \<longleftrightarrow> a \<in> dom (zvals st)"
| "has st (OB h) \<longleftrightarrow> os_get st h \<noteq> None"

definition symtab :: "zgc \<Rightarrow> addr \<Rightarrow> bool" where
  "symtab st a \<longleftrightarrow> is_symbol_table st (the (zvals st a))"

definition nodes :: "zgc \<Rightarrow> gc_node set" where
  "nodes st = ZV ` {a \<in> dom (zvals st). \<not> symtab st a} \<union> OB ` {h. os_get st h \<noteq> None}"

definition heap_ok :: "(handle \<Rightarrow> addr) \<Rightarrow> zgc \<Rightarrow> bool" where
  "heap_ok hs st \<longleftrightarrow>
     finite (dom (zvals st)) \<and>
     (\<forall>a \<in> dom (zvals st).
        (\<forall>ht. z_value (the (zvals st a)) = IS_ARRAY ht \<longrightarrow> ht \<noteq> symbol_table st \<longrightarrow>
           (\<exists>ps. tables st ht = Some ps \<and> set ps \<subseteq> dom (zvals st))) \<and>
        (\<forall>h hs'. z_value (the (zvals st a)) = IS_OBJECT h hs' \<longrightarrow> object_buckets st \<noteq> None \<longrightarrow>
           hs' = hs h \<and> os_get st h \<noteq> None)) \<and>
     (\<forall>h. os_get st h \<noteq> None \<longrightarrow>
        (\<exists>ps. gc_object_props h (hs h) st = Some ps \<and> set ps \<subseteq> dom (zvals st)))"

subsection \<open>Updates of a node\<close>

fun nmap :: "gc_node \<Rightarrow> (uint \<Rightarrow> uint) \<Rightarrow> (gc_ref \<Rightarrow> gc_ref) \<Rightarrow> zgc \<Rightarrow> zgc" where
  "nmap (ZV a) f g st =
     st\<lparr>zvals := (zvals st)(a \<mapsto> (the (zvals st a))\<lparr>refcount__gc := f (rc st (ZV a)), zv_buffered := g (ref st (ZV a))\<rparr>)\<rparr>"
| "nmap (OB h) f g st =
     st\<lparr>object_buckets := Some ((the (object_buckets st))[unat h :=
        Some ((the (os_get st h))\<lparr>os_refcount := f (rc st (OB h)), os_buffered := g (ref st (OB h))\<rparr>)])\<rparr>"

named_theorems gc_prims \<open>the primitive operations as updates of a node\<close>

lemma os_get_upd:
  assumes "object_buckets st = Some bs" "os_get st h \<noteq> None"
  shows "os_get (st\<lparr>object_buckets := Some (bs[unat h := Some b])\<rparr>) h' = (if h' = h then Some b else os_get st h')"
  using assms by (auto simp: os_get_def nth_opt_def nth_list_update word_unat_eq_iff [symmetric] split: if_splits)

lemma has_OB_D:
  assumes "os_get st h \<noteq> None"
  obtains bs b where "object_buckets st = Some bs" "os_get st h = Some b" "unat h < length bs" "bs ! unat h = Some b"
  using assms by (auto simp: os_get_def nth_opt_def split: bind_splits if_splits)

lemma os_get_nmap:
  assumes "has st n"
  shows "os_get (nmap n f g st) h = (case n of ZV a \<Rightarrow> os_get st h
    | OB h' \<Rightarrow> if h = h' then Some ((the (os_get st h))\<lparr>os_refcount := f (rc st n), os_buffered := g (ref st n)\<rparr>) else os_get st h)"
proof (cases n)
  case (ZV a)
  then show ?thesis by (simp add: os_get_def)
next
  case (OB h')
  then have "os_get st h' \<noteq> None" using assms by simp
  then obtain bs b where "object_buckets st = Some bs" by (rule has_OB_D)
  then show ?thesis using OB os_get_upd [of st bs h'] assms by auto
qed

lemma zvals_nmap:
  "zvals (nmap n f g st) a = (case n of OB h \<Rightarrow> zvals st a
    | ZV a' \<Rightarrow> if a = a' then Some ((the (zvals st a))\<lparr>refcount__gc := f (rc st n), zv_buffered := g (ref st n)\<rparr>) else zvals st a)"
  by (cases n) auto

lemma nmap_globals [simp]:
  "tables (nmap n f g st) = tables st" "symbol_table (nmap n f g st) = symbol_table st"
  "get_properties (nmap n f g st) = get_properties st" "gc_roots (nmap n f g st) = gc_roots st"
  "gc_buf (nmap n f g st) = gc_buf st" "zval_to_free (nmap n f g st) = zval_to_free st" "gc_unused (nmap n f g st) = gc_unused st"
  by (cases n; simp)+

lemma nmap_buckets: "has st n \<Longrightarrow> object_buckets (nmap n f g st) = None \<longleftrightarrow> object_buckets st = None"
  by (cases n) (auto simp: os_get_def split: bind_splits)

declare nmap.simps [simp del]

lemma rc_nmap [simp]: "has st n \<Longrightarrow> rc (nmap n f g st) m = (if m = n then f (rc st n) else rc st m)"
  by (cases m; cases n) (auto simp: os_get_nmap zvals_nmap)

lemma ref_nmap [simp]: "has st n \<Longrightarrow> ref (nmap n f g st) m = (if m = n then g (ref st n) else ref st m)"
  by (cases m; cases n) (auto simp: os_get_nmap zvals_nmap)

lemma has_nmap [simp]: "has st n \<Longrightarrow> has (nmap n f g st) m = has st m"
  by (cases m; cases n) (auto simp: os_get_nmap zvals_nmap dom_def)

subsection \<open>The graph does not change\<close>

definition same_graph :: "zgc \<Rightarrow> zgc \<Rightarrow> bool" where
  "same_graph st st' \<longleftrightarrow>
     (\<forall>a. map_option z_value (zvals st' a) = map_option z_value (zvals st a)) \<and>
     tables st' = tables st \<and> symbol_table st' = symbol_table st \<and> get_properties st' = get_properties st \<and>
     (object_buckets st' = None \<longleftrightarrow> object_buckets st = None) \<and>
     (\<forall>h. map_option os_valid (os_get st' h) = map_option os_valid (os_get st h))"

lemma same_graph_refl [simp]: "same_graph st st"
  by (simp add: same_graph_def)

lemma same_graph_trans: "same_graph st st' \<Longrightarrow> same_graph st' st'' \<Longrightarrow> same_graph st st''"
  by (simp add: same_graph_def)

lemma same_graph_nmap [simp]: "has st n \<Longrightarrow> same_graph st (nmap n f g st)"
  by (cases n) (auto simp: same_graph_def os_get_nmap zvals_nmap nmap_buckets)

lemma same_graph_zval:
  assumes "same_graph st st'"
  shows "dom (zvals st') = dom (zvals st)" "a \<in> dom (zvals st) \<Longrightarrow> z_value (the (zvals st' a)) = z_value (the (zvals st a))"
    "symtab st' a = symtab st a"
proof -
  have v: "map_option z_value (zvals st' a) = map_option z_value (zvals st a)" for a
    using assms by (simp add: same_graph_def)
  have "zvals st' a = None \<longleftrightarrow> zvals st a = None" for a using v [of a] by (metis option.map_disc_iff)
  then show "dom (zvals st') = dom (zvals st)" by (auto simp: dom_def)
  show "a \<in> dom (zvals st) \<Longrightarrow> z_value (the (zvals st' a)) = z_value (the (zvals st a))" using v [of a] by auto
  show "symtab st' a = symtab st a"
    using v [of a] assms by (cases "zvals st a"; cases "zvals st' a") (auto simp: symtab_def is_symbol_table_def same_graph_def)
qed

lemma same_graph_os: "same_graph st st' \<Longrightarrow> os_get st' h = None \<longleftrightarrow> os_get st h = None"
  unfolding same_graph_def by (metis option.map_disc_iff)

lemma same_graph_props:
  assumes "same_graph st st'"
  shows "gc_object_props h k st' = gc_object_props h k st"
proof -
  have "map_option os_valid (os_get st' h) = map_option os_valid (os_get st h)"
    "tables st' = tables st" "get_properties st' = get_properties st"
    using assms by (simp_all add: same_graph_def)
  then show ?thesis by (cases "os_get st h"; cases "os_get st' h") (auto simp: gc_object_props_def split: option.splits)
qed

lemma same_graph_edges: "same_graph st st' \<Longrightarrow> edges st' ps = edges st ps"
  using same_graph_zval(3) [of st st'] by (simp add: edges_def symtab_def)

lemma same_graph_kids:
  assumes "same_graph st st'"
  shows "has st n \<Longrightarrow> kids hs st' n = kids hs st n"
  using same_graph_zval(2) [OF assms] same_graph_props [OF assms] same_graph_edges [OF assms] assms
  by (cases n) (auto simp: same_graph_def split: zvalue.splits)

lemma same_graph_nodes: "same_graph st st' \<Longrightarrow> nodes st' = nodes st"
  using same_graph_zval(1,3) [of st st'] same_graph_os [of st st'] by (simp add: nodes_def)

lemma same_graph_has: "same_graph st st' \<Longrightarrow> has st' n = has st n"
  using same_graph_zval(1) [of st st'] same_graph_os [of st st'] by (cases n) auto

lemma same_graph_heap:
  assumes "same_graph st st'" "heap_ok hs st"
  shows "heap_ok hs st'"
  using assms same_graph_zval(1,2) [OF assms(1)] same_graph_os [OF assms(1)] same_graph_props [OF assms(1)]
  unfolding heap_ok_def by (auto simp: same_graph_def)

declare has.simps [simp del] rc.simps [simp del] ref.simps [simp del] kids.simps [simp del]

lemmas node_simps = has.simps rc.simps ref.simps

end
