(* ===== verification/Gc_Walk.thy ===== *)
theory Gc_Walk
  imports Gc_Graph
begin

text \<open>
  What a walk of the collector promises, from what one step promises. The nodes that are \<open>fin\<close>ished
  grow with each step that finds new elements, so every walk ends. \<open>gc_counting\<close> adds the balance of the reference
  counts: each pointer walked over contributes once, and each newly finished node contributes for its
  edges.
\<close>

locale gc_walking =
  fixes step :: "addr \<Rightarrow> zgc \<Rightarrow> (addr list \<times> zgc) option"
    and inv :: "zgc \<Rightarrow> bool" and fin :: "zgc \<Rightarrow> gc_node set" and univ :: "gc_node set"
    and ptrs :: "addr set" and edg :: "addr list \<Rightarrow> gc_node list"
    and kid :: "gc_node \<Rightarrow> gc_node list" and visit :: "gc_node set"
  assumes finite_univ: "inv st \<Longrightarrow> finite univ"
    and fin_univ: "inv st \<Longrightarrow> fin st \<subseteq> univ"
    and edg_Cons: "edg (p # ps) = edg [p] @ edg ps" and edg_Nil: "edg [] = []"
    and step_ok: "inv st \<Longrightarrow> pz \<in> ptrs \<Longrightarrow>
      \<exists>cs st'. step pz st = Some (cs, st') \<and> inv st' \<and> set cs \<subseteq> ptrs \<and> fin st \<subseteq> fin st' \<and>
        (cs \<noteq> [] \<longrightarrow> fin st \<noteq> fin st') \<and> set (edg [pz]) \<inter> visit \<subseteq> fin st' \<and>
        (\<forall>m \<in> fin st' - fin st. set (kid m) \<inter> visit \<subseteq> fin st' \<union> set (edg cs)) \<and>
        (fin st' - fin st) \<union> set (edg cs) \<subseteq> {(m, n). n \<in> set (kid m)}\<^sup>* `` set (edg [pz])"
begin

abbreviation reach :: "addr list \<Rightarrow> gc_node set" where
  "reach ps \<equiv> {(m, n). n \<in> set (kid m)}\<^sup>* `` set (edg ps)"

definition walked :: "addr list \<Rightarrow> zgc \<Rightarrow> zgc \<Rightarrow> bool" where
  "walked ps st st' \<longleftrightarrow> inv st' \<and> fin st \<subseteq> fin st' \<and> set (edg ps) \<inter> visit \<subseteq> fin st' \<and>
     (\<forall>m \<in> fin st' - fin st. set (kid m) \<inter> visit \<subseteq> fin st') \<and> fin st' - fin st \<subseteq> reach ps"

lemma walked_Nil: "inv st \<Longrightarrow> walked [] st st"
  by (simp add: walked_def edg_Nil)

lemma reach_Cons: "reach (p # ps) = reach [p] \<union> reach ps"
  by (subst edg_Cons) auto

lemma reach_trans: "set (edg cs) \<subseteq> reach ps \<Longrightarrow> reach cs \<subseteq> reach ps"
  by (auto intro: rtrancl_trans)

lemma walked_Cons:
  assumes "inv st" "pz \<in> ptrs" "step pz st = Some (cs, st1)" "walked cs st1 st2" "walked ps st2 st3"
  shows "walked (pz # ps) st st3"
proof -
  obtain s: "fin st \<subseteq> fin st1" "set (edg [pz]) \<inter> visit \<subseteq> fin st1"
      "\<forall>m \<in> fin st1 - fin st. set (kid m) \<inter> visit \<subseteq> fin st1 \<union> set (edg cs)"
      "fin st1 - fin st \<subseteq> reach [pz]" "set (edg cs) \<subseteq> reach [pz]"
    using step_ok [OF assms(1,2)] assms(3) by auto
  have c: "fin st1 \<subseteq> fin st2" "set (edg cs) \<inter> visit \<subseteq> fin st2" "fin st2 \<subseteq> fin st3"
      "set (edg ps) \<inter> visit \<subseteq> fin st3" "inv st3"
    using assms(4,5) by (simp_all add: walked_def)
  have "set (kid m) \<inter> visit \<subseteq> fin st3" if m: "m \<in> fin st3" "m \<notin> fin st" for m
  proof -
    consider "m \<in> fin st1" | "m \<in> fin st2" "m \<notin> fin st1" | "m \<notin> fin st2" by blast
    then show ?thesis
    proof cases
      case 1
      then show ?thesis using s(3) m(2) c by blast
    next
      case 2
      then show ?thesis using assms(4) c(3) unfolding walked_def by blast
    next
      case 3
      then show ?thesis using assms(5) m(1) unfolding walked_def by blast
    qed
  qed
  moreover have "fin st3 - fin st \<subseteq> reach (pz # ps)"
  proof -
    have "fin st2 - fin st1 \<subseteq> reach [pz]" using assms(4) reach_trans [OF s(5)] by (auto simp: walked_def)
    moreover have "fin st3 - fin st2 \<subseteq> reach ps" using assms(5) by (simp add: walked_def)
    ultimately show ?thesis using s(4) unfolding reach_Cons [of pz ps] by blast
  qed
  ultimately show ?thesis
    using s(1,2) c edg_Cons [of pz ps] unfolding walked_def by auto
qed

lemma walk_returns:
  assumes "inv st" "set ps \<subseteq> ptrs" "card (univ - fin st) \<le> k"
  shows "\<exists>st'. gc_walk step ps st = Some st' \<and> walked ps st st'"
  using assms
proof (induction k arbitrary: ps st rule: less_induct)
  case (less k)
  show ?case
    using less.prems
  proof (induction ps arbitrary: st)
    case Nil
    then show ?case by (subst gc_walk.simps) (simp add: walked_Nil)
  next
    case (Cons pz ps)
    obtain cs st1 where s: "step pz st = Some (cs, st1)" "inv st1" "set cs \<subseteq> ptrs" "fin st \<subseteq> fin st1" "cs \<noteq> [] \<longrightarrow> fin st \<noteq> fin st1"
      using step_ok [OF Cons.prems(1), of pz] Cons.prems(2) by auto
    have le: "card (univ - fin st') \<le> card (univ - fin st)" if "fin st \<subseteq> fin st'" for st'
      using that finite_univ [OF Cons.prems(1)] by (intro card_mono) auto
    obtain st2 where c: "gc_walk step cs st1 = Some st2" "walked cs st1 st2"
    proof (cases "cs = []")
      case True
      then show thesis using that [of st1] s(2) walked_Nil by (simp add: gc_walk.simps)
    next
      case False
      then have "fin st \<subset> fin st1" using s(4,5) by blast
      moreover have "fin st1 \<subseteq> univ" by (rule fin_univ [OF s(2)])
      ultimately have "card (univ - fin st1) < card (univ - fin st)"
        using finite_univ [OF Cons.prems(1)] by (intro psubset_card_mono) auto
      then have "card (univ - fin st1) < k" using Cons.prems(3) by simp
      from less.IH [OF this s(2,3) order_refl] show thesis using that by blast
    qed
    have st2: "inv st2" "fin st \<subseteq> fin st2" using c(2) s(4) by (auto simp: walked_def)
    have "set ps \<subseteq> ptrs" using Cons.prems(2) by simp
    then obtain st3 where "gc_walk step ps st2 = Some st3" "walked ps st2 st3"
      using Cons.IH [OF st2(1)] le [OF st2(2)] Cons.prems(3) by (meson order_trans)
    then show ?case
      using s(1) c walked_Cons [OF Cons.prems(1) _ s(1) c(2)] Cons.prems(2)
      by (subst gc_walk.simps) auto
  qed
qed

end

text \<open>\<open>edge_part\<close> is what a pointer contributes, \<open>node_part\<close> what a finished node contributes.\<close>

locale gc_counting = gc_walking +
  fixes edge_part :: "addr list \<Rightarrow> gc_node \<Rightarrow> uint" and node_part :: "gc_node \<Rightarrow> gc_node \<Rightarrow> uint"
    and counted :: "gc_node set"
  assumes part_Cons: "edge_part (p # ps) n = edge_part [p] n + edge_part ps n" and part_Nil: "edge_part [] n = 0"
    and count_ok: "inv st \<Longrightarrow> pz \<in> ptrs \<Longrightarrow> step pz st = Some (cs, st') \<Longrightarrow> n \<in> counted \<Longrightarrow>
      rc st' n + edge_part cs n = rc st n + edge_part [pz] n + (\<Sum>m \<in> fin st' - fin st. node_part m n)"
begin

lemma walk_counts:
  assumes "inv st" "set ps \<subseteq> ptrs" "card (univ - fin st) \<le> k" "gc_walk step ps st = Some st'" "n \<in> counted"
  shows "rc st' n = rc st n + edge_part ps n + (\<Sum>m \<in> fin st' - fin st. node_part m n)"
  using assms(1-4)
proof (induction k arbitrary: ps st st' rule: less_induct)
  case (less k)
  show ?case
    using less.prems
  proof (induction ps arbitrary: st)
    case Nil
    then show ?case by (simp add: gc_walk.simps part_Nil)
  next
    case (Cons pz ps)
    have ptr: "pz \<in> ptrs" "set ps \<subseteq> ptrs" using Cons.prems(2) by simp_all
    obtain cs st1 where s: "step pz st = Some (cs, st1)" "inv st1" "set cs \<subseteq> ptrs" "fin st \<subseteq> fin st1" "cs \<noteq> [] \<longrightarrow> fin st \<noteq> fin st1"
      using step_ok [OF Cons.prems(1) ptr(1)] by auto
    obtain st2 where c: "gc_walk step cs st1 = Some st2" "walked cs st1 st2"
      using walk_returns [OF s(2,3) order_refl] by blast
    have r: "gc_walk step ps st2 = Some st'"
      using Cons.prems(4) s(1) c(1) by (subst (asm) gc_walk.simps) auto
    have st2: "inv st2" "fin st1 \<subseteq> fin st2" using c(2) by (auto simp: walked_def)
    have w: "walked ps st2 st'" using walk_returns [OF st2(1) ptr(2) order_refl] r by auto
    have fin: "finite (fin st')" "fin st2 \<subseteq> fin st'" "finite (fin st2)"
      using w fin_univ [of st'] fin_univ [OF st2(1)] finite_univ [OF st2(1)]
      by (auto simp: walked_def intro: finite_subset)
    have le: "card (univ - fin st2) \<le> k"
      using Cons.prems(3) s(4) st2(2) finite_univ [OF Cons.prems(1)]
      by (intro order_trans [OF card_mono Cons.prems(3)]) auto
    have sub: "rc st2 n = rc st1 n + edge_part cs n + (\<Sum>m \<in> fin st2 - fin st1. node_part m n)"
    proof (cases "cs = []")
      case True
      then show ?thesis using c(1) by (simp add: gc_walk.simps part_Nil)
    next
      case False
      then have "fin st \<subset> fin st1" using s(4,5) by blast
      moreover have "fin st1 \<subseteq> univ" by (rule fin_univ [OF s(2)])
      ultimately have "card (univ - fin st1) < card (univ - fin st)"
        using finite_univ [OF Cons.prems(1)] by (intro psubset_card_mono) auto
      then have "card (univ - fin st1) < k" using Cons.prems(3) by simp
      from less.IH [OF this s(2,3) order_refl c(1)] show ?thesis .
    qed
    have sum: "(\<Sum>m \<in> fin st' - fin st. node_part m n) = (\<Sum>m \<in> fin st1 - fin st. node_part m n) +
        (\<Sum>m \<in> fin st2 - fin st1. node_part m n) + (\<Sum>m \<in> fin st' - fin st2. node_part m n)"
    proof -
      have "fin st' - fin st = ((fin st1 - fin st) \<union> (fin st2 - fin st1)) \<union> (fin st' - fin st2)"
        using s(4) st2(2) fin(2) by blast
      moreover have "finite (fin st1)" using fin(3) st2(2) by (rule finite_subset [rotated])
      ultimately show ?thesis
        using fin s(4) st2(2) by (simp only:) (subst sum.union_disjoint; (subst sum.union_disjoint)?; auto)
    qed
    show ?case
      using Cons.IH [OF st2(1) ptr(2) le r] sub count_ok [OF Cons.prems(1) ptr(1) s(1) assms(5)]
      unfolding sum part_Cons [of pz ps] by (simp add: algebra_simps)
  qed
qed

end

end
