(* ===== verification/Gc_Colour.thy ===== *)
theory Gc_Colour
  imports Gc_Walk
begin

text \<open>
  What the mark phase and the repainting of live nodes have in common: both walk over everything
  reachable, give each node they reach a colour \<open>c\<close> and change the reference count behind each
  edge by \<open>s\<close>, which is \<open>- 1\<close> for marking grey and \<open>1\<close> for scanning black. The balance of the
  reference counts of one step is proved here once for both.
\<close>

subsection \<open>The primitive operations\<close>

abbreviation set_col :: "gc_node \<Rightarrow> gc_color \<Rightarrow> zgc \<Rightarrow> zgc" where
  "set_col n c \<equiv> nmap n (\<lambda>x. x) (\<lambda>r. r\<lparr>gc_color := c\<rparr>)"

abbreviation add_rc :: "gc_node \<Rightarrow> uint \<Rightarrow> zgc \<Rightarrow> zgc" where
  "add_rc n i \<equiv> nmap n (\<lambda>x. x + i) (\<lambda>r. r)"

abbreviation set_addr :: "gc_node \<Rightarrow> gc_addr \<Rightarrow> zgc \<Rightarrow> zgc" where
  "set_addr n p \<equiv> nmap n (\<lambda>x. x) (\<lambda>r. r\<lparr>gc_addr := p\<rparr>)"

lemma zv_prims [gc_prims]:
  assumes "has st (ZV a)"
  shows "GC_ZVAL_SET_COLOR a c st = Some (set_col (ZV a) c st)"
    "GC_ZVAL_SET_ADDRESS a p st = Some (set_addr (ZV a) p st)"
    "zv_addref a st = Some (add_rc (ZV a) 1 st)" "zv_delref a st = Some (add_rc (ZV a) (- 1) st)"
    "GC_ZVAL_GET_COLOR st a = Some (col st (ZV a))"
  using assms
  by (auto simp: GC_ZVAL_SET_COLOR_def GC_ZVAL_SET_ADDRESS_def zv_addref_def zv_delref_def zv_upd_def poke_def
      GC_ZVAL_GET_COLOR_def nmap.simps node_simps)

lemma os_prims [gc_prims]:
  assumes "has st (OB h)"
  shows "GC_OBJ_SET_COLOR h c st = Some (set_col (OB h) c st)"
    "GC_OBJ_SET_ADDRESS h p st = Some (set_addr (OB h) p st)"
    "os_addref h st = Some (add_rc (OB h) 1 st)" "os_delref h st = Some (add_rc (OB h) (- 1) st)"
    "GC_OBJ_GET_COLOR st h = Some (col st (OB h))"
proof -
  have h: "os_get st h \<noteq> None" using assms by (simp add: node_simps)
  obtain bs b where "object_buckets st = Some bs" "os_get st h = Some b" by (rule has_OB_D [OF h])
  then show "GC_OBJ_SET_COLOR h c st = Some (set_col (OB h) c st)"
    "GC_OBJ_SET_ADDRESS h p st = Some (set_addr (OB h) p st)"
    "os_addref h st = Some (add_rc (OB h) 1 st)" "os_delref h st = Some (add_rc (OB h) (- 1) st)"
    "GC_OBJ_GET_COLOR st h = Some (col st (OB h))"
    by (auto simp: GC_OBJ_SET_COLOR_def GC_OBJ_SET_ADDRESS_def os_addref_def os_delref_def os_upd_def
        GC_OBJ_GET_COLOR_def nmap.simps node_simps)
qed

text \<open>What a state knows of the element lists.\<close>

lemma heap_array:
  assumes "heap_ok hs st" "a \<in> dom (zvals st)" "z_value (the (zvals st a)) = IS_ARRAY ht" "ht \<noteq> symbol_table st"
  shows "tables st ht \<noteq> None" "set (the (tables st ht)) \<subseteq> dom (zvals st)"
proof -
  obtain ps where "tables st ht = Some ps" "set ps \<subseteq> dom (zvals st)" using assms unfolding heap_ok_def by blast
  then show "tables st ht \<noteq> None" "set (the (tables st ht)) \<subseteq> dom (zvals st)" by simp_all
qed

lemma heap_object:
  assumes "heap_ok hs st" "a \<in> dom (zvals st)" "z_value (the (zvals st a)) = IS_OBJECT h hs'" "object_buckets st \<noteq> None"
  shows "hs' = hs h" "has st (OB h)"
  using assms unfolding heap_ok_def has.simps by blast+

lemma heap_props:
  assumes "heap_ok hs st" "has st (OB h)"
  shows "gc_object_props h (hs h) st = Some (the (gc_object_props h (hs h) st))"
    "set (the (gc_object_props h (hs h) st)) \<subseteq> dom (zvals st)"
proof -
  obtain ps where "gc_object_props h (hs h) st = Some ps" "set ps \<subseteq> dom (zvals st)"
    using assms unfolding heap_ok_def has.simps by blast
  then show "gc_object_props h (hs h) st = Some (the (gc_object_props h (hs h) st))"
    "set (the (gc_object_props h (hs h) st)) \<subseteq> dom (zvals st)" by simp_all
qed

lemma read_zval:
  assumes "same_graph st0 st" "a \<in> dom (zvals st0)"
  obtains z where "zvals st a = Some z" "z_value z = z_value (the (zvals st0 a))" "is_symbol_table st z = symtab st0 a"
proof -
  have "a \<in> dom (zvals st)" using same_graph_zval(1) [OF assms(1)] assms(2) by simp
  then obtain z where z: "zvals st a = Some z" by blast
  then show thesis
    using that [OF z] same_graph_zval(2,3) [OF assms(1), of a] assms(2) by (simp add: symtab_def)
qed

text \<open>What the mark and scan phases leave alone.\<close>

definition gc_frame :: "zgc \<Rightarrow> zgc \<Rightarrow> bool" where
  "gc_frame st st' \<longleftrightarrow> same_graph st st' \<and> gc_roots st' = gc_roots st \<and> gc_buf st' = gc_buf st \<and>
     gc_unused st' = gc_unused st \<and> zval_to_free st' = zval_to_free st \<and>
     (\<forall>n. gc_addr (ref st' n) = gc_addr (ref st n))"

lemma gc_frame_refl [simp]: "gc_frame st st"
  by (simp add: gc_frame_def)

lemma gc_frame_trans: "gc_frame st st' \<Longrightarrow> gc_frame st' st'' \<Longrightarrow> gc_frame st st''"
  using same_graph_trans by (auto simp: gc_frame_def)

lemma gc_frame_col: "has st n \<Longrightarrow> gc_frame st (set_col n c st)"
  by (simp add: gc_frame_def)

lemma gc_frame_rc: "has st n \<Longrightarrow> gc_frame st (nmap n f (\<lambda>r. r) st)"
  by (simp add: gc_frame_def)

lemma gc_frame_graph: "gc_frame st st' \<Longrightarrow> same_graph st st'"
  by (simp add: gc_frame_def)

subsection \<open>Nodes, edges and counts\<close>

definition cnt :: "gc_node list \<Rightarrow> gc_node \<Rightarrow> uint" where
  "cnt ns n = of_nat (count_list ns n)"

lemma cnt_simps [simp]: "cnt [] n = 0" "cnt (m # ns) n = of_bool (m = n) + cnt ns n" "cnt (ms @ ns) n = cnt ms n + cnt ns n"
  by (auto simp: cnt_def)

lemma nodes_has: "n \<in> nodes st \<Longrightarrow> has st n"
  by (auto simp: nodes_def node_simps)

lemma finite_nodes: "heap_ok hs st \<Longrightarrow> finite (nodes st)"
  by (auto simp: nodes_def heap_ok_def)

lemma edges_Cons: "edges st (p # ps) = edges st [p] @ edges st ps" and edges_Nil [simp]: "edges st [] = []"
  by (simp_all add: edges_def)

lemma edges_nodes: "set ps \<subseteq> dom (zvals st) \<Longrightarrow> set (edges st ps) \<subseteq> nodes st"
  by (auto simp: edges_def nodes_def symtab_def)

lemma edges_single: "edges st [a] = (if symtab st a then [] else [ZV a])"
  by (simp add: edges_def symtab_def)

lemma nodes_ZV: "ZV a \<in> nodes st \<longleftrightarrow> a \<in> dom (zvals st) \<and> \<not> symtab st a"
  and nodes_OB: "OB h \<in> nodes st \<longleftrightarrow> has st (OB h)"
  by (auto simp: nodes_def node_simps)

definition graph :: "(handle \<Rightarrow> addr) \<Rightarrow> zgc \<Rightarrow> gc_node rel" where
  "graph hs st = {(m, n). n \<in> set (kids hs st m)}"

lemma kids_ZV:
  "kids hs st (ZV a) = (case z_value (the (zvals st a)) of
     IS_ARRAY ht \<Rightarrow> if ht = symbol_table st then [] else edges st (the (tables st ht))
   | IS_OBJECT h _ \<Rightarrow> if object_buckets st = None then [] else [OB h] | _ \<Rightarrow> [])"
  and kids_OB: "kids hs st (OB h) = edges st (the (gc_object_props h (hs h) st))"
  by (simp_all add: kids.simps)

lemma kids_nodes:
  assumes "heap_ok hs st" "m \<in> nodes st"
  shows "set (kids hs st m) \<subseteq> nodes st"
proof (cases m)
  case (OB h)
  then show ?thesis using assms heap_props(2) [OF assms(1), of h] by (simp add: kids_OB nodes_OB edges_nodes)
next
  case (ZV a)
  then have a: "a \<in> dom (zvals st)" using assms(2) by (simp add: nodes_ZV)
  show ?thesis
  proof (cases "z_value (the (zvals st a))")
    case (IS_ARRAY ht)
    then show ?thesis using heap_array(2) [OF assms(1) a IS_ARRAY] by (simp add: ZV kids_ZV edges_nodes)
  next
    case (IS_OBJECT h hs')
    then show ?thesis using heap_object(2) [OF assms(1) a IS_OBJECT] by (simp add: ZV kids_ZV nodes_OB)
  qed (simp_all add: ZV kids_ZV)
qed

lemma symtab_value: "symtab st a \<longleftrightarrow> z_value (the (zvals st a)) = IS_ARRAY (symbol_table st)"
  by (simp add: symtab_def is_symbol_table_def)

subsection \<open>One step\<close>

definition entered :: "gc_color \<Rightarrow> uint \<Rightarrow> zgc \<Rightarrow> addr \<Rightarrow> zgc \<Rightarrow> addr list \<times> zgc" where
  "entered c s st0 pz st =
     (if col st (ZV pz) = c then ([], st)
      else let st1 = set_col (ZV pz) c st in
        case z_value (the (zvals st0 pz)) of
          IS_OBJECT h hs \<Rightarrow>
            if object_buckets st0 = None then ([], st1)
            else let st2 = add_rc (OB h) s st1 in
              if col st (OB h) = c then ([], st2)
              else (the (gc_object_props h hs st0), set_col (OB h) c st2)
        | IS_ARRAY ht \<Rightarrow>
            if ht = symbol_table st0 then ([], set_col (ZV pz) GC_BLACK st1) else (the (tables st0 ht), st1)
        | _ \<Rightarrow> ([], st1))"

definition colour_step :: "gc_color \<Rightarrow> uint \<Rightarrow> zgc \<Rightarrow> addr \<Rightarrow> zgc \<Rightarrow> addr list \<times> zgc" where
  "colour_step c s st0 pz st = entered c s st0 pz (if symtab st0 pz then st else add_rc (ZV pz) s st)"

text \<open>The region \<open>G\<close> that a walk cannot leave, and the pointers it may meet.\<close>

definition region :: "(handle \<Rightarrow> addr) \<Rightarrow> zgc \<Rightarrow> gc_node set \<Rightarrow> bool" where
  "region hs st G \<longleftrightarrow> G \<subseteq> nodes st \<and> (\<forall>m \<in> G. set (kids hs st m) \<subseteq> G)"

definition ptrs :: "zgc \<Rightarrow> gc_node set \<Rightarrow> addr set" where
  "ptrs st G = {a \<in> dom (zvals st). symtab st a \<or> ZV a \<in> G}"

definition painted :: "gc_color \<Rightarrow> gc_node set \<Rightarrow> zgc \<Rightarrow> gc_node set" where
  "painted c G st = {n \<in> G. col st n = c}"

lemma region_nodes: "heap_ok hs st \<Longrightarrow> region hs st (nodes st)"
  by (simp add: region_def kids_nodes)

lemma ptrs_nodes: "ptrs st (nodes st) = dom (zvals st)"
  by (auto simp: ptrs_def nodes_ZV)

lemma ptrs_edges: "set ps \<subseteq> dom (zvals st) \<Longrightarrow> set ps \<subseteq> ptrs st G \<longleftrightarrow> set (edges st ps) \<subseteq> G"
  by (auto simp: ptrs_def edges_def symtab_def)

lemma ptrs_dom: "pz \<in> ptrs st G \<Longrightarrow> pz \<in> dom (zvals st)"
  by (simp add: ptrs_def)

text \<open>What entering a node does: \<open>new\<close> are the nodes it colours, \<open>cs\<close> the elements left to walk over,
  \<open>ns\<close> where the walk came from.\<close>

definition colour_effect :: "gc_color \<Rightarrow> uint \<Rightarrow> (handle \<Rightarrow> addr) \<Rightarrow> zgc \<Rightarrow> gc_node set \<Rightarrow> gc_node set \<Rightarrow> zgc \<Rightarrow> addr list \<Rightarrow> zgc \<Rightarrow>
    gc_node set \<Rightarrow> bool" where
  "colour_effect c s hs st0 G ns st cs st' new \<longleftrightarrow>
     gc_frame st st' \<and> set cs \<subseteq> ptrs st0 G \<and> (cs \<noteq> [] \<longrightarrow> new \<noteq> {}) \<and> new \<subseteq> G \<and>
     (\<forall>n \<in> new. col st n \<noteq> c) \<and> (\<forall>n \<in> nodes st0. col st' n = (if n \<in> new then c else col st n)) \<and>
     (\<forall>a. symtab st0 a \<longrightarrow> col st' (ZV a) \<in> {GC_BLACK, col st (ZV a)}) \<and>
     (\<forall>n \<in> nodes st0. rc st' n = rc st n + s * (\<Sum>m \<in> new. cnt (kids hs st0 m) n) - s * cnt (edges st0 cs) n) \<and>
     (\<forall>n \<in> ns. col st' n = c) \<and>
     (\<forall>m \<in> new. set (kids hs st0 m) \<subseteq> {n. col st' n = c} \<union> set (edges st0 cs)) \<and>
     new \<union> set (edges st0 cs) \<subseteq> (graph hs st0)\<^sup>* `` ns"

lemma colour_effectI:
  assumes "gc_frame st st'" "set cs \<subseteq> ptrs st0 G" "cs \<noteq> [] \<longrightarrow> new \<noteq> {}" "new \<subseteq> G"
    "\<forall>n \<in> new. col st n \<noteq> c" "\<forall>n \<in> nodes st0. col st' n = (if n \<in> new then c else col st n)"
    "\<forall>a. symtab st0 a \<longrightarrow> col st' (ZV a) \<in> {GC_BLACK, col st (ZV a)}"
    "\<forall>n \<in> nodes st0. rc st' n = rc st n + s * (\<Sum>m \<in> new. cnt (kids hs st0 m) n) - s * cnt (edges st0 cs) n"
    "\<forall>n \<in> ns. col st' n = c"
    "\<forall>m \<in> new. set (kids hs st0 m) \<subseteq> {n. col st' n = c} \<union> set (edges st0 cs)"
    "new \<union> set (edges st0 cs) \<subseteq> (graph hs st0)\<^sup>* `` ns"
  shows "colour_effect c s hs st0 G ns st cs st' new"
  using assms by (simp add: colour_effect_def)

lemma region_kids: "region hs st G \<Longrightarrow> m \<in> G \<Longrightarrow> n \<in> set (kids hs st m) \<Longrightarrow> n \<in> G"
  by (auto simp: region_def)

lemma region_has: "region hs st0 G \<Longrightarrow> same_graph st0 st \<Longrightarrow> n \<in> G \<Longrightarrow> has st n"
  using nodes_has same_graph_has unfolding region_def by blast

text \<open>The three ways to enter a node that has another colour: its elements are known from the
  zval; it has an object that has the colour already; it has an object that gets the colour, too.\<close>

lemma paint_one:
  assumes "region hs st0 G" "same_graph st0 st" "n \<in> G" "set cs \<subseteq> dom (zvals st0)" "kids hs st0 n = edges st0 cs" "col st n \<noteq> c"
  shows "colour_effect c s hs st0 G {n} st cs (set_col n c st) {n}"
proof (rule colour_effectI)
  have h: "has st n" by (rule region_has [OF assms(1-3)])
  show "gc_frame st (set_col n c st)" by (rule gc_frame_col [OF h])
  show "set cs \<subseteq> ptrs st0 G"
    using region_kids [OF assms(1,3)] assms(5) unfolding ptrs_edges [OF assms(4)] by auto
  show "{n} \<union> set (edges st0 cs) \<subseteq> (graph hs st0)\<^sup>* `` {n}" using assms(5) by (auto simp: graph_def)
  show "\<forall>a. symtab st0 a \<longrightarrow> col (set_col n c st) (ZV a) \<in> {GC_BLACK, col st (ZV a)}"
    using assms(1,3) h by (auto simp: region_def nodes_ZV)
qed (use assms region_has [OF assms(1-3)] in auto)

lemma paint_object_known:
  assumes "region hs st0 G" "same_graph st0 st" "ZV a \<in> G" "kids hs st0 (ZV a) = [OB h]" "col st (ZV a) \<noteq> c" "col st (OB h) = c"
  shows "colour_effect c s hs st0 G {ZV a} st [] (add_rc (OB h) s (set_col (ZV a) c st)) {ZV a}"
proof (rule colour_effectI)
  have h: "has st (ZV a)" "has st (OB h)"
    using region_has [OF assms(1,2)] region_kids [OF assms(1,3), of "OB h"] assms(3,4) by auto
  then show "gc_frame st (add_rc (OB h) s (set_col (ZV a) c st))"
    by (intro gc_frame_trans [OF gc_frame_col gc_frame_rc]) auto
  show "\<forall>x. symtab st0 x \<longrightarrow> col (add_rc (OB h) s (set_col (ZV a) c st)) (ZV x) \<in> {GC_BLACK, col st (ZV x)}"
    using assms(1,3) h by (auto simp: region_def nodes_ZV)
qed (use assms region_has [OF assms(1,2)] region_kids [OF assms(1,3), of "OB h"] in auto)

lemma paint_object:
  assumes "region hs st0 G" "same_graph st0 st" "ZV a \<in> G" "kids hs st0 (ZV a) = [OB h]" "col st (ZV a) \<noteq> c" "col st (OB h) \<noteq> c"
    "set cs \<subseteq> dom (zvals st0)" "kids hs st0 (OB h) = edges st0 cs"
  shows "colour_effect c s hs st0 G {ZV a} st cs (set_col (OB h) c (add_rc (OB h) s (set_col (ZV a) c st))) {ZV a, OB h}"
proof (rule colour_effectI)
  have g: "OB h \<in> G" using region_kids [OF assms(1,3), of "OB h"] assms(4) by simp
  have h: "has st (ZV a)" "has st (OB h)" using region_has [OF assms(1,2)] assms(3) g by auto
  then show "gc_frame st (set_col (OB h) c (add_rc (OB h) s (set_col (ZV a) c st)))"
    by (intro gc_frame_trans [OF gc_frame_trans [OF gc_frame_col gc_frame_rc] gc_frame_col]) auto
  show "set cs \<subseteq> ptrs st0 G" using region_kids [OF assms(1) g] assms(8) unfolding ptrs_edges [OF assms(7)] by auto
  show "\<forall>x. symtab st0 x \<longrightarrow> col (set_col (OB h) c (add_rc (OB h) s (set_col (ZV a) c st))) (ZV x) \<in> {GC_BLACK, col st (ZV x)}"
    using assms(1,3) h by (auto simp: region_def nodes_ZV)
  show "\<forall>n \<in> nodes st0. rc (set_col (OB h) c (add_rc (OB h) s (set_col (ZV a) c st))) n =
      rc st n + s * (\<Sum>m \<in> {ZV a, OB h}. cnt (kids hs st0 m) n) - s * cnt (edges st0 cs) n"
    using h assms(4,8) by (auto simp: algebra_simps)
  have e: "(ZV a, OB h) \<in> graph hs st0" "n \<in> set (edges st0 cs) \<Longrightarrow> (OB h, n) \<in> graph hs st0" for n
    using assms(4,8) by (simp_all add: graph_def)
  then show "{ZV a, OB h} \<union> set (edges st0 cs) \<subseteq> (graph hs st0)\<^sup>* `` {ZV a}"
    by (auto intro: converse_rtrancl_into_rtrancl)
  show "{ZV a, OB h} \<subseteq> G" using g assms(3) by simp
qed (use assms region_has [OF assms(1,2)] region_kids [OF assms(1,3), of "OB h"] in auto)

lemma entered_effect_symtab:
  assumes "has st (ZV pz)" "symtab st0 pz" "entered c s st0 pz st = (cs, st')"
  shows "colour_effect c s hs st0 G {} st cs st' {}"
proof (rule colour_effectI)
  have "gc_frame st (set_col (ZV pz) GC_BLACK (set_col (ZV pz) c st))"
    by (rule gc_frame_trans [OF gc_frame_col gc_frame_col]) (use assms(1) in auto)
  then have f: "cs = []" "gc_frame st st'" "rc st' n = rc st n" "n \<noteq> ZV pz \<Longrightarrow> col st' n = col st n"
    "col st' (ZV pz) \<in> {GC_BLACK, col st (ZV pz)}" for n
    using assms by (auto simp: entered_def symtab_value Let_def split: if_splits)
  then show "gc_frame st st'" "set cs \<subseteq> ptrs st0 G" by simp_all
  have n: "n \<noteq> ZV pz" if "n \<in> nodes st0" for n using that assms(2) by (auto simp: nodes_ZV)
  show "\<forall>n \<in> nodes st0. col st' n = (if n \<in> {} then c else col st n)" using f(4) n by simp
  have "col st' n \<in> {GC_BLACK, col st n}" for n using f(4,5) by (cases "n = ZV pz") auto
  then show "\<forall>a. symtab st0 a \<longrightarrow> col st' (ZV a) \<in> {GC_BLACK, col st (ZV a)}" by blast
  show "\<forall>n \<in> nodes st0. rc st' n = rc st n + s * (\<Sum>m \<in> {}. cnt (kids hs st0 m) n) - s * cnt (edges st0 cs) n"
    using f(1,3) by simp
  show "cs \<noteq> [] \<longrightarrow> {} \<noteq> {}" "{} \<union> set (edges st0 cs) \<subseteq> (graph hs st0)\<^sup>* `` {}" using f(1) by simp_all
qed simp_all

lemma entered_effect:
  assumes heap: "heap_ok hs st0" and g: "same_graph st0 st" and G: "region hs st0 G" and pz': "pz \<in> ptrs st0 G"
    and e: "entered c s st0 pz st = (cs, st')"
  shows "\<exists>new. colour_effect c s hs st0 G (set (edges st0 [pz])) st cs st' new"
proof -
  have pz: "pz \<in> dom (zvals st0)" using pz' by (rule ptrs_dom)
  then have z: "has st (ZV pz)" using g same_graph_has [of st0 st "ZV pz"] by (simp add: node_simps)
  consider (sym) "symtab st0 pz" | (known) "\<not> symtab st0 pz" "col st (ZV pz) = c"
    | (new) "\<not> symtab st0 pz" "col st (ZV pz) \<noteq> c" by blast
  then show ?thesis
  proof cases
    case sym
    then show ?thesis using entered_effect_symtab [OF z _ e] by (simp add: edges_single) blast
  next
    case known
    then show ?thesis using e by (intro exI [of _ "{}"] colour_effectI) (auto simp: entered_def edges_single)
  next
    case new
    then have node: "ZV pz \<in> G" using pz' by (simp add: ptrs_def)
    note one = paint_one [OF G g node _ _ new(2)]
    have "\<exists>new. colour_effect c s hs st0 G {ZV pz} st cs st' new"
    proof (cases "z_value (the (zvals st0 pz))")
      case (IS_ARRAY ht)
      then have ht: "ht \<noteq> symbol_table st0" using new by (simp add: symtab_value)
      then have s: "cs = the (tables st0 ht)" "st' = set_col (ZV pz) c st" "kids hs st0 (ZV pz) = edges st0 cs"
        using e new IS_ARRAY by (auto simp: entered_def kids_ZV)
      then show ?thesis using one [of cs s] heap_array(2) [OF heap pz IS_ARRAY ht] by auto
    next
      case (IS_OBJECT h hs')
      show ?thesis
      proof (cases "object_buckets st0 = None")
        case True
        then have "cs = []" "st' = set_col (ZV pz) c st" "kids hs st0 (ZV pz) = []"
          using e new IS_OBJECT by (auto simp: entered_def kids_ZV)
        then show ?thesis using one [of "[]" s] by auto
      next
        case False
        note ob = heap_object [OF heap pz IS_OBJECT False]
        have k: "kids hs st0 (ZV pz) = [OB h]" using IS_OBJECT False by (simp add: kids_ZV)
        have k2: "kids hs st0 (OB h) = edges st0 (the (gc_object_props h (hs h) st0))" by (simp add: kids_OB)
        show ?thesis
        proof (cases "col st (OB h) = c")
          case True
          then have "cs = []" "st' = add_rc (OB h) s (set_col (ZV pz) c st)"
            using e new IS_OBJECT False by (auto simp: entered_def)
          then show ?thesis using paint_object_known [OF G g node k new(2) True] by auto
        next
          case ob_new: False
          then have "cs = the (gc_object_props h (hs h) st0)" "st' = set_col (OB h) c (add_rc (OB h) s (set_col (ZV pz) c st))"
            using e new IS_OBJECT False ob(1) by (auto simp: entered_def)
          then show ?thesis using paint_object [OF G g node k new(2) ob_new heap_props(2) [OF heap ob(2)] k2] by auto
        qed
      qed
    next
      case IS_NULL
      then show ?thesis using e new one [of "[]" s] by (auto simp: entered_def kids_ZV)
    next
      case IS_SCALAR
      then show ?thesis using e new one [of "[]" s] by (auto simp: entered_def kids_ZV)
    qed
    then show ?thesis using new by (simp add: edges_single)
  qed
qed

subsection \<open>The walk\<close>

text \<open>\<open>st0\<close> is a state with the graph, \<open>b\<close> the state the walk began in, \<open>st\<close> a state of the walk.\<close>

definition paint_inv :: "gc_color \<Rightarrow> (handle \<Rightarrow> addr) \<Rightarrow> zgc \<Rightarrow> gc_node set \<Rightarrow> zgc \<Rightarrow> zgc \<Rightarrow> bool" where
  "paint_inv c hs st0 G b st \<longleftrightarrow> heap_ok hs st0 \<and> region hs st0 G \<and> same_graph st0 b \<and> gc_frame b st \<and>
     (\<forall>n \<in> nodes st0. n \<in> G \<and> col st n = c \<or> col st n = col b n) \<and>
     (\<forall>a. symtab st0 a \<longrightarrow> col st (ZV a) \<in> {GC_BLACK, col b (ZV a)})"

lemma paint_invD:
  assumes "paint_inv c hs st0 G b st"
  shows "heap_ok hs st0" "region hs st0 G" "same_graph st0 b" "gc_frame b st" "same_graph st0 st"
  using assms same_graph_trans by (auto simp: paint_inv_def gc_frame_def)

lemma paint_inv_refl: "heap_ok hs st0 \<Longrightarrow> region hs st0 G \<Longrightarrow> same_graph st0 b \<Longrightarrow> paint_inv c hs st0 G b b"
  by (simp add: paint_inv_def)

text \<open>A colouring keeps the invariant.\<close>

lemma paint_inv_effect:
  assumes inv: "paint_inv c hs st0 G b st" and n: "colour_effect c s hs st0 G ns st cs st' new"
  shows "paint_inv c hs st0 G b st'"
  unfolding paint_inv_def
proof (intro conjI allI ballI impI)
  note nd = n [unfolded colour_effect_def]
  show "heap_ok hs st0" "region hs st0 G" "same_graph st0 b" by (rule paint_invD [OF inv])+
  show "gc_frame b st'" using gc_frame_trans [OF paint_invD(4) [OF inv]] nd by blast
  show "x \<in> G \<and> col st' x = c \<or> col st' x = col b x" if "x \<in> nodes st0" for x
    using inv nd that by (auto simp: paint_inv_def)
  show "col st' (ZV a) \<in> {GC_BLACK, col b (ZV a)}" if "symtab st0 a" for a
  proof -
    have "col st' (ZV a) \<in> {GC_BLACK, col st (ZV a)}" using nd that by metis
    moreover have "col st (ZV a) \<in> {GC_BLACK, col b (ZV a)}" using inv that by (simp add: paint_inv_def)
    ultimately show ?thesis by auto
  qed
qed

lemma painted_effect:
  assumes "colour_effect c s hs st0 G ns st cs st' new" "G \<subseteq> nodes st0"
  shows "painted c G st' - painted c G st = new" "painted c G st \<subseteq> painted c G st'"
  using assms by (auto simp: colour_effect_def painted_def)

lemma colour_step_effect:
  assumes inv: "paint_inv c hs st0 G b st" and pz: "pz \<in> ptrs st0 G" and e: "colour_step c s st0 pz st = (cs, st')"
  obtains new st1 where "colour_effect c s hs st0 G (set (edges st0 [pz])) st1 cs st' new"
    "gc_frame st st1" "\<And>n. col st1 n = col st n" "\<And>n. rc st1 n = rc st n + s * cnt (edges st0 [pz]) n"
proof -
  note d = paint_invD [OF inv]
  have h: "has st (ZV pz)" using ptrs_dom [OF pz] same_graph_has [OF d(5), of "ZV pz"] by (simp add: node_simps)
  define st1 where "st1 = (if symtab st0 pz then st else add_rc (ZV pz) s st)"
  have f: "gc_frame st st1" using h by (simp add: st1_def gc_frame_rc)
  then have "same_graph st0 st1" using d(5) same_graph_trans by (auto simp: gc_frame_def)
  moreover have "entered c s st0 pz st1 = (cs, st')" using e by (simp add: colour_step_def st1_def)
  ultimately obtain new where "colour_effect c s hs st0 G (set (edges st0 [pz])) st1 cs st' new"
    using entered_effect [OF d(1) _ d(2) pz] by blast
  then show thesis using that f h by (auto simp: st1_def edges_single)
qed

lemma paint_inv_same_col:
  assumes "paint_inv c hs st0 G b st" "gc_frame st st1" "\<And>n. col st1 n = col st n"
  shows "paint_inv c hs st0 G b st1" "painted c G st1 = painted c G st"
  using assms gc_frame_trans by (auto simp: paint_inv_def painted_def)

lemma colour_step_spec:
  assumes inv: "paint_inv c hs st0 G b st" and pz: "pz \<in> ptrs st0 G" and e: "colour_step c s st0 pz st = (cs, st')"
  shows "paint_inv c hs st0 G b st'" "set cs \<subseteq> ptrs st0 G" "painted c G st \<subseteq> painted c G st'"
    "cs \<noteq> [] \<longrightarrow> painted c G st \<noteq> painted c G st'" "set (edges st0 [pz]) \<inter> UNIV \<subseteq> painted c G st'"
    "\<forall>m \<in> painted c G st' - painted c G st. set (kids hs st0 m) \<inter> UNIV \<subseteq> painted c G st' \<union> set (edges st0 cs)"
    "(painted c G st' - painted c G st) \<union> set (edges st0 cs) \<subseteq> {(m, n). n \<in> set (kids hs st0 m)}\<^sup>* `` set (edges st0 [pz])"
    "n \<in> nodes st0 \<Longrightarrow> rc st' n + s * cnt (edges st0 cs) n =
       rc st n + s * cnt (edges st0 [pz]) n + (\<Sum>m \<in> painted c G st' - painted c G st. s * cnt (kids hs st0 m) n)"
proof -
  obtain new st1 where n: "colour_effect c s hs st0 G (set (edges st0 [pz])) st1 cs st' new"
    and f: "gc_frame st st1" and c1: "\<And>n. col st1 n = col st n" and r1: "\<And>n. rc st1 n = rc st n + s * cnt (edges st0 [pz]) n"
    by (rule colour_step_effect [OF inv pz e]) blast
  note i1 = paint_inv_same_col [OF inv f c1]
  note nd = n [unfolded colour_effect_def]
  have G: "region hs st0 G" "G \<subseteq> nodes st0" using paint_invD(2) [OF inv] by (simp_all add: region_def)
  note new = painted_effect [OF n G(2), unfolded i1(2)]
  show "paint_inv c hs st0 G b st'" by (rule paint_inv_effect [OF i1(1) n])
  show "set cs \<subseteq> ptrs st0 G" using nd by blast
  show "painted c G st \<subseteq> painted c G st'" by (rule new(2))
  show "cs \<noteq> [] \<longrightarrow> painted c G st \<noteq> painted c G st'" using nd new by blast
  show "set (edges st0 [pz]) \<inter> UNIV \<subseteq> painted c G st'"
  proof -
    have "\<forall>n \<in> set (edges st0 [pz]). col st' n = c" using nd by blast
    moreover have "set (edges st0 [pz]) \<subseteq> G" using pz by (auto simp: ptrs_def edges_single)
    ultimately show ?thesis by (auto simp: painted_def)
  qed
  have k: "set (kids hs st0 m) \<subseteq> {n. col st' n = c} \<union> set (edges st0 cs)" "set (kids hs st0 m) \<subseteq> G" if "m \<in> new" for m
    using nd that region_kids [OF G(1), of m] by blast+
  show "\<forall>m \<in> painted c G st' - painted c G st. set (kids hs st0 m) \<inter> UNIV \<subseteq> painted c G st' \<union> set (edges st0 cs)"
    unfolding new(1) using k by (fastforce simp: painted_def)
  show "(painted c G st' - painted c G st) \<union> set (edges st0 cs) \<subseteq> {(m, n). n \<in> set (kids hs st0 m)}\<^sup>* `` set (edges st0 [pz])"
    unfolding new(1) graph_def [symmetric] using nd by blast
  show "rc st' n + s * cnt (edges st0 cs) n =
      rc st n + s * cnt (edges st0 [pz]) n + (\<Sum>m \<in> painted c G st' - painted c G st. s * cnt (kids hs st0 m) n)"
    if "n \<in> nodes st0"
  proof -
    have "rc st' n = rc st1 n + s * (\<Sum>m \<in> new. cnt (kids hs st0 m) n) - s * cnt (edges st0 cs) n" using nd that by blast
    then show ?thesis unfolding new(1) by (simp add: r1 sum_distrib_left)
  qed
qed

lemma finite_region: "heap_ok hs st \<Longrightarrow> region hs st G \<Longrightarrow> finite G"
  using finite_nodes finite_subset unfolding region_def by blast

lemma colour_counting:
  assumes step: "\<And>st pz. paint_inv c hs st0 G b st \<Longrightarrow> pz \<in> ptrs st0 G \<Longrightarrow> step pz st = Some (colour_step c s st0 pz st)"
  shows "gc_counting step (paint_inv c hs st0 G b) (painted c G) G (ptrs st0 G) (edges st0) (kids hs st0) UNIV
    (\<lambda>ps n. s * cnt (edges st0 ps) n) (\<lambda>m n. s * cnt (kids hs st0 m) n) (nodes st0)"
proof (unfold_locales, goal_cases)
  case (5 st pz)
  obtain cs st' where e: "colour_step c s st0 pz st = (cs, st')" by (cases "colour_step c s st0 pz st")
  note spec = colour_step_spec [OF 5 e]
  show ?case using step [OF 5] e
    by (intro exI conjI, simp) (rule spec)+
next
  case (6 p ps n)
  then show ?case by (subst edges_Cons) (simp add: distrib_left)
next
  case (8 st pz cs st' n)
  then show ?case using colour_step_spec(8) [of c hs st0 G b st pz s cs st' n] step [of st pz] by auto
qed (auto simp: painted_def edges_Cons [symmetric] dest: paint_invD intro: finite_region)

end
