(* ===== verification/Gc_Mark.thy ===== *)
theory Gc_Mark
  imports Gc_Colour
begin

text \<open>
  The two recursions that paint what they reach, \<open>zval_mark_grey\<close> and \<open>zval_scan_black\<close>, as
  instances of one interface, and the mark phase over the root buffer.
\<close>

subsection \<open>The interface\<close>

text \<open>What a recursion from the nodes \<open>ns\<close> does as a whole.\<close>

definition painting :: "gc_color \<Rightarrow> uint \<Rightarrow> (handle \<Rightarrow> addr) \<Rightarrow> zgc \<Rightarrow> gc_node set \<Rightarrow> gc_node set \<Rightarrow> zgc \<Rightarrow> zgc \<Rightarrow> bool" where
  "painting c s hs st0 G ns st st' \<longleftrightarrow>
     paint_inv c hs st0 G st st' \<and> painted c G st \<subseteq> painted c G st' \<and> ns \<subseteq> painted c G st' \<and>
     (\<forall>m \<in> painted c G st' - painted c G st. set (kids hs st0 m) \<subseteq> painted c G st') \<and>
     painted c G st' - painted c G st \<subseteq> (graph hs st0)\<^sup>* `` ns \<and>
     (\<forall>n \<in> nodes st0. rc st' n = rc st n + s * (\<Sum>m \<in> painted c G st' - painted c G st. cnt (kids hs st0 m) n))"

lemma Image_rtrancl_trans: "A \<subseteq> r\<^sup>* `` B \<Longrightarrow> r\<^sup>* `` A \<subseteq> r\<^sup>* `` B"
  by (auto intro: rtrancl_trans)

locale painter =
  fixes step :: "addr \<Rightarrow> zgc \<Rightarrow> (addr list \<times> zgc) option" and c :: gc_color and s :: uint
  assumes step_is: "paint_inv c hs st0 G b st \<Longrightarrow> pz \<in> ptrs st0 G \<Longrightarrow> step pz st = Some (colour_step c s st0 pz st)"
begin

sublocale walk: gc_counting step "paint_inv c hs st0 G b" "painted c G" G "ptrs st0 G" "edges st0" "kids hs st0" UNIV
    "\<lambda>ps n. s * cnt (edges st0 ps) n" "\<lambda>m n. s * cnt (kids hs st0 m) n" "nodes st0" for hs st0 G b
  by (rule colour_counting) (rule step_is)

lemma enter_and_walk:
  assumes heap: "heap_ok hs st0" and G: "region hs st0 G" "ns \<subseteq> G" and g: "same_graph st0 st"
    and e: "colour_effect c s hs st0 G ns st cs st1 new"
  shows "\<exists>st'. gc_walk step cs st1 = Some st' \<and> painting c s hs st0 G ns st st'"
proof -
  note nd = e [unfolded colour_effect_def]
  have sub: "G \<subseteq> nodes st0" using G(1) by (simp add: region_def)
  have inv: "paint_inv c hs st0 G st st1"
    by (rule paint_inv_effect [OF paint_inv_refl [OF heap G(1) g] e])
  have cs: "set cs \<subseteq> ptrs st0 G" using nd by blast
  obtain st' where w: "gc_walk step cs st1 = Some st'" "walk.walked hs st0 G st cs st1 st'"
    using walk.walk_returns [OF inv cs order_refl] by blast
  note wd = w(2) [unfolded walk.walked_def]
  note new = painted_effect [OF e sub]
  let ?P = "painted c G"
  have inc: "?P st \<subseteq> ?P st1" "?P st1 \<subseteq> ?P st'" using new wd by auto
  have split: "?P st' - ?P st = new \<union> (?P st' - ?P st1)" "new \<inter> (?P st' - ?P st1) = {}"
    using new inc by blast+
  have fin: "finite new" "finite (?P st')" using finite_region [OF heap G(1)] nd by (auto simp: painted_def intro: finite_subset)
  have "set (edges st0 cs) \<subseteq> ?P st'" using wd by simp
  moreover have "set (kids hs st0 m) \<subseteq> ?P st1 \<union> set (edges st0 cs)" if "m \<in> new" for m
    using nd region_kids [OF G(1), of m] that unfolding painted_def by blast
  ultimately have "set (kids hs st0 m) \<subseteq> ?P st'" if "m \<in> new" for m using inc(2) that by blast
  moreover have "set (kids hs st0 m) \<subseteq> ?P st'" if "m \<in> ?P st' - ?P st1" for m using wd that by simp
  ultimately have kids: "\<forall>m \<in> ?P st' - ?P st. set (kids hs st0 m) \<subseteq> ?P st'" unfolding split(1) by blast
  have "set (edges st0 cs) \<subseteq> (graph hs st0)\<^sup>* `` ns" "new \<subseteq> (graph hs st0)\<^sup>* `` ns" using nd by blast+
  moreover have "?P st' - ?P st1 \<subseteq> (graph hs st0)\<^sup>* `` set (edges st0 cs)" using wd by (simp add: graph_def)
  ultimately have reach: "?P st' - ?P st \<subseteq> (graph hs st0)\<^sup>* `` ns"
    unfolding split(1) by (meson Un_least Image_rtrancl_trans order_trans)
  have "ns \<subseteq> ?P st1" using nd G(2) by (auto simp: painted_def)
  then have ns: "ns \<subseteq> ?P st'" using inc by blast
  have rc: "rc st' n = rc st n + s * (\<Sum>m \<in> ?P st' - ?P st. cnt (kids hs st0 m) n)" if n: "n \<in> nodes st0" for n
  proof -
    have "rc st' n = rc st1 n + s * cnt (edges st0 cs) n + (\<Sum>m \<in> ?P st' - ?P st1. s * cnt (kids hs st0 m) n)"
      using walk.walk_counts [OF inv cs order_refl w(1) n] .
    moreover have "rc st1 n = rc st n + s * (\<Sum>m \<in> new. cnt (kids hs st0 m) n) - s * cnt (edges st0 cs) n"
      using nd n by blast
    ultimately show ?thesis
      unfolding split(1) sum.union_disjoint [OF fin(1) finite_Diff [OF fin(2)] split(2)]
      by (simp add: sum_distrib_left distrib_left)
  qed
  have "paint_inv c hs st0 G st st'" using wd by blast
  then show ?thesis using w(1) inc kids reach ns rc unfolding painting_def by blast
qed

end

subsection \<open>The two instances\<close>

lemma entering:
  assumes "heap_ok hs st0" "same_graph st0 st" "pz \<in> dom (zvals st0)"
  obtains x where "has st (ZV pz)" "zvals (set_col (ZV pz) c st) pz = Some x" "z_value x = z_value (the (zvals st0 pz))"
    "symbol_table st = symbol_table st0" "tables st = tables st0"
    "object_buckets (set_col (ZV pz) c st) = None \<longleftrightarrow> object_buckets st0 = None"
proof -
  have z: "has st (ZV pz)" using assms(2,3) same_graph_has [of st0 st "ZV pz"] by (simp add: node_simps)
  let ?st = "set_col (ZV pz) c st"
  have g: "same_graph st0 ?st" using assms(2) z same_graph_nmap same_graph_trans by blast
  obtain x where "zvals ?st pz = Some x" "z_value x = z_value (the (zvals st0 pz))"
    by (rule read_zval [OF g assms(3)])
  then show thesis using that z assms(2) g by (simp add: same_graph_def)
qed

lemma entering_object:
  assumes "heap_ok hs st0" "same_graph st0 st" "pz \<in> dom (zvals st0)"
    "z_value (the (zvals st0 pz)) = IS_OBJECT h hs'" "object_buckets st0 \<noteq> None"
  shows "has st (OB h)"
    "gc_object_props h hs' (set_col (OB h) c (add_rc (OB h) s (set_col (ZV pz) c st))) = Some (the (gc_object_props h hs' st0))"
proof -
  note ob = heap_object [OF assms(1,3-5)]
  have z: "has st (ZV pz)" using assms(2,3) same_graph_has [of st0 st "ZV pz"] by (simp add: node_simps)
  show o: "has st (OB h)" using same_graph_has [OF assms(2)] ob(2) by blast
  have "same_graph st (set_col (OB h) c (add_rc (OB h) s (set_col (ZV pz) c st)))"
    by (rule same_graph_trans [OF same_graph_trans]; rule same_graph_nmap) (use z o in auto)
  from same_graph_props [OF same_graph_trans [OF assms(2) this]]
  show "gc_object_props h hs' (set_col (OB h) c (add_rc (OB h) s (set_col (ZV pz) c st))) = Some (the (gc_object_props h hs' st0))"
    using heap_props(1) [OF assms(1) ob(2)] ob(1) by metis
qed

lemma mark_enter_eq:
  assumes "heap_ok hs st0" "same_graph st0 st" "pz \<in> dom (zvals st0)"
  shows "zval_mark_grey_enter pz st = Some (entered GC_GREY (- 1) st0 pz st)"
proof -
  obtain x where x: "has st (ZV pz)" "zvals (set_col (ZV pz) GC_GREY st) pz = Some x" "z_value x = z_value (the (zvals st0 pz))"
    "symbol_table st = symbol_table st0" "tables st = tables st0"
    "object_buckets (set_col (ZV pz) GC_GREY st) = None \<longleftrightarrow> object_buckets st0 = None" by (rule entering [OF assms])
  note defs = zval_mark_grey_enter_def entered_def gc_prims Let_def
  show ?thesis
  proof (cases "z_value (the (zvals st0 pz))")
    case (IS_ARRAY ht)
    then show ?thesis using heap_array(1) [OF assms(1,3) IS_ARRAY] x by (auto simp: defs)
  next
    case (IS_OBJECT h hs')
    then show ?thesis
      using x entering_object(1) [OF assms IS_OBJECT] entering_object(2) [OF assms IS_OBJECT, of GC_GREY "- 1"]
      by (cases "object_buckets st0 = None") (auto simp: defs)
  qed (use x in \<open>auto simp: defs\<close>)
qed

lemma black_enter_eq:
  assumes "heap_ok hs st0" "same_graph st0 st" "pz \<in> dom (zvals st0)" "col st (ZV pz) \<noteq> GC_BLACK"
  shows "zval_scan_black_enter pz st = Some (entered GC_BLACK 1 st0 pz st)"
proof -
  obtain x where x: "has st (ZV pz)" "zvals (set_col (ZV pz) GC_BLACK st) pz = Some x" "z_value x = z_value (the (zvals st0 pz))"
    "symbol_table st = symbol_table st0" "tables st = tables st0"
    "object_buckets (set_col (ZV pz) GC_BLACK st) = None \<longleftrightarrow> object_buckets st0 = None" by (rule entering [OF assms(1-3)])
  note defs = zval_scan_black_enter_def entered_def gc_prims Let_def
  show ?thesis
  proof (cases "z_value (the (zvals st0 pz))")
    case (IS_ARRAY ht)
    moreover have "set_col (ZV pz) GC_BLACK (set_col (ZV pz) GC_BLACK st) = set_col (ZV pz) GC_BLACK st"
      using x(1) by (simp add: nmap.simps rc.simps ref.simps)
    ultimately show ?thesis using heap_array(1) [OF assms(1,3) IS_ARRAY] x assms(4) by (auto simp: defs)
  next
    case (IS_OBJECT h hs')
    then show ?thesis
      using x entering_object [OF assms(1-3) IS_OBJECT] assms(4) by (cases "object_buckets st0 = None") (auto simp: defs)
  qed (use x assms(4) in \<open>auto simp: defs\<close>)
qed

lemma step_counts:
  assumes "same_graph st0 st" "pz \<in> dom (zvals st0)"
  obtains z where "zvals st pz = Some z" "is_symbol_table st z = symtab st0 pz" "has st (ZV pz)" "same_graph st0 (add_rc (ZV pz) i st)"
proof -
  obtain z where z: "zvals st pz = Some z" "is_symbol_table st z = symtab st0 pz"
    by (rule read_zval [OF assms])
  then have h: "has st (ZV pz)" by (auto simp: node_simps)
  then show thesis using that z assms(1) same_graph_trans same_graph_nmap by blast
qed

interpretation mark: painter zval_mark_grey_step GC_GREY "- 1"
proof
  fix hs st0 G b st pz
  assume "paint_inv GC_GREY hs st0 G b st" "pz \<in> ptrs st0 G"
  note d = paint_invD(1,5) [OF this(1)] ptrs_dom [OF this(2)]
  obtain z where z: "zvals st pz = Some z" "is_symbol_table st z = symtab st0 pz" "has st (ZV pz)"
    "same_graph st0 (add_rc (ZV pz) (- 1) st)" by (rule step_counts [OF d(2,3)])
  show "zval_mark_grey_step pz st = Some (colour_step GC_GREY (- 1) st0 pz st)"
    using z mark_enter_eq [OF d(1) _ d(3)] d(2) by (simp add: zval_mark_grey_step_def colour_step_def gc_prims)
qed

interpretation black: painter zval_scan_black_step GC_BLACK 1
proof
  fix hs st0 G b st pz
  assume "paint_inv GC_BLACK hs st0 G b st" "pz \<in> ptrs st0 G"
  note d = paint_invD(1,5) [OF this(1)] ptrs_dom [OF this(2)]
  obtain z where z: "zvals st pz = Some z" "is_symbol_table st z = symtab st0 pz" "has st (ZV pz)"
    "same_graph st0 (add_rc (ZV pz) 1 st)" by (rule step_counts [OF d(2,3)])
  show "zval_scan_black_step pz st = Some (colour_step GC_BLACK 1 st0 pz st)"
    using z black_enter_eq [OF d(1) _ d(3)] d(2)
    by (auto simp: zval_scan_black_step_def colour_step_def gc_prims entered_def)
qed

subsection \<open>The recursions from a root\<close>

lemma edges_single_ptrs: "pz \<in> ptrs st G \<Longrightarrow> set (edges st [pz]) \<subseteq> G"
  by (auto simp: ptrs_def edges_single)

lemma zval_mark_grey_paints:
  assumes "heap_ok hs st0" "region hs st0 G" "same_graph st0 st" "pz \<in> ptrs st0 G"
  shows "\<exists>st'. zval_mark_grey pz st = Some st' \<and> painting GC_GREY (- 1) hs st0 G (set (edges st0 [pz])) st st'"
proof -
  obtain cs st1 where e: "entered GC_GREY (- 1) st0 pz st = (cs, st1)" by fastforce
  obtain new where "colour_effect GC_GREY (- 1) hs st0 G (set (edges st0 [pz])) st cs st1 new"
    using entered_effect [OF assms(1,3,2,4) e] by blast
  from mark.enter_and_walk [OF assms(1,2) edges_single_ptrs [OF assms(4)] assms(3) this]
  show ?thesis
    using mark_enter_eq [OF assms(1,3) ptrs_dom [OF assms(4)]] e by (simp add: zval_mark_grey_def gc_enter_def)
qed

lemma zval_scan_black_paints:
  assumes "heap_ok hs st0" "region hs st0 G" "same_graph st0 st" "pz \<in> ptrs st0 G" "col st (ZV pz) \<noteq> GC_BLACK"
  shows "\<exists>st'. zval_scan_black pz st = Some st' \<and> painting GC_BLACK 1 hs st0 G (set (edges st0 [pz])) st st'"
proof -
  obtain cs st1 where e: "entered GC_BLACK 1 st0 pz st = (cs, st1)" by fastforce
  obtain new where "colour_effect GC_BLACK 1 hs st0 G (set (edges st0 [pz])) st cs st1 new"
    using entered_effect [OF assms(1,3,2,4) e] by blast
  from black.enter_and_walk [OF assms(1,2) edges_single_ptrs [OF assms(4)] assms(3) this]
  show ?thesis
    using black_enter_eq [OF assms(1,3) ptrs_dom [OF assms(4)] assms(5)] e by (simp add: zval_scan_black_def gc_enter_def)
qed

lemma object_paints:
  assumes "heap_ok hs st0" "region hs st0 G" "same_graph st0 st" "OB h \<in> G" "col st (OB h) \<noteq> c"
  obtains cs where "gc_object_props h (hs h) (set_col (OB h) c st) = Some cs"
    "colour_effect c s hs st0 G {OB h} st cs (set_col (OB h) c st) {OB h}"
proof -
  have h0: "has st0 (OB h)" "has st (OB h)" using region_has [OF assms(2) same_graph_refl assms(4)] region_has [OF assms(2,3,4)] by auto
  let ?cs = "the (gc_object_props h (hs h) st0)"
  have "same_graph st0 (set_col (OB h) c st)" using assms(3) h0(2) same_graph_trans same_graph_nmap by blast
  then have "gc_object_props h (hs h) (set_col (OB h) c st) = Some ?cs"
    using same_graph_props heap_props(1) [OF assms(1) h0(1)] by metis
  then show thesis
    using that paint_one [OF assms(2,3,4) heap_props(2) [OF assms(1) h0(1)] _ assms(5)] by (simp add: kids_OB)
qed

lemma zobj_mark_grey_paints:
  assumes "heap_ok hs st0" "region hs st0 G" "same_graph st0 st" "OB h \<in> G" "col st (OB h) \<noteq> GC_GREY"
  shows "\<exists>st'. zobj_mark_grey h (hs h) st = Some st' \<and> painting GC_GREY (- 1) hs st0 G {OB h} st st'"
proof -
  obtain cs where cs: "gc_object_props h (hs h) (set_col (OB h) GC_GREY st) = Some cs"
    "colour_effect GC_GREY (- 1) hs st0 G {OB h} st cs (set_col (OB h) GC_GREY st) {OB h}" by (rule object_paints [OF assms])
  from mark.enter_and_walk [OF assms(1,2) _ assms(3) cs(2)] show ?thesis
    using region_has [OF assms(2,3,4)] assms(4,5) cs(1) by (simp add: zobj_mark_grey_def gc_prims)
qed

lemma zobj_scan_black_paints:
  assumes "heap_ok hs st0" "region hs st0 G" "same_graph st0 st" "OB h \<in> G" "col st (OB h) \<noteq> GC_BLACK"
  shows "\<exists>st'. zobj_scan_black h (hs h) st = Some st' \<and> painting GC_BLACK 1 hs st0 G {OB h} st st'"
proof -
  obtain cs where cs: "gc_object_props h (hs h) (set_col (OB h) GC_BLACK st) = Some cs"
    "colour_effect GC_BLACK 1 hs st0 G {OB h} st cs (set_col (OB h) GC_BLACK st) {OB h}" by (rule object_paints [OF assms])
  from black.enter_and_walk [OF assms(1,2) _ assms(3) cs(2)] show ?thesis
    using region_has [OF assms(2,3,4)] assms(4) cs(1) by (simp add: zobj_scan_black_def gc_prims)
qed

subsection \<open>The mark phase over the root buffer\<close>

definition root_of :: "zgc \<Rightarrow> nat \<Rightarrow> gc_node" where
  "root_of st i = (let e = gc_buf st i in if rb_handle e \<noteq> 0 then OB (rb_handle e) else ZV (rb_u e))"

text \<open>The entries in use and the nodes know of each other.\<close>

definition buffer_ok :: "(handle \<Rightarrow> addr) \<Rightarrow> zgc \<Rightarrow> bool" where
  "buffer_ok hs st \<longleftrightarrow> distinct (gc_roots st) \<and>
     (\<forall>i \<in> set (gc_roots st). has st (root_of st i) \<and> gc_addr (ref st (root_of st i)) = Buf i \<and>
        (rb_handle (gc_buf st i) \<noteq> 0 \<longrightarrow> rb_u (gc_buf st i) = hs (rb_handle (gc_buf st i)))) \<and>
     (\<forall>n. has st n \<longrightarrow> gc_addr (ref st n) = Null \<or> (\<exists>i \<in> set (gc_roots st). gc_addr (ref st n) = Buf i \<and> root_of st i = n))"

lemma same_graph_region: "same_graph st0 st \<Longrightarrow> region hs st0 G \<Longrightarrow> n \<in> G \<Longrightarrow> kids hs st n = kids hs st0 n"
  by (rule same_graph_kids) (auto dest: region_has [OF _ same_graph_refl])

lemma buffer_ok_frame:
  assumes "buffer_ok hs st" "gc_frame st st'"
  shows "buffer_ok hs st'"
proof -
  have "root_of st' = root_of st" "has st' = has st"
    using assms(2) same_graph_has [of st st'] by (auto simp: gc_frame_def root_of_def fun_eq_iff)
  then show ?thesis using assms by (simp add: buffer_ok_def gc_frame_def)
qed

text \<open>The nodes a collection starts from: the purple ones with an entry in the buffer.\<close>

definition roots :: "zgc \<Rightarrow> nat set \<Rightarrow> gc_node set" where
  "roots st I = root_of st ` I \<inter> nodes st"

definition purple_roots :: "zgc \<Rightarrow> gc_node set" where
  "purple_roots st = {n \<in> roots st (set (gc_roots st)). col st n = GC_PURPLE}"

abbreviation grey :: "zgc \<Rightarrow> zgc \<Rightarrow> gc_node set" where
  "grey st0 \<equiv> painted GC_GREY (nodes st0)"

text \<open>The grey nodes of a state: closed under edges, and what their edges count for is taken off.\<close>

definition greyed :: "(handle \<Rightarrow> addr) \<Rightarrow> zgc \<Rightarrow> zgc \<Rightarrow> bool" where
  "greyed hs st0 st \<longleftrightarrow>
     (\<forall>n \<in> nodes st0. n \<in> grey st0 st \<or> col st n = col st0 n) \<and>
     (\<forall>a. symtab st0 a \<longrightarrow> col st (ZV a) \<in> {GC_BLACK, col st0 (ZV a)}) \<and>
     (\<forall>m \<in> grey st0 st. set (kids hs st0 m) \<subseteq> grey st0 st) \<and>
     (\<forall>n \<in> nodes st0. rc st n = rc st0 n - (\<Sum>m \<in> grey st0 st. cnt (kids hs st0 m) n))"

lemma sum_painted:
  assumes "heap_ok hs st0" "region hs st0 G" "painted c G st \<subseteq> painted c G st'"
  shows "sum f (painted c G st') = sum f (painted c G st' - painted c G st) + sum f (painted c G st)"
  by (rule sum.subset_diff [OF assms(3)]) (simp add: painted_def finite_region [OF assms(1,2)])

lemma greyed_paint:
  assumes m: "greyed hs st0 st" and p: "painting GC_GREY (- 1) hs st0 (nodes st0) ns st st'"
  shows "greyed hs st0 st'"
proof -
  note md = m [unfolded greyed_def] and pd = p [unfolded painting_def]
  have inv: "paint_inv GC_GREY hs st0 (nodes st0) st st'" using pd by blast
  let ?G = "grey st0 st" and ?G' = "grey st0 st'"
  have inc: "?G \<subseteq> ?G'" using pd by simp
  have cols: "\<forall>n \<in> nodes st0. n \<in> ?G' \<or> col st' n = col st0 n"
    using md inv inc unfolding paint_inv_def painted_def by fastforce
  have sym: "col st' (ZV a) \<in> {GC_BLACK, col st0 (ZV a)}" if "symtab st0 a" for a
  proof -
    have "col st' (ZV a) \<in> {GC_BLACK, col st (ZV a)}" using inv that by (simp add: paint_inv_def)
    moreover have "col st (ZV a) \<in> {GC_BLACK, col st0 (ZV a)}" using md that by simp
    ultimately show ?thesis by auto
  qed
  have new: "set (kids hs st0 m) \<subseteq> ?G'" if "m \<in> ?G'" for m
  proof (cases "m \<in> ?G")
    case True
    then have "set (kids hs st0 m) \<subseteq> ?G" using md by blast
    then show ?thesis using inc by blast
  next
    case False
    then show ?thesis using pd that by blast
  qed
  have rc: "rc st' n = rc st0 n - (\<Sum>m \<in> ?G'. cnt (kids hs st0 m) n)" if n: "n \<in> nodes st0" for n
  proof -
    have "rc st n = rc st0 n - (\<Sum>m \<in> ?G. cnt (kids hs st0 m) n)" using md n by blast
    moreover have "rc st' n = rc st n + - 1 * (\<Sum>m \<in> ?G' - ?G. cnt (kids hs st0 m) n)" using pd n by blast
    ultimately show ?thesis
      unfolding sum_painted [OF paint_invD(1,2) [OF inv] inc] by simp
  qed
  show ?thesis using cols sym new rc by (simp add: greyed_def)
qed

text \<open>The state with the entries \<open>rest\<close> still to mark.\<close>

definition marking :: "(handle \<Rightarrow> addr) \<Rightarrow> zgc \<Rightarrow> nat list \<Rightarrow> zgc \<Rightarrow> bool" where
  "marking hs st0 rest st \<longleftrightarrow>
     same_graph st0 st \<and> gc_buf st = gc_buf st0 \<and> zval_to_free st = zval_to_free st0 \<and> buffer_ok hs st \<and>
     mset (gc_roots st) + mset (gc_unused st) = mset (gc_roots st0) + mset (gc_unused st0) \<and>
     distinct rest \<and> set rest \<subseteq> set (gc_roots st) \<and> set (gc_roots st) \<subseteq> set (gc_roots st0) \<and>
     greyed hs st0 st \<and>
     grey st0 st \<subseteq> (graph hs st0)\<^sup>* `` purple_roots st0 \<and>
     grey st0 st \<subseteq> (graph hs st0)\<^sup>* `` roots st0 (set (gc_roots st) - set rest) \<and>
     roots st0 (set (gc_roots st) - set rest) \<subseteq> grey st0 st \<and>
     (\<forall>i \<in> set (gc_roots st0) - set rest. root_of st0 i \<in> purple_roots st0 \<longrightarrow> root_of st0 i \<in> grey st0 st)"

lemma marking_start:
  assumes "buffer_ok hs st0" "\<forall>n. has st0 n \<longrightarrow> col st0 n \<in> {GC_BLACK, GC_PURPLE}"
  shows "marking hs st0 (gc_roots st0) st0"
proof -
  have "grey st0 st0 = {}" using assms(2) nodes_has [of _ st0] by (fastforce simp: painted_def)
  then show ?thesis using assms(1) by (simp add: marking_def greyed_def buffer_ok_def roots_def)
qed

lemma roots_mono: "I \<subseteq> J \<Longrightarrow> roots st I \<subseteq> roots st J"
  by (auto simp: roots_def)

lemma painting_reach:
  assumes "painting c s hs st0 G ns st st'" "ns \<subseteq> X" "painted c G st \<subseteq> (graph hs st0)\<^sup>* `` X"
  shows "painted c G st' \<subseteq> (graph hs st0)\<^sup>* `` X"
proof -
  have "painted c G st' - painted c G st \<subseteq> (graph hs st0)\<^sup>* `` ns" using assms(1) by (simp add: painting_def)
  also have "\<dots> \<subseteq> (graph hs st0)\<^sup>* `` X" using assms(2) by (rule Image_mono [OF order_refl])
  finally show ?thesis using assms(3) by blast
qed

lemma marking_paint:
  assumes m: "marking hs st0 (i # rest) st"
    and p: "painting GC_GREY (- 1) hs st0 (nodes st0) ({root_of st0 i} \<inter> nodes st0) st st'"
    and purple: "col st (root_of st0 i) = GC_PURPLE"
  shows "marking hs st0 rest st'"
proof -
  let ?r = "{root_of st0 i} \<inter> nodes st0" and ?G = "grey st0 st" and ?G' = "grey st0 st'"
  note md = m [unfolded marking_def] and pd = p [unfolded painting_def]
  have inv: "paint_inv GC_GREY hs st0 (nodes st0) st st'" using pd by simp
  have f: "gc_frame st st'" "same_graph st0 st'" by (rule paint_invD [OF inv])+
  have eq: "gc_roots st' = gc_roots st" "gc_buf st' = gc_buf st" "gc_unused st' = gc_unused st" "zval_to_free st' = zval_to_free st"
    using f(1) by (simp_all add: gc_frame_def)
  have buf: "buffer_ok hs st'" by (rule buffer_ok_frame [OF _ f(1)]) (simp add: md)
  have grey: "greyed hs st0 st'" by (rule greyed_paint [OF _ p]) (simp add: md)
  have inc: "?G \<subseteq> ?G'" "?r \<subseteq> ?G'" using pd by simp_all
  have i: "i \<in> set (gc_roots st)" "i \<in> set (gc_roots st0)" "i \<notin> set rest" using md by auto
  have r: "?r \<subseteq> purple_roots st0" "?r \<subseteq> roots st0 (set (gc_roots st) - set rest)"
  proof -
    have "?r \<subseteq> roots st0 (set (gc_roots st0))" "?r \<subseteq> roots st0 (set (gc_roots st) - set rest)"
      using i by (auto simp: roots_def)
    moreover have "col st0 n = GC_PURPLE" if "n \<in> ?r" for n
    proof -
      have "n \<notin> ?G" using that purple by (auto simp: painted_def)
      moreover have "greyed hs st0 st" using md by simp
      then have "n \<in> ?G \<or> col st n = col st0 n" using that unfolding greyed_def by blast
      ultimately show ?thesis using that purple by auto
    qed
    ultimately show "?r \<subseteq> purple_roots st0" "?r \<subseteq> roots st0 (set (gc_roots st) - set rest)"
      by (auto simp: purple_roots_def)
  qed
  have "roots st0 (set (gc_roots st) - set (i # rest)) \<subseteq> roots st0 (set (gc_roots st) - set rest)"
    by (rule roots_mono) auto
  then have "?G \<subseteq> (graph hs st0)\<^sup>* `` roots st0 (set (gc_roots st) - set rest)"
    using md Image_mono [OF order_refl] by (meson order_trans)
  note reach = painting_reach [OF p r(2) this] painting_reach [OF p r(1)]
  have "roots st0 (set (gc_roots st) - set rest) \<subseteq> roots st0 (set (gc_roots st) - set (i # rest)) \<union> ?r"
    by (auto simp: roots_def)
  moreover have "roots st0 (set (gc_roots st) - set (i # rest)) \<subseteq> ?G" using md by simp
  ultimately have kept: "roots st0 (set (gc_roots st) - set rest) \<subseteq> ?G'" using inc by blast
  have "root_of st0 j \<in> ?G'" if j: "j \<in> set (gc_roots st0) - set rest" "root_of st0 j \<in> purple_roots st0" for j
  proof (cases "j = i")
    case True
    then show ?thesis using inc(2) j(2) by (auto simp: purple_roots_def roots_def)
  next
    case False
    then have "root_of st0 j \<in> ?G" using md j by auto
    then show ?thesis using inc(1) by blast
  qed
  then show ?thesis
    unfolding marking_def using md f(2) eq buf reach grey kept by (intro conjI) (simp_all add: eq)
qed

lemma gc_remove_root:
  assumes "i \<in> set (gc_roots st)"
  obtains st' where "gc_remove_from_buffer i st = Some st'" "gc_roots st' = remove1 i (gc_roots st)" "gc_unused st' = i # gc_unused st"
    "same_graph st st'" "gc_buf st' = gc_buf st" "zval_to_free st' = zval_to_free st" "\<And>n. ref st' n = ref st n" "\<And>n. rc st' n = rc st n"
proof -
  let ?st = "st\<lparr>gc_roots := remove1 i (gc_roots st), gc_unused := i # gc_unused st\<rparr>"
  have "os_get ?st h = os_get st h" for h by (simp add: os_get_def)
  then have "ref ?st n = ref st n" "rc ?st n = rc st n" for n
    by (cases n; simp add: node_simps)+
  moreover have "same_graph st ?st" by (simp add: same_graph_def os_get_def)
  ultimately show thesis using that [of ?st] assms by (simp add: gc_remove_from_buffer_def)
qed

lemma buffer_ok_remove:
  assumes b: "buffer_ok hs st" and i: "i \<in> set (gc_roots st)" and n: "root_of st i = n"
    and r: "same_graph st st'" "gc_buf st' = gc_buf st" "gc_roots st' = remove1 i (gc_roots st)"
      "\<And>m. gc_addr (ref st' m) = (if m = n then Null else gc_addr (ref st m))"
  shows "buffer_ok hs st'"
proof -
  note bd = b [unfolded buffer_ok_def]
  have eq: "root_of st' = root_of st" "has st' = has st"
    using r(2) same_graph_has [OF r(1)] by (auto simp: root_of_def fun_eq_iff)
  have d: "set (gc_roots st') = set (gc_roots st) - {i}" "distinct (gc_roots st')" using bd r(3) by simp_all
  have other: "root_of st j \<noteq> n" if "j \<in> set (gc_roots st')" for j
  proof
    assume "root_of st j = n"
    moreover have "gc_addr (ref st (root_of st j)) = Buf j" "gc_addr (ref st (root_of st i)) = Buf i" using bd that i d(1) by auto
    ultimately have "j = i" using n by simp
    then show False using that d(1) by simp
  qed
  show ?thesis
    unfolding buffer_ok_def eq
  proof (intro conjI d ballI allI impI)
    fix j assume j: "j \<in> set (gc_roots st')"
    then have j': "j \<in> set (gc_roots st)" using d by simp
    show "has st (root_of st j)" "rb_handle (gc_buf st' j) \<noteq> 0 \<Longrightarrow> rb_u (gc_buf st' j) = hs (rb_handle (gc_buf st' j))"
      using bd j' r(2) by auto
    show "gc_addr (ref st' (root_of st j)) = Buf j" using bd j' other [OF j] r(4) by simp
  next
    fix m assume "has st m"
    then have "gc_addr (ref st m) = Null \<or> (\<exists>j \<in> set (gc_roots st). gc_addr (ref st m) = Buf j \<and> root_of st j = m)"
      using bd by blast
    then show "gc_addr (ref st' m) = Null \<or> (\<exists>j \<in> set (gc_roots st'). gc_addr (ref st' m) = Buf j \<and> root_of st j = m)"
      using r(4) n d(1) by (cases "m = n") auto
  qed
qed

lemma col_set_addr [simp]: "has st n \<Longrightarrow> col (set_addr n p st) m = col st m"
  by simp

lemma marking_drop:
  assumes m: "marking hs st0 (i # rest) st" and c: "col st (root_of st0 i) \<noteq> GC_PURPLE"
  obtains st' where "gc_remove_from_buffer i (set_addr (root_of st0 i) Null st) = Some st'" "marking hs st0 rest st'"
proof -
  let ?r = "root_of st0 i"
  let ?st = "set_addr ?r Null st"
  note md = m [unfolded marking_def]
  have root: "root_of st = root_of st0" using md by (auto simp: root_of_def fun_eq_iff)
  have i: "i \<in> set (gc_roots st)" "buffer_ok hs st" "distinct (gc_roots st)" "greyed hs st0 st" "same_graph st0 st"
    using md by (auto simp: buffer_ok_def)
  have h: "has st ?r" using i(1,2) root by (auto simp: buffer_ok_def)
  obtain st' where st': "gc_remove_from_buffer i ?st = Some st'" "gc_roots st' = remove1 i (gc_roots ?st)" "gc_unused st' = i # gc_unused ?st"
    "same_graph ?st st'" "gc_buf st' = gc_buf ?st" "zval_to_free st' = zval_to_free ?st"
    "\<And>n. ref st' n = ref ?st n" "\<And>n. rc st' n = rc ?st n"
    using gc_remove_root [of i ?st] i(1) by auto
  have g: "same_graph st st'" using st'(4) same_graph_nmap [OF h] same_graph_trans by blast
  have rcs: "rc st' n = rc st n" "col st' n = col st n" for n using st'(7,8) h by simp_all
  have addr: "gc_addr (ref st' n) = (if n = ?r then Null else gc_addr (ref st n))" for n using st'(7) h by simp
  have grey: "grey st0 st' = grey st0 st" by (simp add: painted_def rcs)
  have gr: "greyed hs st0 st'" using i(4) unfolding greyed_def grey by (simp add: rcs)
  have buf: "buffer_ok hs st'"
    by (rule buffer_ok_remove [OF i(2,1) _ g _ _ addr]) (use st'(2,5) root in simp_all)
  have sets: "set (gc_roots st') = set (gc_roots st) - {i}" using st'(2) i(3) by simp
  then have minus: "set (gc_roots st') - set rest = set (gc_roots st) - set (i # rest)" by auto
  have reached: "root_of st0 j \<in> grey st0 st" if j: "j \<in> set (gc_roots st0) - set rest" "root_of st0 j \<in> purple_roots st0" for j
  proof (cases "j = i")
    case True
    then have "col st0 ?r = GC_PURPLE" "?r \<in> nodes st0" using j(2) by (auto simp: purple_roots_def roots_def)
    then show ?thesis using i(4) c True unfolding greyed_def by metis
  next
    case False
    then show ?thesis using md j by auto
  qed
  have "mset (gc_roots st') + mset (gc_unused st') = mset (gc_roots st) + mset (gc_unused st)"
    using st'(2,3) i(1) by simp
  then have "marking hs st0 rest st'"
    unfolding marking_def grey minus
    using md same_graph_trans [OF i(5) g] buf gr reached sets st'(5,6) by (intro conjI) auto
  then show thesis using that st'(1) by blast
qed

lemma has_OB_buckets: "has st (OB h) \<Longrightarrow> object_buckets st \<noteq> None"
  by (cases "object_buckets st") (simp_all add: has.simps os_get_def)

lemma marking_root:
  assumes "marking hs st0 (i # rest) st"
  shows "gc_buf st = gc_buf st0" "has st (root_of st0 i)"
    "rb_handle (gc_buf st0 i) \<noteq> 0 \<Longrightarrow> rb_u (gc_buf st0 i) = hs (rb_handle (gc_buf st0 i))"
  using assms unfolding marking_def buffer_ok_def root_of_def by auto

lemma gc_mark_roots_loop_marks:
  assumes "heap_ok hs st0" "marking hs st0 rest st"
  shows "\<exists>st'. gc_mark_roots_loop rest st = Some st' \<and> marking hs st0 [] st'"
  using assms(2)
proof (induction rest arbitrary: st)
  case Nil
  then show ?case by simp
next
  case (Cons i rest)
  let ?e = "gc_buf st0 i" and ?r = "root_of st0 i"
  note root = marking_root [OF Cons.prems]
  have g: "same_graph st0 st" using Cons.prems by (simp add: marking_def)
  have G: "region hs st0 (nodes st0)" by (rule region_nodes [OF assms(1)])
  have "\<exists>st'. gc_mark_roots_loop (i # rest) st = gc_mark_roots_loop rest st' \<and> marking hs st0 rest st'"
  proof (cases "col st ?r = GC_PURPLE")
    case True
    show ?thesis
    proof (cases "rb_handle ?e = 0")
      case z: True
      then have r: "?r = ZV (rb_u ?e)" by (simp add: root_of_def)
      then have p: "rb_u ?e \<in> ptrs st0 (nodes st0)"
        using root(2) same_graph_has [OF g, of ?r] by (simp add: ptrs_nodes node_simps)
      obtain st' where "zval_mark_grey (rb_u ?e) st = Some st'"
        "painting GC_GREY (- 1) hs st0 (nodes st0) (set (edges st0 [rb_u ?e])) st st'"
        using zval_mark_grey_paints [OF assms(1) G g p] by blast
      moreover have "set (edges st0 [rb_u ?e]) = {?r} \<inter> nodes st0"
        using p r by (auto simp: edges_single nodes_ZV ptrs_def)
      ultimately show ?thesis
        using marking_paint [OF Cons.prems _ True, of st'] z r root True by (auto simp: gc_prims)
    next
      case h: False
      then have r: "?r = OB (rb_handle ?e)" by (simp add: root_of_def Let_def)
      then have p: "OB (rb_handle ?e) \<in> nodes st0" "object_buckets st \<noteq> None"
        using root(2) same_graph_has [OF g, of ?r] has_OB_buckets [of st] by (auto simp: nodes_OB)
      obtain st' where "zobj_mark_grey (rb_handle ?e) (hs (rb_handle ?e)) st = Some st'"
        "painting GC_GREY (- 1) hs st0 (nodes st0) {OB (rb_handle ?e)} st st'"
        using zobj_mark_grey_paints [OF assms(1) G g p(1)] True r by auto
      then show ?thesis
        using marking_paint [OF Cons.prems _ True, of st'] h r root True p by (auto simp: gc_prims)
    qed
  next
    case False
    obtain st' where st': "gc_remove_from_buffer i (set_addr ?r Null st) = Some st'" "marking hs st0 rest st'"
      by (rule marking_drop [OF Cons.prems False])
    show ?thesis
    proof (cases "rb_handle ?e = 0")
      case True
      then show ?thesis using st' root(1,2) False by (auto simp: gc_prims root_of_def)
    next
      case h: False
      then have "object_buckets st \<noteq> None" using root(2) has_OB_buckets [of st] by (auto simp: root_of_def Let_def)
      then show ?thesis using h st' root(1,2) False by (auto simp: gc_prims root_of_def)
    qed
  qed
  then show ?case using Cons.IH by metis
qed

text \<open>After the phase the grey nodes are those reachable from the purple roots.\<close>

lemma gc_mark_roots_spec:
  assumes "heap_ok hs st0" "buffer_ok hs st0" "\<forall>n. has st0 n \<longrightarrow> col st0 n \<in> {GC_BLACK, GC_PURPLE}"
  shows "\<exists>st'. gc_mark_roots st0 = Some st' \<and> marking hs st0 [] st' \<and> grey st0 st' = (graph hs st0)\<^sup>* `` purple_roots st0"
proof -
  obtain st' where st': "gc_mark_roots_loop (gc_roots st0) st0 = Some st'" "marking hs st0 [] st'"
    using gc_mark_roots_loop_marks [OF assms(1) marking_start [OF assms(2,3)]] by blast
  note md = st'(2) [unfolded marking_def greyed_def]
  have "purple_roots st0 \<subseteq> grey st0 st'" using md by (auto simp: purple_roots_def roots_def)
  moreover have "graph hs st0 `` grey st0 st' \<subseteq> grey st0 st'" using md by (auto simp: graph_def)
  ultimately have "(graph hs st0)\<^sup>* `` purple_roots st0 \<subseteq> grey st0 st'"
    using Image_closed_trancl Image_mono order_refl by metis
  then show ?thesis using st' md by (auto simp: gc_mark_roots_def)
qed

end
