(* ===== verification/Gc_Scan.thy ===== *)
theory Gc_Scan
  imports Gc_Mark
begin

text \<open>
  The scan phase: a grey node with references left is live and is painted black with everything it
  reaches, which gets its references back; any other grey node turns white, perhaps only until a
  live node is found to reach it. Between two steps the black nodes are closed under edges, so the
  count of a node that is not black is still the number of references from outside.
\<close>

text \<open>\<open>b\<close> is the state after marking and \<open>G\<close> its grey nodes.\<close>

definition scan_inv :: "(handle \<Rightarrow> addr) \<Rightarrow> zgc \<Rightarrow> gc_node set \<Rightarrow> zgc \<Rightarrow> zgc \<Rightarrow> bool" where
  "scan_inv hs st0 G b st \<longleftrightarrow> heap_ok hs st0 \<and> region hs st0 G \<and> same_graph st0 b \<and> gc_frame b st \<and>
     (\<forall>n \<in> nodes st0. if n \<in> G then col st n \<noteq> GC_PURPLE else col st n = col b n \<and> col b n \<noteq> GC_GREY) \<and>
     (\<forall>a. symtab st0 a \<longrightarrow> has st0 (ZV a) \<longrightarrow> col st (ZV a) \<in> {GC_BLACK, GC_PURPLE}) \<and>
     (\<forall>m \<in> painted GC_BLACK G st. set (kids hs st0 m) \<subseteq> painted GC_BLACK G st) \<and>
     (\<forall>n \<in> nodes st0. rc st n = rc b n + (\<Sum>m \<in> painted GC_BLACK G st. cnt (kids hs st0 m) n)) \<and>
     (\<forall>n \<in> painted GC_WHITE G st. rc b n = 0) \<and>
     painted GC_BLACK G st \<subseteq> (graph hs st0)\<^sup>* `` {n \<in> G. rc b n \<noteq> 0}"

definition scanned :: "gc_node set \<Rightarrow> zgc \<Rightarrow> gc_node set" where
  "scanned G st = {n \<in> G. col st n \<noteq> GC_GREY}"

lemma scan_invD:
  assumes "scan_inv hs st0 G b st"
  shows "heap_ok hs st0" "region hs st0 G" "same_graph st0 b" "gc_frame b st" "same_graph st0 st" "G \<subseteq> nodes st0"
  using assms same_graph_trans by (auto simp: scan_inv_def gc_frame_def region_def)

lemma scan_inv_rc:
  assumes inv: "scan_inv hs st0 G b st" and n: "n \<in> G" "col st n \<noteq> GC_BLACK"
  shows "rc st n = rc b n"
proof -
  have "cnt (kids hs st0 m) n = 0" if m: "m \<in> painted GC_BLACK G st" for m
  proof -
    have "set (kids hs st0 m) \<subseteq> painted GC_BLACK G st" using inv m by (simp add: scan_inv_def)
    then have "n \<notin> set (kids hs st0 m)" using n by (auto simp: painted_def)
    then show ?thesis by (simp add: cnt_def)
  qed
  then have "(\<Sum>m \<in> painted GC_BLACK G st. cnt (kids hs st0 m) n) = 0" by (intro sum.neutral) blast
  moreover have "n \<in> nodes st0" using scan_invD(6) [OF inv] n(1) by blast
  ultimately show ?thesis using inv by (simp add: scan_inv_def)
qed

lemma scan_inv_white:
  assumes inv: "scan_inv hs st0 G b st" and n: "n \<in> G" "col st n = GC_GREY" "rc st n = 0"
  shows "scan_inv hs st0 G b (set_col n GC_WHITE st)"
proof -
  let ?st = "set_col n GC_WHITE st"
  have h: "has st n" by (rule region_has [OF scan_invD(2,5) [OF inv] n(1)])
  have b: "painted GC_BLACK G ?st = painted GC_BLACK G st" using h n(2) by (auto simp: painted_def)
  have w: "painted GC_WHITE G ?st = insert n (painted GC_WHITE G st)" using h n by (auto simp: painted_def)
  have f: "gc_frame b ?st" by (rule gc_frame_trans [OF scan_invD(4) [OF inv] gc_frame_col [OF h]])
  have z: "rc b n = 0" using scan_inv_rc [OF inv n(1)] n(2,3) by simp
  have "ZV a \<noteq> n" if "symtab st0 a" for a using that n(1) scan_invD(6) [OF inv] by (auto simp: nodes_ZV)
  then show ?thesis
    unfolding scan_inv_def b w using inv [unfolded scan_inv_def] f h z n(1) by simp
qed

lemma scan_inv_black:
  assumes inv: "scan_inv hs st0 G b st" and p: "painting GC_BLACK 1 hs st0 G {n} st st'" and n: "n \<in> G" "rc b n \<noteq> 0"
  shows "scan_inv hs st0 G b st'"
proof -
  note d = inv [unfolded scan_inv_def] and pd = p [unfolded painting_def]
  let ?B = "painted GC_BLACK G st" and ?B' = "painted GC_BLACK G st'"
  have i: "paint_inv GC_BLACK hs st0 G st st'" using pd by simp
  note id = i [unfolded paint_inv_def]
  have inc: "?B \<subseteq> ?B'" using pd by simp
  have f: "gc_frame b st'" by (rule gc_frame_trans [OF scan_invD(4) [OF inv] paint_invD(4) [OF i]])
  have cols: "if m \<in> G then col st' m \<noteq> GC_PURPLE else col st' m = col b m \<and> col b m \<noteq> GC_GREY" if m: "m \<in> nodes st0" for m
  proof -
    have "m \<in> G \<and> col st' m = GC_BLACK \<or> col st' m = col st m" using id m by blast
    moreover have "if m \<in> G then col st m \<noteq> GC_PURPLE else col st m = col b m \<and> col b m \<noteq> GC_GREY" using d m by blast
    ultimately show ?thesis by (auto split: if_splits)
  qed
  have sym: "col st' (ZV a) \<in> {GC_BLACK, GC_PURPLE}" if "symtab st0 a" "has st0 (ZV a)" for a
  proof -
    have "col st' (ZV a) \<in> {GC_BLACK, col st (ZV a)}" "col st (ZV a) \<in> {GC_BLACK, GC_PURPLE}" using id d that by blast+
    then show ?thesis by auto
  qed
  have closed: "set (kids hs st0 m) \<subseteq> ?B'" if "m \<in> ?B'" for m
  proof (cases "m \<in> ?B")
    case True
    then have "set (kids hs st0 m) \<subseteq> ?B" using d by blast
    then show ?thesis using inc by blast
  next
    case False
    then show ?thesis using pd that by blast
  qed
  have rcs: "rc st' m = rc b m + (\<Sum>k \<in> ?B'. cnt (kids hs st0 k) m)" if m: "m \<in> nodes st0" for m
  proof -
    have "rc st m = rc b m + (\<Sum>k \<in> ?B. cnt (kids hs st0 k) m)" using d m by blast
    moreover have "rc st' m = rc st m + 1 * (\<Sum>k \<in> ?B' - ?B. cnt (kids hs st0 k) m)" using pd m by blast
    ultimately show ?thesis unfolding sum_painted [OF scan_invD(1,2) [OF inv] inc] by simp
  qed
  have "painted GC_WHITE G st' \<subseteq> painted GC_WHITE G st"
    using id scan_invD(6) [OF inv] by (fastforce simp: painted_def)
  then have white: "\<forall>m \<in> painted GC_WHITE G st'. rc b m = 0" using d by blast
  have live: "?B' \<subseteq> (graph hs st0)\<^sup>* `` {m \<in> G. rc b m \<noteq> 0}"
    by (rule painting_reach [OF p]) (use n d in simp_all)
  show ?thesis
    unfolding scan_inv_def
    by (intro conjI ballI allI impI scan_invD [OF inv] f cols sym closed rcs bspec [OF white] live) auto
qed

text \<open>\<open>es\<close> are the nodes left to look at.\<close>

definition scan_effect :: "(handle \<Rightarrow> addr) \<Rightarrow> zgc \<Rightarrow> gc_node set \<Rightarrow> zgc \<Rightarrow> gc_node set \<Rightarrow> zgc \<Rightarrow> gc_node set \<Rightarrow> zgc \<Rightarrow> bool" where
  "scan_effect hs st0 G b ns st es st' \<longleftrightarrow>
     scan_inv hs st0 G b st' \<and> es \<subseteq> G \<and> scanned G st \<subseteq> scanned G st' \<and> ns \<subseteq> scanned G st' \<and>
     (\<forall>m \<in> scanned G st' - scanned G st. set (kids hs st0 m) \<subseteq> scanned G st' \<union> es) \<and>
     (scanned G st' - scanned G st) \<union> es \<subseteq> (graph hs st0)\<^sup>* `` ns"

lemma scan_effect_trans:
  assumes "scan_effect hs st0 G b ns st es st1" "scan_effect hs st0 G b es st1 fs st2"
  shows "scan_effect hs st0 G b ns st fs st2"
proof -
  note a = assms(1) [unfolded scan_effect_def] and c = assms(2) [unfolded scan_effect_def]
  have k: "set (kids hs st0 m) \<subseteq> scanned G st2 \<union> fs" if "m \<in> scanned G st2 - scanned G st" for m
  proof (cases "m \<in> scanned G st1")
    case True
    then have "set (kids hs st0 m) \<subseteq> scanned G st1 \<union> es" using a that by blast
    then show ?thesis using c by blast
  next
    case False
    then show ?thesis using c that by blast
  qed
  have "(scanned G st2 - scanned G st1) \<union> fs \<subseteq> (graph hs st0)\<^sup>* `` es" using c by simp
  also have "\<dots> \<subseteq> (graph hs st0)\<^sup>* `` ns" by (rule Image_rtrancl_trans) (use a in simp)
  finally have r: "(scanned G st2 - scanned G st) \<union> fs \<subseteq> (graph hs st0)\<^sup>* `` ns" using a by blast
  have "ns \<subseteq> scanned G st2" "scanned G st \<subseteq> scanned G st2" using a c by (meson order_trans)+
  then show ?thesis unfolding scan_effect_def using c k r by simp
qed

lemma scan_effect_known:
  assumes "scan_inv hs st0 G b st" "ns \<subseteq> scanned G st"
  shows "scan_effect hs st0 G b ns st {} st"
  using assms by (simp add: scan_effect_def)

lemma scan_effect_white:
  assumes inv: "scan_inv hs st0 G b st" and n: "n \<in> G" "col st n = GC_GREY" "rc st n = 0"
  shows "scan_effect hs st0 G b {n} st (set (kids hs st0 n)) (set_col n GC_WHITE st)"
proof -
  have h: "has st n" by (rule region_has [OF scan_invD(2,5) [OF inv] n(1)])
  have "scanned G (set_col n GC_WHITE st) = insert n (scanned G st)" using h n(1) by (auto simp: scanned_def)
  then show ?thesis
    unfolding scan_effect_def using scan_inv_white [OF inv n] region_kids [OF scan_invD(2) [OF inv] n(1)]
    by (auto simp: graph_def)
qed

lemma scan_effect_black:
  assumes inv: "scan_inv hs st0 G b st" and p: "painting GC_BLACK 1 hs st0 G {n} st st'" and n: "n \<in> G" "rc b n \<noteq> 0"
  shows "scan_effect hs st0 G b {n} st {} st'"
proof -
  note pd = p [unfolded painting_def]
  let ?B = "painted GC_BLACK G"
  have cols: "col st' m = GC_BLACK \<or> col st' m = col st m" if "m \<in> G" for m
  proof -
    have "paint_inv GC_BLACK hs st0 G st st'" "m \<in> nodes st0" using pd that scan_invD(6) [OF inv] by auto
    then show ?thesis unfolding paint_inv_def by blast
  qed
  have sub: "?B st \<subseteq> scanned G st" "?B st' \<subseteq> scanned G st'" by (auto simp: scanned_def painted_def)
  have "scanned G st \<subseteq> scanned G st'" using cols by (fastforce simp: scanned_def)
  moreover have new: "scanned G st' - scanned G st \<subseteq> ?B st' - ?B st" using cols by (fastforce simp: scanned_def painted_def)
  moreover have "set (kids hs st0 m) \<subseteq> scanned G st'" if "m \<in> scanned G st' - scanned G st" for m
  proof -
    have "set (kids hs st0 m) \<subseteq> ?B st'" using pd new that by blast
    then show ?thesis using sub by blast
  qed
  moreover have "{n} \<subseteq> scanned G st'" "?B st' - ?B st \<subseteq> (graph hs st0)\<^sup>* `` {n}" using pd sub by auto
  ultimately show ?thesis
    unfolding scan_effect_def using scan_inv_black [OF inv p n] by simp
qed

subsection \<open>One step\<close>

lemma os_get_node:
  assumes "has st (OB h)"
  obtains x where "os_get st h = Some x" "os_refcount x = rc st (OB h)" "os_buffered x = ref st (OB h)" "object_buckets st \<noteq> None"
  using assms has_OB_buckets [OF assms] by (auto simp: node_simps)

lemma object_scan_white:
  assumes inv: "scan_inv hs st0 G b st" and h: "OB h \<in> G" "col st (OB h) = GC_GREY" "rc st (OB h) = 0"
  obtains cs where "gc_object_props h (hs h) (set_col (OB h) GC_WHITE st) = Some cs" "set cs \<subseteq> ptrs st0 G"
    "scan_effect hs st0 G b {OB h} st (set (edges st0 cs)) (set_col (OB h) GC_WHITE st)"
proof -
  note d = scan_invD [OF inv]
  have "col st (OB h) \<noteq> GC_WHITE" using h(2) by simp
  then obtain cs where cs: "gc_object_props h (hs h) (set_col (OB h) GC_WHITE st) = Some cs"
    "colour_effect GC_WHITE 0 hs st0 G {OB h} st cs (set_col (OB h) GC_WHITE st) {OB h}"
    by (rule object_paints [OF d(1,2,5) h(1)])
  have "gc_object_props h (hs h) st0 = gc_object_props h (hs h) (set_col (OB h) GC_WHITE st)"
    using same_graph_props [OF same_graph_trans [OF d(5) same_graph_nmap [OF region_has [OF d(2,5) h(1)]]]] by metis
  then have "kids hs st0 (OB h) = edges st0 cs" using cs(1) by (simp add: kids_OB)
  then show thesis using that [OF cs(1)] cs(2) scan_effect_white [OF inv h] by (simp add: colour_effect_def)
qed

definition scan_object :: "handle \<Rightarrow> addr \<Rightarrow> zgc \<Rightarrow> (addr list \<times> zgc) option" where
  "scan_object h hs st =
     do {
       b \<leftarrow> os_get st h;
       if gc_color (os_buffered b) = GC_GREY then
         if os_refcount b > 0 then do { st \<leftarrow> zobj_scan_black h hs st; Some ([], st) }
         else do {
           st \<leftarrow> GC_OBJ_SET_COLOR h GC_WHITE st;
           p \<leftarrow> gc_object_props h hs st;
           Some (p, st)
         }
       else Some ([], st)
     }"

lemma scan_object_effect:
  assumes inv: "scan_inv hs st0 G b st" and h: "OB h \<in> G"
  shows "\<exists>cs st'. scan_object h (hs h) st = Some (cs, st') \<and> set cs \<subseteq> ptrs st0 G \<and> (cs \<noteq> [] \<longrightarrow> OB h \<notin> scanned G st) \<and>
    scan_effect hs st0 G b {OB h} st (set (edges st0 cs)) st'"
proof -
  note d = scan_invD [OF inv]
  have o: "has st (OB h)" by (rule region_has [OF d(2,5) h])
  obtain x where x: "os_get st h = Some x" "os_refcount x = rc st (OB h)" "os_buffered x = ref st (OB h)" "object_buckets st \<noteq> None"
    by (rule os_get_node [OF o])
  consider "col st (OB h) \<noteq> GC_GREY" | (black) "col st (OB h) = GC_GREY" "rc st (OB h) \<noteq> 0"
    | (white) "col st (OB h) = GC_GREY" "rc st (OB h) = 0" by blast
  then show ?thesis
  proof cases
    case 1
    then show ?thesis using x h scan_effect_known [OF inv, of "{OB h}"] by (simp add: scan_object_def scanned_def)
  next
    case black
    obtain st' where "zobj_scan_black h (hs h) st = Some st'" "painting GC_BLACK 1 hs st0 G {OB h} st st'"
      using zobj_scan_black_paints [OF d(1,2,5) h] black(1) by auto
    moreover have "rc b (OB h) \<noteq> 0" using scan_inv_rc [OF inv h] black by simp
    ultimately show ?thesis
      using x h black scan_effect_black [OF inv, of "OB h" st'] by (simp add: scan_object_def word_gt_0)
  next
    case white
    obtain cs where "gc_object_props h (hs h) (set_col (OB h) GC_WHITE st) = Some cs" "set cs \<subseteq> ptrs st0 G"
      "scan_effect hs st0 G b {OB h} st (set (edges st0 cs)) (set_col (OB h) GC_WHITE st)"
      by (rule object_scan_white [OF inv h white])
    then show ?thesis using x h white o by (simp add: scan_object_def gc_prims scanned_def)
  qed
qed

text \<open>A zval without references left: white, then its elements or its object.\<close>

lemma zval_scan_white_effect:
  assumes inv: "scan_inv hs st0 G b st" and a: "ZV a \<in> G" "col st (ZV a) = GC_GREY" "rc st (ZV a) = 0"
    and step: "zval_scan_step a st = (case z_value (the (zvals st0 a)) of
         IS_OBJECT h k \<Rightarrow> if object_buckets st0 = None then Some ([], st1) else scan_object h k st1
       | IS_ARRAY ht \<Rightarrow> do { p \<leftarrow> tables st0 ht; Some (p, st1) }
       | _ \<Rightarrow> Some ([], st1))" and st1: "st1 = set_col (ZV a) GC_WHITE st"
  shows "\<exists>cs st'. zval_scan_step a st = Some (cs, st') \<and> set cs \<subseteq> ptrs st0 G \<and> scan_effect hs st0 G b {ZV a} st (set (edges st0 cs)) st'"
proof -
  note d = scan_invD [OF inv]
  note w = scan_effect_white [OF inv a, folded st1]
  have dm: "a \<in> dom (zvals st0)" "\<not> symtab st0 a" using a(1) d(6) by (auto simp: nodes_ZV)
  show ?thesis
  proof (cases "z_value (the (zvals st0 a))")
    case (IS_ARRAY ht)
    then have ht: "ht \<noteq> symbol_table st0" using dm(2) by (simp add: symtab_value)
    have k: "kids hs st0 (ZV a) = edges st0 (the (tables st0 ht))" using IS_ARRAY ht by (simp add: kids_ZV)
    have "set (the (tables st0 ht)) \<subseteq> ptrs st0 G"
      using heap_array(2) [OF d(1) dm(1) IS_ARRAY ht] region_kids [OF d(2) a(1)] k by (auto simp: ptrs_edges)
    then show ?thesis using IS_ARRAY step heap_array(1) [OF d(1) dm(1) IS_ARRAY ht] w k by auto
  next
    case (IS_OBJECT h k)
    show ?thesis
    proof (cases "object_buckets st0 = None")
      case True
      then show ?thesis using IS_OBJECT step w by (simp add: kids_ZV)
    next
      case False
      have ks: "kids hs st0 (ZV a) = [OB h]" using IS_OBJECT False by (simp add: kids_ZV)
      then have o: "OB h \<in> G" using region_kids [OF d(2) a(1)] by simp
      have inv1: "scan_inv hs st0 G b st1" using w by (simp add: scan_effect_def)
      obtain cs st' where s: "scan_object h (hs h) st1 = Some (cs, st')" "set cs \<subseteq> ptrs st0 G"
        "scan_effect hs st0 G b {OB h} st1 (set (edges st0 cs)) st'"
        using scan_object_effect [OF inv1 o] by blast
      have "scan_effect hs st0 G b {ZV a} st (set (edges st0 cs)) st'"
        using scan_effect_trans [OF w] s(3) ks by simp
      then show ?thesis using IS_OBJECT False step s heap_object(1) [OF d(1) dm(1) IS_OBJECT False] by auto
    qed
  qed (use step w in \<open>simp_all add: kids_ZV\<close>)
qed

lemma scan_inv_symtab: "scan_inv hs st0 G b st \<Longrightarrow> symtab st0 a \<Longrightarrow> has st0 (ZV a) \<Longrightarrow> col st (ZV a) \<noteq> GC_GREY"
  by (auto simp: scan_inv_def)

lemma scan_inv_grey:
  assumes "scan_inv hs st0 G b st" "pz \<in> ptrs st0 G" "col st (ZV pz) = GC_GREY"
  shows "ZV pz \<in> G" "\<not> symtab st0 pz"
  using assms scan_inv_symtab [OF assms(1), of pz] by (auto simp: ptrs_def has.simps)

lemma zval_scan_step_effect:
  assumes inv: "scan_inv hs st0 G b st" and pz: "pz \<in> ptrs st0 G"
  shows "\<exists>cs st'. zval_scan_step pz st = Some (cs, st') \<and> set cs \<subseteq> ptrs st0 G \<and>
    (cs \<noteq> [] \<longrightarrow> ZV pz \<in> G - scanned G st) \<and> scan_effect hs st0 G b (set (edges st0 [pz])) st (set (edges st0 cs)) st'"
proof -
  note d = scan_invD [OF inv]
  obtain z where z: "zvals st pz = Some z" "z_value z = z_value (the (zvals st0 pz))" "is_symbol_table st z = symtab st0 pz"
    by (rule read_zval [OF d(5) ptrs_dom [OF pz]])
  have h: "has st (ZV pz)" using z by (auto simp: node_simps)
  have rcz: "refcount__gc z = rc st (ZV pz)" using z by (simp add: rc.simps)
  show ?thesis
  proof (cases "col st (ZV pz) = GC_GREY")
    case False
    then have "set (edges st0 [pz]) \<subseteq> scanned G st" using pz by (auto simp: edges_single scanned_def ptrs_def)
    then show ?thesis
      using False h scan_effect_known [OF inv, of "set (edges st0 [pz])"] by (simp add: zval_scan_step_def gc_prims)
  next
    case grey: True
    note a = scan_inv_grey [OF inv pz grey]
    have e: "edges st0 [pz] = [ZV pz]" using a(2) by (simp add: edges_single)
    have unscanned: "ZV pz \<in> G - scanned G st" using grey a(1) by (simp add: scanned_def)
    show ?thesis
    proof (cases "rc st (ZV pz) = 0")
      case False
      have "col st (ZV pz) \<noteq> GC_BLACK" using grey by simp
      then obtain st' where "zval_scan_black pz st = Some st'" "painting GC_BLACK 1 hs st0 G {ZV pz} st st'"
        using zval_scan_black_paints [OF d(1,2,5) pz] e by auto
      moreover have "rc b (ZV pz) \<noteq> 0" using scan_inv_rc [OF inv a(1)] grey False by simp
      ultimately show ?thesis
        using z rcz h grey False e scan_effect_black [OF inv, of "ZV pz" st'] a(1)
        by (simp add: zval_scan_step_def gc_prims word_gt_0)
    next
      case zero: True
      let ?st = "set_col (ZV pz) GC_WHITE st"
      have g: "same_graph st0 ?st" using same_graph_trans [OF d(5) same_graph_nmap [OF h]] .
      then have eqs: "symbol_table st = symbol_table st0" "tables st = tables st0" "object_buckets ?st = None \<longleftrightarrow> object_buckets st0 = None"
        using d(5) by (simp_all add: same_graph_def)
      have "zval_scan_step pz st = (case z_value (the (zvals st0 pz)) of
         IS_OBJECT h k \<Rightarrow> if object_buckets st0 = None then Some ([], ?st) else scan_object h k ?st
       | IS_ARRAY ht \<Rightarrow> do { p \<leftarrow> tables st0 ht; Some (p, ?st) }
       | _ \<Rightarrow> Some ([], ?st))"
        using z rcz h grey zero eqs a(2)
        by (auto simp: zval_scan_step_def gc_prims scan_object_def symtab_value split: zvalue.split)
      from zval_scan_white_effect [OF inv a(1) grey zero this refl]
      show ?thesis using e unscanned by auto
    qed
  qed
qed

interpretation scan: gc_walking zval_scan_step "scan_inv hs st0 G b" "scanned G" G "ptrs st0 G" "edges st0" "kids hs st0" UNIV
  for hs st0 G b
proof (unfold_locales, goal_cases)
  case (1 st)
  then show ?case by (auto dest: scan_invD intro: finite_region)
next
  case (5 st pz)
  obtain cs st' where s: "zval_scan_step pz st = Some (cs, st')" "set cs \<subseteq> ptrs st0 G"
    "cs \<noteq> [] \<longrightarrow> ZV pz \<in> G - scanned G st" "scan_effect hs st0 G b (set (edges st0 [pz])) st (set (edges st0 cs)) st'"
    using zval_scan_step_effect [OF 5] by blast
  note e = s(4) [unfolded scan_effect_def]
  have "scanned G st \<noteq> scanned G st'" if "cs \<noteq> []"
  proof -
    have "ZV pz \<in> G" "ZV pz \<notin> scanned G st" using s(3) that by blast+
    moreover have "\<not> symtab st0 pz" using calculation(1) scan_invD(6) [OF 5(1)] by (auto simp: nodes_ZV)
    ultimately show ?thesis using e by (auto simp: edges_single)
  qed
  then show ?case using s(1,2) e unfolding graph_def by (intro exI [of _ cs] exI [of _ st']) simp
qed (auto simp: scanned_def edges_Cons [symmetric])

text \<open>A walk finishes what it was given.\<close>

lemma scan_walk_effect:
  assumes "scan_inv hs st0 G b st" "set ps \<subseteq> ptrs st0 G"
  shows "\<exists>st'. gc_walk zval_scan_step ps st = Some st' \<and> scan_effect hs st0 G b (set (edges st0 ps)) st {} st'"
proof -
  obtain st' where "gc_walk zval_scan_step ps st = Some st'" "scan.walked hs st0 G b ps st st'"
    using scan.walk_returns [OF assms order_refl] by blast
  then show ?thesis unfolding scan.walked_def scan_effect_def graph_def by auto
qed

lemma zval_scan_effect:
  assumes "scan_inv hs st0 G b st" "pz \<in> ptrs st0 G"
  shows "\<exists>st'. zval_scan pz st = Some st' \<and> scan_effect hs st0 G b (set (edges st0 [pz])) st {} st'"
  using scan_walk_effect [OF assms(1), of "[pz]"] assms(2) by (simp add: zval_scan_def)

lemma zobj_scan_effect:
  assumes inv: "scan_inv hs st0 G b st" and h: "OB h \<in> G"
  shows "\<exists>st'. zobj_scan h (hs h) st = Some st' \<and> scan_effect hs st0 G b {OB h} st {} st'"
proof -
  have "object_buckets st \<noteq> None" using has_OB_buckets [OF region_has [OF scan_invD(2,5) [OF inv] h]] .
  then have eq: "zobj_scan h (hs h) st = do { (cs, st') \<leftarrow> scan_object h (hs h) st; gc_walk zval_scan_step cs st' }"
    by (auto simp: zobj_scan_def scan_object_def gc_walk.simps [of _ "[]"] bind_assoc split: Option.bind_split)
  obtain cs st1 where s: "scan_object h (hs h) st = Some (cs, st1)" "set cs \<subseteq> ptrs st0 G"
    "scan_effect hs st0 G b {OB h} st (set (edges st0 cs)) st1"
    using scan_object_effect [OF inv h] by blast
  have "scan_inv hs st0 G b st1" using s(3) by (simp add: scan_effect_def)
  from scan_walk_effect [OF this s(2)] show ?thesis using eq s(1) scan_effect_trans [OF s(3)] by auto
qed

subsection \<open>The scan phase over the root buffer\<close>

lemma reach_closed: "r `` X \<subseteq> X \<Longrightarrow> A \<subseteq> X \<Longrightarrow> r\<^sup>* `` A \<subseteq> X"
  using Image_closed_trancl [of r X] Image_mono [of "r\<^sup>*" "r\<^sup>*" A X] by auto

lemma marking_region:
  assumes "heap_ok hs st0" "marking hs st0 rest b"
  shows "region hs st0 (grey st0 b)"
  using assms(2) by (auto simp: region_def marking_def greyed_def painted_def)

lemma scan_start:
  assumes heap: "heap_ok hs st0" and m: "marking hs st0 rest b" and c: "\<forall>n. has st0 n \<longrightarrow> col st0 n \<in> {GC_BLACK, GC_PURPLE}"
  shows "scan_inv hs st0 (grey st0 b) b b"
proof -
  have g: "same_graph st0 b" using m by (simp add: marking_def)
  have "painted GC_BLACK (grey st0 b) b = {}" "painted GC_WHITE (grey st0 b) b = {}" by (auto simp: painted_def)
  moreover have "if n \<in> grey st0 b then col b n \<noteq> GC_PURPLE else col b n = col b n \<and> col b n \<noteq> GC_GREY" if "n \<in> nodes st0" for n
    using that by (auto simp: painted_def)
  moreover have "col b (ZV a) \<in> {GC_BLACK, GC_PURPLE}" if "symtab st0 a" "has st0 (ZV a)" for a
  proof -
    have "greyed hs st0 b" using m by (simp add: marking_def)
    then have "col b (ZV a) \<in> {GC_BLACK, col st0 (ZV a)}" using that unfolding greyed_def by blast
    then show ?thesis using c that(2) by auto
  qed
  ultimately show ?thesis
    using heap marking_region [OF heap m] g by (simp add: scan_inv_def)
qed

definition scanning :: "(handle \<Rightarrow> addr) \<Rightarrow> zgc \<Rightarrow> gc_node set \<Rightarrow> zgc \<Rightarrow> nat list \<Rightarrow> zgc \<Rightarrow> bool" where
  "scanning hs st0 G b rest st \<longleftrightarrow> scan_inv hs st0 G b st \<and> set rest \<subseteq> set (gc_roots b) \<and>
     roots st0 (set (gc_roots b) - set rest) \<subseteq> scanned G st \<and> (\<forall>m \<in> scanned G st. set (kids hs st0 m) \<subseteq> scanned G st)"

lemma scanning_effect:
  assumes s: "scanning hs st0 G b (i # rest) st" and e: "scan_effect hs st0 G b ({root_of st0 i} \<inter> nodes st0) st {} st'"
  shows "scanning hs st0 G b rest st'"
proof -
  note sd = s [unfolded scanning_def] and ed = e [unfolded scan_effect_def]
  have "roots st0 (set (gc_roots b) - set rest) \<subseteq> roots st0 (set (gc_roots b) - set (i # rest)) \<union> ({root_of st0 i} \<inter> nodes st0)"
    by (auto simp: roots_def)
  also have "\<dots> \<subseteq> scanned G st'"
    using sd ed by (meson Un_least order_trans)
  finally have "roots st0 (set (gc_roots b) - set rest) \<subseteq> scanned G st'" .
  moreover have "set (kids hs st0 m) \<subseteq> scanned G st'" if "m \<in> scanned G st'" for m
  proof (cases "m \<in> scanned G st")
    case True
    then have "set (kids hs st0 m) \<subseteq> scanned G st" using sd by blast
    then show ?thesis using ed by blast
  next
    case False
    then show ?thesis using ed that by blast
  qed
  ultimately show ?thesis using sd ed by (simp add: scanning_def)
qed

lemma gc_scan_roots_loop_scans:
  assumes m: "marking hs st0 [] b" and s: "scanning hs st0 (grey st0 b) b rest st"
  shows "\<exists>st'. gc_scan_roots_loop rest st = Some st' \<and> scanning hs st0 (grey st0 b) b [] st'"
  using s
proof (induction rest arbitrary: st)
  case Nil
  then show ?case by simp
next
  case (Cons i rest)
  let ?e = "gc_buf st0 i" and ?r = "root_of st0 i" and ?G = "grey st0 b"
  have inv: "scan_inv hs st0 ?G b st" and i: "i \<in> set (gc_roots b)" using Cons.prems by (simp_all add: scanning_def)
  note d = scan_invD [OF inv]
  have buf: "gc_buf st = gc_buf st0" using m d(4) by (simp add: marking_def gc_frame_def)
  have bok: "buffer_ok hs b" "gc_buf b = gc_buf st0" "same_graph st0 b" "roots st0 (set (gc_roots b)) \<subseteq> ?G"
    using m by (simp_all add: marking_def)
  then have b: "has b ?r" "rb_handle ?e \<noteq> 0 \<Longrightarrow> rb_u ?e = hs (rb_handle ?e)"
    using i by (auto simp: buffer_ok_def root_of_def)
  then have h: "has st0 ?r" using same_graph_has [OF bok(3)] by simp
  have G: "{?r} \<inter> nodes st0 \<subseteq> ?G" using bok(4) i by (auto simp: roots_def)
  have "\<exists>st'. gc_scan_roots_loop (i # rest) st = gc_scan_roots_loop rest st' \<and> scan_effect hs st0 ?G b ({?r} \<inter> nodes st0) st {} st'"
  proof (cases "rb_handle ?e = 0")
    case True
    then have r: "?r = ZV (rb_u ?e)" by (simp add: root_of_def)
    have "ZV (rb_u ?e) \<in> nodes st0 \<Longrightarrow> ZV (rb_u ?e) \<in> ?G" using G r by auto
    then have p: "rb_u ?e \<in> ptrs st0 ?G" using h r by (auto simp: ptrs_def node_simps nodes_ZV)
    have "set (edges st0 [rb_u ?e]) = {?r} \<inter> nodes st0" using h r by (auto simp: edges_single nodes_ZV node_simps)
    then show ?thesis using zval_scan_effect [OF inv p] buf True by auto
  next
    case False
    then have r: "?r = OB (rb_handle ?e)" by (simp add: root_of_def Let_def)
    then have n: "OB (rb_handle ?e) \<in> nodes st0" using h by (simp add: nodes_OB)
    then show ?thesis using zobj_scan_effect [OF inv, of "rb_handle ?e"] G r buf False b(2) by auto
  qed
  then show ?case using scanning_effect [OF Cons.prems] Cons.IH by metis
qed

text \<open>After the phase every grey node is black, when a node with outside references reaches it,
  or white.\<close>

lemma gc_scan_roots_spec:
  assumes heap: "heap_ok hs st0" and m: "marking hs st0 [] b" and c: "\<forall>n. has st0 n \<longrightarrow> col st0 n \<in> {GC_BLACK, GC_PURPLE}"
  defines "G \<equiv> grey st0 b" and "L \<equiv> (graph hs st0)\<^sup>* `` {n \<in> grey st0 b. rc b n \<noteq> 0}"
  shows "\<exists>st'. gc_scan_roots b = Some st' \<and> scan_inv hs st0 G b st' \<and> painted GC_BLACK G st' = L \<and> painted GC_WHITE G st' = G - L"
proof -
  note inv0 = scan_start [OF heap m c, folded G_def]
  have md: "G \<subseteq> (graph hs st0)\<^sup>* `` roots st0 (set (gc_roots b))" using m unfolding marking_def G_def by simp
  have "scanned G b = {}" by (auto simp: scanned_def G_def painted_def)
  then have "scanning hs st0 G b (gc_roots b) b" using inv0 by (simp add: scanning_def roots_def)
  then obtain st' where st': "gc_scan_roots b = Some st'" "scanning hs st0 G b [] st'"
    using gc_scan_roots_loop_scans [OF m] unfolding gc_scan_roots_def G_def by blast
  have inv: "scan_inv hs st0 G b st'" and s: "roots st0 (set (gc_roots b)) \<subseteq> scanned G st'"
      "graph hs st0 `` scanned G st' \<subseteq> scanned G st'"
    using st'(2) by (auto simp: scanning_def graph_def)
  have "(graph hs st0)\<^sup>* `` roots st0 (set (gc_roots b)) \<subseteq> scanned G st'"
    by (rule reach_closed [OF s(2,1)])
  then have "G \<subseteq> scanned G st'" using md by (rule order_trans [rotated])
  then have all: "scanned G st' = G" by (auto simp: scanned_def)
  let ?B = "painted GC_BLACK G st'" and ?E = "{n \<in> G. rc b n \<noteq> 0}"
  have cols: "col st' n \<in> {GC_BLACK, GC_WHITE}" if "n \<in> G" for n
  proof -
    have "col st' n \<noteq> GC_GREY" using all that by (auto simp: scanned_def)
    moreover have "n \<in> nodes st0" using scan_invD(6) [OF inv] that by blast
    then have "col st' n \<noteq> GC_PURPLE" using inv that by (auto simp: scan_inv_def)
    ultimately show ?thesis by (cases "col st' n") auto
  qed
  have "\<forall>n \<in> painted GC_WHITE G st'. rc b n = 0" using inv by (simp add: scan_inv_def)
  then have "?E \<subseteq> ?B" using cols by (auto simp: painted_def)
  moreover have "graph hs st0 `` ?B \<subseteq> ?B" using inv by (auto simp: scan_inv_def graph_def)
  ultimately have "L \<subseteq> ?B" unfolding L_def G_def [symmetric] using reach_closed by metis
  moreover have "?B \<subseteq> L" using inv unfolding scan_inv_def L_def G_def [symmetric] by simp
  ultimately have B: "?B = L" by blast
  moreover have "painted GC_WHITE G st' = G - ?B" using cols by (fastforce simp: painted_def)
  ultimately show ?thesis using st'(1) inv by auto
qed

end
