(* ===== verification/Gc_Collect.thy ===== *)
theory Gc_Collect
  imports Gc_Scan
begin

text \<open>
  The collect phase: the white nodes are taken, the zvals among them listed to be freed with one
  reference held on each, and the references of their elements given back. A white root is left
  alone until its own entry of the buffer is reached.
\<close>

subsection \<open>Taking one node\<close>

definition taken :: "addr \<Rightarrow> zgc \<Rightarrow> zgc" where
  "taken a st = (nmap (ZV a) (\<lambda>x. x + 1) (\<lambda>_. \<lparr>gc_color = GC_BLACK, gc_addr = zval_to_free st\<rparr>) st)\<lparr>zval_to_free := Next (Some a)\<rparr>"

lemma free_update [simp]:
  "ref (st\<lparr>zval_to_free := p\<rparr>) n = ref st n" "rc (st\<lparr>zval_to_free := p\<rparr>) n = rc st n" "has (st\<lparr>zval_to_free := p\<rparr>) n = has st n"
  "same_graph st (st\<lparr>zval_to_free := p\<rparr>)"
proof -
  have o: "os_get (st\<lparr>zval_to_free := p\<rparr>) h = os_get st h" for h by (simp add: os_get_def)
  then show "ref (st\<lparr>zval_to_free := p\<rparr>) n = ref st n" "rc (st\<lparr>zval_to_free := p\<rparr>) n = rc st n" "has (st\<lparr>zval_to_free := p\<rparr>) n = has st n"
    by (cases n; simp add: node_simps)+
  show "same_graph st (st\<lparr>zval_to_free := p\<rparr>)" using o by (simp add: same_graph_def)
qed

lemma taken_simps [simp]:
  assumes "has st (ZV a)"
  shows "ref (taken a st) n = (if n = ZV a then \<lparr>gc_color = GC_BLACK, gc_addr = zval_to_free st\<rparr> else ref st n)"
    "rc (taken a st) n = (if n = ZV a then rc st n + 1 else rc st n)" "has (taken a st) n = has st n"
    "same_graph st (taken a st)" "zval_to_free (taken a st) = Next (Some a)"
    "gc_roots (taken a st) = gc_roots st" "gc_buf (taken a st) = gc_buf st" "gc_unused (taken a st) = gc_unused st"
  using assms same_graph_trans [OF same_graph_nmap free_update(4)] by (simp_all add: taken_def)

lemma taken_code:
  assumes "has st (ZV a)" "zval_to_free st = q"
  shows "zv_upd a (zv_buffered_update (\<lambda>_. \<lparr>gc_color = GC_BLACK, gc_addr = q\<rparr>)) (add_rc (ZV a) 1 st) \<bind>
    (\<lambda>st. Some (p, st\<lparr>zval_to_free := Next (Some a)\<rparr>)) = Some (p, taken a st)"
  using assms by (auto simp: zv_upd_def poke_def taken_def nmap.simps node_simps)

definition collected :: "zgc \<Rightarrow> addr \<Rightarrow> zgc \<Rightarrow> addr list \<times> zgc" where
  "collected st0 a st =
     (if ref st (ZV a) \<noteq> gc_white then ([], st)
      else let st1 = set_col (ZV a) GC_BLACK st in
        case z_value (the (zvals st0 a)) of
          IS_OBJECT h hs \<Rightarrow>
            if object_buckets st0 = None \<or> ref st (OB h) \<noteq> gc_white then ([], taken a st1)
            else (the (gc_object_props h hs st0), taken a (set_col (OB h) GC_PURPLE st1))
        | IS_ARRAY ht \<Rightarrow> (the (tables st0 ht), taken a st1)
        | _ \<Rightarrow> ([], taken a st1))"

text \<open>Every object with a property function has a property table.\<close>

definition props_ok :: "(handle \<Rightarrow> addr) \<Rightarrow> zgc \<Rightarrow> bool" where
  "props_ok hs st \<longleftrightarrow> (\<forall>h f. os_get st h \<noteq> None \<longrightarrow> get_properties st (hs h) = Some f \<longrightarrow> f h \<noteq> None)"

lemma same_graph_missing:
  assumes "same_graph st0 st" "props_ok hs st0" "has st (OB h)"
  shows "gc_props_missing h (hs h) st = Some False"
proof -
  obtain x where x: "os_get st h = Some x" by (rule os_get_node [OF assms(3)])
  moreover have "os_get st0 h \<noteq> None" using same_graph_os [OF assms(1)] x by (metis option.distinct(1))
  moreover have "get_properties st = get_properties st0" using assms(1) by (simp add: same_graph_def)
  ultimately show ?thesis using assms(2) by (auto simp: gc_props_missing_def props_ok_def split: option.split)
qed

lemma collect_enter_eq:
  assumes heap: "heap_ok hs st0" and po: "props_ok hs st0" and g: "same_graph st0 st" and pz: "pz \<in> dom (zvals st0)"
    and sym: "symtab st0 pz \<Longrightarrow> col st (ZV pz) \<noteq> GC_WHITE"
  shows "zval_collect_white_enter pz st = Some (collected st0 pz st)"
proof (cases "ref st (ZV pz) = gc_white")
  case False
  obtain z where "zvals st pz = Some z" by (rule read_zval [OF g pz])
  then show ?thesis using False by (simp add: zval_collect_white_enter_def collected_def ref.simps)
next
  case w: True
  obtain z where z: "zvals st pz = Some z" "z_value z = z_value (the (zvals st0 pz))" by (rule read_zval [OF g pz])
  then have h: "has st (ZV pz)" by (auto simp: node_simps)
  have wz: "zv_buffered z = gc_white" using w z(1) by (simp add: ref.simps)
  let ?st = "set_col (ZV pz) GC_BLACK st"
  have g1: "same_graph st0 ?st" by (rule same_graph_trans [OF g same_graph_nmap [OF h]])
  have eqs: "tables st = tables st0" "object_buckets ?st = None \<longleftrightarrow> object_buckets st0 = None"
    using g1 by (simp_all add: same_graph_def)
  have ns: "\<not> symtab st0 pz" using sym w by (auto simp: gc_white_def)
  note defs = zval_collect_white_enter_def collected_def gc_prims taken_code
  show ?thesis
  proof (cases "z_value (the (zvals st0 pz))")
    case (IS_ARRAY ht)
    then have "ht \<noteq> symbol_table st0" using ns by (simp add: symtab_value)
    from heap_array(1) [OF heap pz IS_ARRAY this] show ?thesis using IS_ARRAY z wz w h eqs by (auto simp: defs)
  next
    case (IS_OBJECT h' k)
    show ?thesis
    proof (cases "object_buckets st0 = None")
      case True
      then show ?thesis using IS_OBJECT z wz w h eqs by (auto simp: defs)
    next
      case False
      note ob = heap_object [OF heap pz IS_OBJECT False]
      have o: "has ?st (OB h')" using ob(2) same_graph_has [OF g1] by simp
      obtain x where x: "os_get ?st h' = Some x" "os_buffered x = ref ?st (OB h')" by (rule os_get_node [OF o])
      let ?st2 = "set_col (OB h') GC_PURPLE ?st"
      have g2: "same_graph st0 ?st2" by (rule same_graph_trans [OF g1 same_graph_nmap [OF o]])
      have "has ?st2 (OB h')" using o by simp
      note miss = same_graph_missing [OF g2 po this]
      have "gc_object_props h' (hs h') ?st2 = Some (the (gc_object_props h' (hs h') st0))"
        using same_graph_props [OF g2] heap_props(1) [OF heap ob(2)] by metis
      then show ?thesis using IS_OBJECT False z wz w h eqs x o miss ob(1) by (auto simp: defs)
    qed
  qed (use z wz w h eqs in \<open>auto simp: defs\<close>)
qed

subsection \<open>The list of zvals to free\<close>

fun free_chain :: "zgc \<Rightarrow> gc_addr \<Rightarrow> addr list \<Rightarrow> bool" where
  "free_chain st p [] \<longleftrightarrow> p = Next None"
| "free_chain st p (a # xs) \<longleftrightarrow> p = Next (Some a) \<and> free_chain st (gc_addr (ref st (ZV a))) xs"

fun is_Next :: "gc_addr \<Rightarrow> bool" where
  "is_Next (Next q) \<longleftrightarrow> True"
| "is_Next p \<longleftrightarrow> False"

definition list_ok :: "zgc \<Rightarrow> zgc \<Rightarrow> bool" where
  "list_ok st0 st \<longleftrightarrow> (\<exists>xs. free_chain st (zval_to_free st) xs \<and> distinct xs \<and>
     set xs = {a. ZV a \<in> nodes st0 \<and> is_Next (gc_addr (ref st (ZV a)))})"

lemma free_chain_frame:
  "free_chain st p xs \<Longrightarrow> (\<And>a. a \<in> set xs \<Longrightarrow> gc_addr (ref st' (ZV a)) = gc_addr (ref st (ZV a))) \<Longrightarrow> free_chain st' p xs"
  by (induction xs arbitrary: p) auto

lemma list_ok_frame:
  assumes "list_ok st0 st" "\<And>a. gc_addr (ref st' (ZV a)) = gc_addr (ref st (ZV a))" "zval_to_free st' = zval_to_free st"
  shows "list_ok st0 st'"
proof -
  obtain xs where xs: "free_chain st (zval_to_free st) xs" "distinct xs"
    "set xs = {a. ZV a \<in> nodes st0 \<and> is_Next (gc_addr (ref st (ZV a)))}" using assms(1) by (auto simp: list_ok_def)
  have "free_chain st' (zval_to_free st') xs" using free_chain_frame [OF xs(1)] assms(2,3) by simp
  then show ?thesis using xs(2,3) assms(2) unfolding list_ok_def by auto
qed

lemma list_ok_taken:
  assumes l: "list_ok st0 st" and h: "has st (ZV a)" and a: "ZV a \<in> nodes st0" "\<not> is_Next (gc_addr (ref st (ZV a)))"
  shows "list_ok st0 (taken a st)"
proof -
  obtain xs where xs: "free_chain st (zval_to_free st) xs" "distinct xs"
    "set xs = {a. ZV a \<in> nodes st0 \<and> is_Next (gc_addr (ref st (ZV a)))}" using l by (auto simp: list_ok_def)
  have n: "a \<notin> set xs" using a(2) xs(3) by simp
  have "free_chain (taken a st) (zval_to_free st) xs" by (rule free_chain_frame [OF xs(1)]) (use n h in auto)
  then have "free_chain (taken a st) (zval_to_free (taken a st)) (a # xs)" using h by simp
  moreover have "is_Next (zval_to_free st)" using xs(1) by (cases xs) auto
  then have "set (a # xs) = {c. ZV c \<in> nodes st0 \<and> is_Next (gc_addr (ref (taken a st) (ZV c)))}"
    using xs(3) a h by auto
  moreover have "distinct (a # xs)" using n xs(2) by simp
  ultimately show ?thesis unfolding list_ok_def by blast
qed

lemma list_ok_next: "list_ok st0 st \<Longrightarrow> is_Next (zval_to_free st)"
proof -
  assume "list_ok st0 st"
  then obtain xs where "free_chain st (zval_to_free st) xs" by (auto simp: list_ok_def)
  then show "is_Next (zval_to_free st)" by (cases xs) auto
qed

subsection \<open>One step\<close>

fun took :: "gc_node \<Rightarrow> zgc \<Rightarrow> bool" where
  "took (ZV a) st \<longleftrightarrow> col st (ZV a) = GC_BLACK \<and> is_Next (gc_addr (ref st (ZV a)))"
| "took (OB h) st \<longleftrightarrow> ref st (OB h) = \<lparr>gc_color = GC_PURPLE, gc_addr = Null\<rparr>"

lemma took_not_white: "took n st \<Longrightarrow> ref st n \<noteq> gc_white"
  by (cases n) (auto simp: gc_white_def)

text \<open>What a taken node gives back to \<open>n\<close>: its edges to zvals, and the reference held.\<close>

definition part :: "(handle \<Rightarrow> addr) \<Rightarrow> zgc \<Rightarrow> gc_node \<Rightarrow> gc_node \<Rightarrow> uint" where
  "part hs st0 m n = (case n of ZV a \<Rightarrow> of_bool (m = n) + cnt (kids hs st0 m) n | OB h \<Rightarrow> 0)"

definition collect_effect :: "(handle \<Rightarrow> addr) \<Rightarrow> zgc \<Rightarrow> gc_node set \<Rightarrow> gc_node set \<Rightarrow> zgc \<Rightarrow> addr list \<Rightarrow> zgc \<Rightarrow> gc_node set \<Rightarrow> bool" where
  "collect_effect hs st0 V ns st cs st' new \<longleftrightarrow>
     same_graph st st' \<and> gc_roots st' = gc_roots st \<and> gc_buf st' = gc_buf st \<and> gc_unused st' = gc_unused st \<and>
     (list_ok st0 st \<longrightarrow> list_ok st0 st') \<and>
     set cs \<subseteq> dom (zvals st0) \<and> (cs \<noteq> [] \<longrightarrow> new \<noteq> {}) \<and> new \<subseteq> V \<and>
     (\<forall>n \<in> new. ref st n = gc_white \<and> (list_ok st0 st \<longrightarrow> took n st')) \<and> (\<forall>n. n \<notin> new \<longrightarrow> ref st' n = ref st n) \<and>
     (\<forall>n \<in> nodes st0. rc st' n = rc st n + (\<Sum>m \<in> new. part hs st0 m n) - cnt (edges st0 cs) n) \<and>
     (\<forall>n \<in> ns \<inter> V. ref st' n \<noteq> gc_white) \<and>
     (\<forall>m \<in> new. set (kids hs st0 m) \<inter> V \<subseteq> {n. ref st' n \<noteq> gc_white} \<union> set (edges st0 cs)) \<and>
     new \<union> set (edges st0 cs) \<subseteq> (graph hs st0)\<^sup>* `` ns"

text \<open>\<open>V\<close> are the nodes that are white and have no entry of their own.\<close>

definition ready :: "zgc \<Rightarrow> zgc \<Rightarrow> gc_node set" where
  "ready st0 st = {n \<in> nodes st0. ref st n = gc_white}"

lemma edges_ZV: "OB h \<notin> set (edges st ps)"
  by (auto simp: edges_def)

lemma cnt_edges_OB [simp]: "cnt (edges st ps) (OB h) = 0"
  using edges_ZV [of h st ps] by (simp add: cnt_def)

lemma take_one:
  assumes g: "same_graph st0 st" and a: "ZV a \<in> V" "V \<subseteq> nodes st0" "ref st (ZV a) = gc_white"
    and k: "set cs \<subseteq> dom (zvals st0)" "kids hs st0 (ZV a) = edges st0 cs"
  shows "collect_effect hs st0 V {ZV a} st cs (taken a (set_col (ZV a) GC_BLACK st)) {ZV a}"
proof -
  have n: "ZV a \<in> nodes st0" using a by blast
  have h: "has st (ZV a)" using nodes_has [OF n] same_graph_has [OF g] by simp
  let ?X = "set_col (ZV a) GC_BLACK st"
  have X: "has ?X (ZV a)" "same_graph st ?X" using h by simp_all
  have "list_ok st0 (taken a ?X)" if "list_ok st0 st"
    by (rule list_ok_taken [OF list_ok_frame [OF that] X(1) n]) (use h a(3) in \<open>auto simp: gc_white_def\<close>)
  moreover have "took (ZV a) (taken a ?X)" if "list_ok st0 st"
    using list_ok_next [OF that] X(1) by simp
  moreover have "same_graph st (taken a ?X)" by (rule same_graph_trans [OF X(2) taken_simps(4) [OF X(1)]])
  moreover have "rc (taken a ?X) m = rc st m + (\<Sum>m' \<in> {ZV a}. part hs st0 m' m) - cnt (edges st0 cs) m" for m
    using h k(2) by (cases m) (auto simp: part_def)
  moreover have "set (edges st0 cs) \<subseteq> (graph hs st0)\<^sup>* `` {ZV a}" using k(2) by (auto simp: graph_def)
  ultimately show ?thesis
    unfolding collect_effect_def using h k a by (intro conjI) (auto simp: gc_white_def)
qed

lemma take_object_known:
  assumes g: "same_graph st0 st" and a: "ZV a \<in> V" "V \<subseteq> nodes st0" "ref st (ZV a) = gc_white"
    and k: "kids hs st0 (ZV a) = [OB h]" "ref st (OB h) \<noteq> gc_white"
  shows "collect_effect hs st0 V {ZV a} st [] (taken a (set_col (ZV a) GC_BLACK st)) {ZV a}"
proof -
  have n: "ZV a \<in> nodes st0" using a by blast
  have hz: "has st (ZV a)" using nodes_has [OF n] same_graph_has [OF g] by simp
  let ?X = "set_col (ZV a) GC_BLACK st"
  have X: "has ?X (ZV a)" "same_graph st ?X" using hz by simp_all
  have "list_ok st0 (taken a ?X)" if "list_ok st0 st"
    by (rule list_ok_taken [OF list_ok_frame [OF that] X(1) n]) (use hz a(3) in \<open>auto simp: gc_white_def\<close>)
  moreover have "took (ZV a) (taken a ?X)" if "list_ok st0 st"
    using list_ok_next [OF that] X(1) by simp
  moreover have "same_graph st (taken a ?X)" by (rule same_graph_trans [OF X(2) taken_simps(4) [OF X(1)]])
  moreover have "rc (taken a ?X) m = rc st m + (\<Sum>m' \<in> {ZV a}. part hs st0 m' m) - cnt (edges st0 []) m" for m
    using hz k(1) by (cases m) (auto simp: part_def)
  ultimately show ?thesis
    unfolding collect_effect_def using hz k a by (intro conjI) (auto simp: gc_white_def)
qed

lemma take_object:
  assumes g: "same_graph st0 st" and a: "ZV a \<in> V" "V \<subseteq> nodes st0" "ref st (ZV a) = gc_white"
    and h: "kids hs st0 (ZV a) = [OB h]" "ref st (OB h) = gc_white" "OB h \<in> V"
    and k: "set cs \<subseteq> dom (zvals st0)" "kids hs st0 (OB h) = edges st0 cs"
  shows "collect_effect hs st0 V {ZV a} st cs (taken a (set_col (OB h) GC_PURPLE (set_col (ZV a) GC_BLACK st))) {ZV a, OB h}"
proof -
  have n: "ZV a \<in> nodes st0" "OB h \<in> nodes st0" using a h(3) by blast+
  have hs: "has st (ZV a)" "has st (OB h)" using n nodes_has same_graph_has [OF g] by blast+
  let ?Y = "set_col (ZV a) GC_BLACK st" and ?X = "set_col (OB h) GC_PURPLE (set_col (ZV a) GC_BLACK st)"
  have X: "has ?X (ZV a)" "same_graph st ?X"
    using hs same_graph_trans [OF same_graph_nmap [OF hs(1)] same_graph_nmap [of ?Y "OB h"]] by simp_all
  have "list_ok st0 (taken a ?X)" if "list_ok st0 st"
    by (rule list_ok_taken [OF list_ok_frame [OF that] X(1) n(1)]) (use hs a(3) in \<open>auto simp: gc_white_def\<close>)
  moreover have "took (ZV a) (taken a ?X) \<and> took (OB h) (taken a ?X)" if "list_ok st0 st"
    using list_ok_next [OF that] X(1) hs h(2) by (simp add: gc_white_def)
  moreover have "same_graph st (taken a ?X)" by (rule same_graph_trans [OF X(2) taken_simps(4) [OF X(1)]])
  moreover have "rc (taken a ?X) m = rc st m + (\<Sum>m' \<in> {ZV a, OB h}. part hs st0 m' m) - cnt (edges st0 cs) m" for m
    using hs h k(2) by (cases m) (auto simp: part_def)
  moreover have e: "(ZV a, OB h) \<in> graph hs st0" "m \<in> set (edges st0 cs) \<Longrightarrow> (OB h, m) \<in> graph hs st0" for m
    using h k by (simp_all add: graph_def)
  then have "{ZV a, OB h} \<union> set (edges st0 cs) \<subseteq> (graph hs st0)\<^sup>* `` {ZV a}"
    by (auto intro: converse_rtrancl_into_rtrancl)
  ultimately show ?thesis
    unfolding collect_effect_def using hs h k a by (intro conjI) (auto simp: gc_white_def)
qed

lemma collect_effect_none:
  assumes "\<And>n. n \<in> ns \<inter> V \<Longrightarrow> ref st n \<noteq> gc_white"
  shows "collect_effect hs st0 V ns st [] st {}"
  using assms by (simp add: collect_effect_def)

lemma collected_effect:
  assumes heap: "heap_ok hs st0" and g: "same_graph st0 st" and V: "V \<subseteq> nodes st0" "\<And>n. n \<in> nodes st0 \<Longrightarrow> ref st n = gc_white \<Longrightarrow> n \<in> V"
    and pz: "pz \<in> dom (zvals st0)" and sym: "symtab st0 pz \<Longrightarrow> col st (ZV pz) \<noteq> GC_WHITE"
    and e: "collected st0 pz st = (cs, st')"
  shows "\<exists>new. collect_effect hs st0 V {ZV pz} st cs st' new"
proof (cases "ref st (ZV pz) = gc_white")
  case False
  then show ?thesis using e collect_effect_none [of "{ZV pz}" V st] by (auto simp: collected_def)
next
  case w: True
  then have ns: "\<not> symtab st0 pz" using sym by (auto simp: gc_white_def)
  then have n: "ZV pz \<in> V" using V pz w by (simp add: nodes_ZV)
  note one = take_one [OF g n V(1) w]
  show ?thesis
  proof (cases "z_value (the (zvals st0 pz))")
    case (IS_ARRAY ht)
    then have ht: "ht \<noteq> symbol_table st0" using ns by (simp add: symtab_value)
    then have "kids hs st0 (ZV pz) = edges st0 (the (tables st0 ht))" using IS_ARRAY by (simp add: kids_ZV)
    then show ?thesis using e w IS_ARRAY one [of "the (tables st0 ht)"] heap_array(2) [OF heap pz IS_ARRAY ht]
      by (auto simp: collected_def)
  next
    case (IS_OBJECT h k)
    show ?thesis
    proof (cases "object_buckets st0 = None")
      case True
      then show ?thesis using e w IS_OBJECT one [of "[]"] by (auto simp: collected_def kids_ZV)
    next
      case False
      note ob = heap_object [OF heap pz IS_OBJECT False]
      have ks: "kids hs st0 (ZV pz) = [OB h]" using IS_OBJECT False by (simp add: kids_ZV)
      show ?thesis
      proof (cases "ref st (OB h) = gc_white")
        case wo: True
        then have o: "OB h \<in> V" using V(2) ob(2) by (simp add: nodes_OB)
        have "kids hs st0 (OB h) = edges st0 (the (gc_object_props h (hs h) st0))" by (simp add: kids_OB)
        then show ?thesis
          using e w IS_OBJECT False ob(1) wo take_object [OF g n V(1) w ks wo o heap_props(2) [OF heap ob(2)]]
          by (auto simp: collected_def)
      next
        case False
        then show ?thesis
          using e w IS_OBJECT take_object_known [OF g n V(1) w ks False] by (auto simp: collected_def)
      qed
    qed
  next
    case IS_NULL
    then show ?thesis using e w one [of "[]"] by (auto simp: collected_def kids_ZV)
  next
    case IS_SCALAR
    then show ?thesis using e w one [of "[]"] by (auto simp: collected_def kids_ZV)
  qed
qed

subsection \<open>The walk\<close>

definition collect_inv :: "(handle \<Rightarrow> addr) \<Rightarrow> zgc \<Rightarrow> zgc \<Rightarrow> zgc \<Rightarrow> bool" where
  "collect_inv hs st0 b st \<longleftrightarrow> heap_ok hs st0 \<and> props_ok hs st0 \<and> same_graph st0 b \<and> same_graph b st \<and>
     gc_roots st = gc_roots b \<and> gc_buf st = gc_buf b \<and> gc_unused st = gc_unused b \<and>
     (\<forall>n. n \<notin> ready st0 b \<longrightarrow> ref st n = ref b n) \<and> (\<forall>n \<in> ready st0 b. ref st n = gc_white \<or> took n st) \<and>
     (\<forall>a. symtab st0 a \<longrightarrow> has st0 (ZV a) \<longrightarrow> col b (ZV a) \<noteq> GC_WHITE) \<and> list_ok st0 st"

definition gone :: "zgc \<Rightarrow> zgc \<Rightarrow> zgc \<Rightarrow> gc_node set" where
  "gone st0 b st = {n \<in> ready st0 b. ref st n \<noteq> gc_white}"

lemma collect_invD:
  assumes "collect_inv hs st0 b st"
  shows "heap_ok hs st0" "props_ok hs st0" "same_graph st0 b" "same_graph st0 st" "list_ok st0 st" "ready st0 b \<subseteq> nodes st0"
    "symtab st0 a \<Longrightarrow> has st0 (ZV a) \<Longrightarrow> col st (ZV a) \<noteq> GC_WHITE" "n \<in> nodes st0 \<Longrightarrow> ref st n = gc_white \<Longrightarrow> n \<in> ready st0 b"
proof -
  note d = assms [unfolded collect_inv_def]
  show "heap_ok hs st0" "props_ok hs st0" "same_graph st0 b" "list_ok st0 st" "ready st0 b \<subseteq> nodes st0"
    using d by (auto simp: ready_def)
  show "same_graph st0 st" using d same_graph_trans by blast
  show "col st (ZV a) \<noteq> GC_WHITE" if "symtab st0 a" "has st0 (ZV a)"
  proof -
    have "ZV a \<notin> ready st0 b" using that by (simp add: ready_def nodes_ZV)
    then have "ref st (ZV a) = ref b (ZV a)" using d by blast
    then show ?thesis using d that by simp
  qed
  show "n \<in> ready st0 b" if "n \<in> nodes st0" "ref st n = gc_white"
  proof (rule ccontr)
    assume n: "n \<notin> ready st0 b"
    then have "ref st n = ref b n" using d by blast
    then show False using that n by (simp add: ready_def)
  qed
qed

lemma took_frame: "took n st \<Longrightarrow> ref st' n = ref st n \<Longrightarrow> took n st'"
  by (cases n) auto

lemma collect_inv_effect:
  assumes inv: "collect_inv hs st0 b st" and e: "collect_effect hs st0 (ready st0 b) ns st cs st' new"
  shows "collect_inv hs st0 b st'" "gone st0 b st \<subseteq> gone st0 b st'" "gone st0 b st' - gone st0 b st = new"
proof -
  note d = inv [unfolded collect_inv_def] and ed = e [unfolded collect_effect_def]
  have tk: "took n st'" "ref st n = gc_white" "n \<in> ready st0 b" if "n \<in> new" for n using ed collect_invD(5) [OF inv] that by blast+
  have eq: "ref st' n = ref st n" if "n \<notin> new" for n using ed that by blast
  have "ref st' n = ref b n" if "n \<notin> ready st0 b" for n
  proof -
    have "n \<notin> new" "ref st n = ref b n" using ed d that by blast+
    then show ?thesis using eq by simp
  qed
  moreover have "ref st' n = gc_white \<or> took n st'" if n: "n \<in> ready st0 b" for n
  proof (cases "n \<in> new")
    case False
    have "ref st n = gc_white \<or> took n st" using d n by blast
    then show ?thesis using eq [OF False] took_frame by auto
  qed (use tk in blast)
  ultimately show "collect_inv hs st0 b st'"
    unfolding collect_inv_def using d ed same_graph_trans [of b st st'] by simp
  have new: "gone st0 b st' = gone st0 b st \<union> new" "gone st0 b st \<inter> new = {}"
    using tk eq took_not_white unfolding gone_def by fastforce+
  then show "gone st0 b st \<subseteq> gone st0 b st'" "gone st0 b st' - gone st0 b st = new" by blast+
qed

lemma collect_step_effect:
  assumes inv: "collect_inv hs st0 b st" and pz: "pz \<in> dom (zvals st0)"
  obtains cs st' new st1 where "zval_collect_white_step pz st = Some (cs, st')"
    "collect_effect hs st0 (ready st0 b) (set (edges st0 [pz])) st1 cs st' new"
    "collect_inv hs st0 b st1" "\<And>n. ref st1 n = ref st n" "\<And>n. rc st1 n = rc st n + cnt (edges st0 [pz]) n"
proof -
  note d = collect_invD [OF inv]
  obtain z where z: "zvals st pz = Some z" "is_symbol_table st z = symtab st0 pz" "has st (ZV pz)" "same_graph st0 (add_rc (ZV pz) 1 st)"
    by (rule step_counts [OF d(4) pz])
  define st1 where "st1 = (if symtab st0 pz then st else add_rc (ZV pz) 1 st)"
  have eq: "ref st1 n = ref st n" "rc st1 n = rc st n + cnt (edges st0 [pz]) n" for n
    using z(3) by (simp_all add: st1_def edges_single)
  have g: "same_graph st st1" using z(3) by (simp add: st1_def)
  have inv1: "collect_inv hs st0 b st1"
  proof -
    have "list_ok st0 st1" by (rule list_ok_frame [OF d(5)]) (simp_all add: st1_def z(3))
    moreover have "took n st1 = took n st" for n using took_frame eq(1) by metis
    ultimately show ?thesis
      using inv same_graph_trans [OF _ g] unfolding collect_inv_def eq(1) by (auto simp: st1_def)
  qed
  note d1 = collect_invD [OF inv1]
  have h0: "has st0 (ZV pz)" using pz by (simp add: has.simps)
  obtain cs st' where c: "collected st0 pz st1 = (cs, st')" by fastforce
  have step: "zval_collect_white_step pz st = Some (cs, st')"
    using collect_enter_eq [OF d1(1,2,4) pz d1(7) [OF _ h0]] c z(1-3) by (auto simp: zval_collect_white_step_def st1_def gc_prims)
  have "\<exists>new. collect_effect hs st0 (ready st0 b) (set (edges st0 [pz])) st1 cs st' new"
  proof (cases "symtab st0 pz")
    case True
    then have "ref st1 (ZV pz) \<noteq> gc_white" using d1(7) [OF True h0] by (auto simp: gc_white_def)
    then have "cs = []" "st' = st1" using c by (simp_all add: collected_def)
    then show ?thesis using True by (intro exI [of _ "{}"]) (simp add: edges_single collect_effect_def)
  next
    case False
    then show ?thesis using collected_effect [OF d1(1,4,6) d1(8) pz d1(7) [OF _ h0] c] by (simp add: edges_single)
  qed
  then show thesis using that step inv1 eq by blast
qed

lemma gone_same: "(\<And>n. ref st1 n = ref st n) \<Longrightarrow> gone st0 b st1 = gone st0 b st"
  by (simp add: gone_def)

interpretation collect: gc_counting zval_collect_white_step "collect_inv hs st0 b" "gone st0 b" "ready st0 b" "dom (zvals st0)"
  "edges st0" "kids hs st0" "ready st0 b" "\<lambda>ps n. cnt (edges st0 ps) n" "part hs st0" "nodes st0" for hs st0 b
proof (unfold_locales, goal_cases)
  case (1 st)
  show ?case by (rule finite_subset [OF collect_invD(6) [OF 1] finite_nodes [OF collect_invD(1) [OF 1]]])
next
  case (5 st pz)
  obtain cs st' new st1 where s: "zval_collect_white_step pz st = Some (cs, st')"
    "collect_effect hs st0 (ready st0 b) (set (edges st0 [pz])) st1 cs st' new"
    "collect_inv hs st0 b st1" "\<And>n. ref st1 n = ref st n" "\<And>n. rc st1 n = rc st n + cnt (edges st0 [pz]) n"
    by (rule collect_step_effect [OF 5]) blast
  note e = s(2) [unfolded collect_effect_def]
  note i = collect_inv_effect [OF s(3,2), unfolded gone_same [OF s(4)]]
  have "new \<subseteq> ready st0 b" using e by simp
  then have "set (edges st0 [pz]) \<inter> ready st0 b \<subseteq> gone st0 b st'"
    "\<forall>m \<in> new. set (kids hs st0 m) \<inter> ready st0 b \<subseteq> gone st0 b st' \<union> set (edges st0 cs)"
    using e unfolding gone_def by blast+
  moreover have "cs \<noteq> [] \<longrightarrow> gone st0 b st \<noteq> gone st0 b st'" using e i(3) by blast
  ultimately show ?case
    using s(1) i(1,2) e unfolding graph_def
    by (intro exI [of _ cs] exI [of _ st']) (simp add: i(3))
next
  case (8 st pz cs st' n)
  obtain cs' st'' new st1 where s: "zval_collect_white_step pz st = Some (cs', st'')"
    "collect_effect hs st0 (ready st0 b) (set (edges st0 [pz])) st1 cs' st'' new"
    "collect_inv hs st0 b st1" "\<And>n. ref st1 n = ref st n" "\<And>n. rc st1 n = rc st n + cnt (edges st0 [pz]) n"
    by (rule collect_step_effect [OF 8(1,2)]) blast
  have eq: "cs' = cs" "st'' = st'" using s(1) 8(3) by simp_all
  note i = collect_inv_effect(3) [OF s(3,2), unfolded gone_same [OF s(4)] eq]
  have "rc st' n = rc st1 n + (\<Sum>m \<in> new. part hs st0 m n) - cnt (edges st0 cs) n"
    using s(2) 8(4) unfolding eq collect_effect_def by blast
  then show ?case unfolding i by (simp add: s(5))
next
  case (6 p ps n)
  then show ?case by (subst edges_Cons) simp
qed (auto simp: gone_def edges_Cons [symmetric])

subsection \<open>Collecting from a root\<close>

definition collect_done :: "(handle \<Rightarrow> addr) \<Rightarrow> zgc \<Rightarrow> zgc \<Rightarrow> gc_node set \<Rightarrow> zgc \<Rightarrow> bool" where
  "collect_done hs st0 b ns st \<longleftrightarrow> collect_inv hs st0 b st \<and> ns \<inter> ready st0 b \<subseteq> gone st0 b st \<and>
     (\<forall>m \<in> gone st0 b st. set (kids hs st0 m) \<inter> ready st0 b \<subseteq> gone st0 b st) \<and>
     (\<forall>n \<in> nodes st0. rc st n = rc b n + (\<Sum>m \<in> gone st0 b st. part hs st0 m n))"

lemma gone_start: "gone st0 b b = {}"
  by (auto simp: gone_def ready_def)

lemma collect_enter_and_walk:
  assumes inv: "collect_inv hs st0 b b" and e: "collect_effect hs st0 (ready st0 b) ns b cs st1 new"
  shows "\<exists>st'. gc_walk zval_collect_white_step cs st1 = Some st' \<and> collect_done hs st0 b ns st'"
proof -
  note ed = e [unfolded collect_effect_def]
  note i1 = collect_inv_effect [OF inv e, unfolded gone_start]
  have g1: "gone st0 b st1 = new" using i1(3) by simp
  have cs: "set cs \<subseteq> dom (zvals st0)" using ed by simp
  obtain st' where w: "gc_walk zval_collect_white_step cs st1 = Some st'" "collect.walked hs st0 b cs st1 st'"
    using collect.walk_returns [OF i1(1) cs order_refl] by blast
  note wd = w(2) [unfolded collect.walked_def]
  let ?V = "ready st0 b" and ?F = "gone st0 b st'"
  have inc: "new \<subseteq> ?F" using wd g1 by simp
  have pend: "set (edges st0 cs) \<inter> ?V \<subseteq> ?F" using wd by simp
  have white: "{n. ref st1 n \<noteq> gc_white} \<inter> ?V \<subseteq> new" using g1 by (auto simp: gone_def)
  have ns: "ns \<inter> ?V \<subseteq> ?F"
  proof -
    have "ns \<inter> ?V \<subseteq> {n. ref st1 n \<noteq> gc_white} \<inter> ?V" using ed by blast
    then show ?thesis using white inc by blast
  qed
  have kids: "set (kids hs st0 m) \<inter> ?V \<subseteq> ?F" if m: "m \<in> ?F" for m
  proof (cases "m \<in> new")
    case True
    then have "set (kids hs st0 m) \<inter> ?V \<subseteq> {n. ref st1 n \<noteq> gc_white} \<union> set (edges st0 cs)" using ed by blast
    then show ?thesis using white inc pend by blast
  next
    case False
    then show ?thesis using wd m g1 by blast
  qed
  have rc: "rc st' n = rc b n + (\<Sum>m \<in> ?F. part hs st0 m n)" if n: "n \<in> nodes st0" for n
  proof -
    have "finite ?F" using collect.finite_univ [OF inv] by (auto simp: gone_def intro: finite_subset)
    then have "(\<Sum>m \<in> ?F. part hs st0 m n) = (\<Sum>m \<in> ?F - new. part hs st0 m n) + (\<Sum>m \<in> new. part hs st0 m n)"
      by (rule sum.subset_diff [OF inc])
    moreover have "rc st' n = rc st1 n + cnt (edges st0 cs) n + (\<Sum>m \<in> ?F - new. part hs st0 m n)"
      using collect.walk_counts [OF i1(1) cs order_refl w(1) n] g1 by simp
    moreover have "rc st1 n = rc b n + (\<Sum>m \<in> new. part hs st0 m n) - cnt (edges st0 cs) n" using ed n by blast
    ultimately show ?thesis by (simp add: algebra_simps)
  qed
  have "collect_inv hs st0 b st'" using wd by blast
  then show ?thesis using w(1) ns kids rc by (auto simp: collect_done_def)
qed

lemma zval_collect_white_done:
  assumes inv: "collect_inv hs st0 b b" and pz: "pz \<in> dom (zvals st0)"
  shows "\<exists>st'. zval_collect_white pz b = Some st' \<and> collect_done hs st0 b {ZV pz} st'"
proof -
  note d = collect_invD [OF inv]
  have h0: "has st0 (ZV pz)" using pz by (simp add: has.simps)
  obtain cs st1 where c: "collected st0 pz b = (cs, st1)" by fastforce
  obtain new where new: "collect_effect hs st0 (ready st0 b) {ZV pz} b cs st1 new"
    using collected_effect [OF d(1,4,6) d(8) pz d(7) [OF _ h0] c] by blast
  then show ?thesis
    using collect_enter_and_walk [OF inv new] collect_enter_eq [OF d(1,2,4) pz d(7) [OF _ h0]] c
    by (simp add: zval_collect_white_def gc_enter_def)
qed

lemma take_just_object:
  assumes g: "same_graph st0 st" and o: "OB h \<in> V" "V \<subseteq> nodes st0" "ref st (OB h) = gc_white"
    and k: "set cs \<subseteq> dom (zvals st0)" "kids hs st0 (OB h) = edges st0 cs"
  shows "collect_effect hs st0 V {OB h} st cs (set_col (OB h) GC_PURPLE st) {OB h}"
proof -
  have h: "has st (OB h)" using nodes_has same_graph_has [OF g] o(1,2) by blast
  have "list_ok st0 (set_col (OB h) GC_PURPLE st)" if "list_ok st0 st" by (rule list_ok_frame [OF that]) (use h in auto)
  moreover have "rc (set_col (OB h) GC_PURPLE st) m = rc st m + (\<Sum>m' \<in> {OB h}. part hs st0 m' m) - cnt (edges st0 cs) m" for m
    using h k(2) by (cases m) (auto simp: part_def)
  moreover have "set (edges st0 cs) \<subseteq> (graph hs st0)\<^sup>* `` {OB h}" using k(2) by (auto simp: graph_def)
  ultimately show ?thesis
    unfolding collect_effect_def using h k o by (intro conjI) (auto simp: gc_white_def)
qed

lemma zobj_collect_white_done:
  assumes inv: "collect_inv hs st0 b b" and h: "OB h \<in> nodes st0"
  shows "\<exists>st'. zobj_collect_white h (hs h) b = Some st' \<and> collect_done hs st0 b {OB h} st'"
proof -
  note d = collect_invD [OF inv]
  have o: "has b (OB h)" using nodes_has [OF h] same_graph_has [OF d(4)] by simp
  obtain x where x: "os_get b h = Some x" "os_buffered x = ref b (OB h)" "object_buckets b \<noteq> None" by (rule os_get_node [OF o])
  show ?thesis
  proof (cases "ref b (OB h) = gc_white")
    case False
    then have "collect_effect hs st0 (ready st0 b) {OB h} b [] b {}" by (simp add: collect_effect_def)
    from collect_enter_and_walk [OF inv this] show ?thesis
      using False x by (simp add: zobj_collect_white_def gc_walk.simps)
  next
    case True
    let ?cs = "the (gc_object_props h (hs h) st0)"
    have h0: "has st0 (OB h)" by (rule nodes_has [OF h])
    have "OB h \<in> ready st0 b" using h True by (simp add: ready_def)
    moreover have "kids hs st0 (OB h) = edges st0 ?cs" by (simp add: kids_OB)
    ultimately have e: "collect_effect hs st0 (ready st0 b) {OB h} b ?cs (set_col (OB h) GC_PURPLE b) {OB h}"
      using take_just_object [OF d(4) _ d(6) True heap_props(2) [OF d(1) h0]] by simp
    have "gc_object_props h (hs h) (set_col (OB h) GC_PURPLE b) = Some ?cs"
      using same_graph_props [OF same_graph_trans [OF d(4) same_graph_nmap [OF o]]] heap_props(1) [OF d(1) h0] by metis
    then show ?thesis using collect_enter_and_walk [OF inv e] True x o by (auto simp: zobj_collect_white_def gc_prims)
  qed
qed

lemma list_ok_set_addr:
  assumes "list_ok st0 st" "has st n" "\<not> is_Next (gc_addr (ref st n))"
  shows "list_ok st0 (set_addr n Null st)"
proof -
  obtain xs where xs: "free_chain st (zval_to_free st) xs" "distinct xs"
    "set xs = {a. ZV a \<in> nodes st0 \<and> is_Next (gc_addr (ref st (ZV a)))}" using assms(1) by (auto simp: list_ok_def)
  let ?st = "set_addr n Null st"
  have "ZV a \<noteq> n" if "a \<in> set xs" for a using xs(3) assms(3) that by auto
  then have "free_chain ?st (zval_to_free ?st) xs" using free_chain_frame [OF xs(1), of ?st] assms(2) by simp
  moreover have "set xs = {a. ZV a \<in> nodes st0 \<and> is_Next (gc_addr (ref ?st (ZV a)))}" using xs(3) assms(2,3) by auto
  ultimately show ?thesis using xs(2) unfolding list_ok_def by blast
qed

end
