(* ===== verification/Gc_Cycles.thy ===== *)
theory Gc_Cycles
  imports Gc_Collect
begin

text \<open>
  The collect phase over the root buffer, and the three phases together: which zvals
  \<open>gc_collect_cycles\<close> finds, and what it leaves behind.
\<close>

subsection \<open>The collect phase over the root buffer\<close>

abbreviation white :: "zgc \<Rightarrow> zgc \<Rightarrow> gc_node set" where
  "white st0 \<equiv> painted GC_WHITE (nodes st0)"

text \<open>\<open>s\<close> is the state after scanning.\<close>

definition done_white :: "zgc \<Rightarrow> zgc \<Rightarrow> zgc \<Rightarrow> gc_node set" where
  "done_white st0 s st = white st0 s - white st0 st"

definition collect_base :: "(handle \<Rightarrow> addr) \<Rightarrow> zgc \<Rightarrow> zgc \<Rightarrow> nat list \<Rightarrow> zgc \<Rightarrow> bool" where
  "collect_base hs st0 s rest st \<longleftrightarrow> heap_ok hs st0 \<and> props_ok hs st0 \<and> same_graph st0 st \<and> gc_buf st = gc_buf st0 \<and>
     gc_roots st = rest \<and> distinct rest \<and> set rest \<subseteq> set (gc_roots s) \<and>
     mset rest + mset (gc_unused st) = mset (gc_roots s) + mset (gc_unused s) \<and>
     (\<forall>i \<in> set rest. has st0 (root_of st0 i) \<and> gc_addr (ref st (root_of st0 i)) = Buf i \<and>
        (rb_handle (gc_buf st0 i) \<noteq> 0 \<longrightarrow> rb_u (gc_buf st0 i) = hs (rb_handle (gc_buf st0 i)))) \<and>
     (\<forall>a. symtab st0 a \<longrightarrow> has st0 (ZV a) \<longrightarrow> col s (ZV a) \<noteq> GC_WHITE) \<and> list_ok st0 st"

definition collecting :: "(handle \<Rightarrow> addr) \<Rightarrow> zgc \<Rightarrow> zgc \<Rightarrow> nat list \<Rightarrow> zgc \<Rightarrow> bool" where
  "collecting hs st0 s rest st \<longleftrightarrow> collect_base hs st0 s rest st \<and>
     (\<forall>n. n \<notin> done_white st0 s st \<longrightarrow> col st n = col s n) \<and>
     (\<forall>n. n \<notin> done_white st0 s st \<longrightarrow> has st0 n \<longrightarrow>
        gc_addr (ref st n) = Null \<or> (\<exists>i \<in> set rest. gc_addr (ref st n) = Buf i \<and> root_of st0 i = n)) \<and>
     (\<forall>n \<in> done_white st0 s st. took n st) \<and>
     (\<forall>n \<in> nodes st0. rc st n = rc s n + (\<Sum>m \<in> done_white st0 s st. part hs st0 m n)) \<and>
     (\<forall>m \<in> done_white st0 s st. set (kids hs st0 m) \<inter> white st0 s \<subseteq> done_white st0 s st \<union> roots st0 (set rest)) \<and>
     roots st0 (set (gc_roots s) - set rest) \<inter> white st0 s \<subseteq> done_white st0 s st"

lemma collecting_inv:
  assumes c: "collecting hs st0 s (i # rest) st"
  shows "has st (root_of st0 i)" "collect_inv hs st0 (set_addr (root_of st0 i) Null st) (set_addr (root_of st0 i) Null st)"
proof -
  let ?r = "root_of st0 i"
  let ?b = "set_addr ?r Null st"
  note cd = c [unfolded collecting_def collect_base_def]
  have g: "same_graph st0 st" "gc_addr (ref st ?r) = Buf i" using cd by simp_all
  show h: "has st ?r" using cd same_graph_has [OF g(1), of ?r] by simp
  have "list_ok st0 ?b" by (rule list_ok_set_addr [OF _ h]) (use cd in simp_all)
  moreover have "col ?b (ZV a) \<noteq> GC_WHITE" if "symtab st0 a" "has st0 (ZV a)" for a
  proof -
    have "ZV a \<notin> done_white st0 s st" using that by (auto simp: done_white_def painted_def nodes_ZV)
    then have "col st (ZV a) = col s (ZV a)" "col s (ZV a) \<noteq> GC_WHITE" using cd that by blast+
    then show ?thesis unfolding col_set_addr [OF h] by simp
  qed
  moreover have "same_graph st0 ?b" by (rule same_graph_trans [OF g(1) same_graph_nmap [OF h]])
  ultimately show "collect_inv hs st0 ?b ?b" using cd by (simp add: collect_inv_def ready_def)
qed

text \<open>The nodes ready to be taken when the root \<open>i\<close> is reached, and those taken afterwards.\<close>

lemma ready_collecting:
  assumes c: "collecting hs st0 s (i # rest) st"
  shows "ready st0 (set_addr (root_of st0 i) Null st) =
    {n \<in> white st0 s - done_white st0 s st. n = root_of st0 i \<or> gc_addr (ref st n) = Null}"
proof -
  note cd = c [unfolded collecting_def]
  have h: "has st (root_of st0 i)" by (rule collecting_inv [OF c])
  have w: "white st0 s - done_white st0 s st = {n \<in> nodes st0. col st n = GC_WHITE}"
    using cd by (fastforce simp: done_white_def painted_def)
  have gw: "r = gc_white \<longleftrightarrow> gc_color r = GC_WHITE \<and> gc_addr r = Null" for r by (cases r) (auto simp: gc_white_def)
  show ?thesis unfolding w ready_def using h by (auto simp: gw)
qed

lemma done_white_next:
  assumes c: "collecting hs st0 s (i # rest) st" and d: "collect_done hs st0 (set_addr (root_of st0 i) Null st) {root_of st0 i} st1"
  shows "done_white st0 s st1 = done_white st0 s st \<union> gone st0 (set_addr (root_of st0 i) Null st) st1"
    "done_white st0 s st \<inter> gone st0 (set_addr (root_of st0 i) Null st) st1 = {}"
    "n \<notin> gone st0 (set_addr (root_of st0 i) Null st) st1 \<Longrightarrow> ref st1 n = ref (set_addr (root_of st0 i) Null st) n"
    "n \<in> gone st0 (set_addr (root_of st0 i) Null st) st1 \<Longrightarrow> took n st1"
proof -
  let ?b = "set_addr (root_of st0 i) Null st"
  have h: "has st (root_of st0 i)" by (rule collecting_inv [OF c])
  have inv: "collect_inv hs st0 ?b st1" using d by (simp add: collect_done_def)
  note id = inv [unfolded collect_inv_def]
  show eq: "ref st1 n = ref ?b n" if "n \<notin> gone st0 ?b st1" for n
  proof (cases "n \<in> ready st0 ?b")
    case True
    then show ?thesis using that by (auto simp: gone_def ready_def)
  next
    case False
    then show ?thesis using id by blast
  qed
  show tk: "took n st1" if "n \<in> gone st0 ?b st1" for n using id that unfolding gone_def by blast
  then have nw: "col st1 n \<noteq> GC_WHITE" if "n \<in> gone st0 ?b st1" for n using that by (cases n) fastforce+
  have sub: "gone st0 ?b st1 \<subseteq> white st0 s - done_white st0 s st" using ready_collecting [OF c] by (auto simp: gone_def)
  then show "done_white st0 s st \<inter> gone st0 ?b st1 = {}" by blast
  have "n \<in> done_white st0 s st1 \<longleftrightarrow> n \<in> done_white st0 s st \<union> gone st0 ?b st1" for n
  proof (cases "n \<in> gone st0 ?b st1")
    case True
    then show ?thesis using nw sub by (auto simp: done_white_def painted_def)
  next
    case False
    then have "col st1 n = col st n" using eq h by simp
    then show ?thesis using False by (simp add: done_white_def painted_def)
  qed
  then show "done_white st0 s st1 = done_white st0 s st \<union> gone st0 ?b st1" by blast
qed

lemma collect_base_next:
  assumes c: "collecting hs st0 s (i # rest) st" and d: "collect_done hs st0 (set_addr (root_of st0 i) Null st) {root_of st0 i} st1"
    and r: "gc_roots st' = remove1 i (gc_roots st1)" "gc_unused st' = i # gc_unused st1" "same_graph st1 st'" "gc_buf st' = gc_buf st1"
      "zval_to_free st' = zval_to_free st1" "\<And>n. ref st' n = ref st1 n"
  shows "collect_base hs st0 s rest st'"
proof -
  let ?b = "set_addr (root_of st0 i) Null st"
  note cb = c [unfolded collecting_def collect_base_def]
  have inv: "collect_inv hs st0 ?b st1" using d by (simp add: collect_done_def)
  note id = inv [unfolded collect_inv_def]
  have h: "has st (root_of st0 i)" by (rule collecting_inv [OF c])
  have addr: "gc_addr (ref st' (root_of st0 j)) = Buf j" if j: "j \<in> set rest" for j
  proof -
    have b: "gc_addr (ref st (root_of st0 j)) = Buf j" "gc_addr (ref st (root_of st0 i)) = Buf i" "i \<noteq> j" using cb j by auto
    then have ne: "root_of st0 j \<noteq> root_of st0 i" by auto
    then have "gc_addr (ref ?b (root_of st0 j)) = Buf j" using b h by simp
    moreover have "root_of st0 j \<notin> ready st0 ?b" using calculation by (auto simp: ready_def gc_white_def)
    ultimately show ?thesis using id r(6) by simp
  qed
  have "list_ok st0 st'" by (rule list_ok_frame [OF collect_invD(5) [OF inv]]) (use r in simp_all)
  moreover have "same_graph st0 st'" by (rule same_graph_trans [OF collect_invD(4) [OF inv] r(3)])
  moreover have "gc_roots st' = rest" "gc_buf st' = gc_buf st0" "gc_unused st' = i # gc_unused st" using id r cb by simp_all
  ultimately show ?thesis unfolding collect_base_def using cb addr by (intro conjI) auto
qed

text \<open>What one root changes: colours, addresses and counts, and then the edges.\<close>

lemma collect_root_nodes:
  assumes c: "collecting hs st0 s (i # rest) st" and d: "collect_done hs st0 (set_addr (root_of st0 i) Null st) {root_of st0 i} st1"
  shows "n \<notin> done_white st0 s st1 \<Longrightarrow> col st1 n = col s n"
    "n \<notin> done_white st0 s st1 \<Longrightarrow> has st0 n \<Longrightarrow>
      gc_addr (ref st1 n) = Null \<or> (\<exists>j \<in> set rest. gc_addr (ref st1 n) = Buf j \<and> root_of st0 j = n)"
    "n \<in> done_white st0 s st1 \<Longrightarrow> took n st1"
    "n \<in> nodes st0 \<Longrightarrow> rc st1 n = rc s n + (\<Sum>m \<in> done_white st0 s st1. part hs st0 m n)"
proof -
  let ?b = "set_addr (root_of st0 i) Null st" and ?r = "root_of st0 i"
  let ?C = "done_white st0 s st" and ?F = "gone st0 ?b st1"
  note cd = c [unfolded collecting_def]
  note nx = done_white_next [OF c d] and h = collecting_inv(1) [OF c]
  show "col st1 n = col s n" if "n \<notin> done_white st0 s st1"
  proof -
    have "col st n = col s n" using cd that nx(1) by blast
    moreover have "col st1 n = col st n" using nx that h by simp
    ultimately show ?thesis by simp
  qed
  show "gc_addr (ref st1 n) = Null \<or> (\<exists>j \<in> set rest. gc_addr (ref st1 n) = Buf j \<and> root_of st0 j = n)"
    if n: "n \<notin> done_white st0 s st1" "has st0 n"
  proof -
    have "n \<notin> ?C" using n nx(1) by blast
    then have "gc_addr (ref st n) = Null \<or> (\<exists>j \<in> set (i # rest). gc_addr (ref st n) = Buf j \<and> root_of st0 j = n)" using cd n(2) by blast
    then show ?thesis using nx n h by (cases "n = ?r") auto
  qed
  show "took n st1" if n: "n \<in> done_white st0 s st1"
  proof (cases "n \<in> ?F")
    case True
    then show ?thesis by (rule nx(4))
  next
    case False
    then have t: "took n st" using cd n nx(1) by blast
    have "gc_addr (ref st ?r) = Buf i" using cd by (simp add: collect_base_def)
    then have "n \<noteq> ?r" using t by (cases n) auto
    then show ?thesis using took_frame [OF t] nx(3) [OF False] h by simp
  qed
  have fin: "finite ?C" "finite ?F"
    using cd finite_nodes [of hs st0] ready_collecting [OF c] by (auto simp: collect_base_def done_white_def gone_def painted_def)
  show "rc st1 n = rc s n + (\<Sum>m \<in> done_white st0 s st1. part hs st0 m n)" if n: "n \<in> nodes st0"
  proof -
    have "rc st n = rc s n + (\<Sum>m \<in> ?C. part hs st0 m n)" "rc st1 n = rc ?b n + (\<Sum>m \<in> ?F. part hs st0 m n)"
      using cd d n unfolding collect_done_def by blast+
    moreover have "rc ?b n = rc st n" using h by simp
    ultimately show ?thesis unfolding nx(1) sum.union_disjoint [OF fin nx(2)] by simp
  qed
qed

lemma collect_root_edges:
  assumes c: "collecting hs st0 s (i # rest) st" and d: "collect_done hs st0 (set_addr (root_of st0 i) Null st) {root_of st0 i} st1"
  shows "m \<in> done_white st0 s st1 \<Longrightarrow> set (kids hs st0 m) \<inter> white st0 s \<subseteq> done_white st0 s st1 \<union> roots st0 (set rest)"
    "roots st0 (set (gc_roots s) - set rest) \<inter> white st0 s \<subseteq> done_white st0 s st1"
proof -
  let ?b = "set_addr (root_of st0 i) Null st" and ?r = "root_of st0 i"
  let ?C = "done_white st0 s st" and ?F = "gone st0 ?b st1" and ?W = "white st0 s"
  note cd = c [unfolded collecting_def] and dd = d [unfolded collect_done_def]
  note nx = done_white_next [OF c d] and rdy = ready_collecting [OF c]
  have root: "?r \<in> ?W \<Longrightarrow> ?r \<in> ?C \<union> ?F"
  proof -
    assume "?r \<in> ?W"
    then have "?r \<notin> ?C \<Longrightarrow> ?r \<in> ready st0 ?b" using rdy by simp
    then show ?thesis using dd by blast
  qed
  have pend: "k \<in> ?C \<union> ?F \<union> roots st0 (set rest)" if k: "k \<in> ?W" "k \<notin> ready st0 ?b" for k
  proof (cases "k \<in> ?C")
    case False
    then have "k \<noteq> ?r" "gc_addr (ref st k) \<noteq> Null" "k \<in> nodes st0" using k rdy by (auto simp: painted_def)
    moreover have "gc_addr (ref st k) = Null \<or> (\<exists>j \<in> set (i # rest). gc_addr (ref st k) = Buf j \<and> root_of st0 j = k)"
      using cd False nodes_has [OF calculation(3)] by blast
    ultimately show ?thesis by (auto simp: roots_def)
  qed simp
  show "set (kids hs st0 m) \<inter> ?W \<subseteq> done_white st0 s st1 \<union> roots st0 (set rest)" if m: "m \<in> done_white st0 s st1"
  proof (cases "m \<in> ?F")
    case True
    then have "set (kids hs st0 m) \<inter> ready st0 ?b \<subseteq> ?F" using dd by blast
    then show ?thesis unfolding nx(1) using pend by blast
  next
    case False
    then have "set (kids hs st0 m) \<inter> ?W \<subseteq> ?C \<union> roots st0 (set (i # rest))" using cd m nx(1) by blast
    then show ?thesis unfolding nx(1) using root by (auto simp: roots_def)
  qed
  have "roots st0 (set (gc_roots s) - set rest) \<subseteq> insert ?r (roots st0 (set (gc_roots s) - set (i # rest)))"
    by (auto simp: roots_def)
  then show "roots st0 (set (gc_roots s) - set rest) \<inter> ?W \<subseteq> done_white st0 s st1" unfolding nx(1) using cd root by blast
qed

lemma collecting_next:
  assumes c: "collecting hs st0 s (i # rest) st" and d: "collect_done hs st0 (set_addr (root_of st0 i) Null st) {root_of st0 i} st1"
    and r: "gc_roots st' = remove1 i (gc_roots st1)" "gc_unused st' = i # gc_unused st1" "same_graph st1 st'" "gc_buf st' = gc_buf st1"
      "zval_to_free st' = zval_to_free st1" "\<And>n. ref st' n = ref st1 n" "\<And>n. rc st' n = rc st1 n"
  shows "collecting hs st0 s rest st'"
proof -
  have eq: "done_white st0 s st' = done_white st0 s st1" "took n st' = took n st1" for n
    using took_frame r(6) by (auto simp: done_white_def painted_def)
  show ?thesis
    unfolding collecting_def eq r(6,7)
    by (intro conjI ballI allI impI;
        (rule collect_base_next [OF c d r(1-6)] collect_root_edges(2) [OF c d] |
         (rule collect_root_nodes [OF c d] collect_root_edges(1) [OF c d]; assumption)))
qed

lemma gc_collect_roots_loop_collects:
  assumes "collecting hs st0 s rest st"
  shows "\<exists>st'. gc_collect_roots_loop rest st = Some st' \<and> collecting hs st0 s [] st'"
  using assms
proof (induction rest arbitrary: st)
  case Nil
  then show ?case by simp
next
  case (Cons i rest)
  let ?e = "gc_buf st0 i" and ?r = "root_of st0 i"
  let ?b = "set_addr ?r Null st"
  note c = Cons.prems and cb = Cons.prems [unfolded collecting_def collect_base_def]
  note inv = collecting_inv [OF c]
  have root: "has st0 ?r" "rb_handle ?e \<noteq> 0 \<Longrightarrow> rb_u ?e = hs (rb_handle ?e)" "gc_buf st = gc_buf st0" "gc_roots st = i # rest"
    using cb by simp_all
  have "\<exists>st1. gc_collect_roots_loop (i # rest) st = do { st \<leftarrow> gc_remove_from_buffer i st1; gc_collect_roots_loop rest st } \<and>
      collect_done hs st0 ?b {?r} st1"
  proof (cases "rb_handle ?e = 0")
    case True
    then have r: "?r = ZV (rb_u ?e)" by (simp add: root_of_def)
    then have "rb_u ?e \<in> dom (zvals st0)" using root(1) by (simp add: has.simps)
    from zval_collect_white_done [OF inv(2) this] show ?thesis
      using True r root(3) inv(1) by (auto simp: gc_prims)
  next
    case False
    then have r: "?r = OB (rb_handle ?e)" by (simp add: root_of_def Let_def)
    then have n: "OB (rb_handle ?e) \<in> nodes st0" using root(1) by (simp add: nodes_OB)
    have "object_buckets st \<noteq> None" using has_OB_buckets inv(1) r by metis
    with zobj_collect_white_done [OF inv(2) n] show ?thesis
      using False r root(2,3) inv(1) by (auto simp: gc_prims)
  qed
  then obtain st1 where st1: "gc_collect_roots_loop (i # rest) st = do { st \<leftarrow> gc_remove_from_buffer i st1; gc_collect_roots_loop rest st }"
      "collect_done hs st0 ?b {?r} st1" by blast
  have "gc_roots st1 = i # rest" using st1(2) root(4) by (simp add: collect_done_def collect_inv_def)
  then obtain st' where st': "gc_remove_from_buffer i st1 = Some st'" "gc_roots st' = remove1 i (gc_roots st1)" "gc_unused st' = i # gc_unused st1"
    "same_graph st1 st'" "gc_buf st' = gc_buf st1" "zval_to_free st' = zval_to_free st1" "\<And>n. ref st' n = ref st1 n" "\<And>n. rc st' n = rc st1 n"
    using gc_remove_root [of i st1] by auto
  from Cons.IH [OF collecting_next [OF c st1(2) st'(2-8)]] show ?case using st1(1) st'(1) by simp
qed

subsection \<open>Which nodes are garbage\<close>

text \<open>\<open>refs\<close> counts the references to a node from the heap. A node of \<open>garbage\<close> is reachable from a
  purple root, and every node it can be reached from is, too, and has no other references.\<close>

definition refs :: "(handle \<Rightarrow> addr) \<Rightarrow> zgc \<Rightarrow> gc_node \<Rightarrow> nat" where
  "refs hs st n = (\<Sum>m \<in> nodes st. count_list (kids hs st m) n)"

definition candidates :: "(handle \<Rightarrow> addr) \<Rightarrow> zgc \<Rightarrow> gc_node set" where
  "candidates hs st = (graph hs st)\<^sup>* `` purple_roots st"

definition garbage :: "(handle \<Rightarrow> addr) \<Rightarrow> zgc \<Rightarrow> gc_node set" where
  "garbage hs st = {n \<in> candidates hs st. \<forall>m \<in> nodes st. (m, n) \<in> (graph hs st)\<^sup>* \<longrightarrow>
     m \<in> candidates hs st \<and> unat (rc st m) = refs hs st m}"

definition counts_ok :: "(handle \<Rightarrow> addr) \<Rightarrow> zgc \<Rightarrow> bool" where
  "counts_ok hs st \<longleftrightarrow> (\<forall>n \<in> nodes st. refs hs st n \<le> unat (rc st n))"

lemma candidates_region: "heap_ok hs st \<Longrightarrow> region hs st (candidates hs st)"
proof -
  assume h: "heap_ok hs st"
  have "graph hs st `` nodes st \<subseteq> nodes st" using kids_nodes [OF h] by (auto simp: graph_def)
  then have "candidates hs st \<subseteq> nodes st" unfolding candidates_def
    by (rule reach_closed) (auto simp: purple_roots_def roots_def)
  moreover have "set (kids hs st m) \<subseteq> candidates hs st" if "m \<in> candidates hs st" for m
    using that unfolding candidates_def by (auto simp: graph_def intro: rtrancl_into_rtrancl)
  ultimately show ?thesis by (simp add: region_def)
qed

text \<open>What is left of a count when the references from \<open>G\<close> are off.\<close>

lemma outside_zero:
  assumes heap: "heap_ok hs st" and G: "G \<subseteq> nodes st" and c: "counts_ok hs st" and n: "n \<in> nodes st"
  shows "rc st n - (\<Sum>m \<in> G. cnt (kids hs st m) n) = 0 \<longleftrightarrow>
    unat (rc st n) = refs hs st n \<and> (\<forall>m \<in> nodes st - G. n \<notin> set (kids hs st m))"
proof -
  let ?g = "\<Sum>m \<in> G. count_list (kids hs st m) n" and ?o = "\<Sum>m \<in> nodes st - G. count_list (kids hs st m) n"
  have fin: "finite (nodes st)" "finite G" using finite_nodes [OF heap] G finite_subset by auto
  have split: "refs hs st n = ?o + ?g" unfolding refs_def by (rule sum.subset_diff [OF G fin(1)])
  have le: "refs hs st n \<le> unat (rc st n)" using c n by (simp add: counts_ok_def)
  have "(\<Sum>m \<in> G. cnt (kids hs st m) n) = of_nat ?g" by (simp add: cnt_def)
  then have "rc st n - (\<Sum>m \<in> G. cnt (kids hs st m) n) = 0 \<longleftrightarrow> rc st n = of_nat ?g" by simp
  also have "\<dots> \<longleftrightarrow> unat (rc st n) = ?g"
  proof
    assume "rc st n = of_nat ?g"
    moreover have "?g < 2 ^ 32" using split le unsigned_less [of "rc st n", where 'a = nat] by simp
    ultimately show "unat (rc st n) = ?g" by (simp add: unat_of_nat_less del: of_nat_sum)
  next
    assume "unat (rc st n) = ?g"
    then show "rc st n = of_nat ?g" using unat_of_nat_less [of ?g, where 'a = 32] split le unsigned_less [of "rc st n", where 'a = nat] by (intro word_unat_eq_iff [THEN iffD2]) (simp del: of_nat_sum)
  qed
  also have "\<dots> \<longleftrightarrow> unat (rc st n) = refs hs st n \<and> ?o = 0" using split le by auto
  also have "?o = 0 \<longleftrightarrow> (\<forall>m \<in> nodes st - G. n \<notin> set (kids hs st m))"
    using fin(1) by (simp add: count_list_0_iff)
  finally show ?thesis .
qed

lemma garbage_eq:
  assumes heap: "heap_ok hs st" and c: "counts_ok hs st"
  defines "G \<equiv> candidates hs st"
  defines "L \<equiv> (graph hs st)\<^sup>* `` {n \<in> G. rc st n - (\<Sum>m \<in> G. cnt (kids hs st m) n) \<noteq> 0}"
  shows "garbage hs st = G - L"
proof -
  have reg: "region hs st G" unfolding G_def by (rule candidates_region [OF heap])
  then have sub: "G \<subseteq> nodes st" by (simp add: region_def)
  note zero = outside_zero [OF heap sub c]
  have dead: "m \<in> G - L" if "(m, n) \<in> (graph hs st)\<^sup>*" "m \<in> nodes st" "n \<in> G - L" for m n
    using that
  proof (induction rule: converse_rtrancl_induct)
    case base
    then show ?case by simp
  next
    case (step m k)
    have k: "k \<in> set (kids hs st m)" using step.hyps(1) by (simp add: graph_def)
    then have "k \<in> G - L" using step.IH step.prems kids_nodes [OF heap] by blast
    then have "rc st k - (\<Sum>m \<in> G. cnt (kids hs st m) k) = 0" "k \<notin> L" "k \<in> nodes st" using sub unfolding L_def by blast+
    then have "m \<in> G" using zero k step.prems(1) by blast
    moreover have "m \<notin> L"
    proof
      assume "m \<in> L"
      then have "k \<in> L" using step.hyps(1) unfolding L_def by (auto intro: rtrancl_into_rtrancl)
      then show False using \<open>k \<notin> L\<close> by contradiction
    qed
    ultimately show ?case by blast
  qed
  have "n \<in> garbage hs st" if n: "n \<in> G - L" for n
  proof -
    have "m \<in> G \<and> unat (rc st m) = refs hs st m" if m: "m \<in> nodes st" "(m, n) \<in> (graph hs st)\<^sup>*" for m
    proof -
      have "m \<in> G - L" by (rule dead [OF m(2,1) n])
      then have "m \<in> G" "rc st m - (\<Sum>m' \<in> G. cnt (kids hs st m') m) = 0" unfolding L_def by blast+
      then show ?thesis using zero [OF m(1)] by blast
    qed
    then show ?thesis using n unfolding garbage_def G_def by blast
  qed
  moreover have "n \<in> G - L" if n: "n \<in> garbage hs st" for n
  proof -
    have "n \<notin> L"
    proof
      assume "n \<in> L"
      then obtain m where m: "m \<in> G" "rc st m - (\<Sum>k \<in> G. cnt (kids hs st k) m) \<noteq> 0" "(m, n) \<in> (graph hs st)\<^sup>*"
        unfolding L_def by blast
      have a: "k \<in> G \<and> unat (rc st k) = refs hs st k" if "k \<in> nodes st" "(k, n) \<in> (graph hs st)\<^sup>*" for k
        using n that unfolding garbage_def G_def by blast
      have "m \<notin> set (kids hs st k)" if "k \<in> nodes st - G" for k
      proof
        assume "m \<in> set (kids hs st k)"
        then have "(k, n) \<in> (graph hs st)\<^sup>*" using m(3) by (auto simp: graph_def intro: converse_rtrancl_into_rtrancl)
        then show False using a [of k] that by blast
      qed
      then show False using zero [of m] m a [of m] sub by blast
    qed
    then show ?thesis using n unfolding garbage_def G_def by blast
  qed
  ultimately show ?thesis by blast
qed

subsection \<open>The three phases together\<close>

text \<open>The phases after a mark phase that ended in \<open>b\<close>; \<open>s\<close> is the state after the scan.\<close>

lemma scan_white:
  assumes inv: "scan_inv hs st0 (grey st0 b) b s" and c: "\<forall>n. has st0 n \<longrightarrow> col st0 n \<in> {GC_BLACK, GC_PURPLE}"
    and m: "marking hs st0 [] b"
  shows "white st0 s = painted GC_WHITE (grey st0 b) s"
proof -
  have "col s n \<noteq> GC_WHITE" if n: "n \<in> nodes st0" "n \<notin> grey st0 b" for n
  proof -
    have "col s n = col b n" using inv n by (auto simp: scan_inv_def)
    moreover have "greyed hs st0 b" using m by (simp add: marking_def)
    then have "col b n = col st0 n" using n unfolding greyed_def by blast
    ultimately show ?thesis using c nodes_has [OF n(1)] by auto
  qed
  then show ?thesis by (auto simp: painted_def)
qed

lemma collecting_start:
  assumes heap: "heap_ok hs st0" and po: "props_ok hs st0" and m: "marking hs st0 [] b" and inv: "scan_inv hs st0 (grey st0 b) b s"
    and z: "zval_to_free st0 = Next None"
  shows "collecting hs st0 s (gc_roots s) s"
proof -
  note md = m [unfolded marking_def]
  have f: "gc_frame b s" "same_graph st0 s" by (rule scan_invD [OF inv])+
  have eq: "gc_roots s = gc_roots b" "gc_unused s = gc_unused b" "gc_buf s = gc_buf st0" "zval_to_free s = Next None"
    using f(1) md z by (simp_all add: gc_frame_def)
  have "buffer_ok hs s" using buffer_ok_frame [OF _ f(1)] md by blast
  moreover have "root_of s = root_of st0" using eq(3) by (auto simp: root_of_def fun_eq_iff)
  moreover have "has s = has st0" using same_graph_has [OF f(2)] by auto
  ultimately have buf: "distinct (gc_roots s)" "\<forall>i \<in> set (gc_roots s). has st0 (root_of st0 i) \<and> gc_addr (ref s (root_of st0 i)) = Buf i \<and>
       (rb_handle (gc_buf st0 i) \<noteq> 0 \<longrightarrow> rb_u (gc_buf st0 i) = hs (rb_handle (gc_buf st0 i)))"
    "\<forall>n. has st0 n \<longrightarrow> gc_addr (ref s n) = Null \<or> (\<exists>i \<in> set (gc_roots s). gc_addr (ref s n) = Buf i \<and> root_of st0 i = n)"
    using eq(3) unfolding buffer_ok_def by auto
  have "{a. ZV a \<in> nodes st0 \<and> is_Next (gc_addr (ref s (ZV a)))} = {}"
    using buf(3) nodes_has [of _ st0] by fastforce
  then have "list_ok st0 s" using eq(4) unfolding list_ok_def by (intro exI [of _ "[]"]) simp
  moreover have "col s (ZV a) \<noteq> GC_WHITE" if "symtab st0 a" "has st0 (ZV a)" for a
    using inv that by (auto simp: scan_inv_def)
  moreover have "done_white st0 s s = {}" by (simp add: done_white_def)
  ultimately show ?thesis
    unfolding collecting_def collect_base_def using heap po f(2) eq buf by (simp add: roots_def)
qed

text \<open>Every white node is found.\<close>

lemma all_white_done:
  assumes heap: "heap_ok hs st0" and m: "marking hs st0 [] b" and W: "white st0 s = grey st0 b - L" "gc_roots s = gc_roots b"
    and L: "graph hs st0 `` L \<subseteq> L" and c: "collecting hs st0 s [] st"
  shows "done_white st0 s st = white st0 s"
proof -
  note md = m [unfolded marking_def] and cd = c [unfolded collecting_def]
  let ?X = "roots st0 (set (gc_roots b))"
  have X: "?X \<subseteq> grey st0 b" "grey st0 b \<subseteq> (graph hs st0)\<^sup>* `` ?X" using md by simp_all
  have closed: "graph hs st0 `` grey st0 b \<subseteq> grey st0 b"
    using marking_region [OF heap m] by (auto simp: region_def graph_def)
  have "w \<in> grey st0 b \<and> (w \<in> white st0 s \<longrightarrow> w \<in> done_white st0 s st)" if "(r, w) \<in> (graph hs st0)\<^sup>*" "r \<in> ?X" for r w
    using that
  proof (induction rule: rtrancl_induct)
    case base
    moreover have "?X \<inter> white st0 s \<subseteq> done_white st0 s st" using cd W(2) by (simp add: roots_def)
    ultimately show ?case using X(1) by blast
  next
    case (step y w)
    have y: "y \<in> grey st0 b" "y \<in> white st0 s \<longrightarrow> y \<in> done_white st0 s st" using step by blast+
    then have "w \<in> grey st0 b" using closed step.hyps(2) by blast
    moreover have "w \<in> done_white st0 s st" if w: "w \<in> white st0 s"
    proof -
      have "y \<notin> L" using w W(1) L step.hyps(2) by blast
      then have "y \<in> done_white st0 s st" using y W(1) by blast
      then have "set (kids hs st0 y) \<inter> white st0 s \<subseteq> done_white st0 s st" using cd by (simp add: roots_def)
      then show ?thesis using step.hyps(2) w by (auto simp: graph_def)
    qed
    ultimately show ?case by blast
  qed
  then have "white st0 s \<subseteq> done_white st0 s st" using X(2) W(1) by blast
  then show ?thesis by (auto simp: done_white_def)
qed

text \<open>The counts after the three phases.\<close>

lemma final_counts:
  assumes fin: "finite G" and L: "L \<subseteq> G"
    and b: "b n = (r0 :: uint) - (\<Sum>m \<in> G. cnt (kids hs st0 m) n)" and s: "s n = b n + (\<Sum>m \<in> L. cnt (kids hs st0 m) n)"
    and f: "f n = s n + (\<Sum>m \<in> G - L. part hs st0 m n)"
  shows "f n = (case n of ZV a \<Rightarrow> r0 + of_bool (n \<in> G - L) | OB h \<Rightarrow> r0 - (\<Sum>m \<in> G - L. cnt (kids hs st0 m) n))"
proof -
  have split: "(\<Sum>m \<in> G. cnt (kids hs st0 m) n) = (\<Sum>m \<in> G - L. cnt (kids hs st0 m) n) + (\<Sum>m \<in> L. cnt (kids hs st0 m) n)"
    by (rule sum.subset_diff [OF L fin])
  show ?thesis
  proof (cases n)
    case (ZV a)
    have "(\<Sum>m \<in> G - L. part hs st0 m n) = (\<Sum>m \<in> G - L. of_bool (m = n)) + (\<Sum>m \<in> G - L. cnt (kids hs st0 m) n)"
      by (simp add: part_def ZV sum.distrib)
    also have "(\<Sum>m \<in> G - L. of_bool (m = n)) = (of_bool (n \<in> G - L) :: uint)"
      using fin by (simp add: of_bool_def sum.delta' if_distrib)
    finally show ?thesis using ZV f s b split by (simp add: algebra_simps)
  next
    case (OB h)
    then have "(\<Sum>m \<in> G - L. part hs st0 m n) = 0" by (simp add: part_def)
    then show ?thesis using OB f s b split by (simp add: algebra_simps)
  qed
qed

text \<open>The states a collection may start in.\<close>

definition gc_ready :: "(handle \<Rightarrow> addr) \<Rightarrow> zgc \<Rightarrow> bool" where
  "gc_ready hs st \<longleftrightarrow> heap_ok hs st \<and> props_ok hs st \<and> buffer_ok hs st \<and> counts_ok hs st \<and>
     (\<forall>n. has st n \<longrightarrow> col st n \<in> {GC_BLACK, GC_PURPLE})"

text \<open>What a collection promises: \<open>xs\<close> are the zvals found. A colour changes only on candidates;
  each zval found has one reference held on it, each object of one has lost the references of the
  zvals found.\<close>

definition gc_found :: "(handle \<Rightarrow> addr) \<Rightarrow> zgc \<Rightarrow> zgc \<Rightarrow> addr list \<Rightarrow> bool" where
  "gc_found hs st st' xs \<longleftrightarrow>
     distinct xs \<and> set xs = {a. ZV a \<in> garbage hs st} \<and> same_graph st st' \<and>
     gc_roots st' = [] \<and> mset (gc_unused st') = mset (gc_roots st) + mset (gc_unused st) \<and>
     (\<forall>n. has st n \<longrightarrow> n \<notin> garbage hs st \<longrightarrow> gc_addr (ref st' n) = Null) \<and>
     (\<forall>n \<in> nodes st - garbage hs st. col st' n = (if n \<in> candidates hs st then GC_BLACK else col st n)) \<and>
     (\<forall>n \<in> garbage hs st. took n st') \<and>
     (\<forall>n \<in> nodes st. rc st' n = (case n of ZV a \<Rightarrow> rc st n + of_bool (n \<in> garbage hs st)
        | OB h \<Rightarrow> rc st n - (\<Sum>m \<in> garbage hs st. cnt (kids hs st m) n)))"

lemma final_colours:
  assumes m: "marking hs st0 [] b" and s: "scan_inv hs st0 (grey st0 b) b s" "painted GC_BLACK (grey st0 b) s = L"
    and c: "collecting hs st0 s [] st" "done_white st0 s st = grey st0 b - L" and n: "n \<in> nodes st0 - (grey st0 b - L)"
  shows "gc_addr (ref st n) = Null" "col st n = (if n \<in> grey st0 b then GC_BLACK else col st0 n)"
proof -
  note cd = c(1) [unfolded collecting_def c(2)]
  show "gc_addr (ref st n) = Null" using cd n nodes_has by auto
  have "col st n = col s n" using cd n by blast
  also have "\<dots> = (if n \<in> grey st0 b then GC_BLACK else col st0 n)"
  proof (cases "n \<in> grey st0 b")
    case True
    then have "n \<in> painted GC_BLACK (grey st0 b) s" using n s(2) by blast
    then show ?thesis using True by (simp add: painted_def)
  next
    case False
    then have "col s n = col b n" using s(1) n by (auto simp: scan_inv_def)
    moreover have "greyed hs st0 b" using m by (simp add: marking_def)
    then have "col b n = col st0 n" using False n unfolding greyed_def by blast
    ultimately show ?thesis using False by simp
  qed
  finally show "col st n = (if n \<in> grey st0 b then GC_BLACK else col st0 n)" .
qed

lemma gc_phases:
  assumes ready: "gc_ready hs st0" and z: "zval_to_free st0 = Next None"
  obtains b s st' xs where "gc_mark_roots st0 = Some b" "gc_scan_roots b = Some s" "gc_collect_roots s = Some st'"
    "free_chain st' (zval_to_free st') xs" "gc_found hs st0 st' xs"
proof -
  have heap: "heap_ok hs st0" and po: "props_ok hs st0" and bo: "buffer_ok hs st0" and c: "counts_ok hs st0"
    and col: "\<forall>n. has st0 n \<longrightarrow> col st0 n \<in> {GC_BLACK, GC_PURPLE}" using ready by (simp_all add: gc_ready_def)
  obtain b where b: "gc_mark_roots st0 = Some b" "marking hs st0 [] b" "grey st0 b = candidates hs st0"
    using gc_mark_roots_spec [OF heap bo col] by (auto simp: candidates_def)
  let ?G = "candidates hs st0" and ?W = "garbage hs st0"
  have reg: "region hs st0 ?G" by (rule candidates_region [OF heap])
  have rcb: "rc b n = rc st0 n - (\<Sum>m \<in> ?G. cnt (kids hs st0 m) n)" if "n \<in> nodes st0" for n
    using b(2,3) that by (simp add: marking_def greyed_def)
  define L where "L = (graph hs st0)\<^sup>* `` {n \<in> ?G. rc b n \<noteq> 0}"
  obtain s where s: "gc_scan_roots b = Some s" "scan_inv hs st0 ?G b s" "painted GC_BLACK ?G s = L" "painted GC_WHITE ?G s = ?G - L"
    using gc_scan_roots_spec [OF heap b(2) col] b(3) unfolding L_def by auto
  have "{n \<in> ?G. rc b n \<noteq> 0} = {n \<in> ?G. rc st0 n - (\<Sum>m \<in> ?G. cnt (kids hs st0 m) n) \<noteq> 0}"
    using rcb reg by (auto simp: region_def)
  then have W: "?W = ?G - L" unfolding L_def using garbage_eq [OF heap c] by simp
  have ws: "white st0 s = ?W" using scan_white [OF s(2) [folded b(3)] col b(2)] s(4) b(3) W by simp
  obtain st' where st': "gc_collect_roots s = Some st'" "collecting hs st0 s [] st'"
    using gc_collect_roots_loop_collects [OF collecting_start [OF heap po b(2) s(2) [folded b(3)] z]]
    by (auto simp: gc_collect_roots_def)
  have f: "gc_frame b s" by (rule scan_invD [OF s(2)])
  have eq: "gc_roots s = gc_roots b" "gc_unused s = gc_unused b" using f by (simp_all add: gc_frame_def)
  have "graph hs st0 `` L \<subseteq> L" unfolding L_def by (auto intro: rtrancl_into_rtrancl)
  then have dn: "done_white st0 s st' = ?W"
    using all_white_done [OF heap b(2) _ eq(1) _ st'(2)] ws W b(3) by simp
  note cd = st'(2) [unfolded collecting_def collect_base_def dn]
  obtain xs where xs: "free_chain st' (zval_to_free st') xs" "distinct xs"
    "set xs = {a. ZV a \<in> nodes st0 \<and> is_Next (gc_addr (ref st' (ZV a)))}" using cd by (auto simp: list_ok_def)
  have sub: "?W \<subseteq> nodes st0" "L \<subseteq> ?G" "?G \<subseteq> nodes st0" using reg W s(3) by (auto simp: region_def painted_def)
  have tk: "\<forall>n \<in> ?W. took n st'" using cd by blast
  have rest: "gc_addr (ref st' n) = Null" "col st' n = (if n \<in> ?G then GC_BLACK else col st0 n)" if "n \<in> nodes st0 - ?W" for n
    using final_colours [OF b(2) s(2,3) [folded b(3)] st'(2)] dn W that unfolding b(3) by auto
  have "set xs = {a. ZV a \<in> ?W}" using xs(3) tk rest(1) sub(1) by fastforce
  moreover have "gc_addr (ref st' n) = Null" if "has st0 n" "n \<notin> ?W" for n using cd that by auto
  moreover have "rc st' n = (case n of ZV a \<Rightarrow> rc st0 n + of_bool (n \<in> ?W) | OB h \<Rightarrow> rc st0 n - (\<Sum>m \<in> ?W. cnt (kids hs st0 m) n))"
    if n: "n \<in> nodes st0" for n
    unfolding W
  proof (rule final_counts [OF finite_region [OF heap reg] sub(2)])
    show "rc b n = rc st0 n - (\<Sum>m \<in> ?G. cnt (kids hs st0 m) n)" by (rule rcb [OF n])
    show "rc s n = rc b n + (\<Sum>m \<in> L. cnt (kids hs st0 m) n)" using s(2,3) n by (simp add: scan_inv_def)
    show "rc st' n = rc s n + (\<Sum>m \<in> ?G - L. part hs st0 m n)" using cd n unfolding W by blast
  qed
  moreover have "gc_roots st' = []" "mset (gc_unused st') = mset (gc_roots st0) + mset (gc_unused st0)" "same_graph st0 st'"
    using cd b(2) eq by (simp_all add: marking_def)
  ultimately have "gc_found hs st0 st' xs" using xs(2) tk rest unfolding gc_found_def by simp
  then show thesis using that b(1) s(1) st'(1) xs(1) by blast
qed

text \<open>The collector's own globals are no part of the graph.\<close>

lemma same_heap:
  assumes "zvals st' = zvals st" "tables st' = tables st" "symbol_table st' = symbol_table st"
    "get_properties st' = get_properties st" "object_buckets st' = object_buckets st"
  shows "ref st' = ref st" "rc st' = rc st" "has st' = has st" "nodes st' = nodes st" "kids hs st' = kids hs st"
    "same_graph st st'" "heap_ok hs st' = heap_ok hs st" "props_ok hs st' = props_ok hs st"
proof -
  have o: "os_get st' = os_get st" using assms(5) by (simp add: os_get_def fun_eq_iff)
  have p: "gc_object_props h k st' = gc_object_props h k st" for h k unfolding gc_object_props_def o assms ..
  have e: "edges st' = edges st" "symtab st' = symtab st" by (simp_all add: edges_def symtab_def is_symbol_table_def assms fun_eq_iff)
  show "ref st' = ref st" "rc st' = rc st" "has st' = has st"
    by (rule ext, rename_tac n, case_tac n; simp add: node_simps assms o)+
  show "nodes st' = nodes st" by (simp add: nodes_def assms o e)
  show "kids hs st' = kids hs st" by (rule ext, rename_tac n, case_tac n; simp only: kids.simps assms e p)
  show "same_graph st st'" by (simp add: same_graph_def assms o)
  show "heap_ok hs st' = heap_ok hs st" by (simp add: heap_ok_def assms o p)
  show "props_ok hs st' = props_ok hs st" by (simp add: props_ok_def assms o)
qed

lemma free_chain_ref: "ref st' = ref st \<Longrightarrow> free_chain st' p xs = free_chain st p xs"
  by (induction xs arbitrary: p) auto

lemma took_ref: "ref st' = ref st \<Longrightarrow> took n st' = took n st"
  by (cases n) auto

lemma gc_find_cycles_found:
  assumes "gc_ready hs st" "gc_roots st \<noteq> []" "\<not> gc_active st"
  shows "\<exists>st' xs. gc_find_cycles st = Some (Some st') \<and> free_chain st' (free_list st') xs \<and> gc_found hs st st' xs \<and>
    zval_to_free st' = Null \<and> \<not> gc_active st'"
proof -
  let ?st0 = "st\<lparr>gc_runs := gc_runs st + 1, zval_to_free := Next None, gc_active := True\<rparr>"
  have eq0: "zvals ?st0 = zvals st" "tables ?st0 = tables st" "symbol_table ?st0 = symbol_table st"
    "get_properties ?st0 = get_properties st" "object_buckets ?st0 = object_buckets st" by simp_all
  note h0 = same_heap [OF eq0]
  have g: "graph hs ?st0 = graph hs st" unfolding graph_def h0 ..
  have r: "root_of ?st0 = root_of st" by (simp add: root_of_def fun_eq_iff)
  have p: "purple_roots ?st0 = purple_roots st" unfolding purple_roots_def roots_def h0 r by simp
  have cand: "candidates hs ?st0 = candidates hs st" unfolding candidates_def g p ..
  have rf: "refs hs ?st0 = refs hs st" unfolding refs_def h0 ..
  have gb: "garbage hs ?st0 = garbage hs st" unfolding garbage_def cand rf g h0 ..
  have "gc_ready hs ?st0" using assms(1) unfolding gc_ready_def buffer_ok_def counts_ok_def rf h0 r by simp
  then obtain b s st' xs where ph: "gc_mark_roots ?st0 = Some b" "gc_scan_roots b = Some s" "gc_collect_roots s = Some st'"
    "free_chain st' (zval_to_free st') xs" "gc_found hs ?st0 st' xs" by (rule gc_phases) simp
  let ?st = "st'\<lparr>free_list := zval_to_free st', zval_to_free := Null, gc_active := False\<rparr>"
  have eq1: "zvals ?st = zvals st'" "tables ?st = tables st'" "symbol_table ?st = symbol_table st'"
    "get_properties ?st = get_properties st'" "object_buckets ?st = object_buckets st'" by simp_all
  note h1 = same_heap [OF eq1]
  have "same_graph st ?st" by (rule same_graph_trans [OF h0(6) same_graph_trans [OF _ h1(6)]]) (use ph(5) in \<open>simp add: gc_found_def\<close>)
  then have "gc_found hs st ?st xs"
    using ph(5) unfolding gc_found_def cand gb h0 h1 took_ref [OF h1(1)] by simp
  then show ?thesis using ph assms(2,3) free_chain_ref [OF h1(1)] by (auto simp: gc_find_cycles_def Let_def)
qed


text \<open>An array that holds itself and an object, whose property is the array.\<close>

definition cyc_object :: store_bucket where
  "cyc_object = \<lparr>destructor_called = False, os_valid = True, os_object = None, os_dtor = Some 0, os_free_storage = Some 3,
     os_clone = None, os_handlers = Some 7, os_refcount = 1, os_buffered = gc_null, os_next = 0\<rparr>"

definition cyc_zero :: store_bucket where
  "cyc_zero = \<lparr>destructor_called = False, os_valid = False, os_object = None, os_dtor = None, os_free_storage = None,
     os_clone = None, os_handlers = None, os_refcount = 0, os_buffered = gc_null, os_next = 0\<rparr>"

definition cyc_heap :: zgc where
  "cyc_heap = \<lparr>zvals = [4 \<mapsto> \<lparr>z_value = IS_ARRAY 10, refcount__gc = 2, zv_buffered = \<lparr>gc_color = GC_PURPLE, gc_addr = Buf 0\<rparr>\<rparr>,
       2 \<mapsto> \<lparr>z_value = IS_OBJECT 1 7, refcount__gc = 1, zv_buffered = gc_null\<rparr>,
       3 \<mapsto> \<lparr>z_value = IS_SCALAR, refcount__gc = 1, zv_buffered = gc_null\<rparr>],
     tables = [10 \<mapsto> [4, 2], 12 \<mapsto> [4]], symbol_table = 99, get_properties = (\<lambda>k. if k = 7 then Some (\<lambda>h. Some 12) else None),
     object_buckets = Some [Some cyc_zero, Some cyc_object], os_base = 0, os_top = 2, os_size = 2, free_list_head = - 1,
     gc_enabled = True, gc_active = False, gc_buf = (\<lambda>i. \<lparr>rb_handle = 0, rb_u = 4\<rparr>), gc_roots = [0], gc_unused = [],
     first_unused = 1, last_unused = 10000, zval_to_free = Null, free_list = Null, next_to_free = Null, gc_runs = 0, gc_collected = 0\<rparr>"

lemma cyc_os_get: "os_get cyc_heap h = (if h = 1 then Some cyc_object else if h = 0 then Some cyc_zero else None)"
proof -
  have "unat h = 1 \<longleftrightarrow> h = 1" "unat h = 0 \<longleftrightarrow> h = 0" by (metis unsigned_1 word_unat_eq_iff, simp add: word_unat_eq_iff)
  then show ?thesis by (auto simp: os_get_def cyc_heap_def nth_opt_def less_Suc_eq nth_Cons split: nat.split)
qed

lemma cyc_zvals:
  "zvals cyc_heap a = (if a = 3 then Some \<lparr>z_value = IS_SCALAR, refcount__gc = 1, zv_buffered = gc_null\<rparr>
    else if a = 2 then Some \<lparr>z_value = IS_OBJECT 1 7, refcount__gc = 1, zv_buffered = gc_null\<rparr>
    else if a = 4 then Some \<lparr>z_value = IS_ARRAY 10, refcount__gc = 2, zv_buffered = \<lparr>gc_color = GC_PURPLE, gc_addr = Buf 0\<rparr>\<rparr> else None)"
  and cyc_simps: "tables cyc_heap = [10 \<mapsto> [4, 2], 12 \<mapsto> [4]]" "symbol_table cyc_heap = 99"
    "get_properties cyc_heap k = (if k = 7 then Some (\<lambda>h. Some 12) else None)" "object_buckets cyc_heap = Some [Some cyc_zero, Some cyc_object]"
    "gc_roots cyc_heap = [0]" "gc_active cyc_heap = False" "gc_buf cyc_heap i = \<lparr>rb_handle = 0, rb_u = 4\<rparr>"
  by (auto simp: cyc_heap_def)

lemma cyc_graph:
  "nodes cyc_heap = {ZV 4, ZV 2, ZV 3, OB 1, OB 0}"
  "kids (\<lambda>h. 7) cyc_heap (ZV 4) = [ZV 4, ZV 2]" "kids (\<lambda>h. 7) cyc_heap (ZV 2) = [OB 1]" "kids (\<lambda>h. 7) cyc_heap (ZV 3) = []"
  "kids (\<lambda>h. 7) cyc_heap (OB 1) = [ZV 4]" "kids (\<lambda>h. 7) cyc_heap (OB 0) = []"
  by (auto simp: nodes_def symtab_def is_symbol_table_def kids.simps edges_def cyc_zvals cyc_os_get cyc_simps gc_object_props_def
      cyc_object_def cyc_zero_def split: if_splits)

lemma cyc_ready: "gc_ready (\<lambda>h. 7) cyc_heap"
  unfolding gc_ready_def
proof (intro conjI)
  have fin: "dom (zvals cyc_heap) = {4, 2, 3}" by (auto simp: cyc_zvals split: if_splits)
  show "heap_ok (\<lambda>h. 7) cyc_heap"
    unfolding heap_ok_def fin by (auto simp: cyc_zvals cyc_os_get cyc_simps gc_object_props_def cyc_object_def cyc_zero_def split: if_splits)
  show "props_ok (\<lambda>h. 7) cyc_heap" by (auto simp: props_ok_def cyc_simps)
  show "buffer_ok (\<lambda>h. 7) cyc_heap"
    unfolding buffer_ok_def root_of_def
  proof (intro conjI allI impI ballI)
    fix n assume "has cyc_heap n"
    then show "gc_addr (ref cyc_heap n) = Null \<or>
      (\<exists>i \<in> set (gc_roots cyc_heap). gc_addr (ref cyc_heap n) = Buf i \<and>
        (let e = gc_buf cyc_heap i in if rb_handle e \<noteq> 0 then OB (rb_handle e) else ZV (rb_u e)) = n)"
      by (cases n) (auto simp: node_simps cyc_zvals cyc_os_get cyc_object_def cyc_zero_def gc_null_def cyc_simps split: if_splits)
  qed (auto simp: node_simps cyc_zvals cyc_simps)
  show "counts_ok (\<lambda>h. 7) cyc_heap"
    unfolding counts_ok_def refs_def cyc_graph(1)
    by (simp add: cyc_graph rc.simps cyc_zvals cyc_os_get cyc_object_def cyc_zero_def)
  show "\<forall>n. has cyc_heap n \<longrightarrow> col cyc_heap n \<in> {GC_BLACK, GC_PURPLE}"
  proof (intro allI impI)
    fix n assume "has cyc_heap n"
    then show "col cyc_heap n \<in> {GC_BLACK, GC_PURPLE}"
      by (cases n) (auto simp: node_simps cyc_zvals cyc_os_get cyc_object_def cyc_zero_def gc_null_def split: if_splits)
  qed
qed

lemma cyc_garbage: "garbage (\<lambda>h. 7) cyc_heap = {ZV 4, ZV 2, OB 1}"
proof -
  let ?g = "graph (\<lambda>h. 7) cyc_heap"
  have p: "purple_roots cyc_heap = {ZV 4}"
    by (auto simp: purple_roots_def roots_def root_of_def cyc_simps cyc_graph ref.simps cyc_zvals)
  have e: "(ZV 4, ZV 2) \<in> ?g" "(ZV 2, OB 1) \<in> ?g" by (simp_all add: graph_def cyc_graph)
  have c: "candidates (\<lambda>h. 7) cyc_heap = {ZV 4, ZV 2, OB 1}"
  proof
    have "?g `` {ZV 4, ZV 2, OB 1} \<subseteq> {ZV 4, ZV 2, OB 1}" by (auto simp: graph_def cyc_graph)
    then show "candidates (\<lambda>h. 7) cyc_heap \<subseteq> {ZV 4, ZV 2, OB 1}" unfolding candidates_def p by (rule reach_closed) simp
    show "{ZV 4, ZV 2, OB 1} \<subseteq> candidates (\<lambda>h. 7) cyc_heap"
      unfolding candidates_def p using e by (auto intro: rtrancl_into_rtrancl)
  qed
  have z: "n = ZV 3" if "(ZV 3, n) \<in> ?g\<^sup>*" for n
    using that by (induction rule: rtrancl_induct) (auto simp: graph_def cyc_graph)
  have o: "n = OB 0" if "(OB 0, n) \<in> ?g\<^sup>*" for n
    using that by (induction rule: rtrancl_induct) (auto simp: graph_def cyc_graph)
  from z [of "ZV 4"] z [of "ZV 2"] z [of "OB 1"] o [of "ZV 4"] o [of "ZV 2"] o [of "OB 1"] show ?thesis
    unfolding garbage_def c refs_def cyc_graph(1)
    by (auto simp: cyc_graph rc.simps cyc_zvals cyc_os_get cyc_object_def cyc_zero_def)
qed


end
