(* ===== verification/Gc_Buffer.thy ===== *)
theory Gc_Buffer
  imports Gc_Cycles
begin

text \<open>
  The root buffer between collections: \<open>gc_zval_possible_root\<close> enters a node, \<open>GC_REMOVE_ZVAL_FROM_BUFFER\<close>
  takes it out, and both keep the entries, the list of unused ones and the addresses in the nodes
  consistent.
\<close>

definition root_buffer_ok :: "(handle \<Rightarrow> addr) \<Rightarrow> zgc \<Rightarrow> bool" where
  "root_buffer_ok hs st \<longleftrightarrow> buffer_ok hs st \<and> distinct (gc_roots st @ gc_unused st) \<and>
     set (gc_roots st @ gc_unused st) = {..<first_unused st} \<and> first_unused st \<le> last_unused st"

definition buffer_room :: "zgc \<Rightarrow> bool" where
  "buffer_room st \<longleftrightarrow> gc_unused st \<noteq> [] \<or> first_unused st < last_unused st"

lemma nmap_counters [simp]:
  "first_unused (nmap n f g st) = first_unused st" "last_unused (nmap n f g st) = last_unused st" "free_list (nmap n f g st) = free_list st"
  by (cases n; simp add: nmap.simps)+

text \<open>Taking an entry.\<close>

lemma gc_new_root_room:
  assumes ok: "root_buffer_ok hs st" and room: "buffer_room st"
  obtains i st' where "gc_new_root collect zv st = Some (st', Some (i, False))" "i \<notin> set (gc_roots st)"
    "zvals st' = zvals st" "tables st' = tables st" "symbol_table st' = symbol_table st"
    "get_properties st' = get_properties st" "object_buckets st' = object_buckets st"
    "gc_roots st' = gc_roots st" "gc_buf st' = gc_buf st" "free_list st' = free_list st"
    "distinct (i # gc_roots st @ gc_unused st')" "set (i # gc_roots st @ gc_unused st') = {..<first_unused st'}"
    "first_unused st' \<le> last_unused st'"
proof (cases "gc_unused st")
  case (Cons i rest)
  then show thesis
    using that [of "st\<lparr>gc_unused := rest\<rparr>" i] ok by (auto simp: gc_new_root_def root_buffer_ok_def)
next
  case Nil
  let ?i = "first_unused st"
  have s: "set (gc_roots st) = {..<?i}" "distinct (gc_roots st)" "?i < last_unused st"
    using ok room Nil by (simp_all add: root_buffer_ok_def buffer_room_def)
  then have "set (?i # gc_roots st) = {..<Suc ?i}" by (simp add: lessThan_Suc)
  then show thesis
    using that [of "st\<lparr>first_unused := first_unused st + 1\<rparr>" ?i] s Nil by (simp add: gc_new_root_def)
qed

text \<open>Linking the entry \<open>e\<close> of a node that has none.\<close>

lemma buffer_ok_link:
  assumes b: "buffer_ok hs st" and n: "has st n" "gc_addr (ref st n) = Null" and i: "i \<notin> set (gc_roots st)"
    and e: "(if rb_handle e \<noteq> 0 then OB (rb_handle e) else ZV (rb_u e)) = n" "rb_handle e \<noteq> 0 \<longrightarrow> rb_u e = hs (rb_handle e)"
  shows "buffer_ok hs (set_addr n (Buf i) (gc_link_root i e st))"
proof -
  let ?st = "gc_link_root i e st"
  have h: "ref ?st = ref st" "has ?st = has st" "same_graph st ?st"
    by (rule same_heap; simp add: gc_link_root_def)+
  have root: "root_of ?st j = (if j = i then n else root_of st j)" for j
    using e(1) by (auto simp: root_of_def gc_link_root_def Let_def split: if_splits)
  have other: "root_of st j \<noteq> n" if "j \<in> set (gc_roots st)" for j using b n(2) that by (auto simp: buffer_ok_def)
  have hn: "has ?st n" using h(2) n(1) by simp
  let ?st' = "set_addr n (Buf i) ?st"
  have r': "root_of ?st' j = (if j = i then n else root_of st j)" for j using root by (simp add: root_of_def)
  have g': "gc_roots ?st' = i # gc_roots st" "gc_buf ?st' = (gc_buf st)(i := e)" by (simp_all add: gc_link_root_def)
  have a': "gc_addr (ref ?st' m) = (if m = n then Buf i else gc_addr (ref st m))" "has ?st' m = has st m" for m
    using hn h by simp_all
  note bd = b [unfolded buffer_ok_def]
  have "gc_addr (ref ?st' m) = Null \<or> (\<exists>j \<in> set (gc_roots ?st'). gc_addr (ref ?st' m) = Buf j \<and> root_of ?st' j = m)"
    if m: "has ?st' m" for m
  proof (cases "m = n")
    case False
    then have "gc_addr (ref st m) = Null \<or> (\<exists>j \<in> set (gc_roots st). gc_addr (ref st m) = Buf j \<and> root_of st j = m)"
      using bd m unfolding a' by blast
    then show ?thesis using False i unfolding r' g' a' by auto
  qed (unfold a' r' g', simp)
  moreover have "distinct (gc_roots ?st')" using bd i unfolding g' by simp
  moreover have "has ?st' (root_of ?st' j) \<and> gc_addr (ref ?st' (root_of ?st' j)) = Buf j \<and>
      (rb_handle (gc_buf ?st' j) \<noteq> 0 \<longrightarrow> rb_u (gc_buf ?st' j) = hs (rb_handle (gc_buf ?st' j)))" if "j \<in> set (gc_roots ?st')" for j
    using bd n(1) e(2) other that unfolding r' g' a' by auto
  ultimately show ?thesis unfolding buffer_ok_def by blast
qed

text \<open>Buffering a node: purple, and an entry if it has none.\<close>

definition buffered :: "(handle \<Rightarrow> addr) \<Rightarrow> gc_node \<Rightarrow> zgc \<Rightarrow> zgc \<Rightarrow> bool" where
  "buffered hs n st st' \<longleftrightarrow> root_buffer_ok hs st' \<and> same_graph st st' \<and> col st' n = GC_PURPLE \<and>
     (col st n \<noteq> GC_PURPLE \<longrightarrow> (\<exists>i \<in> set (gc_roots st'). gc_addr (ref st' n) = Buf i \<and> root_of st' i = n)) \<and>
     set (gc_roots st) \<subseteq> set (gc_roots st') \<and> (\<forall>m. rc st' m = rc st m) \<and> (\<forall>m. m \<noteq> n \<longrightarrow> ref st' m = ref st m)"

lemma root_buffer_ok_frame:
  assumes "root_buffer_ok hs st" "has st n"
  shows "root_buffer_ok hs (set_col n c st)"
  using assms buffer_ok_frame [OF _ gc_frame_col [OF assms(2)]] by (simp add: root_buffer_ok_def)

lemma buffered_known:
  assumes ok: "root_buffer_ok hs st" and h: "has st n" and a: "gc_addr (ref st n) \<noteq> Null"
  shows "buffered hs n st (set_col n GC_PURPLE st)"
proof -
  have "buffer_ok hs st" using ok by (simp add: root_buffer_ok_def)
  then obtain i where "i \<in> set (gc_roots st)" "gc_addr (ref st n) = Buf i" "root_of st i = n"
    using h a unfolding buffer_ok_def by blast
  then show ?thesis using root_buffer_ok_frame [OF ok h] h by (auto simp: buffered_def root_of_def)
qed

lemma buffered_new:
  assumes ok: "root_buffer_ok hs st" and room: "buffer_room st" and h: "has st n" and a: "gc_addr (ref st n) = Null"
    and e: "(if rb_handle e \<noteq> 0 then OB (rb_handle e) else ZV (rb_u e)) = n" "rb_handle e \<noteq> 0 \<longrightarrow> rb_u e = hs (rb_handle e)"
  obtains i st1 where "gc_new_root collect zv (set_col n GC_PURPLE st) = Some (st1, Some (i, False))" "has (gc_link_root i e st1) n"
    "buffered hs n st (set_addr n (Buf i) (gc_link_root i e st1))"
proof -
  let ?st = "set_col n GC_PURPLE st"
  have ok1: "root_buffer_ok hs ?st" by (rule root_buffer_ok_frame [OF ok h])
  have room1: "buffer_room ?st" using room by (simp add: buffer_room_def)
  obtain i st1 where s: "gc_new_root collect zv ?st = Some (st1, Some (i, False))" "i \<notin> set (gc_roots ?st)"
    "zvals st1 = zvals ?st" "tables st1 = tables ?st" "symbol_table st1 = symbol_table ?st"
    "get_properties st1 = get_properties ?st" "object_buckets st1 = object_buckets ?st"
    "gc_roots st1 = gc_roots ?st" "gc_buf st1 = gc_buf ?st" "free_list st1 = free_list ?st"
    "distinct (i # gc_roots ?st @ gc_unused st1)" "set (i # gc_roots ?st @ gc_unused st1) = {..<first_unused st1}"
    "first_unused st1 \<le> last_unused st1" by (rule gc_new_root_room [OF ok1 room1])
  note h1 = same_heap [OF s(3-7)]
  have b1: "buffer_ok hs st1"
    using ok1 unfolding root_buffer_ok_def buffer_ok_def h1 s(8,9) root_of_def [of st1] root_of_def [of ?st, symmetric] by simp
  have n1: "has st1 n" "gc_addr (ref st1 n) = Null" "i \<notin> set (gc_roots st1)" using h a s(2,8) by (simp_all add: h1)
  let ?l = "gc_link_root i e st1"
  have hl: "ref ?l = ref st1" "rc ?l = rc st1" "has ?l = has st1" "same_graph st1 ?l" by (rule same_heap; simp add: gc_link_root_def)+
  have l: "has ?l n" using hl n1 by simp
  have root: "root_of ?l i = n" using e(1) by (auto simp: root_of_def gc_link_root_def Let_def split: if_splits)
  have ol: "root_buffer_ok hs (set_addr n (Buf i) ?l)"
    unfolding root_buffer_ok_def nmap_globals nmap_counters
    using buffer_ok_link [OF b1 n1 e] s(8,11-13) by (simp add: gc_link_root_def)
  have g: "same_graph st (set_addr n (Buf i) ?l)"
    by (rule same_graph_trans [OF same_graph_nmap [OF h] same_graph_trans [OF h1(6) same_graph_trans [OF hl(4) same_graph_nmap [OF l]]]])
  have "buffered hs n st (set_addr n (Buf i) ?l)"
    unfolding buffered_def
    using ol g l h root hl(1,2) h1(1,2) s(8) by (auto simp: root_of_def gc_link_root_def)
  then show thesis using that s(1) l by blast
qed

text \<open>The node that a zval stands for, and what the code may take for granted of it.\<close>

fun root_node :: "zgc \<Rightarrow> addr \<Rightarrow> gc_node" where
  "root_node st zv = (case z_value (the (zvals st zv)) of IS_OBJECT h _ \<Rightarrow> OB h | _ \<Rightarrow> ZV zv)"

definition rootable :: "(handle \<Rightarrow> addr) \<Rightarrow> zgc \<Rightarrow> addr \<Rightarrow> bool" where
  "rootable hs st zv \<longleftrightarrow> zv \<in> dom (zvals st) \<and> free_list st = Null \<and>
     (\<forall>h k. z_value (the (zvals st zv)) = IS_OBJECT h k \<longrightarrow>
        h \<noteq> 0 \<and> k = hs h \<and> get_properties st k \<noteq> None \<and> (\<exists>b. os_get st h = Some b \<and> os_valid b))"

lemma gc_zobj_possible_root_buffered:
  assumes ok: "root_buffer_ok hs st" and room: "buffer_room st" and h: "has st (OB h)" "h \<noteq> 0" and p: "get_properties st (hs h) \<noteq> None"
  shows "\<exists>st'. gc_zobj_possible_root collect zv h (hs h) st = Some st' \<and> buffered hs (OB h) st st'"
proof -
  have ob: "object_buckets st \<noteq> None" by (rule has_OB_buckets [OF h(1)])
  let ?st = "set_col (OB h) GC_PURPLE st"
  have h': "has ?st (OB h)" using h(1) by simp
  obtain x where x: "os_get ?st h = Some x" "os_buffered x = ref ?st (OB h)" by (rule os_get_node [OF h'])
  consider (purple) "col st (OB h) = GC_PURPLE" | (known) "col st (OB h) \<noteq> GC_PURPLE" "gc_addr (ref st (OB h)) \<noteq> Null"
    | (new) "col st (OB h) \<noteq> GC_PURPLE" "gc_addr (ref st (OB h)) = Null" by blast
  then show ?thesis
  proof cases
    case purple
    then show ?thesis using ob p h ok by (simp add: gc_zobj_possible_root_def gc_prims buffered_def)
  next
    case known
    then show ?thesis
      using ob p h x buffered_known [OF ok h(1) known(2)] by (auto simp: gc_zobj_possible_root_def gc_prims)
  next
    case new
    have e: "(if rb_handle \<lparr>rb_handle = h, rb_u = hs h\<rparr> \<noteq> 0 then OB (rb_handle \<lparr>rb_handle = h, rb_u = hs h\<rparr>)
        else ZV (rb_u \<lparr>rb_handle = h, rb_u = hs h\<rparr>)) = OB h"
      "rb_handle \<lparr>rb_handle = h, rb_u = hs h\<rparr> \<noteq> 0 \<longrightarrow> rb_u \<lparr>rb_handle = h, rb_u = hs h\<rparr> = hs (rb_handle \<lparr>rb_handle = h, rb_u = hs h\<rparr>)"
      using h(2) by simp_all
    obtain i st1 where "gc_new_root collect zv ?st = Some (st1, Some (i, False))"
      "has (gc_link_root i \<lparr>rb_handle = h, rb_u = hs h\<rparr> st1) (OB h)"
      "buffered hs (OB h) st (set_addr (OB h) (Buf i) (gc_link_root i \<lparr>rb_handle = h, rb_u = hs h\<rparr> st1))"
      by (rule buffered_new [OF ok room h(1) new(2) e])
    then show ?thesis using ob p h x new by (auto simp: gc_zobj_possible_root_def gc_prims Let_def)
  qed
qed

lemma zval_possible_root_buffered:
  assumes ok: "root_buffer_ok hs st" and room: "buffer_room st" and h: "has st (ZV zv)" and c: "col st (ZV zv) \<noteq> GC_PURPLE" and q: "q = gc_addr (ref st (ZV zv))"
  shows "\<exists>st'. do {
      st \<leftarrow> GC_ZVAL_SET_COLOR zv GC_PURPLE st;
      if q = Null then do {
        (st, r) \<leftarrow> gc_new_root collect zv st;
        case r of
          None \<Rightarrow> Some st
        | Some (i, again) \<Rightarrow> do {
            st \<leftarrow> (if again then GC_ZVAL_SET_COLOR zv GC_PURPLE st else Some st);
            let st = gc_link_root i \<lparr>rb_handle = 0, rb_u = zv\<rparr> st;
            GC_ZVAL_SET_ADDRESS zv (Buf i) st
          }
      }
      else Some st } = Some st' \<and> buffered hs (ZV zv) st st'"
proof (cases "gc_addr (ref st (ZV zv)) = Null")
  case False
  then show ?thesis using q h buffered_known [OF ok h False] by (simp add: gc_prims)
next
  case True
  obtain i st1 where "gc_new_root collect zv (set_col (ZV zv) GC_PURPLE st) = Some (st1, Some (i, False))"
    "has (gc_link_root i \<lparr>rb_handle = 0, rb_u = zv\<rparr> st1) (ZV zv)"
    "buffered hs (ZV zv) st (set_addr (ZV zv) (Buf i) (gc_link_root i \<lparr>rb_handle = 0, rb_u = zv\<rparr> st1))"
    by (rule buffered_new [OF ok room h True, of "\<lparr>rb_handle = 0, rb_u = zv\<rparr>"]) simp_all
  then show ?thesis using q h True by (auto simp: gc_prims Let_def)
qed

lemma gc_zval_possible_root_buffered:
  assumes ok: "root_buffer_ok hs st" and room: "buffer_room st" and r: "rootable hs st zv"
  shows "\<exists>st'. gc_zval_possible_root collect zv st = Some st' \<and> buffered hs (root_node st zv) st st'"
proof -
  obtain z where z: "zvals st zv = Some z" using r by (auto simp: rootable_def)
  have h: "has st (ZV zv)" "zv_buffered z = ref st (ZV zv)" using z by (auto simp: node_simps)
  have fl: "\<not> gc_on_free_list z st" using r by (simp add: gc_on_free_list_def rootable_def)
  have purple: "buffered hs (ZV zv) st st" if "col st (ZV zv) = GC_PURPLE"
    using ok that by (simp add: buffered_def)
  show ?thesis
  proof (cases "z_value z")
    case (IS_OBJECT oh k)
    obtain b where b: "os_get st oh = Some b" "os_valid b" "oh \<noteq> 0" "k = hs oh" "get_properties st (hs oh) \<noteq> None"
      using r z IS_OBJECT by (auto simp: rootable_def)
    have o: "has st (OB oh)" using b(1) by (simp add: has.simps)
    show ?thesis
      using gc_zobj_possible_root_buffered [OF ok room o b(3,5)] z fl IS_OBJECT b has_OB_buckets [OF o]
      by (auto simp: gc_zval_possible_root_def)
  next
    case IS_NULL
    then show ?thesis
      using z fl h purple zval_possible_root_buffered [OF ok room h(1) _ refl, of collect]
      by (cases "col st (ZV zv) = GC_PURPLE") (simp_all add: gc_zval_possible_root_def)
  next
    case IS_SCALAR
    then show ?thesis
      using z fl h purple zval_possible_root_buffered [OF ok room h(1) _ refl, of collect]
      by (cases "col st (ZV zv) = GC_PURPLE") (simp_all add: gc_zval_possible_root_def)
  next
    case (IS_ARRAY ht)
    then show ?thesis
      using z fl h purple zval_possible_root_buffered [OF ok room h(1) _ refl, of collect]
      by (cases "col st (ZV zv) = GC_PURPLE") (simp_all add: gc_zval_possible_root_def)
  qed
qed

text \<open>Taking a zval out before it is freed.\<close>

lemma gc_remove_zval_buffered:
  assumes ok: "root_buffer_ok hs st" and h: "has st (ZV zv)" and fl: "free_list st = Null"
  shows "\<exists>st'. GC_REMOVE_ZVAL_FROM_BUFFER zv st = Some st' \<and> root_buffer_ok hs st' \<and> same_graph st st' \<and>
    gc_addr (ref st' (ZV zv)) = Null \<and> (\<forall>i \<in> set (gc_roots st'). root_of st' i \<noteq> ZV zv) \<and>
    (\<forall>m. rc st' m = rc st m) \<and> (\<forall>m. m \<noteq> ZV zv \<longrightarrow> ref st' m = ref st m)"
proof -
  obtain z where z: "zvals st zv = Some z" "zv_buffered z = ref st (ZV zv)" using h by (auto simp: node_simps)
  have bo: "buffer_ok hs st" using ok by (simp add: root_buffer_ok_def)
  note bd = bo [unfolded buffer_ok_def]
  show ?thesis
  proof (cases "gc_addr (ref st (ZV zv)) = Null")
    case True
    then have "root_of st i \<noteq> ZV zv" if "i \<in> set (gc_roots st)" for i using bd that by auto
    then show ?thesis using True ok z by (simp add: GC_REMOVE_ZVAL_FROM_BUFFER_def GC_ZVAL_ADDRESS_def)
  next
    case False
    then obtain i where i: "i \<in> set (gc_roots st)" "gc_addr (ref st (ZV zv)) = Buf i" "root_of st i = ZV zv" using bd h by blast
    obtain st1 where st1: "gc_remove_from_buffer i st = Some st1" "gc_roots st1 = remove1 i (gc_roots st)" "gc_unused st1 = i # gc_unused st"
      "same_graph st st1" "gc_buf st1 = gc_buf st" "zval_to_free st1 = zval_to_free st" "\<And>n. ref st1 n = ref st n" "\<And>n. rc st1 n = rc st n"
      by (rule gc_remove_root [OF i(1)]) blast
    have c: "first_unused st1 = first_unused st" "last_unused st1 = last_unused st"
      using st1(1) i(1) by (auto simp: gc_remove_from_buffer_def)
    have h1: "has st1 (ZV zv)" using h same_graph_has [OF st1(4)] by simp
    let ?st = "nmap (ZV zv) (\<lambda>x. x) (\<lambda>_. gc_null) st1"
    have g: "same_graph st ?st" by (rule same_graph_trans [OF st1(4) same_graph_nmap [OF h1]])
    have "buffer_ok hs ?st"
      by (rule buffer_ok_remove [OF bo i(1,3) g]) (use st1 h1 in \<open>simp_all add: gc_null_def\<close>)
    moreover have "set (gc_roots st1) = set (gc_roots st) - {i}" using bd st1(2) by simp
    ultimately have ok': "root_buffer_ok hs ?st"
      using ok i(1) st1(2,3) c by (auto simp: root_buffer_ok_def)
    have "gc_addr (ref ?st (ZV zv)) = Null" using h1 by (simp add: gc_null_def)
    moreover from this have "root_of ?st j \<noteq> ZV zv" if "j \<in> set (gc_roots ?st)" for j
      using ok' that unfolding root_buffer_ok_def buffer_ok_def by (metis gc_addr.distinct(1))
    moreover have "zv_upd zv (\<lambda>z. z\<lparr>zv_buffered := gc_null\<rparr>) st1 = Some ?st"
      using h1 by (auto simp: zv_upd_def poke_def nmap.simps node_simps)
    then have "GC_REMOVE_ZVAL_FROM_BUFFER zv st = Some ?st"
      using False z fl i(2) st1(1)
      by (simp add: GC_REMOVE_ZVAL_FROM_BUFFER_def GC_ZVAL_ADDRESS_def gc_remove_zval_from_buffer_def gc_on_free_list_def)
    ultimately show ?thesis using ok' g st1(7,8) h1 by auto
  qed
qed

subsection \<open>Where the buffer goes wrong\<close>

text \<open>When the buffer is full and the collector disabled, the colour of the zval is reset, not the one
  of its object (line 217): the object stays purple without an entry, and is never entered again.\<close>

lemma zobj_full_effect:
  assumes h: "has st (OB h)" "has st (ZV zv)" "col st (OB h) \<noteq> GC_PURPLE" "gc_addr (ref st (OB h)) = Null"
    and p: "get_properties st k \<noteq> None" and full: "gc_unused st = []" "first_unused st = last_unused st" "\<not> gc_enabled st"
  shows "gc_zobj_possible_root collect zv h k st = Some (set_col (ZV zv) GC_BLACK (set_col (OB h) GC_PURPLE st))"
proof -
  let ?st = "set_col (OB h) GC_PURPLE st"
  have o: "has ?st (OB h)" "has ?st (ZV zv)" using h by simp_all
  obtain x where x: "os_get ?st h = Some x" "os_buffered x = ref ?st (OB h)" by (rule os_get_node [OF o(1)])
  have e: "gc_enabled ?st = gc_enabled st" by (simp add: nmap.simps)
  show ?thesis
    using h p full x o e has_OB_buckets [OF h(1)] by (auto simp: gc_zobj_possible_root_def gc_new_root_def gc_prims)
qed

text \<open>A destructor that runs in the collection may enter the zval; the code does not look again
  before it links the entry it has reserved (lines 163 to 183), so two entries point to the zval.\<close>

lemma gc_zval_possible_root_twice:
  assumes zv: "zvals st zv = Some z" "z_value z = IS_ARRAY ht" "gc_color (zv_buffered z) = GC_BLACK" "gc_addr (zv_buffered z) = Null"
    and full: "gc_unused st = []" "first_unused st = last_unused st" "gc_enabled st"
    and collect: "collect (add_rc (ZV zv) 1 (set_col (ZV zv) GC_PURPLE st)) = Some st2" "has st2 (ZV zv)"
    and again: "j \<in> set (gc_roots st2)" "gc_addr (ref st2 (ZV zv)) = Buf j" "root_of st2 j = ZV zv" "gc_unused st2 = i # rest" "i \<noteq> j"
  shows "\<exists>st'. gc_zval_possible_root collect zv st = Some st' \<and> {i, j} \<subseteq> set (gc_roots st') \<and>
    root_of st' i = ZV zv \<and> root_of st' j = ZV zv"
proof -
  have h: "has st (ZV zv)" using zv by (auto simp: node_simps)
  let ?st3 = "(add_rc (ZV zv) (- 1) st2)\<lparr>gc_unused := rest\<rparr>"
  have h3: "has ?st3 (ZV zv)" using collect(2) same_heap(3) [of ?st3 "add_rc (ZV zv) (- 1) st2"] by simp
  let ?l = "gc_link_root i \<lparr>rb_handle = 0, rb_u = zv\<rparr> (set_col (ZV zv) GC_PURPLE ?st3)"
  have hl: "has ?l (ZV zv)" using h3 same_heap(3) [of ?l "set_col (ZV zv) GC_PURPLE ?st3"] by (simp add: gc_link_root_def)
  have e: "gc_enabled (set_col (ZV zv) GC_PURPLE st) = gc_enabled st" by (simp add: nmap.simps)
  have "gc_zval_possible_root collect zv st = Some (set_addr (ZV zv) (Buf i) ?l)"
    using zv h h3 hl full collect again(4) e
    by (simp add: gc_zval_possible_root_def gc_on_free_list_def gc_new_root_def gc_prims Let_def)
  then show ?thesis using again by (auto simp: gc_link_root_def root_of_def Let_def split: if_splits)
qed

text \<open>A zval whose object has no property table is taken without being listed (line 566).\<close>

lemma zval_collect_white_drops:
  assumes zv: "zvals st zv = Some z" "zv_buffered z = gc_white" "z_value z = IS_OBJECT h k"
    and o: "has st (OB h)" "ref st (OB h) = gc_white" and m: "gc_props_missing h k st = Some True"
  shows "\<exists>st'. zval_collect_white_enter zv st = Some ([], st') \<and> zval_to_free st' = zval_to_free st \<and> col st' (ZV zv) = GC_BLACK"
proof -
  have hz: "has st (ZV zv)" using zv(1) by (auto simp: node_simps)
  let ?st1 = "set_col (ZV zv) GC_BLACK st" and ?st2 = "set_col (OB h) GC_PURPLE (set_col (ZV zv) GC_BLACK st)"
  have o1: "has ?st1 (OB h)" using o(1) hz by simp
  obtain x where x: "os_get ?st1 h = Some x" "os_buffered x = ref ?st1 (OB h)" by (rule os_get_node [OF o1])
  obtain y where y: "zvals ?st1 zv = Some y" "z_value y = z_value z" using hz zv(1) by (auto simp: zvals_nmap)
  obtain u where u: "os_get ?st2 h = Some u" "os_valid u = os_valid (the (os_get st h))"
    using o1 hz by (auto simp: os_get_nmap)
  have "gc_props_missing h k ?st2 = Some True"
    using m o(1) u by (auto simp: gc_props_missing_def node_simps)
  then show ?thesis
    using zv hz o o1 x y has_OB_buckets [OF o1] by (auto simp: zval_collect_white_enter_def gc_prims)
qed





end
