(* ===== verification/Objects_Store.thy ===== *)
theory Objects_Store
  imports Gc_Buffer
begin

unbundle bit_operations_syntax

text \<open>
  The object store, \<open>Zend/zend_objects_API.c\<close>: an array of buckets indexed by handles, the free ones
  below \<open>top\<close> linked through their field \<open>next\<close> from \<open>free_list_head\<close>. The functions an object brings
  along (\<open>dtor\<close>, \<open>free_storage\<close>, \<open>clone\<close>) run user code; they are parameters that may change the whole
  state, and their second result says that they bailed out (\<open>zend_bailout\<close>, a \<open>longjmp\<close>).
\<close>

type_synonym dtor_call = "nat \<Rightarrow> addr option \<Rightarrow> handle \<Rightarrow> zgc \<Rightarrow> (zgc \<times> bool) option"
type_synonym free_call = "nat \<Rightarrow> addr option \<Rightarrow> zgc \<Rightarrow> (zgc \<times> bool) option"
type_synonym clone_call = "nat \<Rightarrow> addr option \<Rightarrow> zgc \<Rightarrow> (addr option \<times> zgc) option"

definition zero_bucket :: store_bucket where
  "zero_bucket = \<lparr>destructor_called = False, os_valid = False, os_object = None, os_dtor = None, os_free_storage = None,
     os_clone = None, os_handlers = None, os_refcount = 0, os_buffered = gc_null, os_next = 0\<rparr>"

text \<open>Writing a bucket that may not have been written before.\<close>

definition os_put :: "handle \<Rightarrow> store_bucket \<Rightarrow> zgc \<Rightarrow> zgc option" where
  "os_put h b st =
     do {
       bs \<leftarrow> object_buckets st;
       if unat h < length bs then Some (st\<lparr>object_buckets := Some (bs[unat h := Some b])\<rparr>) else None
     }"

definition zend_objects_store_init :: "uint \<Rightarrow> zgc \<Rightarrow> zgc option" where
  "zend_objects_store_init init_size st =
     os_put 0 zero_bucket (st\<lparr>object_buckets := Some (replicate (unat init_size) None), os_base := os_base st + 1,
       os_top := 1, os_size := init_size, free_list_head := - 1\<rparr>)"

definition zend_objects_store_destroy :: "zgc \<Rightarrow> zgc" where
  "zend_objects_store_destroy st = st\<lparr>object_buckets := None\<rparr>"

subsection \<open>Handles\<close>

text \<open>The \<open>erealloc\<close> to twice the size.\<close>

definition os_grow :: "zgc \<Rightarrow> zgc option" where
  "os_grow st =
     do {
       bs \<leftarrow> object_buckets st;
       let n = push_bit 1 (os_size st);
       Some (st\<lparr>os_size := n, object_buckets := Some (take (unat n) (bs @ replicate (unat n - length bs) None)), os_base := os_base st + 1\<rparr>)
     }"

definition os_new_handle :: "zgc \<Rightarrow> (handle \<times> zgc) option" where
  "os_new_handle st =
     (if free_list_head st \<noteq> - 1 then do {
        let handle = word_of_int (free_list_head st);
        b \<leftarrow> os_get st handle;
        Some (handle, st\<lparr>free_list_head := os_next b\<rparr>)
      }
      else do {
        st \<leftarrow> (if os_top st = os_size st then os_grow st else Some st);
        Some (os_top st, st\<lparr>os_top := os_top st + 1\<rparr>)
      })"

text \<open>\<open>zend_objects_destroy_object\<close>, the destructor of objects that bring none.\<close>

definition ZEND_OBJECTS_DESTROY_OBJECT :: nat where
  "ZEND_OBJECTS_DESTROY_OBJECT = 0"

definition zend_objects_store_put :: "addr option \<Rightarrow> nat option \<Rightarrow> nat option \<Rightarrow> nat option \<Rightarrow> zgc \<Rightarrow> (handle \<times> zgc) option" where
  "zend_objects_store_put object dtor free_storage clone st =
     do {
       (handle, st) \<leftarrow> os_new_handle st;
       st \<leftarrow> os_put handle \<lparr>destructor_called = False, os_valid = True, os_object = object,
         os_dtor = (case dtor of Some d \<Rightarrow> Some d | None \<Rightarrow> Some ZEND_OBJECTS_DESTROY_OBJECT), os_free_storage = free_storage, os_clone = clone,
         os_handlers = None, os_refcount = 1, os_buffered = gc_null, os_next = 0\<rparr> st;
       Some (handle, st)
     }"

definition zend_objects_store_get_refcount :: "handle \<Rightarrow> zgc \<Rightarrow> uint option" where
  "zend_objects_store_get_refcount handle st = map_option os_refcount (os_get st handle)"

definition zend_objects_store_add_ref :: "addr \<Rightarrow> zgc \<Rightarrow> zgc option" where
  "zend_objects_store_add_ref object st =
     do {
       z \<leftarrow> zvals st object;
       case z_value z of IS_OBJECT handle _ \<Rightarrow> os_addref handle st | _ \<Rightarrow> None
     }"

definition zend_objects_store_add_ref_by_handle :: "handle \<Rightarrow> zgc \<Rightarrow> zgc option" where
  "zend_objects_store_add_ref_by_handle handle st = os_addref handle st"

definition ZEND_OBJECTS_STORE_ADD_TO_FREE_LIST :: "handle \<Rightarrow> zgc \<Rightarrow> zgc option" where
  "ZEND_OBJECTS_STORE_ADD_TO_FREE_LIST handle st =
     do {
       st \<leftarrow> os_upd handle (\<lambda>b. b\<lparr>os_next := free_list_head st\<rparr>) st;
       let st = st\<lparr>free_list_head := sint handle\<rparr>;
       os_upd handle (\<lambda>b. b\<lparr>os_valid := False\<rparr>) st
     }"

subsection \<open>Dropping a reference\<close>

text \<open>The destructor, unless it has run. A bail-out is caught and remembered.\<close>

definition del_ref_destroy :: "dtor_call \<Rightarrow> handle \<Rightarrow> addr option \<Rightarrow> zgc \<Rightarrow> (zgc \<times> bool) option" where
  "del_ref_destroy call_dtor handle handlers st =
     do {
       b \<leftarrow> os_get st handle;
       if \<not> destructor_called b then do {
         st \<leftarrow> os_upd handle (\<lambda>b. b\<lparr>destructor_called := True\<rparr>) st;
         case os_dtor b of
           None \<Rightarrow> Some (st, False)
         | Some d \<Rightarrow> do {
             st \<leftarrow> (if handlers \<noteq> None \<and> os_handlers b = None then os_upd handle (\<lambda>b. b\<lparr>os_handlers := handlers\<rparr>) st else Some st);
             call_dtor d (os_object b) handle st
           }
       }
       else Some (st, False)
     }"

definition del_ref_free :: "free_call \<Rightarrow> handle \<Rightarrow> zgc \<Rightarrow> (zgc \<times> bool) option" where
  "del_ref_free call_free handle st =
     do {
       b \<leftarrow> os_get st handle;
       st \<leftarrow> GC_REMOVE_ZOBJ_FROM_BUFFER handle st;
       (st, failure) \<leftarrow> (case os_free_storage b of None \<Rightarrow> Some (st, False) | Some f \<Rightarrow> call_free f (os_object b) st);
       st \<leftarrow> ZEND_OBJECTS_STORE_ADD_TO_FREE_LIST handle st;
       Some (st, failure)
     }"

text \<open>\<open>obj\<close> points into the array as it was when it was last computed; a use of it after the array has
  moved has no result. The second result says that the function ends in a bail-out.\<close>

definition zend_objects_store_del_ref_by_handle_ex ::
    "dtor_call \<Rightarrow> free_call \<Rightarrow> handle \<Rightarrow> addr option \<Rightarrow> zgc \<Rightarrow> (zgc \<times> bool) option" where
  "zend_objects_store_del_ref_by_handle_ex call_dtor call_free handle handlers st =
     (if object_buckets st = None then Some (st, False)
      else do {
        b \<leftarrow> os_get st handle;
        let obj = os_base st;
        (st, obj, failure) \<leftarrow>
          (if os_valid b \<and> os_refcount b = 1 then do {
             (st, failure) \<leftarrow> del_ref_destroy call_dtor handle handlers st;
             let obj = os_base st;
             b \<leftarrow> os_get st handle;
             if os_refcount b = 1 then do {
               (st, failure') \<leftarrow> del_ref_free call_free handle st;
               Some (st, obj, failure \<or> failure')
             }
             else Some (st, obj, failure)
           }
           else Some (st, obj, False));
        if obj = os_base st then do { st \<leftarrow> os_delref handle st; Some (st, failure) } else None
      })"

definition GC_ZOBJ_CHECK_POSSIBLE_ROOT :: "(zgc \<Rightarrow> zgc option) \<Rightarrow> addr \<Rightarrow> zgc \<Rightarrow> zgc option" where
  "GC_ZOBJ_CHECK_POSSIBLE_ROOT collect zobject st =
     (if object_buckets st = None then Some st
      else do {
        z \<leftarrow> zvals st zobject;
        case z_value z of
          IS_OBJECT h hs \<Rightarrow> do {
            b \<leftarrow> os_get st h;
            if os_valid b then gc_zobj_possible_root collect zobject h hs st else Some st
          }
        | _ \<Rightarrow> None
      })"

definition zend_objects_store_del_ref ::
    "(zgc \<Rightarrow> zgc option) \<Rightarrow> dtor_call \<Rightarrow> free_call \<Rightarrow> addr \<Rightarrow> zgc \<Rightarrow> (zgc \<times> bool) option" where
  "zend_objects_store_del_ref collect call_dtor call_free zobject st =
     do {
       z \<leftarrow> zvals st zobject;
       case z_value z of
         IS_OBJECT handle hs \<Rightarrow> do {
           st \<leftarrow> zv_addref zobject st;
           (st, bailed) \<leftarrow> zend_objects_store_del_ref_by_handle_ex call_dtor call_free handle (Some hs) st;
           if bailed then Some (st, True)
           else do {
             st \<leftarrow> zv_delref zobject st;
             st \<leftarrow> GC_ZOBJ_CHECK_POSSIBLE_ROOT collect zobject st;
             Some (st, False)
           }
         }
       | _ \<Rightarrow> None
     }"

subsection \<open>Cloning and access\<close>

text \<open>\<open>None\<close> inside: \<open>E_CORE_ERROR\<close>, the object cannot be cloned.\<close>

definition zend_objects_store_clone_obj :: "clone_call \<Rightarrow> addr \<Rightarrow> zgc \<Rightarrow> ((handle \<times> addr) \<times> zgc) option option" where
  "zend_objects_store_clone_obj call_clone zobject st =
     do {
       z \<leftarrow> zvals st zobject;
       case z_value z of
         IS_OBJECT handle hs \<Rightarrow> do {
           b \<leftarrow> os_get st handle;
           case os_clone b of
             None \<Rightarrow> Some None
           | Some c \<Rightarrow> do {
               (new_object, st) \<leftarrow> call_clone c (os_object b) st;
               b \<leftarrow> os_get st handle;
               (h, st) \<leftarrow> zend_objects_store_put new_object (os_dtor b) (os_free_storage b) (os_clone b) st;
               st \<leftarrow> os_upd handle (\<lambda>b. b\<lparr>os_handlers := Some hs\<rparr>) st;
               Some (Some ((h, hs), st))
             }
         }
       | _ \<Rightarrow> None
     }"

definition zend_object_store_get_object_by_handle :: "handle \<Rightarrow> zgc \<Rightarrow> addr option option" where
  "zend_object_store_get_object_by_handle handle st = map_option os_object (os_get st handle)"

definition zend_object_store_get_object :: "addr \<Rightarrow> zgc \<Rightarrow> addr option option" where
  "zend_object_store_get_object zobject st =
     do {
       z \<leftarrow> zvals st zobject;
       case z_value z of IS_OBJECT handle _ \<Rightarrow> zend_object_store_get_object_by_handle handle st | _ \<Rightarrow> None
     }"

definition zend_object_store_set_object :: "addr \<Rightarrow> addr option \<Rightarrow> zgc \<Rightarrow> zgc option" where
  "zend_object_store_set_object zobject object st =
     do {
       z \<leftarrow> zvals st zobject;
       case z_value z of IS_OBJECT handle _ \<Rightarrow> os_upd handle (\<lambda>b. b\<lparr>os_object := object\<rparr>) st | _ \<Rightarrow> None
     }"

definition zend_object_store_ctor_failed :: "addr \<Rightarrow> zgc \<Rightarrow> zgc option" where
  "zend_object_store_ctor_failed zobject st =
     do {
       z \<leftarrow> zvals st zobject;
       case z_value z of
         IS_OBJECT handle hs \<Rightarrow> os_upd handle (\<lambda>b. b\<lparr>os_handlers := Some hs, destructor_called := True\<rparr>) st
       | _ \<Rightarrow> None
     }"

subsection \<open>The end of a request\<close>

text \<open>\<open>top\<close> is read again in every turn, destructors create objects.\<close>

partial_function (option) call_destructors_loop :: "dtor_call \<Rightarrow> handle \<Rightarrow> zgc \<Rightarrow> (zgc \<times> bool) option" where
  "call_destructors_loop call_dtor i st =
     (if i < os_top st then do {
        b \<leftarrow> os_get st i;
        (st, bailed) \<leftarrow>
          (if os_valid b \<and> \<not> destructor_called b then do {
             st \<leftarrow> os_upd i (\<lambda>b. b\<lparr>destructor_called := True\<rparr>) st;
             case os_dtor b of
               Some d \<Rightarrow>
                 if os_object b \<noteq> None then do {
                   st \<leftarrow> os_addref i st;
                   (st, bailed) \<leftarrow> call_dtor d (os_object b) i st;
                   if bailed then Some (st, True) else do { st \<leftarrow> os_delref i st; Some (st, False) }
                 }
                 else Some (st, False)
             | None \<Rightarrow> Some (st, False)
           }
           else Some (st, False));
        if bailed then Some (st, True) else call_destructors_loop call_dtor (i + 1) st
      }
      else Some (st, False))"

definition zend_objects_store_call_destructors :: "dtor_call \<Rightarrow> zgc \<Rightarrow> (zgc \<times> bool) option" where
  "zend_objects_store_call_destructors call_dtor st = call_destructors_loop call_dtor 1 st"

fun mark_destructed_loop :: "handle list \<Rightarrow> zgc \<Rightarrow> zgc option" where
  "mark_destructed_loop [] st = Some st"
| "mark_destructed_loop (i # is) st =
     do {
       b \<leftarrow> os_get st i;
       st \<leftarrow> (if os_valid b then os_upd i (\<lambda>b. b\<lparr>destructor_called := True\<rparr>) st else Some st);
       mark_destructed_loop is st
     }"

text \<open>The handles from 1 to \<open>top\<close>.\<close>

definition os_handles :: "zgc \<Rightarrow> handle list" where
  "os_handles st = map of_nat [1..<unat (os_top st)]"

definition zend_objects_store_mark_destructed :: "zgc \<Rightarrow> zgc option" where
  "zend_objects_store_mark_destructed st =
     (if object_buckets st = None then Some st else mark_destructed_loop (os_handles st) st)"

partial_function (option) free_object_storage_loop :: "free_call \<Rightarrow> handle \<Rightarrow> zgc \<Rightarrow> (zgc \<times> bool) option" where
  "free_object_storage_loop call_free i st =
     (if i < os_top st then do {
        b \<leftarrow> os_get st i;
        (st, bailed) \<leftarrow>
          (if os_valid b then do {
             st \<leftarrow> GC_REMOVE_ZOBJ_FROM_BUFFER i st;
             st \<leftarrow> os_upd i (\<lambda>b. b\<lparr>os_valid := False\<rparr>) st;
             case os_free_storage b of Some f \<Rightarrow> call_free f (os_object b) st | None \<Rightarrow> Some (st, False)
           }
           else Some (st, False));
        if bailed then Some (st, True) else free_object_storage_loop call_free (i + 1) st
      }
      else Some (st, False))"

definition zend_objects_store_free_object_storage :: "free_call \<Rightarrow> zgc \<Rightarrow> (zgc \<times> bool) option" where
  "zend_objects_store_free_object_storage call_free st = free_object_storage_loop call_free 1 st"

end
