(* ===== verification/Objects_Inv.thy ===== *)
theory Objects_Inv
  imports Objects_Store
begin

text \<open>
  The object store as a map from handles to objects: the invariant of the array and its free list,
  the insertion of an object, and what the steps of a release keep of the store and of the root
  buffer of the collector.
\<close>

subsection \<open>The invariant\<close>

text \<open>The objects in the store.\<close>

definition os_objects :: "zgc \<Rightarrow> handle \<Rightarrow> store_bucket option" where
  "os_objects st h = (case os_get st h of Some b \<Rightarrow> if os_valid b then Some b else None | None \<Rightarrow> None)"

fun os_chain :: "zgc \<Rightarrow> int \<Rightarrow> handle list \<Rightarrow> bool" where
  "os_chain st p [] \<longleftrightarrow> p = - 1"
| "os_chain st p (h # hs) \<longleftrightarrow> p = sint h \<and> os_chain st (os_next (the (os_get st h))) hs"

text \<open>The handles below \<open>top\<close> that are not in use are on the free list. Handles stay below \<open>2 ^ 31\<close>,
  \<open>free_list_head\<close> is an \<open>int\<close>.\<close>

definition os_inv :: "zgc \<Rightarrow> bool" where
  "os_inv st \<longleftrightarrow> (\<exists>bs fl. object_buckets st = Some bs \<and> length bs = unat (os_size st) \<and> length bs \<le> 2 ^ 30 \<and>
     0 < os_top st \<and> os_top st \<le> os_size st \<and> (\<forall>h. os_get st h \<noteq> None \<longleftrightarrow> h < os_top st) \<and> os_objects st 0 = None \<and>
     os_chain st (free_list_head st) fl \<and> distinct fl \<and> set fl = {h. 0 < h \<and> h < os_top st \<and> os_objects st h = None} \<and>
     (\<forall>h b. os_get st h = Some b \<longrightarrow> \<not> os_valid b \<longrightarrow> gc_addr (os_buffered b) = Null))"

lemma os_chain_frame:
  "os_chain st p hs \<Longrightarrow> (\<And>h. h \<in> set hs \<Longrightarrow> os_next (the (os_get st' h)) = os_next (the (os_get st h))) \<Longrightarrow> os_chain st' p hs"
  by (induction hs arbitrary: p) auto

lemma os_put_get:
  assumes "object_buckets st = Some bs" "unat h < length bs"
  shows "os_put h b st = Some (st\<lparr>object_buckets := Some (bs[unat h := Some b])\<rparr>)"
    "os_get (st\<lparr>object_buckets := Some (bs[unat h := Some b])\<rparr>) h' = (if h' = h then Some b else os_get st h')"
  using assms by (auto simp: os_put_def os_get_def nth_opt_def nth_list_update word_unat_eq_iff [symmetric])

lemma small_handle:
  assumes "unat (h :: handle) < 2 ^ 31"
  shows "sint h = int (unat h)"
proof -
  have u: "uint h < 2 ^ 31" using assms by (simp add: uint_nat del: of_nat_unat)
  have "- (2 ^ 31) \<le> uint h" by (rule order_trans [of _ 0]) simp_all
  then have "signed_take_bit 31 (uint h) = uint h" using u by (rule signed_take_bit_int_eq_self)
  then have "sint h = uint h" by (simp add: sint_uint)
  then show ?thesis by (simp only: uint_nat)
qed

text \<open>The invariant with its witnesses.\<close>

definition os_ok :: "zgc \<Rightarrow> store_bucket option list \<Rightarrow> handle list \<Rightarrow> bool" where
  "os_ok st bs fl \<longleftrightarrow> object_buckets st = Some bs \<and> length bs = unat (os_size st) \<and> length bs \<le> 2 ^ 30 \<and>
     0 < os_top st \<and> os_top st \<le> os_size st \<and> (\<forall>h. os_get st h \<noteq> None \<longleftrightarrow> h < os_top st) \<and> os_objects st 0 = None \<and>
     os_chain st (free_list_head st) fl \<and> distinct fl \<and> set fl = {h. 0 < h \<and> h < os_top st \<and> os_objects st h = None} \<and>
     (\<forall>h b. os_get st h = Some b \<longrightarrow> \<not> os_valid b \<longrightarrow> gc_addr (os_buffered b) = Null)"

lemma os_inv_ok: "os_inv st \<longleftrightarrow> (\<exists>bs fl. os_ok st bs fl)"
  by (simp add: os_inv_def os_ok_def)

lemma os_ok_range:
  assumes "os_ok st bs fl" "h < os_top st"
  shows "unat h < length bs" "unat h < 2 ^ 30" "os_get st h \<noteq> None"
proof -
  have "unat h < unat (os_top st)" "unat (os_top st) \<le> unat (os_size st)"
    using assms by (simp_all add: os_ok_def word_less_nat_alt word_le_nat_alt)
  then show "unat h < length bs" "unat h < 2 ^ 30" using assms(1) by (simp_all add: os_ok_def)
  show "os_get st h \<noteq> None" using assms by (simp add: os_ok_def)
qed

subsection \<open>Storing an object\<close>

text \<open>A bucket is taken from the head of the free list, or from the unused end of the array.\<close>

lemma os_new_handle_free:
  assumes ok: "os_ok st bs (h # fl)"
  shows "os_new_handle st = Some (h, st\<lparr>free_list_head := os_next (the (os_get st h))\<rparr>)" "0 < h" "h < os_top st"
proof -
  have d: "free_list_head st = sint h" "h \<in> {h. 0 < h \<and> h < os_top st \<and> os_objects st h = None}"
    using ok by (auto simp: os_ok_def)
  then show h: "0 < h" "h < os_top st" by auto
  have "free_list_head st = int (unat h)" using d(1) small_handle [of h] os_ok_range(2) [OF ok h(2)] by simp
  then have "free_list_head st \<noteq> - 1" by linarith
  then show "os_new_handle st = Some (h, st\<lparr>free_list_head := os_next (the (os_get st h))\<rparr>)"
    using d(1) os_ok_range(3) [OF ok h(2)] by (auto simp: os_new_handle_def)
qed

definition fresh_bucket :: "addr option \<Rightarrow> nat option \<Rightarrow> nat option \<Rightarrow> nat option \<Rightarrow> store_bucket" where
  "fresh_bucket object dtor free_storage clone =
     \<lparr>destructor_called = False, os_valid = True, os_object = object,
      os_dtor = (case dtor of Some d \<Rightarrow> Some d | None \<Rightarrow> Some ZEND_OBJECTS_DESTROY_OBJECT), os_free_storage = free_storage, os_clone = clone,
      os_handlers = None, os_refcount = 1, os_buffered = gc_null, os_next = 0\<rparr>"

lemma os_get_fields [simp]:
  "os_get (st\<lparr>free_list_head := p\<rparr>) = os_get st" "os_get (st\<lparr>os_top := t\<rparr>) = os_get st" "os_get (st\<lparr>os_size := n\<rparr>) = os_get st"
  "os_get (st\<lparr>os_base := k\<rparr>) = os_get st"
  "os_objects (st\<lparr>free_list_head := p\<rparr>) = os_objects st" "os_objects (st\<lparr>os_top := t\<rparr>) = os_objects st"
  by (simp_all add: os_get_def os_objects_def fun_eq_iff)

lemma put_reuses:
  assumes ok: "os_ok st bs (h # fl)" and b: "os_valid b" and h0: "unat h < length bs"
  defines "st' \<equiv> st\<lparr>free_list_head := os_next (the (os_get st h)), object_buckets := Some (bs[unat h := Some b])\<rparr>"
  shows "os_ok st' (bs[unat h := Some b]) fl" "os_objects st' = (os_objects st)(h \<mapsto> b)"
proof -
  note d = ok [unfolded os_ok_def]
  let ?st = "st\<lparr>free_list_head := os_next (the (os_get st h))\<rparr>"
  have "object_buckets ?st = Some bs" using d by simp
  from os_put_get(2) [OF this h0] have get: "os_get st' h' = (if h' = h then Some b else os_get st h')" for h'
    by (simp add: st'_def)
  have h: "0 < h" "h < os_top st" "h \<notin> set fl" using d by auto
  show obj: "os_objects st' = (os_objects st)(h \<mapsto> b)" using b by (auto simp: os_objects_def get fun_eq_iff)
  have "os_chain st (os_next (the (os_get st h))) fl" using d by simp
  then have "os_chain st' (free_list_head st') fl"
    unfolding st'_def [symmetric] by (rule_tac os_chain_frame) (use h(3) get in \<open>auto simp: st'_def\<close>)
  moreover have "set fl = {x. 0 < x \<and> x < os_top st \<and> os_objects st' x = None}"
  proof -
    have "set (h # fl) = {x. 0 < x \<and> x < os_top st \<and> os_objects st x = None}" using d by blast
    then show ?thesis using h(3) unfolding obj by auto
  qed
  ultimately show "os_ok st' (bs[unat h := Some b]) fl"
    unfolding os_ok_def using d h obj get b by (auto simp: st'_def)
qed

lemma os_grow_ok:
  assumes ok: "os_ok st bs fl" and "length bs \<le> 2 ^ 29"
  obtains st' bs' where "os_grow st = Some st'" "os_ok st' bs' fl" "os_objects st' = os_objects st" "os_top st' = os_top st"
    "os_top st' < os_size st'" "free_list_head st' = free_list_head st"
proof -
  note d = ok [unfolded os_ok_def]
  define n where "n = push_bit 1 (os_size st)"
  have s: "unat (os_size st) = length bs" "object_buckets st = Some bs" using d by simp_all
  have un: "unat n = 2 * length bs"
    using s(1) \<open>length bs \<le> 2 ^ 29\<close> by (simp add: n_def push_bit_eq_mult unat_word_ariths)
  define bs' where "bs' = bs @ replicate (length bs) None"
  define st' where "st' = st\<lparr>os_size := n, object_buckets := Some bs', os_base := os_base st + 1\<rparr>"
  have g: "os_grow st = Some st'" unfolding os_grow_def n_def [symmetric] using s by (simp add: Let_def un bs'_def st'_def)
  have get: "os_get st' = os_get st"
    using s(2) by (auto simp: os_get_def nth_opt_def bs'_def st'_def nth_append fun_eq_iff)
  then have obj: "os_objects st' = os_objects st" by (simp add: os_objects_def fun_eq_iff)
  have top: "os_top st' = os_top st" "free_list_head st' = free_list_head st" by (simp_all add: st'_def)
  have "unat (os_top st) \<le> length bs" "0 < unat (os_top st)"
    using d by (simp_all add: word_le_nat_alt word_less_nat_alt)
  then have lt: "os_top st' < os_size st'" using un by (simp add: st'_def word_less_nat_alt)
  have "os_chain st' (free_list_head st') fl" using d by (auto intro: os_chain_frame simp: get top)
  moreover have "length bs' = unat (os_size st')" "length bs' \<le> 2 ^ 30"
    using un \<open>length bs \<le> 2 ^ 29\<close> by (simp_all add: bs'_def st'_def)
  moreover have "object_buckets st' = Some bs'" by (simp add: st'_def)
  ultimately have "os_ok st' bs' fl"
    using d less_imp_le [OF lt] unfolding os_ok_def obj get top by simp
  then show thesis using that g obj top lt by metis
qed

lemma put_appends:
  assumes ok: "os_ok st bs []" and b: "os_valid b" and room: "os_top st < os_size st"
  defines "st' \<equiv> st\<lparr>os_top := os_top st + 1, object_buckets := Some (bs[unat (os_top st) := Some b])\<rparr>"
  shows "os_ok st' (bs[unat (os_top st) := Some b]) []" "os_objects st' = (os_objects st)(os_top st \<mapsto> b)"
    "unat (os_top st) < length bs" "os_objects st (os_top st) = None" "os_get st (os_top st) = None"
proof -
  note d = ok [unfolded os_ok_def]
  let ?h = "os_top st"
  have u: "unat ?h < length bs" "length bs \<le> 2 ^ 30" "unat (os_size st) = length bs"
    using d room by (simp_all add: word_less_nat_alt)
  then have suc: "unat (?h + 1) = unat ?h + 1" by (subst unat_add_lem [THEN iffD1]) simp_all
  show "unat ?h < length bs" by (rule u)
  have "object_buckets (st\<lparr>os_top := ?h + 1\<rparr>) = Some bs" using d by simp
  from os_put_get(2) [OF this u(1)] have get: "os_get st' h' = (if h' = ?h then Some b else os_get st h')" for h'
    by (simp add: st'_def)
  show none: "os_get st ?h = None" using d by auto
  then show "os_objects st ?h = None" by (simp add: os_objects_def)
  show obj: "os_objects st' = (os_objects st)(?h \<mapsto> b)" using b by (auto simp: os_objects_def get fun_eq_iff)
  have less: "x < ?h + 1 \<longleftrightarrow> x = ?h \<or> x < ?h" for x
    by (simp add: word_less_nat_alt suc word_unat_eq_iff less_Suc_eq disj_commute)
  have dom': "os_get st' x \<noteq> None \<longleftrightarrow> x < ?h + 1" for x
    unfolding get less using d by simp
  have "{x. 0 < x \<and> x < ?h + 1 \<and> os_objects st' x = None} = {x. 0 < x \<and> x < ?h \<and> os_objects st x = None}"
    unfolding obj less by auto
  then have fl: "set [] = {x. 0 < x \<and> x < ?h + 1 \<and> os_objects st' x = None}" using d by simp
  have h0: "0 < ?h" "?h + 1 \<le> os_size st" "0 < ?h + 1"
    using d u suc by (simp_all add: word_less_nat_alt word_le_nat_alt)
  have "?h \<noteq> 0" using h0(1) by auto
  then have zero: "os_objects st' 0 = None" using d by (simp add: obj)
  have clean: "\<not> os_valid b' \<Longrightarrow> gc_addr (os_buffered b') = Null" if "os_get st' x = Some b'" for x b'
    using that b d by (simp add: get split: if_splits)
  have "os_top st' = ?h + 1" "os_size st' = os_size st" "free_list_head st' = free_list_head st"
    "object_buckets st' = Some (bs[unat ?h := Some b])" by (simp_all add: st'_def)
  then show "os_ok st' (bs[unat ?h := Some b]) []"
    unfolding os_ok_def using d dom' fl h0 zero clean u by simp
qed

lemma os_ok_null_head: "os_ok st bs [] \<Longrightarrow> free_list_head st = - 1"
  by (simp add: os_ok_def)

lemma put_fresh:
  "zend_objects_store_put object dtor free_storage clone st =
     do {
       (handle, st) \<leftarrow> os_new_handle st;
       st \<leftarrow> os_put handle (fresh_bucket object dtor free_storage clone) st;
       Some (handle, st)
     }"
  by (simp add: zend_objects_store_put_def fresh_bucket_def cong: option.case_cong)

lemma fresh_bucket_valid [simp]: "os_valid (fresh_bucket object dtor free_storage clone)"
  by (simp add: fresh_bucket_def)

lemma put_grown:
  assumes ok: "os_ok st bs []" and room: "os_top st < os_size st" and b: "os_valid b"
  shows "\<exists>st'. os_put (os_top st) b (st\<lparr>os_top := os_top st + 1\<rparr>) = Some st' \<and> os_inv st' \<and>
     os_objects st' = (os_objects st)(os_top st \<mapsto> b) \<and> os_objects st (os_top st) = None"
proof -
  note p = put_appends [OF ok b room]
  have "os_put (os_top st) b (st\<lparr>os_top := os_top st + 1\<rparr>) =
      Some (st\<lparr>os_top := os_top st + 1, object_buckets := Some (bs[unat (os_top st) := Some b])\<rparr>)"
    by (rule os_put_get(1)) (use ok p(3) in \<open>simp_all add: os_ok_def\<close>)
  then show ?thesis using p os_inv_ok by blast
qed

lemma put_inserts:
  assumes inv: "os_inv st" and size: "unat (os_size st) \<le> 2 ^ 29"
  shows "\<exists>h st'. zend_objects_store_put object dtor free_storage clone st = Some (h, st') \<and> os_inv st' \<and>
     h \<noteq> 0 \<and> os_objects st h = None \<and> os_objects st' = (os_objects st)(h \<mapsto> fresh_bucket object dtor free_storage clone)"
proof -
  let ?b = "fresh_bucket object dtor free_storage clone"
  obtain bs fl where ok: "os_ok st bs fl" using inv by (auto simp: os_inv_ok)
  then have n: "length bs \<le> 2 ^ 29" and top: "0 < os_top st" "os_top st \<le> os_size st" using size by (simp_all add: os_ok_def)
  show ?thesis
  proof (cases fl)
    case (Cons h fl')
    note ok = ok [unfolded Cons]
    note new = os_new_handle_free [OF ok]
    have h: "unat h < length bs" "os_objects st h = None" using os_ok_range(1) [OF ok new(3)] ok by (auto simp: os_ok_def)
    note p = put_reuses [OF ok fresh_bucket_valid h(1), of object dtor free_storage clone]
    have "os_put h ?b (st\<lparr>free_list_head := os_next (the (os_get st h))\<rparr>) =
        Some (st\<lparr>free_list_head := os_next (the (os_get st h)), object_buckets := Some (bs[unat h := Some ?b])\<rparr>)"
      by (rule os_put_get(1)) (use ok h in \<open>simp_all add: os_ok_def\<close>)
    then have "zend_objects_store_put object dtor free_storage clone st =
        Some (h, st\<lparr>free_list_head := os_next (the (os_get st h)), object_buckets := Some (bs[unat h := Some ?b])\<rparr>)"
      by (simp add: put_fresh new(1))
    moreover have "h \<noteq> 0" using new(2) by auto
    ultimately show ?thesis using p h(2) os_inv_ok by blast
  next
    case Nil
    note ok = ok [unfolded Nil]
    note head = os_ok_null_head [OF ok]
    show ?thesis
    proof (cases "os_top st = os_size st")
      case True
      obtain st1 bs1 where g: "os_grow st = Some st1" "os_ok st1 bs1 []" "os_objects st1 = os_objects st"
        "os_top st1 = os_top st" "os_top st1 < os_size st1" by (rule os_grow_ok [OF ok n])
      from put_grown [OF g(2) g(5) fresh_bucket_valid, of object dtor free_storage clone] obtain st'
        where "os_put (os_top st1) ?b (st1\<lparr>os_top := os_top st1 + 1\<rparr>) = Some st'" "os_inv st'"
          "os_objects st' = (os_objects st1)(os_top st1 \<mapsto> ?b)" "os_objects st1 (os_top st1) = None" by blast
      then show ?thesis using True g top by (auto simp: put_fresh os_new_handle_def head)
    next
      case False
      then have room: "os_top st < os_size st" using top by simp
      from put_grown [OF ok room fresh_bucket_valid, of object dtor free_storage clone] obtain st'
        where "os_put (os_top st) ?b (st\<lparr>os_top := os_top st + 1\<rparr>) = Some st'" "os_inv st'"
          "os_objects st' = (os_objects st)(os_top st \<mapsto> ?b)" "os_objects st (os_top st) = None" by blast
      then show ?thesis using False top by (auto simp: put_fresh os_new_handle_def head)
    qed
  qed
qed

text \<open>C12: Allocating an object is the insertion of a new key. In a store that satisfies the invariant
  (the handles below \<open>top\<close> that carry no object are exactly the ones on the free list) and has not
  reached \<open>2 ^ 29\<close> buckets, \<open>zend_objects_store_put\<close> succeeds, whether it reuses a free bucket, appends
  one or doubles the array; the handle is not 0 and named no object before; it names now a new object
  with one reference; every other object is as it was; and the invariant holds again.\<close>

theorem zend_objects_store_put_fresh:
  assumes inv: "os_inv st" and size: "unat (os_size st) \<le> 2 ^ 29"
  shows "\<exists>h st'. zend_objects_store_put object dtor free_storage clone st = Some (h, st') \<and> os_inv st' \<and>
     h \<noteq> 0 \<and> os_objects st h = None \<and> os_objects st' = (os_objects st)(h \<mapsto> fresh_bucket object dtor free_storage clone)"
  by (rule put_inserts [OF assms])

lemma zend_objects_store_init_inv:
  assumes n: "0 < n" "unat n \<le> 2 ^ 30"
  shows "\<exists>st'. zend_objects_store_init n st = Some st' \<and> os_inv st' \<and> os_objects st' = Map.empty \<and> os_size st' = n"
proof -
  have n0: "0 < unat n" using n(1) by (simp add: word_less_nat_alt)
  define st' where "st' = st\<lparr>object_buckets := Some ((replicate (unat n) None)[0 := Some zero_bucket]), os_base := os_base st + 1,
       os_top := 1, os_size := n, free_list_head := - 1\<rparr>"
  have init: "zend_objects_store_init n st = Some st'"
    using n0 by (simp add: zend_objects_store_init_def os_put_def st'_def)
  have get: "os_get st' h = (if h = 0 then Some zero_bucket else None)" for h
    using n0 by (auto simp: os_get_def nth_opt_def st'_def nth_list_update word_unat_eq_iff)
  then have obj: "os_objects st' = Map.empty" by (simp add: os_objects_def fun_eq_iff zero_bucket_def)
  have "(1 :: uint) \<le> n" using n0 by (simp add: word_le_nat_alt)
  then have "os_ok st' ((replicate (unat n) None)[0 := Some zero_bucket]) []"
    using n unfolding os_ok_def obj get by (auto simp: st'_def zero_bucket_def gc_null_def word_less_1 split: if_splits)
  then show ?thesis using init obj os_inv_ok [of st'] by (auto simp: st'_def)
qed

theorem zend_objects_store_put_fresh_witness:
  "\<exists>h st'. zend_objects_store_put (Some 5) None (Some 3) None (the (zend_objects_store_init 1 cyc_heap)) = Some (h, st') \<and>
     os_inv st' \<and> h \<noteq> 0 \<and> os_objects (the (zend_objects_store_init 1 cyc_heap)) h = None \<and>
     os_objects st' = (os_objects (the (zend_objects_store_init 1 cyc_heap)))(h \<mapsto> fresh_bucket (Some 5) None (Some 3) None)"
proof -
  obtain st where st: "zend_objects_store_init 1 cyc_heap = Some st" "os_inv st" "os_size st = 1"
    using zend_objects_store_init_inv [of 1 cyc_heap] by auto
  show ?thesis unfolding st(1) option.sel
    by (rule zend_objects_store_put_fresh [OF st(2)]) (simp add: st(3))
qed

subsection \<open>Dropping a reference: what each step keeps\<close>

text \<open>Updates of a bucket that leave it where it is.\<close>

lemma os_upd_get:
  assumes "os_get st h = Some b"
  obtains st' where "os_upd h f st = Some st'" "\<And>x. os_get st' x = (if x = h then Some (f b) else os_get st x)"
    "\<exists>bs. st' = st\<lparr>object_buckets := Some bs\<rparr> \<and> length bs = length (the (object_buckets st))"
    "object_buckets st \<noteq> None"
proof -
  obtain bs where bs: "object_buckets st = Some bs" using assms by (auto simp: os_get_def split: bind_splits)
  show thesis
    by (rule that [of "st\<lparr>object_buckets := Some (bs[unat h := Some (f b)])\<rparr>"])
      (use assms bs os_get_upd [of st bs h] in \<open>auto simp: os_upd_def\<close>)
qed

lemma os_ok_upd:
  assumes ok: "os_ok st bs fl" and b: "os_get st h = Some b" "os_next b' = os_next b" "os_valid b' = os_valid b"
    and clean: "\<not> os_valid b \<longrightarrow> gc_addr (os_buffered b') = Null"
    and get: "\<And>x. os_get st' x = (if x = h then Some b' else os_get st x)"
    and st': "st' = st\<lparr>object_buckets := Some bs'\<rparr>" "length bs' = length bs"
  shows "os_ok st' bs' fl" "os_objects st' = (\<lambda>x. if x = h \<and> os_valid b then Some b' else os_objects st x)"
proof -
  note d = ok [unfolded os_ok_def]
  show obj: "os_objects st' = (\<lambda>x. if x = h \<and> os_valid b then Some b' else os_objects st x)"
    using b by (auto simp: os_objects_def get fun_eq_iff)
  have none: "os_objects st' x = None \<longleftrightarrow> os_objects st x = None" for x
    using b by (auto simp: obj os_objects_def)
  have dm: "os_get st' x \<noteq> None \<longleftrightarrow> os_get st x \<noteq> None" for x using b by (auto simp: get)
  have f: "free_list_head st' = free_list_head st" "os_top st' = os_top st" "os_size st' = os_size st" "object_buckets st' = Some bs'"
    by (simp_all add: st')
  have "os_chain st' (free_list_head st') fl"
    by (rule os_chain_frame [of st]) (use d b in \<open>simp_all add: get f\<close>)
  moreover have "\<forall>x c. os_get st' x = Some c \<longrightarrow> \<not> os_valid c \<longrightarrow> gc_addr (os_buffered c) = Null"
    using d b clean by (auto simp: get split: if_splits)
  ultimately show "os_ok st' bs' fl"
    unfolding os_ok_def none dm using d f st'(2) by simp
qed

text \<open>A bucket that goes back to the free list.\<close>

lemma os_ok_free:
  assumes ok: "os_ok st bs fl" and b: "os_get st h = Some b" "os_valid b" "os_next b' = free_list_head st" "\<not> os_valid b'"
    and clean: "gc_addr (os_buffered b') = Null"
    and get: "\<And>x. os_get st' x = (if x = h then Some b' else os_get st x)"
    and st': "st' = st\<lparr>object_buckets := Some bs', free_list_head := sint h\<rparr>" "length bs' = length bs"
  shows "os_ok st' bs' (h # fl)" "os_objects st' = (os_objects st)(h := None)"
proof -
  note d = ok [unfolded os_ok_def]
  show obj: "os_objects st' = (os_objects st)(h := None)"
    using b by (auto simp: os_objects_def get fun_eq_iff)
  have v: "os_objects st h = Some b" using b by (simp add: os_objects_def)
  then have fl: "h \<notin> set fl" "h \<noteq> 0" using d by auto
  then have "0 < h" by (simp add: word_neq_0_conv)
  moreover have "h < os_top st" using d b(1) by (metis option.distinct(1))
  ultimately have set: "set (h # fl) = {x. 0 < x \<and> x < os_top st \<and> os_objects st' x = None}"
    using d unfolding obj by auto
  have dm: "os_get st' x \<noteq> None \<longleftrightarrow> os_get st x \<noteq> None" for x using b by (auto simp: get)
  have f: "free_list_head st' = sint h" "os_top st' = os_top st" "os_size st' = os_size st" "object_buckets st' = Some bs'"
    by (simp_all add: st')
  have "os_chain st' (free_list_head st) fl"
    by (rule os_chain_frame [of st]) (use d b fl in \<open>auto simp: get\<close>)
  then have "os_chain st' (free_list_head st') (h # fl)" using b by (simp add: get f)
  moreover have "\<forall>x c. os_get st' x = Some c \<longrightarrow> \<not> os_valid c \<longrightarrow> gc_addr (os_buffered c) = Null"
    using d b clean by (auto simp: get split: if_splits)
  ultimately show "os_ok st' bs' (h # fl)"
    unfolding os_ok_def dm using d f st'(2) set fl obj by simp
qed

definition store_ok :: "(handle \<Rightarrow> addr) \<Rightarrow> zgc \<Rightarrow> bool" where
  "store_ok hs st \<longleftrightarrow> os_inv st \<and> root_buffer_ok hs st \<and> \<not> gc_active st"

lemma root_buffer_ok_bucket:
  assumes ok: "root_buffer_ok hs st" and b: "os_get st h = Some b" "gc_addr (os_buffered b') = gc_addr (os_buffered b)"
    and get: "\<And>x. os_get st' x = (if x = h then Some b' else os_get st x)"
    and eq: "zvals st' = zvals st" "gc_roots st' = gc_roots st" "gc_unused st' = gc_unused st" "gc_buf st' = gc_buf st"
      "first_unused st' = first_unused st" "last_unused st' = last_unused st"
  shows "root_buffer_ok hs st'"
proof -
  have has: "has st' = has st"
  proof
    fix n show "has st' n = has st n" by (cases n) (use b in \<open>auto simp: node_simps get eq\<close>)
  qed
  moreover have "gc_addr (ref st' n) = gc_addr (ref st n)" for n by (cases n) (use b in \<open>auto simp: node_simps get eq\<close>)
  moreover have "root_of st' = root_of st" by (simp add: root_of_def fun_eq_iff eq)
  ultimately show ?thesis using ok by (simp add: root_buffer_ok_def buffer_ok_def eq)
qed

text \<open>A step that rewrites a bucket and keeps its place: an object's, or one on the free list.\<close>

lemma store_ok_rewrite:
  assumes ok: "store_ok hs st" and b: "os_get st h = Some b"
    and f: "os_next (f b) = os_next b" "os_valid (f b) = os_valid b" "gc_addr (os_buffered (f b)) = gc_addr (os_buffered b)"
  shows "\<exists>st'. os_upd h f st = Some st' \<and> store_ok hs st' \<and>
    os_objects st' = (\<lambda>x. if x = h \<and> os_valid b then Some (f b) else os_objects st x) \<and>
    os_base st' = os_base st \<and> free_list_head st' = free_list_head st \<and> gc_roots st' = gc_roots st \<and> gc_buf st' = gc_buf st"
proof -
  obtain st' where st': "os_upd h f st = Some st'" "\<And>x. os_get st' x = (if x = h then Some (f b) else os_get st x)"
    and ex: "\<exists>bs. st' = st\<lparr>object_buckets := Some bs\<rparr> \<and> length bs = length (the (object_buckets st))"
    by (rule os_upd_get [OF b, of f]) blast
  from ex obtain bs' where bs': "st' = st\<lparr>object_buckets := Some bs'\<rparr>" "length bs' = length (the (object_buckets st))" by blast
  obtain bs fl where os: "os_ok st bs fl" using ok by (auto simp: store_ok_def os_inv_ok)
  then have len: "length bs' = length bs" using bs'(2) by (simp add: os_ok_def)
  have clean: "\<not> os_valid b \<longrightarrow> gc_addr (os_buffered (f b)) = Null"
    using os b f(3) unfolding os_ok_def by simp
  note os' = os_ok_upd [OF os b f(1,2) clean st'(2) bs'(1) len]
  have e: "zvals st' = zvals st" "gc_roots st' = gc_roots st" "gc_unused st' = gc_unused st" "gc_buf st' = gc_buf st"
      "first_unused st' = first_unused st" "last_unused st' = last_unused st" "gc_active st' = gc_active st"
      "os_base st' = os_base st" "free_list_head st' = free_list_head st" by (simp_all add: bs')
  have "root_buffer_ok hs st'"
    by (rule root_buffer_ok_bucket [OF _ b f(3) st'(2) e(1-6)]) (use ok in \<open>simp add: store_ok_def\<close>)
  moreover have "os_inv st'" using os'(1) os_inv_ok by blast
  ultimately show ?thesis using st'(1) ok os'(2) e by (simp add: store_ok_def)
qed

lemma os_objects_get: "os_objects st h = Some b \<longleftrightarrow> os_get st h = Some b \<and> os_valid b"
  by (auto simp: os_objects_def split: option.splits if_splits)

lemma store_ok_upd:
  assumes ok: "store_ok hs st" and b: "os_objects st h = Some b"
    and f: "os_next (f b) = os_next b" "os_valid (f b)" "gc_addr (os_buffered (f b)) = gc_addr (os_buffered b)"
  shows "\<exists>st'. os_upd h f st = Some st' \<and> store_ok hs st' \<and> os_objects st' = (os_objects st)(h \<mapsto> f b) \<and> os_base st' = os_base st"
proof -
  have g: "os_get st h = Some b" "os_valid b" using b by (simp_all add: os_objects_get)
  have "(\<lambda>x. if x = h \<and> os_valid b then Some (f b) else os_objects st x) = (os_objects st)(h \<mapsto> f b)"
    using g(2) by (simp add: fun_eq_iff)
  then show ?thesis using store_ok_rewrite [OF ok g(1), of f] f g(2) by auto
qed

text \<open>The bucket goes back to the free list, once its object is out of the root buffer.\<close>

lemma store_ok_free:
  assumes ok: "store_ok hs st" and b: "os_objects st h = Some b" "gc_addr (os_buffered b) = Null"
  shows "\<exists>st'. ZEND_OBJECTS_STORE_ADD_TO_FREE_LIST h st = Some st' \<and> store_ok hs st' \<and> os_objects st' = (os_objects st)(h := None) \<and>
    os_base st' = os_base st \<and> free_list_head st' = sint h \<and> os_get st' h = Some (b\<lparr>os_next := free_list_head st, os_valid := False\<rparr>) \<and>
    gc_roots st' = gc_roots st \<and> gc_buf st' = gc_buf st"
proof -
  let ?b = "b\<lparr>os_next := free_list_head st, os_valid := False\<rparr>"
  have g: "os_get st h = Some b" "os_valid b" using b by (auto simp: os_objects_def split: option.splits if_splits)
  obtain bs fl where os: "os_ok st bs fl" using ok by (auto simp: store_ok_def os_inv_ok)
  then have bs: "object_buckets st = Some bs" by (simp add: os_ok_def)
  define st' where "st' = st\<lparr>object_buckets := Some (bs[unat h := Some ?b]), free_list_head := sint h\<rparr>"
  have run: "ZEND_OBJECTS_STORE_ADD_TO_FREE_LIST h st = Some st'"
    using g bs os_get_upd [OF bs, of h]
    by (simp add: ZEND_OBJECTS_STORE_ADD_TO_FREE_LIST_def os_upd_def Let_def st'_def)
  have get: "os_get st' x = (if x = h then Some ?b else os_get st x)" for x
    using g os_get_upd [OF bs, of h ?b x] by (simp add: st'_def)
  have len: "length (bs[unat h := Some ?b]) = length bs" by simp
  note os' = os_ok_free [OF os g, of ?b st', OF _ _ _ get st'_def len]
  have e: "zvals st' = zvals st" "gc_roots st' = gc_roots st" "gc_unused st' = gc_unused st" "gc_buf st' = gc_buf st"
      "first_unused st' = first_unused st" "last_unused st' = last_unused st" "gc_active st' = gc_active st"
      "os_base st' = os_base st" "free_list_head st' = sint h" by (simp_all add: st'_def)
  have "root_buffer_ok hs st'"
    by (rule root_buffer_ok_bucket [OF _ g(1) _ get e(1-6)]) (use ok in \<open>simp_all add: store_ok_def\<close>)
  moreover have "os_inv st'" using os'(1) b(2) os_inv_ok by auto
  ultimately show ?thesis using run os'(2) b(2) e ok get by (simp add: store_ok_def)
qed

text \<open>Out of the root buffer, while no collection runs.\<close>

lemma store_ok_remove:
  assumes ok: "store_ok hs st" and b: "os_objects st h = Some b"
  shows "\<exists>st' r. GC_REMOVE_ZOBJ_FROM_BUFFER h st = Some st' \<and> store_ok hs st' \<and> gc_addr r = Null \<and>
    os_objects st' = (os_objects st)(h \<mapsto> b\<lparr>os_buffered := r\<rparr>) \<and> os_base st' = os_base st \<and>
    (\<forall>i \<in> set (gc_roots st'). root_of st' i \<noteq> OB h)"
proof -
  have g: "os_get st h = Some b" "os_valid b" using b by (auto simp: os_objects_def split: option.splits if_splits)
  have rok: "root_buffer_ok hs st" and act: "\<not> gc_active st" using ok by (simp_all add: store_ok_def)
  then have bo: "buffer_ok hs st" by (simp add: root_buffer_ok_def)
  note bd = bo [unfolded buffer_ok_def]
  have h: "has st (OB h)" "gc_addr (ref st (OB h)) = gc_addr (os_buffered b)" using g by (simp_all add: node_simps)
  show ?thesis
  proof (cases "gc_addr (os_buffered b) = Null")
    case True
    then have "root_of st i \<noteq> OB h" if "i \<in> set (gc_roots st)" for i using bd that h(2) by auto
    moreover have "(os_objects st)(h \<mapsto> b\<lparr>os_buffered := os_buffered b\<rparr>) = os_objects st" using b by auto
    moreover have "GC_REMOVE_ZOBJ_FROM_BUFFER h st = Some st" using True g by (simp add: GC_REMOVE_ZOBJ_FROM_BUFFER_def)
    ultimately show ?thesis using True ok by metis
  next
    case False
    then obtain i where i: "i \<in> set (gc_roots st)" "gc_addr (os_buffered b) = Buf i" "root_of st i = OB h" using bd h by metis
    define st1 where "st1 = st\<lparr>gc_roots := remove1 i (gc_roots st), gc_unused := i # gc_unused st\<rparr>"
    have rem: "gc_remove_from_buffer i st = Some st1" using i by (simp add: gc_remove_from_buffer_def st1_def)
    have g1: "os_get st1 = os_get st" "os_objects st1 = os_objects st" "same_graph st st1" "ref st1 m = ref st m" for m
      by (cases m; simp add: st1_def os_get_def os_objects_def fun_eq_iff same_graph_def node_simps)+
    then have h1: "has st1 (OB h)" "os_get st1 h = Some b" using g by (simp_all add: node_simps)
    obtain bs fl where "os_ok st bs fl" using ok by (auto simp: store_ok_def os_inv_ok)
    then have os: "os_ok st1 bs fl"
      using os_chain_frame [of st "free_list_head st" fl st1] by (simp add: os_ok_def g1 st1_def [symmetric]) (simp add: st1_def)
    then have bs: "object_buckets st1 = Some bs" by (simp add: os_ok_def)
    define st' where "st' = st1\<lparr>object_buckets := Some (bs[unat h := Some (b\<lparr>os_buffered := gc_null\<rparr>)])\<rparr>"
    have upd: "os_upd h (\<lambda>b. b\<lparr>os_buffered := gc_null\<rparr>) st1 = Some st'" using h1 bs by (simp add: os_upd_def st'_def)
    have n: "st' = nmap (OB h) (\<lambda>x. x) (\<lambda>_. gc_null) st1" using h1 bs by (simp add: nmap.simps node_simps st'_def)
    have get: "os_get st' x = (if x = h then Some (b\<lparr>os_buffered := gc_null\<rparr>) else os_get st1 x)" for x
      using h1 os_get_upd [OF bs, of h _ x] by (simp add: st'_def)
    note os' = os_ok_upd [OF os h1(2) _ _ _ get st'_def, simplified, OF impI]
    have "buffer_ok hs st'"
      by (rule buffer_ok_remove [OF bo i(1,3) same_graph_trans [OF g1(3)]]) (use h1 g1 in \<open>simp_all add: n gc_null_def\<close>, simp_all add: st1_def)
    moreover have "set (remove1 i (gc_roots st)) = set (gc_roots st) - {i}" using bd by simp
    ultimately have rok': "root_buffer_ok hs st'"
      using rok i(1) by (auto simp: root_buffer_ok_def st'_def st1_def)
    have addr: "gc_addr (ref st' (OB h)) = Null" using get by (simp add: node_simps gc_null_def)
    then have "root_of st' j \<noteq> OB h" if "j \<in> set (gc_roots st')" for j
      using rok' that unfolding root_buffer_ok_def buffer_ok_def by (metis gc_addr.distinct(1))
    moreover have "GC_REMOVE_ZOBJ_FROM_BUFFER h st = Some st'"
      using g i(2) act rem upd by (simp add: GC_REMOVE_ZOBJ_FROM_BUFFER_def)
    moreover have "os_objects st' = (os_objects st)(h \<mapsto> b\<lparr>os_buffered := gc_null\<rparr>)"
      using os'(2) g(2) by (auto simp: fun_eq_iff g1 gc_null_def)
    moreover have "os_inv st'" using os'(1) os_inv_ok by (auto simp: gc_null_def)
    moreover have "os_base st' = os_base st" "\<not> gc_active st'" using act by (simp_all add: st'_def st1_def)
    ultimately show ?thesis using rok' unfolding store_ok_def by (metis gc_null_def gc_ref.select_convs(2))
  qed
qed

end
