(* ===== verification/Objects_Release.thy ===== *)
theory Objects_Release
  imports Objects_Inv
begin

text \<open>
  The release of an object, \<open>zend_objects_store_del_ref_by_handle_ex\<close>, proved over the interface
  \<open>object_releasing\<close>: whatever state of order the store and the root buffer are in, the release keeps it
  as long as the callbacks do.
\<close>

subsection \<open>The contracts\<close>

text \<open>What the code relies on when it calls the destructor of the object \<open>h\<close>, to which it holds a reference, and
  when it frees the storage of \<open>h\<close>, to which nobody else does: they keep the state in order (\<open>ok\<close>), and bail out
  only if \<open>may_bail\<close>.\<close>

definition dtor_contract :: "(zgc \<Rightarrow> bool) \<Rightarrow> bool \<Rightarrow> handle \<Rightarrow> dtor_call \<Rightarrow> bool" where
  "dtor_contract ok may_bail h call_dtor \<longleftrightarrow> (\<forall>d st b. ok st \<longrightarrow> os_objects st h = Some b \<longrightarrow> os_refcount b = 1 \<longrightarrow> destructor_called b \<longrightarrow> os_dtor b = Some d \<longrightarrow>
     (\<exists>st' bailed b'. call_dtor d (os_object b) h st = Some (st', bailed) \<and> (bailed \<longrightarrow> may_bail) \<and> ok st' \<and>
        os_objects st' h = Some b' \<and> destructor_called b'))"

definition free_contract :: "(zgc \<Rightarrow> bool) \<Rightarrow> bool \<Rightarrow> handle \<Rightarrow> free_call \<Rightarrow> bool" where
  "free_contract ok may_bail h call_free \<longleftrightarrow> (\<forall>f st b. ok st \<longrightarrow> os_objects st h = Some b \<longrightarrow> os_refcount b = 1 \<longrightarrow> os_free_storage b = Some f \<longrightarrow>
     (\<exists>st' bailed. call_free f (os_object b) st = Some (st', bailed) \<and> (bailed \<longrightarrow> may_bail) \<and> ok st' \<and>
        os_objects st' h = Some b \<and> os_base st' = os_base st))"

text \<open>The interface a release works on: a condition that the three steps of the store keep.\<close>

locale object_releasing =
  fixes ok :: "zgc \<Rightarrow> bool"
  assumes rewrite: "ok st \<Longrightarrow> os_get st h = Some b \<Longrightarrow> os_next (f b) = os_next b \<Longrightarrow> os_valid (f b) = os_valid b \<Longrightarrow>
      gc_addr (os_buffered (f b)) = gc_addr (os_buffered b) \<Longrightarrow>
      \<exists>st'. os_upd h f st = Some st' \<and> ok st' \<and> os_objects st' = (\<lambda>x. if x = h \<and> os_valid b then Some (f b) else os_objects st x) \<and>
        os_base st' = os_base st \<and> free_list_head st' = free_list_head st \<and> gc_roots st' = gc_roots st \<and> gc_buf st' = gc_buf st"
    and remove: "ok st \<Longrightarrow> os_objects st h = Some b \<Longrightarrow>
      \<exists>st' r. GC_REMOVE_ZOBJ_FROM_BUFFER h st = Some st' \<and> ok st' \<and> gc_addr r = Null \<and>
        os_objects st' = (os_objects st)(h \<mapsto> b\<lparr>os_buffered := r\<rparr>) \<and> os_base st' = os_base st"
    and free: "ok st \<Longrightarrow> os_objects st h = Some b \<Longrightarrow> gc_addr (os_buffered b) = Null \<Longrightarrow>
      \<exists>st'. ZEND_OBJECTS_STORE_ADD_TO_FREE_LIST h st = Some st' \<and> ok st' \<and> os_objects st' = (os_objects st)(h := None) \<and>
        os_base st' = os_base st \<and> free_list_head st' = sint h \<and> os_get st' h = Some (b\<lparr>os_next := free_list_head st, os_valid := False\<rparr>)"
    and unbuffered: "ok st \<Longrightarrow> os_get st h = Some b \<Longrightarrow> gc_addr (os_buffered b) = Null \<Longrightarrow>
      \<forall>i \<in> set (gc_roots st). root_of st i \<noteq> OB h"
begin

lemma upd:
  assumes ok: "ok st" and b: "os_objects st h = Some b"
    and f: "os_next (f b) = os_next b" "os_valid (f b)" "gc_addr (os_buffered (f b)) = gc_addr (os_buffered b)"
  shows "\<exists>st'. os_upd h f st = Some st' \<and> ok st' \<and> os_objects st' = (os_objects st)(h \<mapsto> f b) \<and> os_base st' = os_base st"
proof -
  have g: "os_get st h = Some b" "os_valid b" using b by (simp_all add: os_objects_get)
  have "(\<lambda>x. if x = h \<and> os_valid b then Some (f b) else os_objects st x) = (os_objects st)(h \<mapsto> f b)"
    using g(2) by (simp add: fun_eq_iff)
  then show ?thesis using rewrite [OF ok g(1), of f] f g(2) by auto
qed

lemma del_ref_destroy_step:
  assumes ok: "ok st" and b: "os_objects st h = Some b" "os_refcount b = 1" and dt: "dtor_contract ok may_bail h call_dtor"
  shows "\<exists>st' bailed b'. del_ref_destroy call_dtor h handlers st = Some (st', bailed) \<and> ok st' \<and>
    os_objects st' h = Some b' \<and> (destructor_called b \<longrightarrow> st' = st \<and> \<not> bailed) \<and> destructor_called b' \<and> (bailed \<longrightarrow> may_bail)"
proof (cases "destructor_called b")
  case True
  then show ?thesis using ok b by (auto simp: del_ref_destroy_def os_objects_get)
next
  case False
  let ?b1 = "b\<lparr>destructor_called := True\<rparr>"
  have g: "os_get st h = Some b" "os_valid b" using b(1) by (simp_all add: os_objects_get)
  obtain st1 where st1: "os_upd h (\<lambda>b. b\<lparr>destructor_called := True\<rparr>) st = Some st1" "ok st1" "os_objects st1 h = Some ?b1"
    using upd [OF ok b(1), of "\<lambda>b. b\<lparr>destructor_called := True\<rparr>"] g by auto
  show ?thesis
  proof (cases "os_dtor b")
    case None
    then have "del_ref_destroy call_dtor h handlers st = Some (st1, False)" using False g st1(1) by (simp add: del_ref_destroy_def)
    then show ?thesis using False st1(2,3) by auto
  next
    case (Some d)
    let ?set = "handlers \<noteq> None \<and> os_handlers b = None"
    obtain st2 b2 where st2: "(if ?set then os_upd h (\<lambda>b. b\<lparr>os_handlers := handlers\<rparr>) st1 else Some st1) = Some st2"
      "ok st2" "os_objects st2 h = Some b2" "os_refcount b2 = 1" "destructor_called b2" "os_dtor b2 = Some d" "os_object b2 = os_object b"
    proof (cases ?set)
      case True
      then show thesis using upd [OF st1(2,3), of "\<lambda>b. b\<lparr>os_handlers := handlers\<rparr>"] g Some b(2) that by auto
    qed (use st1 Some b(2) that in auto)
    obtain st3 bailed b3 where "call_dtor d (os_object b) h st2 = Some (st3, bailed)" "bailed \<longrightarrow> may_bail" "ok st3"
      "os_objects st3 h = Some b3" "destructor_called b3"
      using dt [unfolded dtor_contract_def, rule_format, OF st2(2-6)] unfolding st2(7) by blast
    then show ?thesis using False Some g st1 st2(1) by (simp add: del_ref_destroy_def)
  qed
qed

lemma del_ref_free_step:
  assumes ok: "ok st" and b: "os_objects st h = Some b" "os_refcount b = 1" and fr: "free_contract ok may_bail h call_free"
  shows "\<exists>st' bailed. del_ref_free call_free h st = Some (st', bailed) \<and> ok st' \<and> os_objects st' h = None \<and>
    os_get st' h \<noteq> None \<and> os_base st' = os_base st \<and> free_list_head st' = sint h \<and> (\<forall>i \<in> set (gc_roots st'). root_of st' i \<noteq> OB h) \<and>
    (bailed \<longrightarrow> may_bail)"
proof -
  obtain st1 r where st1: "GC_REMOVE_ZOBJ_FROM_BUFFER h st = Some st1" "ok st1" "gc_addr r = Null"
    "os_objects st1 = (os_objects st)(h \<mapsto> b\<lparr>os_buffered := r\<rparr>)" "os_base st1 = os_base st"
    using remove [OF ok b(1)] by blast
  let ?b1 = "b\<lparr>os_buffered := r\<rparr>"
  have o1: "os_objects st1 h = Some ?b1" "os_refcount ?b1 = 1" using st1(4) b(2) by simp_all
  obtain st2 bailed where st2: "(case os_free_storage b of None \<Rightarrow> Some (st1, False) | Some f \<Rightarrow> call_free f (os_object b) st1) = Some (st2, bailed)"
    "ok st2" "os_objects st2 h = Some ?b1" "os_base st2 = os_base st" "bailed \<longrightarrow> may_bail"
  proof (cases "os_free_storage b")
    case None
    then show thesis using that [of st1 False] st1(2,5) o1(1) by simp
  next
    case (Some f)
    then show thesis
      using fr [unfolded free_contract_def, rule_format, OF st1(2) o1, of f] Some that st1(5) by auto
  qed
  have null: "gc_addr (os_buffered ?b1) = Null" using st1(3) by simp
  obtain st3 where st3: "ZEND_OBJECTS_STORE_ADD_TO_FREE_LIST h st2 = Some st3" "ok st3" "os_objects st3 = (os_objects st2)(h := None)"
    "os_base st3 = os_base st2" "free_list_head st3 = sint h" "os_get st3 h = Some (?b1\<lparr>os_next := free_list_head st2, os_valid := False\<rparr>)"
    using free [OF st2(2,3) null] by blast
  have "\<forall>i \<in> set (gc_roots st3). root_of st3 i \<noteq> OB h"
    by (rule unbuffered [OF st3(2,6)]) (use null in simp)
  then show ?thesis
    using b(1) st1(1) st2(1,4,5) st3 by (auto simp: del_ref_free_def os_objects_get)
qed

lemma del_ref_releases:
  assumes ok: "ok st" and b: "os_objects st h = Some b"
    and callbacks: "dtor_contract ok may_bail h call_dtor" "free_contract ok may_bail h call_free"
  shows "\<exists>st' bailed. zend_objects_store_del_ref_by_handle_ex call_dtor call_free h handlers st = Some (st', bailed) \<and> ok st' \<and> (bailed \<longrightarrow> may_bail) \<and>
    (if os_refcount b \<noteq> 1 then os_objects st' = (os_objects st)(h \<mapsto> b\<lparr>os_refcount := os_refcount b - 1\<rparr>) \<and> \<not> bailed
     else (\<exists>st1 failure b1. del_ref_destroy call_dtor h handlers st = Some (st1, failure) \<and> os_objects st1 h = Some b1 \<and>
       destructor_called b1 \<and> (destructor_called b \<longrightarrow> st1 = st \<and> \<not> failure) \<and>
       (if os_refcount b1 \<noteq> 1 then os_objects st' = (os_objects st1)(h \<mapsto> b1\<lparr>os_refcount := os_refcount b1 - 1\<rparr>) \<and> bailed = failure
        else os_objects st' h = None \<and> free_list_head st' = sint h \<and> (\<forall>i \<in> set (gc_roots st'). root_of st' i \<noteq> OB h))))"
proof -
  let ?dec = "\<lambda>b. b\<lparr>os_refcount := os_refcount b - 1\<rparr>"
  have g: "os_get st h = Some b" "os_valid b" using b by (simp_all add: os_objects_get)
  then obtain bs where live: "object_buckets st = Some bs" using has_OB_D [of st h] by auto
  show ?thesis
  proof (cases "os_refcount b = 1")
    case False
    obtain st' where st': "os_delref h st = Some st'" "ok st'" "os_objects st' = (os_objects st)(h \<mapsto> ?dec b)"
      using upd [OF ok b, of ?dec] g(2) by (auto simp: os_delref_def)
    from st'(1) have "zend_objects_store_del_ref_by_handle_ex call_dtor call_free h handlers st = Some (st', False)"
      using False g live by (simp add: zend_objects_store_del_ref_by_handle_ex_def)
    then show ?thesis using False st' by auto
  next
    case True
    obtain st1 failure b1 where d: "del_ref_destroy call_dtor h handlers st = Some (st1, failure)" "ok st1"
      "os_objects st1 h = Some b1" "destructor_called b \<longrightarrow> st1 = st \<and> \<not> failure" "destructor_called b1" "failure \<longrightarrow> may_bail"
      using del_ref_destroy_step [OF ok b True callbacks(1)] by blast
    then have g1: "os_get st1 h = Some b1" "os_valid b1" by (simp_all add: os_objects_get)
    show ?thesis
    proof (cases "os_refcount b1 = 1")
      case False
      obtain st' where st': "os_delref h st1 = Some st'" "ok st'" "os_objects st' = (os_objects st1)(h \<mapsto> ?dec b1)"
        using upd [OF d(2,3), of ?dec] g1(2) by (auto simp: os_delref_def)
      then have "zend_objects_store_del_ref_by_handle_ex call_dtor call_free h handlers st = Some (st', failure)"
        using True False g g1 live d(1) by (simp add: zend_objects_store_del_ref_by_handle_ex_def Let_def)
      then show ?thesis using True False st'(2,3) d by auto
    next
      case dead: True
      obtain st2 failure' where r: "del_ref_free call_free h st1 = Some (st2, failure')" "ok st2" "os_objects st2 h = None"
        "os_get st2 h \<noteq> None" "os_base st2 = os_base st1" "free_list_head st2 = sint h" "\<forall>i \<in> set (gc_roots st2). root_of st2 i \<noteq> OB h" "failure' \<longrightarrow> may_bail"
        using del_ref_free_step [OF d(2,3) dead callbacks(2)] by blast
      obtain b2 where b2: "os_get st2 h = Some b2" "\<not> os_valid b2" using r(3,4) by (auto simp: os_objects_def split: if_splits)
      obtain st' where st': "os_delref h st2 = Some st'" "ok st'" "os_objects st' h = None" "free_list_head st' = sint h"
        "gc_roots st' = gc_roots st2" "gc_buf st' = gc_buf st2"
        using rewrite [OF r(2) b2(1), of ?dec] b2(2) r(3,6) by (auto simp: os_delref_def)
      have "root_of st' = root_of st2" by (simp add: root_of_def fun_eq_iff st'(6))
      moreover have "zend_objects_store_del_ref_by_handle_ex call_dtor call_free h handlers st = Some (st', failure \<or> failure')"
        using True dead g g1 live d(1) r(1,5) st'(1) by (simp add: zend_objects_store_del_ref_by_handle_ex_def Let_def)
      ultimately show ?thesis using True dead st' r(7,8) d by auto
    qed
  qed
qed

end

text \<open>The store and the root buffer in order, while no collection runs.\<close>

interpretation plain: object_releasing "store_ok hs" for hs
proof (unfold_locales, goal_cases)
  case (1 st h b f)
  then show ?case by (rule store_ok_rewrite)
next
  case (2 st h b)
  then show ?case using store_ok_remove by blast
next
  case (3 st h b)
  then show ?case using store_ok_free by blast
next
  case (4 st h b)
  then have "buffer_ok hs st" by (simp add: store_ok_def root_buffer_ok_def)
  then show ?case using 4 unfolding buffer_ok_def by (auto simp: node_simps)
qed


text \<open>The heap of a collection with its object is a store in order.\<close>

lemma cyc_objects: "os_objects cyc_heap = [1 \<mapsto> cyc_object]"
  by (auto simp: os_objects_def cyc_os_get fun_eq_iff cyc_zero_def cyc_object_def)

lemma cyc_store_ok: "store_ok (\<lambda>h. 7) cyc_heap"
proof -
  have two: "x < 2 \<longleftrightarrow> x = 0 \<or> x = 1" for x :: handle
    by (auto simp: word_less_nat_alt word_unat_eq_iff less_2_cases_iff)
  have "os_ok cyc_heap [Some cyc_zero, Some cyc_object] []"
    unfolding os_ok_def cyc_objects cyc_os_get
    by (auto simp: cyc_heap_def two cyc_zero_def cyc_object_def gc_null_def word_le_nat_alt split: if_splits)
  then have "os_inv cyc_heap" using os_inv_ok by blast
  moreover have "root_buffer_ok (\<lambda>h. 7) cyc_heap"
    using cyc_ready by (auto simp: root_buffer_ok_def gc_ready_def cyc_heap_def)
  moreover have "\<not> gc_active cyc_heap" by (simp add: cyc_heap_def)
  ultimately show ?thesis by (simp add: store_ok_def)
qed

lemma no_op_contracts: "dtor_contract ok b h (\<lambda>d ob h st. Some (st, False))" "free_contract ok True h (\<lambda>f ob st. Some (st, True))"
  by (auto simp: dtor_contract_def free_contract_def)


subsection \<open>Where the store goes wrong\<close>

text \<open>The pointer to the bucket is read again after the destructor and not after \<open>free_storage\<close>. When that
  moves the array (the destructor of a property creates objects), the count is lowered through a pointer to
  freed memory.\<close>

lemma del_ref_free_moves:
  assumes b: "os_objects st h = Some b" "os_refcount b = 1" "destructor_called b" "os_free_storage b = Some f"
    and run: "GC_REMOVE_ZOBJ_FROM_BUFFER h st = Some st1" "call_free f (os_object b) st1 = Some (st2, bailed)"
    and moved: "os_base st2 \<noteq> os_base st"
  shows "zend_objects_store_del_ref_by_handle_ex call_dtor call_free h handlers st = None"
proof -
  have g: "os_get st h = Some b" "os_valid b" using b(1) by (simp_all add: os_objects_get)
  obtain bs where live: "object_buckets st = Some bs" using has_OB_D [of st h] g(1) by auto
  have d: "del_ref_destroy call_dtor h handlers st = Some (st, False)" using b(3) g by (simp add: del_ref_destroy_def)
  have base: "os_base st3 = os_base st2" if "ZEND_OBJECTS_STORE_ADD_TO_FREE_LIST h st2 = Some st3" for st3
    using that by (auto simp: ZEND_OBJECTS_STORE_ADD_TO_FREE_LIST_def os_upd_def Let_def split: bind_splits)
  show ?thesis
    using g b live d run moved base
    by (cases "ZEND_OBJECTS_STORE_ADD_TO_FREE_LIST h st2")
      (auto simp: zend_objects_store_del_ref_by_handle_ex_def del_ref_free_def Let_def)
qed

text \<open>A clone gets no handler table: line 263 writes the one of the original.\<close>

lemma clone_keeps_no_handlers:
  assumes z: "zvals st zobject = Some z" "z_value z = IS_OBJECT h hs" and b: "os_get st h = Some b" "os_clone b = Some c"
    and cl: "call_clone c (os_object b) st = Some (new_object, st1)"
    and st1: "os_inv st1" "unat (os_size st1) \<le> 2 ^ 29" "os_objects st1 h = Some b1"
  shows "\<exists>h' st' b'. zend_objects_store_clone_obj call_clone zobject st = Some (Some ((h', hs), st')) \<and> h' \<noteq> h \<and>
    os_objects st' h' = Some b' \<and> os_handlers b' = None \<and> os_objects st' h = Some (b1\<lparr>os_handlers := Some hs\<rparr>)"
proof -
  have g1: "os_get st1 h = Some b1" using st1(3) by (simp add: os_objects_get)
  obtain h' st2 where p: "zend_objects_store_put new_object (os_dtor b1) (os_free_storage b1) (os_clone b1) st1 = Some (h', st2)"
    "os_objects st1 h' = None" "os_objects st2 = (os_objects st1)(h' \<mapsto> fresh_bucket new_object (os_dtor b1) (os_free_storage b1) (os_clone b1))"
    using put_inserts [OF st1(1,2)] by blast
  have ne: "h' \<noteq> h" using p(2) st1(3) by auto
  then have "os_objects st2 h = Some b1" using p(3) st1(3) by simp
  then have g2: "os_get st2 h = Some b1" "os_valid b1" by (simp_all add: os_objects_get)
  obtain st' where st': "os_upd h (\<lambda>b. b\<lparr>os_handlers := Some hs\<rparr>) st2 = Some st'"
    "\<And>x. os_get st' x = (if x = h then Some (b1\<lparr>os_handlers := Some hs\<rparr>) else os_get st2 x)"
    by (rule os_upd_get [OF g2(1), of "\<lambda>b. b\<lparr>os_handlers := Some hs\<rparr>"]) blast
  have "zend_objects_store_clone_obj call_clone zobject st = Some (Some ((h', hs), st'))"
    using z b cl g1 p(1) st'(1) by (simp add: zend_objects_store_clone_obj_def)
  moreover have "os_get st2 h' = Some (fresh_bucket new_object (os_dtor b1) (os_free_storage b1) (os_clone b1))"
    using p(3) os_objects_get by (metis fun_upd_same)
  then have "os_objects st' h' = Some (fresh_bucket new_object (os_dtor b1) (os_free_storage b1) (os_clone b1))"
    using ne st'(2) by (simp add: os_objects_get)
  moreover have "os_objects st' h = Some (b1\<lparr>os_handlers := Some hs\<rparr>)" using st'(2) g2(2) by (simp add: os_objects_get)
  moreover have "os_handlers (fresh_bucket new_object (os_dtor b1) (os_free_storage b1) (os_clone b1)) = None"
    by (simp add: fresh_bucket_def)
  ultimately show ?thesis using ne by blast
qed

end
