(* ===== verification/Gc_Free.thy ===== *)
theory Gc_Free
  imports Objects_Release
begin

text \<open>
  The second half of \<open>gc_collect_cycles\<close>: three loops over the zvals that the first half has put on
  \<open>free_list\<close>. The first calls the destructors of their objects, the second destroys their values, the third
  gives their memory back. Destructors, storage functions, the \<open>pDestructor\<close> of a hash table and
  the destruction of a string or resource (\<open>zval_dtor\<close>) are parameters that may change the whole
  state and bail out; a bail-out is not caught here.
\<close>

type_synonym zval_call = "addr \<Rightarrow> zgc \<Rightarrow> (zgc \<times> bool) option"

text \<open>\<open>p->u.next\<close>, which shares its word with a colour and the address of an entry; reading another
  thing than the link as one has no result.\<close>

definition gc_next :: "addr \<Rightarrow> zgc \<Rightarrow> gc_addr option" where
  "gc_next p st =
     do {
       z \<leftarrow> zvals st p;
       case gc_addr (zv_buffered z) of
         Next q \<Rightarrow> if gc_color (zv_buffered z) = GC_BLACK then Some (Next q) else None
       | _ \<Rightarrow> None
     }"

subsection \<open>Calling destructors\<close>

definition gc_call_destructor :: "dtor_call \<Rightarrow> addr \<Rightarrow> zgc \<Rightarrow> (zgc \<times> bool) option" where
  "gc_call_destructor call_dtor p st =
     do {
       z \<leftarrow> zvals st p;
       case z_value z of
         IS_OBJECT h _ \<Rightarrow>
           if object_buckets st = None then Some (st, False)
           else do {
             b \<leftarrow> os_get st h;
             case os_dtor b of
               None \<Rightarrow> Some (st, False)
             | Some d \<Rightarrow>
                 if os_valid b \<and> os_refcount b \<le> 0 \<and> \<not> destructor_called b then do {
                   st \<leftarrow> os_upd h (\<lambda>b. b\<lparr>destructor_called := True\<rparr>) st;
                   st \<leftarrow> os_addref h st;
                   (st, bailed) \<leftarrow> call_dtor d (os_object b) h st;
                   if bailed then Some (st, True) else do { st \<leftarrow> os_delref h st; Some (st, False) }
                 }
                 else Some (st, False)
           }
       | _ \<Rightarrow> Some (st, False)
     }"

partial_function (option) gc_call_destructors_loop :: "dtor_call \<Rightarrow> gc_addr \<Rightarrow> uint \<Rightarrow> zgc \<Rightarrow> (uint \<times> zgc \<times> bool) option" where
  "gc_call_destructors_loop call_dtor p num st =
     (case p of
        Next None \<Rightarrow> Some (num, st, False)
      | Next (Some a) \<Rightarrow> do {
          (st, bailed) \<leftarrow> gc_call_destructor call_dtor a st;
          if bailed then Some (num, st, True)
          else do {
            q \<leftarrow> gc_next a st;
            gc_call_destructors_loop call_dtor q (num + 1) st
          }
        }
      | _ \<Rightarrow> None)"

subsection \<open>Destroying zvals\<close>

text \<open>\<open>zend_hash_destroy\<close> and \<open>FREE_HASHTABLE\<close> on a table as the collector sees it: \<open>pDestructor\<close> is called on the
  elements in order, then the table is gone.\<close>

fun destroy_elements :: "zval_call \<Rightarrow> addr list \<Rightarrow> zgc \<Rightarrow> (zgc \<times> bool) option" where
  "destroy_elements pDestructor [] st = Some (st, False)"
| "destroy_elements pDestructor (e # es) st =
     do {
       (st, bailed) \<leftarrow> pDestructor e st;
       if bailed then Some (st, True) else destroy_elements pDestructor es st
     }"

definition gc_hash_destroy :: "zval_call \<Rightarrow> addr \<Rightarrow> zgc \<Rightarrow> (zgc \<times> bool) option" where
  "gc_hash_destroy pDestructor ht st =
     do {
       es \<leftarrow> tables st ht;
       (st, bailed) \<leftarrow> destroy_elements pDestructor es st;
       if bailed then Some (st, True)
       else do {
         _ \<leftarrow> tables st ht;
         Some (st\<lparr>tables := (tables st)(ht := None)\<rparr>, False)
       }
     }"

definition gc_set_null :: "addr \<Rightarrow> zgc \<Rightarrow> zgc option" where
  "gc_set_null p st = zv_upd p (\<lambda>z. z\<lparr>z_value := IS_NULL\<rparr>) st"

definition gc_destroy_zval :: "dtor_call \<Rightarrow> free_call \<Rightarrow> zval_call \<Rightarrow> zval_call \<Rightarrow> addr \<Rightarrow> zgc \<Rightarrow> (zgc \<times> bool) option" where
  "gc_destroy_zval call_dtor call_free pDestructor zval_dtor p st =
     do {
       z \<leftarrow> zvals st p;
       case z_value z of
         IS_OBJECT h hs \<Rightarrow>
           if object_buckets st = None then Some (st, False)
           else do {
             b \<leftarrow> os_get st h;
             if os_valid b \<and> os_refcount b \<le> 0 then do {
               st \<leftarrow> os_upd h (\<lambda>b. b\<lparr>os_refcount := 1\<rparr>) st;
               st \<leftarrow> gc_set_null p st;
               zend_objects_store_del_ref_by_handle_ex call_dtor call_free h (Some hs) st
             }
             else Some (st, False)
           }
       | IS_ARRAY ht \<Rightarrow> do {
           st \<leftarrow> gc_set_null p st;
           gc_hash_destroy pDestructor ht st
         }
       | _ \<Rightarrow> do {
           (st, bailed) \<leftarrow> zval_dtor p st;
           if bailed then Some (st, True) else do { st \<leftarrow> gc_set_null p st; Some (st, False) }
         }
     }"

text \<open>The next zval is kept in \<open>next_to_free\<close>, where \<open>gc_remove_zval_from_buffer\<close> finds it.\<close>

partial_function (option) gc_destroy_loop ::
    "dtor_call \<Rightarrow> free_call \<Rightarrow> zval_call \<Rightarrow> zval_call \<Rightarrow> gc_addr \<Rightarrow> zgc \<Rightarrow> (zgc \<times> bool) option" where
  "gc_destroy_loop call_dtor call_free pDestructor zval_dtor p st =
     (case p of
        Next None \<Rightarrow> Some (st, False)
      | Next (Some a) \<Rightarrow> do {
          q \<leftarrow> gc_next a st;
          (st, bailed) \<leftarrow> gc_destroy_zval call_dtor call_free pDestructor zval_dtor a (st\<lparr>next_to_free := q\<rparr>);
          if bailed then Some (st, True)
          else gc_destroy_loop call_dtor call_free pDestructor zval_dtor (next_to_free st) st
        }
      | _ \<Rightarrow> None)"

subsection \<open>Freeing zvals\<close>

partial_function (option) gc_free_loop :: "gc_addr \<Rightarrow> zgc \<Rightarrow> zgc option" where
  "gc_free_loop p st =
     (case p of
        Next None \<Rightarrow> Some st
      | Next (Some a) \<Rightarrow> do {
          q \<leftarrow> gc_next a st;
          gc_free_loop q (st\<lparr>zvals := (zvals st)(a := None)\<rparr>)
        }
      | _ \<Rightarrow> None)"

text \<open>The whole function; no phase of its first half writes \<open>free_list\<close> or \<open>next_to_free\<close>, so their values before it
  are the ones saved. The first result is the number of zvals freed.\<close>

definition gc_collect_cycles ::
    "dtor_call \<Rightarrow> free_call \<Rightarrow> zval_call \<Rightarrow> zval_call \<Rightarrow> zgc \<Rightarrow> (uint \<times> zgc \<times> bool) option" where
  "gc_collect_cycles call_dtor call_free pDestructor zval_dtor st =
     do {
       found \<leftarrow> gc_find_cycles st;
       case found of
         None \<Rightarrow> Some (0, st, False)
       | Some st1 \<Rightarrow> do {
           (num, st1, bailed) \<leftarrow> gc_call_destructors_loop call_dtor (free_list st1) 0 st1;
           if bailed then Some (num, st1, True)
           else do {
             (st1, bailed) \<leftarrow> gc_destroy_loop call_dtor call_free pDestructor zval_dtor (free_list st1) st1;
             if bailed then Some (num, st1, True)
             else do {
               st1 \<leftarrow> gc_free_loop (free_list st1) st1;
               Some (num, st1\<lparr>gc_collected := gc_collected st1 + num, free_list := free_list st, next_to_free := next_to_free st\<rparr>, False)
             }
           }
         }
     }"

end
