(* ===== verification/Gc_Sweep.thy ===== *)
theory Gc_Sweep
  imports Gc_Free
begin

text \<open>
  What a complete collection does: the zvals found are freed, and the object store, the root buffer
  and the collector's globals are in order afterwards.
\<close>

subsection \<open>What the first half leaves alone\<close>

definition os_clean :: "store_bucket \<Rightarrow> store_bucket" where
  "os_clean b = b\<lparr>os_refcount := 0, os_buffered := gc_null\<rparr>"

definition gc_core :: "zgc \<Rightarrow> store_bucket option list option \<times> (uint \<times> uint \<times> nat \<times> int) \<times> gc_addr \<times> gc_addr \<times> nat \<times> nat" where
  "gc_core st = (map_option (map (map_option os_clean)) (object_buckets st), (os_top st, os_size st, os_base st, free_list_head st),
     free_list st, next_to_free st, first_unused st, last_unused st)"

lemma gc_core_fields [simp]:
  "gc_core (st\<lparr>zvals := s\<rparr>) = gc_core st" "gc_core (st\<lparr>zval_to_free := p\<rparr>) = gc_core st" "gc_core (st\<lparr>gc_active := b\<rparr>) = gc_core st"
  "gc_core (st\<lparr>gc_runs := n\<rparr>) = gc_core st" "gc_core (st\<lparr>gc_roots := r\<rparr>) = gc_core st" "gc_core (st\<lparr>gc_unused := r\<rparr>) = gc_core st"
  by (simp_all add: gc_core_def)

lemma os_upd_core:
  assumes "os_upd h f st = Some st'" "\<And>b. os_clean (f b) = os_clean b"
  shows "gc_core st' = gc_core st"
proof -
  obtain bs b where bs: "object_buckets st = Some bs" "os_get st h = Some b" "st' = st\<lparr>object_buckets := Some (bs[unat h := Some (f b)])\<rparr>"
    using assms(1) by (auto simp: os_upd_def split: bind_splits)
  have "unat h < length bs" "bs ! unat h = Some b" using bs(1,2) by (auto simp: os_get_def nth_opt_def split: if_splits)
  then have "(map (map_option os_clean) bs)[unat h := Some (os_clean (f b))] = map (map_option os_clean) bs"
    by (intro list_update_same_conv [THEN iffD2]) (simp_all add: assms(2))
  then show ?thesis using bs(1,3) by (simp add: gc_core_def map_update)
qed

lemma zv_upd_core: "zv_upd a f st = Some st' \<Longrightarrow> gc_core st' = gc_core st"
  by (auto simp: zv_upd_def split: bind_splits)

lemma prims_core:
  "GC_ZVAL_SET_COLOR a c st = Some st' \<Longrightarrow> gc_core st' = gc_core st" "GC_ZVAL_SET_ADDRESS a p st = Some st' \<Longrightarrow> gc_core st' = gc_core st"
  "zv_addref a st = Some st' \<Longrightarrow> gc_core st' = gc_core st" "zv_delref a st = Some st' \<Longrightarrow> gc_core st' = gc_core st"
  "GC_OBJ_SET_COLOR h c st = Some st' \<Longrightarrow> gc_core st' = gc_core st" "GC_OBJ_SET_ADDRESS h p st = Some st' \<Longrightarrow> gc_core st' = gc_core st"
  "os_addref h st = Some st' \<Longrightarrow> gc_core st' = gc_core st" "os_delref h st = Some st' \<Longrightarrow> gc_core st' = gc_core st"
  "gc_remove_from_buffer i st = Some st' \<Longrightarrow> gc_core st' = gc_core st"
  unfolding GC_ZVAL_SET_COLOR_def GC_ZVAL_SET_ADDRESS_def zv_addref_def zv_delref_def
    GC_OBJ_SET_COLOR_def GC_OBJ_SET_ADDRESS_def os_addref_def os_delref_def
  by (simp_all add: zv_upd_core) (auto dest!: os_upd_core simp: os_clean_def gc_remove_from_buffer_def split: if_splits)

definition step_core :: "(addr \<Rightarrow> zgc \<Rightarrow> (addr list \<times> zgc) option) \<Rightarrow> bool" where
  "step_core step \<longleftrightarrow> (\<forall>a st cs st'. step a st = Some (cs, st') \<longrightarrow> gc_core st' = gc_core st)"

lemma gc_walk_core:
  assumes "gc_walk step ps st = Some st'" "step_core step"
  shows "gc_core st' = gc_core st"
proof -
  have "step_core step \<longrightarrow> gc_core st' = gc_core st"
  proof (rule gc_walk.raw_induct [where P = "\<lambda>step ps st st'. step_core step \<longrightarrow> gc_core st' = gc_core st", OF _ assms(1)], intro impI)
    fix walk :: "(addr \<Rightarrow> zgc \<Rightarrow> (addr list \<times> zgc) option) \<Rightarrow> addr list \<Rightarrow> zgc \<Rightarrow> zgc option" and step ps st st'
    assume IH: "\<And>step ps st st'. walk step ps st = Some st' \<Longrightarrow> step_core step \<longrightarrow> gc_core st' = gc_core st"
      and run: "(case ps of [] \<Rightarrow> Some st | pz # ps' \<Rightarrow> do { (cs, st) \<leftarrow> step pz st; st \<leftarrow> walk step cs st; walk step ps' st }) = Some st'"
      and sc: "step_core step"
    show "gc_core st' = gc_core st"
    proof (cases ps)
      case Nil
      then show ?thesis using run by simp
    next
      case (Cons pz ps')
      then obtain cs st1 st2 where "step pz st = Some (cs, st1)" "walk step cs st1 = Some st2" "walk step ps' st2 = Some st'"
        using run by (auto split: bind_splits)
      then show ?thesis using IH sc unfolding step_core_def by metis
    qed
  qed
  then show ?thesis using assms(2) by simp
qed

lemma gc_enter_core: "gc_enter enter step a st = Some st' \<Longrightarrow> step_core enter \<Longrightarrow> step_core step \<Longrightarrow> gc_core st' = gc_core st"
  by (auto simp: gc_enter_def dest!: gc_walk_core simp: step_core_def split: bind_splits)

lemma black_core: "step_core zval_scan_black_enter" "step_core zval_scan_black_step"
proof -
  show e: "step_core zval_scan_black_enter"
    by (auto simp: step_core_def zval_scan_black_enter_def dest!: prims_core split: bind_splits zvalue.splits if_splits)
  show "step_core zval_scan_black_step"
    using e by (auto simp: step_core_def zval_scan_black_step_def dest!: prims_core split: bind_splits if_splits)
qed

lemma mark_core: "step_core zval_mark_grey_enter" "step_core zval_mark_grey_step"
proof -
  show e: "step_core zval_mark_grey_enter"
    by (auto simp: step_core_def zval_mark_grey_enter_def dest!: prims_core split: bind_splits zvalue.splits if_splits)
  show "step_core zval_mark_grey_step"
    using e by (auto simp: step_core_def zval_mark_grey_step_def dest!: prims_core split: bind_splits if_splits)
qed

lemma collect_core: "step_core zval_collect_white_enter" "step_core zval_collect_white_step"
proof -
  show e: "step_core zval_collect_white_enter"
    by (auto simp: step_core_def zval_collect_white_enter_def dest!: prims_core zv_upd_core split: bind_splits zvalue.splits if_splits option.splits)
  show "step_core zval_collect_white_step"
    using e by (auto simp: step_core_def zval_collect_white_step_def dest!: prims_core split: bind_splits if_splits)
qed

lemma entry_core:
  "zval_scan_black a st = Some st' \<Longrightarrow> gc_core st' = gc_core st" "zval_mark_grey a st = Some st' \<Longrightarrow> gc_core st' = gc_core st"
  "zval_collect_white a st = Some st' \<Longrightarrow> gc_core st' = gc_core st"
  "zobj_scan_black h k st = Some st' \<Longrightarrow> gc_core st' = gc_core st" "zobj_mark_grey h k st = Some st' \<Longrightarrow> gc_core st' = gc_core st"
  "zobj_collect_white h k st = Some st' \<Longrightarrow> gc_core st' = gc_core st"
  unfolding zval_scan_black_def zval_mark_grey_def zval_collect_white_def zobj_scan_black_def zobj_mark_grey_def zobj_collect_white_def
  by (auto dest!: gc_enter_core [OF _ black_core] gc_enter_core [OF _ mark_core] gc_enter_core [OF _ collect_core]
      gc_walk_core [OF _ black_core(2)] gc_walk_core [OF _ mark_core(2)] gc_walk_core [OF _ collect_core(2)] prims_core
      split: bind_splits if_splits)

lemma scan_core: "step_core zval_scan_step"
  by (auto simp: step_core_def zval_scan_step_def dest!: prims_core entry_core split: bind_splits zvalue.splits if_splits)

lemma scan_entry_core:
  "zval_scan a st = Some st' \<Longrightarrow> gc_core st' = gc_core st" "zobj_scan h k st = Some st' \<Longrightarrow> gc_core st' = gc_core st"
  unfolding zval_scan_def zobj_scan_def
  by (auto dest!: gc_walk_core [OF _ scan_core] entry_core prims_core split: bind_splits if_splits)

lemma gc_mark_roots_loop_core: "gc_mark_roots_loop is st = Some st' \<Longrightarrow> gc_core st' = gc_core st"
  by (induction "is" arbitrary: st) (auto simp: Let_def dest!: entry_core prims_core split: bind_splits if_splits)

lemma gc_scan_roots_loop_core: "gc_scan_roots_loop is st = Some st' \<Longrightarrow> gc_core st' = gc_core st"
  by (induction "is" arbitrary: st) (auto simp: Let_def dest!: scan_entry_core split: bind_splits if_splits)

lemma gc_collect_roots_loop_core: "gc_collect_roots_loop is st = Some st' \<Longrightarrow> gc_core st' = gc_core st"
  by (induction "is" arbitrary: st) (auto simp: Let_def dest!: entry_core prims_core split: bind_splits if_splits)

lemma gc_find_cycles_core:
  assumes "gc_find_cycles st = Some (Some st')"
  shows "gc_core (st'\<lparr>free_list := free_list st\<rparr>) = gc_core st"
proof -
  obtain b s t where "gc_mark_roots (st\<lparr>gc_runs := gc_runs st + 1, zval_to_free := Next None, gc_active := True\<rparr>) = Some b"
    "gc_scan_roots b = Some s" "gc_collect_roots s = Some t" "st' = t\<lparr>free_list := zval_to_free t, zval_to_free := Null, gc_active := False\<rparr>"
    using assms by (auto simp: gc_find_cycles_def Let_def split: bind_splits if_splits)
  then have "gc_core t = gc_core st" "gc_core (st'\<lparr>free_list := free_list st\<rparr>) = gc_core (t\<lparr>free_list := free_list st\<rparr>)"
    by (auto simp: gc_mark_roots_def gc_scan_roots_def gc_collect_roots_def gc_core_def
        dest!: gc_mark_roots_loop_core gc_scan_roots_loop_core gc_collect_roots_loop_core)
  then show ?thesis by (simp add: gc_core_def)
qed

lemma os_get_clean:
  assumes "map_option (map (map_option os_clean)) (object_buckets st') = map_option (map (map_option os_clean)) (object_buckets st)"
  shows "map_option os_clean (os_get st' h) = map_option os_clean (os_get st h)"
proof (cases "object_buckets st")
  case (Some bs)
  then obtain bs' where bs': "object_buckets st' = Some bs'" "map (map_option os_clean) bs' = map (map_option os_clean) bs"
    using assms by auto
  then have len: "length bs' = length bs" by (metis length_map)
  have "map_option os_clean (bs' ! i) = map_option os_clean (bs ! i)" if "i < length bs" for i
    using bs'(2) len that by (metis nth_map)
  then show ?thesis using Some bs'(1) len by (simp add: os_get_def nth_opt_def)
qed (use assms in \<open>simp add: os_get_def\<close>)

lemma os_cleanD:
  assumes "os_clean b' = os_clean b"
  shows "os_next b' = os_next b" "os_valid b' = os_valid b"
  using arg_cong [OF assms, of os_next] arg_cong [OF assms, of os_valid] by (simp_all add: os_clean_def)

text \<open>The collector's changes of reference counts and colours keep the object store in order.\<close>

lemma os_inv_core:
  assumes inv: "os_inv st" and core: "gc_core (st'\<lparr>free_list := free_list st\<rparr>) = gc_core st"
    and null: "\<And>h b. os_get st' h = Some b \<Longrightarrow> gc_addr (os_buffered b) = Null"
  shows "os_inv st'"
proof -
  have e: "map_option (map (map_option os_clean)) (object_buckets st') = map_option (map (map_option os_clean)) (object_buckets st)"
    "os_top st' = os_top st" "os_size st' = os_size st" "free_list_head st' = free_list_head st"
    using core by (simp_all add: gc_core_def)
  note g = os_get_clean [OF e(1)]
  obtain bs fl where ok: "os_ok st bs fl" using inv os_inv_ok by blast
  note d = ok [unfolded os_ok_def]
  obtain bs' where bs': "object_buckets st' = Some bs'" "length bs' = length bs" using e(1) d by (auto dest: map_eq_imp_length_eq)
  have nx: "os_next (the (os_get st' h)) = os_next (the (os_get st h))" if h: "os_get st h \<noteq> None" for h
  proof -
    obtain b b' where b: "os_get st h = Some b" "os_get st' h = Some b'" "os_clean b' = os_clean b" using g [of h] h by auto
    show ?thesis using os_cleanD(1) [OF b(3)] b(1,2) by simp
  qed
  have v: "(os_objects st' h = None) = (os_objects st h = None)" for h
  proof (cases "os_get st h")
    case None
    then show ?thesis using g [of h] by (simp add: os_objects_def)
  next
    case (Some b)
    then obtain b' where b': "os_get st' h = Some b'" "os_clean b' = os_clean b" using g [of h] by auto
    then have "os_valid b' = os_valid b" by (rule_tac os_cleanD(2))
    then show ?thesis using Some b' by (simp add: os_objects_def)
  qed
  have dm: "(os_get st' h \<noteq> None) = (os_get st h \<noteq> None)" for h using g [of h] by (cases "os_get st h"; cases "os_get st' h") auto
  have "os_chain st' (free_list_head st') fl"
    unfolding e(4) by (rule os_chain_frame [of st]) (use d nx in auto)
  then have "os_ok st' bs' fl"
    unfolding os_ok_def v dm using d e bs' null by simp
  then show ?thesis using os_inv_ok by blast
qed

subsection \<open>The zvals waiting to be freed\<close>

text \<open>The state with the links of the zvals in \<open>Z\<close> taken out of their word: what the root buffer sees.\<close>

definition unlist :: "addr set \<Rightarrow> zval_gc_info store \<Rightarrow> zval_gc_info store" where
  "unlist Z s = (\<lambda>a. if a \<in> Z then map_option (\<lambda>z. z\<lparr>zv_buffered := zv_buffered z\<lparr>gc_addr := Null\<rparr>\<rparr>) (s a) else s a)"

definition unlisted :: "addr set \<Rightarrow> zgc \<Rightarrow> zgc" where
  "unlisted Z st = st\<lparr>zvals := unlist Z (zvals st)\<rparr>"

text \<open>The elements of an array, and the references that the arrays \<open>P\<close> and the pointers \<open>R\<close> hold on a zval.\<close>

abbreviation zvalue_of :: "zgc \<Rightarrow> addr \<Rightarrow> zvalue" where
  "zvalue_of st a \<equiv> z_value (the (zvals st a))"

definition elements :: "zgc \<Rightarrow> addr \<Rightarrow> addr list" where
  "elements st a = (case zvalue_of st a of IS_ARRAY ht \<Rightarrow> the (tables st ht) | _ \<Rightarrow> [])"

definition held :: "zgc \<Rightarrow> addr set \<Rightarrow> addr list \<Rightarrow> addr \<Rightarrow> nat" where
  "held st P R x = (\<Sum>a \<in> P. count_list (elements st a) x) + count_list R x"

text \<open>The counts of the zvals cover these references, and the one of \<open>free_list\<close>.\<close>

definition covered :: "zgc \<Rightarrow> addr set \<Rightarrow> addr set \<Rightarrow> addr list \<Rightarrow> bool" where
  "covered st Z P R \<longleftrightarrow> (\<forall>x. 0 < held st P R x + of_bool (x \<in> Z) \<longrightarrow>
     x \<in> dom (zvals st) \<and> held st P R x + of_bool (x \<in> Z) \<le> unat (rc st (ZV x)))"

text \<open>The arrays \<open>P\<close> have tables, each its own.\<close>

definition apart :: "zgc \<Rightarrow> addr set \<Rightarrow> addr set \<Rightarrow> bool" where
  "apart st P C \<longleftrightarrow> (\<forall>a \<in> P. \<forall>ht. zvalue_of st a = IS_ARRAY ht \<longrightarrow>
     ht \<in> dom (tables st) \<and> ht \<notin> C \<and> (\<forall>b \<in> P. zvalue_of st b = IS_ARRAY ht \<longrightarrow> b = a))"

text \<open>The invariant of the loops. The zvals \<open>zs\<close> wait on \<open>free_list\<close>; those in \<open>P\<close> have still to be destroyed. \<open>C\<close> are
  the tables under destruction and \<open>R\<close> the references they still hold, \<open>N\<close> is the zval to go on with.\<close>

definition sweep_ok :: "(handle \<Rightarrow> addr) \<Rightarrow> addr list \<Rightarrow> addr set \<Rightarrow> addr set \<Rightarrow> addr list \<Rightarrow> gc_addr \<Rightarrow> zgc \<Rightarrow> bool" where
  "sweep_ok hs zs P C R N st \<longleftrightarrow> store_ok hs (unlisted (set zs) st) \<and> free_chain st (free_list st) zs \<and> distinct zs \<and> P \<subseteq> set zs \<and>
     (\<forall>a \<in> set zs. a \<in> dom (zvals st) \<and> col st (ZV a) = GC_BLACK) \<and>
     (\<forall>a \<in> P. \<forall>h k. zvalue_of st a = IS_OBJECT h k \<longrightarrow> h < os_top st) \<and>
     apart st P C \<and> C \<subseteq> dom (tables st) \<and> next_to_free st = N \<and> covered st (set zs) P R"

text \<open>Steps that work on the object store and the root buffer only.\<close>

definition store_step :: "(zgc \<Rightarrow> zgc option) \<Rightarrow> bool" where
  "store_step S \<longleftrightarrow>
     (\<forall>st s. S (st\<lparr>zvals := s\<rparr>) = map_option (\<lambda>st. st\<lparr>zvals := s\<rparr>) (S st)) \<and>
     (\<forall>st st'. S st = Some st' \<longrightarrow> zvals st' = zvals st \<and> tables st' = tables st \<and> os_top st' = os_top st \<and>
        free_list st' = free_list st \<and> next_to_free st' = next_to_free st)"

lemma os_get_zvals [simp]: "os_get (st\<lparr>zvals := s\<rparr>) = os_get st" "os_objects (st\<lparr>zvals := s\<rparr>) = os_objects st"
  by (simp_all add: os_get_def os_objects_def fun_eq_iff)

lemma store_steps:
  "store_step (os_upd h f)" "store_step (GC_REMOVE_ZOBJ_FROM_BUFFER h)" "store_step (ZEND_OBJECTS_STORE_ADD_TO_FREE_LIST h)"
proof -
  have upd: "os_upd h f (st\<lparr>zvals := s\<rparr>) = map_option (\<lambda>st. st\<lparr>zvals := s\<rparr>) (os_upd h f st)" for h f st s
    by (cases "object_buckets st"; cases "os_get st h") (simp_all add: os_upd_def)
  have rem: "gc_remove_from_buffer i (st\<lparr>zvals := s\<rparr>) = map_option (\<lambda>st. st\<lparr>zvals := s\<rparr>) (gc_remove_from_buffer i st)" for i st s
    by (simp add: gc_remove_from_buffer_def)
  show "store_step (os_upd h f)"
    unfolding store_step_def upd by (auto simp: os_upd_def split: bind_splits)
  show "store_step (GC_REMOVE_ZOBJ_FROM_BUFFER h)"
    unfolding store_step_def
  proof (intro conjI allI impI, goal_cases)
    case (1 st s)
    show ?case
    proof (cases "os_get st h")
      case (Some b)
      show ?thesis
      proof (cases "gc_addr (os_buffered b)")
        case (Buf i)
        then show ?thesis using Some
          by (cases "gc_remove_from_buffer i st") (simp_all add: GC_REMOVE_ZOBJ_FROM_BUFFER_def rem upd)
      qed (simp_all add: Some GC_REMOVE_ZOBJ_FROM_BUFFER_def)
    qed (simp add: GC_REMOVE_ZOBJ_FROM_BUFFER_def)
  qed (auto simp: GC_REMOVE_ZOBJ_FROM_BUFFER_def gc_remove_from_buffer_def os_upd_def split: bind_splits gc_addr.splits if_splits)
  show "store_step (ZEND_OBJECTS_STORE_ADD_TO_FREE_LIST h)"
    unfolding store_step_def
  proof (intro conjI allI impI, goal_cases)
    case (1 st s)
    show ?case
      by (cases "object_buckets st"; cases "os_get st h")
        (auto simp: ZEND_OBJECTS_STORE_ADD_TO_FREE_LIST_def os_upd_def Let_def os_get_def map_option_bind split: bind_splits)
  qed (auto simp: ZEND_OBJECTS_STORE_ADD_TO_FREE_LIST_def os_upd_def Let_def split: bind_splits)
qed

lemma unlisted_simps [simp]:
  "os_get (unlisted Z st) = os_get st" "os_objects (unlisted Z st) = os_objects st" "os_base (unlisted Z st) = os_base st"
  "free_list_head (unlisted Z st) = free_list_head st" "gc_roots (unlisted Z st) = gc_roots st" "gc_buf (unlisted Z st) = gc_buf st"
  "root_of (unlisted Z st) = root_of st"
  by (simp_all add: unlisted_def root_of_def fun_eq_iff)

lemma free_chain_zvals: "zvals st' = zvals st \<Longrightarrow> free_chain st' p zs = free_chain st p zs"
  by (induction zs arbitrary: p) (auto simp: node_simps)

lemma sweep_step:
  assumes S: "store_step S" and ok: "sweep_ok hs zs P C R N st" and u: "S (unlisted (set zs) st) = Some u" "store_ok hs u"
  shows "\<exists>st'. S st = Some st' \<and> u = unlisted (set zs) st' \<and> sweep_ok hs zs P C R N st'"
proof -
  obtain st' where st': "S st = Some st'" "u = st'\<lparr>zvals := unlist (set zs) (zvals st)\<rparr>"
    using S u(1) by (auto simp: store_step_def unlisted_def)
  then have e: "zvals st' = zvals st" "tables st' = tables st" "os_top st' = os_top st" "free_list st' = free_list st" "next_to_free st' = next_to_free st"
    using S by (auto simp: store_step_def)
  then have "u = unlisted (set zs) st'" using st'(2) by (simp add: unlisted_def)
  moreover have "elements st' = elements st" by (simp add: elements_def fun_eq_iff e split: zvalue.split)
  then have "held st' = held st" by (simp add: held_def fun_eq_iff)
  then have "covered st' = covered st" "apart st' = apart st"
    by (simp_all add: covered_def apart_def fun_eq_iff e node_simps)
  ultimately show ?thesis using st'(1) u(2) ok e by (simp add: sweep_ok_def free_chain_zvals [OF e(1)] node_simps)
qed

interpretation sweep: object_releasing "sweep_ok hs zs P C R N" for hs zs P C R N
proof (unfold_locales, goal_cases)
  case (1 st h b f)
  have "store_ok hs (unlisted (set zs) st)" using 1(1) by (simp add: sweep_ok_def)
  from plain.rewrite [OF this, unfolded unlisted_simps, of h b f, OF 1(2-5)] obtain u where u: "os_upd h f (unlisted (set zs) st) = Some u" "store_ok hs u"
    "os_objects u = (\<lambda>x. if x = h \<and> os_valid b then Some (f b) else os_objects st x)" "os_base u = os_base st"
    "free_list_head u = free_list_head st" "gc_roots u = gc_roots st" "gc_buf u = gc_buf st" by blast
  then show ?case using sweep_step [OF store_steps(1) 1(1) u(1,2)] by auto
next
  case (2 st h b)
  have "store_ok hs (unlisted (set zs) st)" using 2(1) by (simp add: sweep_ok_def)
  from plain.remove [OF this, unfolded unlisted_simps, OF 2(2)] obtain u r where u: "GC_REMOVE_ZOBJ_FROM_BUFFER h (unlisted (set zs) st) = Some u" "store_ok hs u"
    "gc_addr r = Null" "os_objects u = (os_objects st)(h \<mapsto> b\<lparr>os_buffered := r\<rparr>)" "os_base u = os_base st" by blast
  then show ?case using sweep_step [OF store_steps(2) 2(1) u(1,2)] by auto
next
  case (3 st h b)
  have "store_ok hs (unlisted (set zs) st)" using 3(1) by (simp add: sweep_ok_def)
  from plain.free [OF this, unfolded unlisted_simps, OF 3(2,3)] obtain u where u: "ZEND_OBJECTS_STORE_ADD_TO_FREE_LIST h (unlisted (set zs) st) = Some u" "store_ok hs u"
    "os_objects u = (os_objects st)(h := None)" "os_base u = os_base st" "free_list_head u = sint h"
    "os_get u h = Some (b\<lparr>os_next := free_list_head st, os_valid := False\<rparr>)" by blast
  then show ?case using sweep_step [OF store_steps(3) 3(1) u(1,2)] by auto
next
  case (4 st h b)
  have "store_ok hs (unlisted (set zs) st)" using 4(1) by (simp add: sweep_ok_def)
  from plain.unbuffered [OF this, of h b] 4(2,3) show ?case by simp
qed

subsection \<open>The loops\<close>

lemma store_ok_same:
  assumes "zvals st' = zvals st" "object_buckets st' = object_buckets st" "os_top st' = os_top st" "os_size st' = os_size st"
    "free_list_head st' = free_list_head st" "gc_roots st' = gc_roots st" "gc_unused st' = gc_unused st" "gc_buf st' = gc_buf st"
    "first_unused st' = first_unused st" "last_unused st' = last_unused st" "gc_active st' = gc_active st"
  shows "store_ok hs st' = store_ok hs st"
proof -
  have os: "os_get st' = os_get st" by (simp add: os_get_def fun_eq_iff assms)
  then have obj: "os_objects st' = os_objects st" by (simp add: os_objects_def fun_eq_iff)
  have "ref st' = ref st" "has st' = has st" by (rule ext, rename_tac n, case_tac n; simp add: node_simps os assms)+
  moreover have "root_of st' = root_of st" by (simp add: root_of_def fun_eq_iff assms)
  moreover have "os_chain st' p fl = os_chain st p fl" for p fl by (induction fl arbitrary: p) (simp_all add: os)
  then have "os_inv st' = os_inv st" unfolding os_inv_def os obj by (simp add: assms)
  ultimately show ?thesis by (simp add: store_ok_def root_buffer_ok_def buffer_ok_def assms)
qed

text \<open>Setting the value of a zval that waits.\<close>

lemma unlist_upd: "unlist Z (s(a \<mapsto> z)) = (unlist Z s)(a \<mapsto> (if a \<in> Z then z\<lparr>zv_buffered := zv_buffered z\<lparr>gc_addr := Null\<rparr>\<rparr> else z))"
  by (auto simp: unlist_def fun_eq_iff)

lemma store_ok_zvals:
  assumes "store_ok hs st" "\<And>a. map_option (gc_addr \<circ> zv_buffered) (s a) = map_option (gc_addr \<circ> zv_buffered) (zvals st a)"
  shows "store_ok hs (st\<lparr>zvals := s\<rparr>)"
proof -
  have h: "has (st\<lparr>zvals := s\<rparr>) n = has st n" for n
  proof (cases n)
    case (ZV a)
    then show ?thesis using assms(2) [of a] by (cases "s a"; cases "zvals st a") (simp_all add: node_simps domIff)
  qed (simp add: node_simps)
  have r: "gc_addr (ref (st\<lparr>zvals := s\<rparr>) n) = gc_addr (ref st n)" if "has st n" for n
  proof (cases n)
    case (ZV a)
    then show ?thesis using assms(2) [of a] that by (cases "s a"; cases "zvals st a") (simp_all add: node_simps domIff)
  qed (simp add: node_simps)
  have "root_of (st\<lparr>zvals := s\<rparr>) = root_of st" by (simp add: root_of_def fun_eq_iff)
  then have "buffer_ok hs (st\<lparr>zvals := s\<rparr>) = buffer_ok hs st" unfolding buffer_ok_def h using r by auto
  then have "root_buffer_ok hs (st\<lparr>zvals := s\<rparr>) = root_buffer_ok hs st" by (simp add: root_buffer_ok_def)
  moreover have "os_inv (st\<lparr>zvals := s\<rparr>) = os_inv st"
  proof -
    have "os_chain (st\<lparr>zvals := s\<rparr>) p fl = os_chain st p fl" for p fl
      by (induction fl arbitrary: p) simp_all
    then show ?thesis by (simp add: os_inv_def)
  qed
  ultimately show ?thesis using assms(1) by (simp add: store_ok_def)
qed

lemma sweep_finite: "sweep_ok hs zs P C R N st \<Longrightarrow> finite P"
  by (auto simp: sweep_ok_def intro: finite_subset)

lemma held_mono: "finite P \<Longrightarrow> Q \<subseteq> P \<Longrightarrow> held st Q R x \<le> held st P R x"
  by (simp add: held_def sum_mono2)

lemma covered_mono:
  assumes "covered st Z P R" "\<And>x. held st' P' R' x \<le> held st P R x" "dom (zvals st') = dom (zvals st)" "\<And>x. rc st' (ZV x) = rc st (ZV x)"
  shows "covered st' Z P' R'"
  unfolding covered_def
proof (intro allI impI)
  fix x assume x: "0 < held st' P' R' x + of_bool (x \<in> Z)"
  have le: "held st' P' R' x + of_bool (x \<in> Z) \<le> held st P R x + of_bool (x \<in> Z)" using assms(2) [of x] by simp
  then have "0 < held st P R x + of_bool (x \<in> Z)" using x by linarith
  then have "x \<in> dom (zvals st) \<and> held st P R x + of_bool (x \<in> Z) \<le> unat (rc st (ZV x))"
    by (rule assms(1) [unfolded covered_def, rule_format])
  then show "x \<in> dom (zvals st') \<and> held st' P' R' x + of_bool (x \<in> Z) \<le> unat (rc st' (ZV x))"
    using le assms(3,4) by simp
qed

text \<open>A zval that needs no more work.\<close>

lemma sweep_drop:
  assumes ok: "sweep_ok hs zs P C R N st"
  shows "sweep_ok hs zs (P - {a}) C R N st"
proof -
  have c: "covered st (set zs) P R" using ok by (simp add: sweep_ok_def)
  have "covered st (set zs) (P - {a}) R"
    by (rule covered_mono [OF c _ refl refl]) (rule held_mono [OF sweep_finite [OF ok] Diff_subset])
  moreover have "apart st P C" using ok by (simp add: sweep_ok_def)
  then have "apart st (P - {a}) C" unfolding apart_def by blast
  moreover have "P \<subseteq> set zs" "\<forall>a \<in> P. \<forall>h k. zvalue_of st a = IS_OBJECT h k \<longrightarrow> h < os_top st"
    using ok unfolding sweep_ok_def by blast+
  then have "P - {a} \<subseteq> set zs" "\<forall>c \<in> P - {a}. \<forall>h k. zvalue_of st c = IS_OBJECT h k \<longrightarrow> h < os_top st" by blast+
  ultimately show ?thesis using ok unfolding sweep_ok_def by simp
qed

text \<open>Setting the value of a zval that waits: its table is under destruction then.\<close>

definition own_table :: "zgc \<Rightarrow> addr \<Rightarrow> addr set" where
  "own_table st a = (case zvalue_of st a of IS_ARRAY ht \<Rightarrow> {ht} | _ \<Rightarrow> {})"

lemma sweep_set_null:
  assumes ok: "sweep_ok hs zs P C R N st" and a: "a \<in> P"
  shows "\<exists>st'. gc_set_null a st = Some st' \<and> sweep_ok hs zs (P - {a}) (own_table st a \<union> C) (elements st a @ R) N st' \<and>
    os_get st' = os_get st \<and> os_objects st' = os_objects st \<and> tables st' = tables st"
proof -
  note d = ok [unfolded sweep_ok_def]
  obtain z where z: "zvals st a = Some z" "gc_color (zv_buffered z) = GC_BLACK" "a \<in> set zs"
    using d a by (fastforce simp: node_simps)
  let ?st = "st\<lparr>zvals := (zvals st)(a \<mapsto> z\<lparr>z_value := IS_NULL\<rparr>)\<rparr>"
  have run: "gc_set_null a st = Some ?st" using z by (simp add: gc_set_null_def zv_upd_def poke_def)
  have "store_ok hs (unlisted (set zs) st)" using d by simp
  then have "store_ok hs ((unlisted (set zs) st)\<lparr>zvals := unlist (set zs) (zvals ?st)\<rparr>)"
    by (rule store_ok_zvals) (use z(1) in \<open>auto simp: unlisted_def unlist_def\<close>)
  then have s: "store_ok hs (unlisted (set zs) ?st)" by (simp add: unlisted_def)
  have r: "ref ?st (ZV c) = ref st (ZV c)" "rc ?st (ZV c) = rc st (ZV c)" "c \<in> dom (zvals ?st) \<longleftrightarrow> c \<in> dom (zvals st)" for c
    using z(1) by (auto simp: node_simps)
  have chain: "free_chain ?st (free_list st) zs" by (rule free_chain_frame [of st]) (use d r(1) in auto)
  have v: "zvalue_of ?st c = zvalue_of st c" if "c \<in> P - {a}" for c using that by simp
  then have el: "elements ?st c = elements st c" if "c \<in> P - {a}" for c using that by (simp add: elements_def split: zvalue.split)
  have hd: "held ?st (P - {a}) (elements st a @ R) x = held st P R x" for x
    using sum.remove [OF sweep_finite [OF ok] a, of "\<lambda>c. count_list (elements st c) x"] el by (simp add: held_def)
  have c: "covered st (set zs) P R" using d by simp
  have "covered ?st (set zs) (P - {a}) (elements st a @ R)"
    by (rule covered_mono [OF c]) (use hd r z(1) in auto)
  moreover have ap: "apart st P C" using d by simp
  have own: "ht \<in> own_table st a \<longleftrightarrow> zvalue_of st a = IS_ARRAY ht" for ht by (simp add: own_table_def split: zvalue.split) auto
  have "own_table st a \<subseteq> dom (tables st)" using ap a own unfolding apart_def by blast
  moreover have "apart ?st (P - {a}) (own_table st a \<union> C)"
    unfolding apart_def
  proof (intro ballI allI impI)
    fix c ht assume c: "c \<in> P - {a}" and "zvalue_of ?st c = IS_ARRAY ht"
    then have e: "zvalue_of st c = IS_ARRAY ht" using v [OF c] by simp
    have t: "ht \<in> dom (tables st)" "ht \<notin> C" and u: "\<forall>b \<in> P. zvalue_of st b = IS_ARRAY ht \<longrightarrow> b = c"
      using ap c e unfolding apart_def by blast+
    then have "ht \<notin> own_table st a" using a c own by blast
    moreover have "\<forall>b \<in> P - {a}. zvalue_of ?st b = IS_ARRAY ht \<longrightarrow> b = c" using u by simp
    ultimately show "ht \<in> dom (tables ?st) \<and> ht \<notin> own_table st a \<union> C \<and> (\<forall>b \<in> P - {a}. zvalue_of ?st b = IS_ARRAY ht \<longrightarrow> b = c)"
      using t by simp
  qed
  moreover have "\<forall>c \<in> P - {a}. \<forall>h k. zvalue_of ?st c = IS_OBJECT h k \<longrightarrow> h < os_top st"
  proof (intro ballI allI impI)
    fix c h k assume c: "c \<in> P - {a}" and "zvalue_of ?st c = IS_OBJECT h k"
    then have "zvalue_of st c = IS_OBJECT h k" using v [OF c] by simp
    then show "h < os_top st" using d c by blast
  qed
  moreover have "P - {a} \<subseteq> set zs" using d by blast
  moreover have "\<forall>c \<in> set zs. c \<in> dom (zvals st) \<and> col st (ZV c) = GC_BLACK" "C \<subseteq> dom (tables st)" "distinct zs" "next_to_free st = N"
    using d by blast+
  ultimately have "sweep_ok hs zs (P - {a}) (own_table st a \<union> C) (elements st a @ R) N ?st"
    unfolding sweep_ok_def r(1) r(3)
    using s chain by simp
  then show ?thesis using run by simp
qed

text \<open>The contract of the callbacks during the loops: none bails out, and each keeps what waits; \<open>pDestructor\<close> drops the
  reference of the pointer it is called on.\<close>

definition sweep_callbacks :: "(handle \<Rightarrow> addr) \<Rightarrow> addr list \<Rightarrow> dtor_call \<Rightarrow> free_call \<Rightarrow> zval_call \<Rightarrow> zval_call \<Rightarrow> bool" where
  "sweep_callbacks hs zs call_dtor call_free pDestructor zval_dtor \<longleftrightarrow> (\<forall>P C R N.
     (\<forall>h. dtor_contract (sweep_ok hs zs P C R N) False h call_dtor) \<and>
     (\<forall>h. free_contract (sweep_ok hs zs P C R N) False h call_free) \<and>
     (\<forall>e st. sweep_ok hs zs P C (e # R) N st \<longrightarrow> (\<exists>st'. pDestructor e st = Some (st', False) \<and> sweep_ok hs zs P C R N st')) \<and>
     (\<forall>a st. a \<in> P \<longrightarrow> sweep_ok hs zs P C R N st \<longrightarrow> (\<exists>st'. zval_dtor a st = Some (st', False) \<and> sweep_ok hs zs P C R N st')))"

lemma sweep_callbacksD:
  assumes "sweep_callbacks hs zs call_dtor call_free pDestructor zval_dtor"
  shows "dtor_contract (sweep_ok hs zs P C R N) False h call_dtor" "free_contract (sweep_ok hs zs P C R N) False h call_free"
    "sweep_ok hs zs P C (e # R) N st \<Longrightarrow> \<exists>st'. pDestructor e st = Some (st', False) \<and> sweep_ok hs zs P C R N st'"
    "a \<in> P \<Longrightarrow> sweep_ok hs zs P C R N st \<Longrightarrow> \<exists>st'. zval_dtor a st = Some (st', False) \<and> sweep_ok hs zs P C R N st'"
  using assms unfolding sweep_callbacks_def by blast+

definition start :: "addr list \<Rightarrow> gc_addr" where
  "start xs = Next (case xs of [] \<Rightarrow> None | a # _ \<Rightarrow> Some a)"

lemma free_chain_start: "free_chain st p xs \<Longrightarrow> p = start xs"
  by (cases xs) (simp_all add: start_def)

lemma free_chain_next: "free_chain st p (pre @ a # rest) \<Longrightarrow> gc_addr (ref st (ZV a)) = start rest"
  by (induction pre arbitrary: p) (auto dest: free_chain_start)

lemma sweep_next:
  assumes ok: "sweep_ok hs zs P C R N st" and zs: "zs = pre @ a # rest"
  shows "gc_next a st = Some (start rest)"
proof -
  have "free_chain st (free_list st) zs" "a \<in> dom (zvals st)" "col st (ZV a) = GC_BLACK"
    using ok zs by (simp_all add: sweep_ok_def)
  then obtain z where "zvals st a = Some z" "gc_color (zv_buffered z) = GC_BLACK" "gc_addr (zv_buffered z) = start rest"
    using free_chain_next [of st _ pre a rest] zs by (auto simp: node_simps)
  then show ?thesis by (simp add: gc_next_def start_def)
qed

lemma sweep_bucket:
  assumes ok: "sweep_ok hs zs P C R N st" and a: "a \<in> P" "zvalue_of st a = IS_OBJECT h k"
  obtains bs b where "object_buckets st = Some bs" "os_get st h = Some b"
proof -
  have "h < os_top st" "os_inv (unlisted (set zs) st)" using ok a by (auto simp: sweep_ok_def store_ok_def)
  then have "os_get st h \<noteq> None" by (auto simp: os_inv_def unlisted_def)
  then show thesis using has_OB_D that by metis
qed

lemma gc_call_destructor_ok:
  assumes cb: "sweep_callbacks hs zs call_dtor call_free pDestructor zval_dtor" and ok: "sweep_ok hs zs P C R N st" and a: "a \<in> P"
  shows "\<exists>st'. gc_call_destructor call_dtor a st = Some (st', False) \<and> sweep_ok hs zs P C R N st'"
proof -
  have "a \<in> dom (zvals st)" using ok a by (auto simp: sweep_ok_def)
  then obtain z where z: "zvals st a = Some z" by auto
  show ?thesis
  proof (cases "z_value z")
    case (IS_OBJECT h k)
    then obtain bs b where b: "object_buckets st = Some bs" "os_get st h = Some b"
      using sweep_bucket [OF ok a, of h k] z by auto
    show ?thesis
    proof (cases "os_valid b \<and> os_refcount b \<le> 0 \<and> \<not> destructor_called b \<and> os_dtor b \<noteq> None")
      case False
      then have "gc_call_destructor call_dtor a st = Some (st, False)"
        using z IS_OBJECT b by (auto simp: gc_call_destructor_def split: option.split)
      then show ?thesis using ok by auto
    next
      case True
      then obtain d where d: "os_dtor b = Some d" "os_valid b" "os_refcount b = 0" "\<not> destructor_called b" by auto
      let ?b1 = "b\<lparr>destructor_called := True\<rparr>"
      let ?b2 = "?b1\<lparr>os_refcount := 1\<rparr>"
      have o: "os_objects st h = Some b" using b d by (simp add: os_objects_get)
      obtain st1 where st1: "os_upd h (\<lambda>b. b\<lparr>destructor_called := True\<rparr>) st = Some st1" "sweep_ok hs zs P C R N st1" "os_objects st1 h = Some ?b1"
        using sweep.upd [OF ok o, of "\<lambda>b. b\<lparr>destructor_called := True\<rparr>"] d by auto
      obtain st2 where st2: "os_addref h st1 = Some st2" "sweep_ok hs zs P C R N st2" "os_objects st2 h = Some ?b2"
        using sweep.upd [OF st1(2,3), of "\<lambda>b. b\<lparr>os_refcount := os_refcount b + 1\<rparr>"] d by (auto simp: os_addref_def)
      have "os_refcount ?b2 = 1" "destructor_called ?b2" "os_dtor ?b2 = Some d" "os_object ?b2 = os_object b" using d by simp_all
      then obtain st3 b3 where st3: "call_dtor d (os_object b) h st2 = Some (st3, False)" "sweep_ok hs zs P C R N st3" "os_objects st3 h = Some b3"
        using sweep_callbacksD(1) [OF cb, unfolded dtor_contract_def, rule_format, OF st2(2,3)] by metis
      have "os_valid b3" using st3(3) by (simp add: os_objects_get)
      then obtain st4 where "os_delref h st3 = Some st4" "sweep_ok hs zs P C R N st4"
        using sweep.upd [OF st3(2,3), of "\<lambda>b. b\<lparr>os_refcount := os_refcount b - 1\<rparr>"] by (auto simp: os_delref_def)
      then have "gc_call_destructor call_dtor a st = Some (st4, False)" "sweep_ok hs zs P C R N st4"
        using z IS_OBJECT b d st1(1) st2(1) st3(1) by (simp_all add: gc_call_destructor_def)
      then show ?thesis by blast
    qed
  qed (use z ok in \<open>auto simp: gc_call_destructor_def\<close>)
qed

lemma gc_call_destructors_loop_ok:
  assumes cb: "sweep_callbacks hs zs call_dtor call_free pDestructor zval_dtor"
  shows "sweep_ok hs zs (set zs) C R N st \<Longrightarrow> zs = pre @ rest \<Longrightarrow>
    \<exists>st'. gc_call_destructors_loop call_dtor (start rest) num st = Some (num + of_nat (length rest), st', False) \<and> sweep_ok hs zs (set zs) C R N st'"
proof (induction rest arbitrary: st pre num)
  case Nil
  then show ?case by (auto simp: start_def gc_call_destructors_loop.simps)
next
  case (Cons a rest)
  obtain st1 where st1: "gc_call_destructor call_dtor a st = Some (st1, False)" "sweep_ok hs zs (set zs) C R N st1"
    using gc_call_destructor_ok [OF cb Cons.prems(1), of a] Cons.prems(2) by auto
  have n: "gc_next a st1 = Some (start rest)" by (rule sweep_next [OF st1(2) Cons.prems(2)])
  obtain st2 where "gc_call_destructors_loop call_dtor (start rest) (num + 1) st1 = Some (num + 1 + of_nat (length rest), st2, False)"
    "sweep_ok hs zs (set zs) C R N st2"
    using Cons.IH [OF st1(2), of "pre @ [a]" "num + 1"] Cons.prems(2) by auto
  moreover have "start (a # rest) = Next (Some a)" by (simp add: start_def)
  ultimately show ?case using st1(1) n by (simp add: gc_call_destructors_loop.simps [of _ "Next (Some a)"] algebra_simps)
qed

lemma destroy_elements_ok:
  assumes cb: "sweep_callbacks hs zs call_dtor call_free pDestructor zval_dtor"
  shows "sweep_ok hs zs P C (es @ R) N st \<Longrightarrow> \<exists>st'. destroy_elements pDestructor es st = Some (st', False) \<and> sweep_ok hs zs P C R N st'"
proof (induction es arbitrary: st)
  case (Cons e es)
  obtain st1 where "pDestructor e st = Some (st1, False)" "sweep_ok hs zs P C (es @ R) N st1"
    using sweep_callbacksD(3) [OF cb] Cons.prems by fastforce
  then show ?case using Cons.IH [of st1] by simp
qed simp

lemma sweep_table_gone:
  assumes ok: "sweep_ok hs zs P (insert ht C) R N st"
  shows "sweep_ok hs zs P (C - {ht}) R N (st\<lparr>tables := (tables st)(ht := None)\<rparr>)"
proof -
  let ?st = "st\<lparr>tables := (tables st)(ht := None)\<rparr>"
  have ap: "apart st P (insert ht C)" using ok by (simp add: sweep_ok_def)
  have os: "os_get ?st = os_get st" by (simp add: os_get_def fun_eq_iff)
  then have obj: "os_objects ?st = os_objects st" by (simp add: os_objects_def fun_eq_iff)
  have eq: "ref ?st n = ref st n" "rc ?st n = rc st n" for n by (cases n; simp add: node_simps os)+
  have el: "elements ?st a = elements st a" if "a \<in> P" for a
    using ap that by (auto simp: elements_def apart_def split: zvalue.split)
  have "held ?st P R x = held st P R x" for x using el by (simp add: held_def)
  then have cov: "covered ?st (set zs) P R" using ok by (simp add: sweep_ok_def covered_def eq)
  have ap': "apart ?st P (C - {ht})"
    unfolding apart_def
  proof (intro ballI allI impI)
    fix a t assume a: "a \<in> P" and t: "zvalue_of ?st a = IS_ARRAY t"
    from t have "zvalue_of st a = IS_ARRAY t" by simp
    then have "t \<in> dom (tables st)" "t \<notin> insert ht C" and u: "\<forall>b \<in> P. zvalue_of st b = IS_ARRAY t \<longrightarrow> b = a"
      using ap a unfolding apart_def by blast+
    then have "t \<in> dom (tables ?st)" "t \<notin> C - {ht}" by auto
    moreover have "\<forall>b \<in> P. zvalue_of ?st b = IS_ARRAY t \<longrightarrow> b = a" using u by simp
    ultimately show "t \<in> dom (tables ?st) \<and> t \<notin> C - {ht} \<and> (\<forall>b \<in> P. zvalue_of ?st b = IS_ARRAY t \<longrightarrow> b = a)" by blast
  qed
  have chain: "free_chain ?st (free_list st) zs" by (rule free_chain_frame [of st]) (use ok eq in \<open>auto simp: sweep_ok_def\<close>)
  have "store_ok hs (unlisted (set zs) ?st) = store_ok hs (unlisted (set zs) st)"
    by (rule store_ok_same) (simp_all add: unlisted_def)
  then have "store_ok hs (unlisted (set zs) ?st)" using ok by (simp add: sweep_ok_def)
  moreover have "C - {ht} \<subseteq> dom (tables ?st)" "P \<subseteq> set zs" "distinct zs" "next_to_free ?st = N" "free_list ?st = free_list st"
    "\<forall>a \<in> set zs. a \<in> dom (zvals ?st) \<and> col ?st (ZV a) = GC_BLACK" "\<forall>a \<in> P. \<forall>h k. zvalue_of ?st a = IS_OBJECT h k \<longrightarrow> h < os_top ?st"
    using ok unfolding sweep_ok_def eq by auto
  ultimately show ?thesis using ap' cov chain unfolding sweep_ok_def by simp
qed

lemma gc_hash_destroy_ok:
  assumes cb: "sweep_callbacks hs zs call_dtor call_free pDestructor zval_dtor"
    and ok: "sweep_ok hs zs P {ht} (the (tables st ht)) N st"
  shows "\<exists>st'. gc_hash_destroy pDestructor ht st = Some (st', False) \<and> sweep_ok hs zs P {} [] N st'"
proof -
  obtain es where es: "tables st ht = Some es" using ok by (auto simp: sweep_ok_def)
  then obtain st1 where st1: "destroy_elements pDestructor es st = Some (st1, False)" "sweep_ok hs zs P {ht} [] N st1"
    using destroy_elements_ok [OF cb, of P "{ht}" es "[]" N st] ok by auto
  then obtain es' where "tables st1 ht = Some es'" by (auto simp: sweep_ok_def)
  then have "gc_hash_destroy pDestructor ht st = Some (st1\<lparr>tables := (tables st1)(ht := None)\<rparr>, False)"
    using es st1(1) by (simp add: gc_hash_destroy_def)
  then show ?thesis using sweep_table_gone [of hs zs P ht "{}" "[]" N st1] st1(2) by simp
qed

lemma gc_destroy_zval_ok:
  assumes cb: "sweep_callbacks hs zs call_dtor call_free pDestructor zval_dtor"
    and ok: "sweep_ok hs zs P {} [] N st" and a: "a \<in> P"
  shows "\<exists>st'. gc_destroy_zval call_dtor call_free pDestructor zval_dtor a st = Some (st', False) \<and> sweep_ok hs zs (P - {a}) {} [] N st'"
proof -
  have "a \<in> dom (zvals st)" using ok a by (auto simp: sweep_ok_def)
  then obtain z where z: "zvals st a = Some z" by auto
  have scalar: ?thesis if "gc_destroy_zval call_dtor call_free pDestructor zval_dtor a st =
      do { (st, bailed) \<leftarrow> zval_dtor a st; if bailed then Some (st, True) else do { st \<leftarrow> gc_set_null a st; Some (st, False) } }"
  proof -
    obtain st1 where st1: "zval_dtor a st = Some (st1, False)" "sweep_ok hs zs P {} [] N st1"
      using sweep_callbacksD(4) [OF cb a ok] by blast
    obtain st2 where st2: "gc_set_null a st1 = Some st2" "sweep_ok hs zs (P - {a}) (own_table st1 a) (elements st1 a) N st2"
      using sweep_set_null [OF st1(2) a] by auto
    have "sweep_ok hs zs (P - {a}) {} [] N st2"
    proof -
      have c: "covered st2 (set zs) (P - {a}) (elements st1 a)" using st2(2) by (simp add: sweep_ok_def)
      have "covered st2 (set zs) (P - {a}) []" by (rule covered_mono [OF c]) (simp_all add: held_def)
      moreover have "apart st2 (P - {a}) (own_table st1 a)" using st2(2) by (simp add: sweep_ok_def)
      then have "apart st2 (P - {a}) {}" unfolding apart_def by blast
      ultimately show ?thesis using st2(2) by (simp add: sweep_ok_def)
    qed
    then show ?thesis using that st1(1) st2(1) by simp
  qed
  show ?thesis
  proof (cases "z_value z")
    case IS_NULL
    then show ?thesis by (intro scalar) (simp add: gc_destroy_zval_def z)
  next
    case IS_SCALAR
    then show ?thesis by (intro scalar) (simp add: gc_destroy_zval_def z)
  next
    case (IS_ARRAY ht)
    obtain st1 where st1: "gc_set_null a st = Some st1" "sweep_ok hs zs (P - {a}) (own_table st a \<union> {}) (elements st a @ []) N st1"
      "tables st1 = tables st" using sweep_set_null [OF ok a] by blast
    have "own_table st a = {ht}" "elements st a = the (tables st1 ht)"
      using z IS_ARRAY st1(3) by (simp_all add: own_table_def elements_def)
    then have "sweep_ok hs zs (P - {a}) {ht} (the (tables st1 ht)) N st1" using st1(2) by simp
    from gc_hash_destroy_ok [OF cb this] show ?thesis using z IS_ARRAY st1(1) by (simp add: gc_destroy_zval_def)
  next
    case (IS_OBJECT h k)
    then obtain bs b where b: "object_buckets st = Some bs" "os_get st h = Some b"
      using sweep_bucket [OF ok a, of h k] z by auto
    show ?thesis
    proof (cases "os_valid b \<and> os_refcount b \<le> 0")
      case False
      then have "gc_destroy_zval call_dtor call_free pDestructor zval_dtor a st = Some (st, False)"
        using z IS_OBJECT b by (auto simp: gc_destroy_zval_def)
      then show ?thesis using sweep_drop [OF ok] by blast
    next
      case True
      then have o: "os_objects st h = Some b" using b by (simp add: os_objects_get)
      let ?b1 = "b\<lparr>os_refcount := 1\<rparr>"
      obtain st1 where st1: "os_upd h (\<lambda>b. b\<lparr>os_refcount := 1\<rparr>) st = Some st1" "sweep_ok hs zs P {} [] N st1" "os_objects st1 h = Some ?b1"
        "zvals st1 = zvals st"
      proof -
        have zv: "zvals u = zvals st" if "os_upd h (\<lambda>b. b\<lparr>os_refcount := 1\<rparr>) st = Some u" for u
          using store_steps(1) that unfolding store_step_def by blast
        obtain u where "os_upd h (\<lambda>b. b\<lparr>os_refcount := 1\<rparr>) st = Some u" "sweep_ok hs zs P {} [] N u" "os_objects u h = Some ?b1"
          using sweep.upd [OF ok o, of "\<lambda>b. b\<lparr>os_refcount := 1\<rparr>"] True by auto
        then show thesis using that zv by blast
      qed
      have "own_table st1 a = {}" "elements st1 a = []" using z IS_OBJECT st1(4) by (simp_all add: own_table_def elements_def)
      then obtain st2 where st2: "gc_set_null a st1 = Some st2" "sweep_ok hs zs (P - {a}) {} [] N st2" "os_objects st2 h = Some ?b1"
        using sweep_set_null [OF st1(2) a] st1(3) by auto
      obtain st3 where "zend_objects_store_del_ref_by_handle_ex call_dtor call_free h (Some k) st2 = Some (st3, False)"
        "sweep_ok hs zs (P - {a}) {} [] N st3"
        using sweep.del_ref_releases [OF st2(2,3) sweep_callbacksD(1,2) [OF cb], of "Some k"] by auto
      then have "gc_destroy_zval call_dtor call_free pDestructor zval_dtor a st = Some (st3, False)" "sweep_ok hs zs (P - {a}) {} [] N st3"
        using z IS_OBJECT b True st1(1) st2(1) by (simp_all add: gc_destroy_zval_def)
      then show ?thesis by blast
    qed
  qed
qed

lemma sweep_next_to_free: "sweep_ok hs zs P C R N st \<Longrightarrow> sweep_ok hs zs P C R q (st\<lparr>next_to_free := q\<rparr>)"
proof -
  assume ok: "sweep_ok hs zs P C R N st"
  let ?st = "st\<lparr>next_to_free := q\<rparr>"
  have os: "os_get ?st = os_get st" by (simp add: os_get_def fun_eq_iff)
  have rf: "ref ?st n = ref st n" "rc ?st n = rc st n" for n by (cases n; simp add: node_simps os)+
  have chain: "free_chain ?st (free_list st) zs" by (rule free_chain_frame [of st]) (use ok rf in \<open>auto simp: sweep_ok_def\<close>)
  have "elements ?st = elements st" by (simp add: elements_def fun_eq_iff split: zvalue.split)
  then have "held ?st = held st" by (simp add: held_def fun_eq_iff)
  then have "covered ?st = covered st" "apart ?st = apart st" by (simp_all add: covered_def apart_def fun_eq_iff rf)
  moreover have "store_ok hs (unlisted (set zs) ?st) = store_ok hs (unlisted (set zs) st)"
    by (rule store_ok_same) (simp_all add: unlisted_def)
  ultimately show ?thesis using ok chain unfolding sweep_ok_def rf by simp
qed

lemma gc_destroy_loop_ok:
  assumes cb: "sweep_callbacks hs zs call_dtor call_free pDestructor zval_dtor" and dist: "distinct zs"
  shows "sweep_ok hs zs (set rest) {} [] N st \<Longrightarrow> zs = pre @ rest \<Longrightarrow>
    \<exists>st' N'. gc_destroy_loop call_dtor call_free pDestructor zval_dtor (start rest) st = Some (st', False) \<and> sweep_ok hs zs {} {} [] N' st'"
proof (induction rest arbitrary: st pre N)
  case Nil
  then show ?case by (auto simp: start_def gc_destroy_loop.simps)
next
  case (Cons a rest)
  have n: "gc_next a st = Some (start rest)" by (rule sweep_next [OF Cons.prems])
  have "sweep_ok hs zs (set (a # rest)) {} [] (start rest) (st\<lparr>next_to_free := start rest\<rparr>)" by (rule sweep_next_to_free [OF Cons.prems(1)])
  then obtain st1 where st1: "gc_destroy_zval call_dtor call_free pDestructor zval_dtor a (st\<lparr>next_to_free := start rest\<rparr>) = Some (st1, False)"
    "sweep_ok hs zs (set (a # rest) - {a}) {} [] (start rest) st1"
    using gc_destroy_zval_ok [OF cb, of "set (a # rest)" _ _ a] by auto
  have "set (a # rest) - {a} = set rest" using dist Cons.prems(2) by auto
  then have ok1: "sweep_ok hs zs (set rest) {} [] (start rest) st1" using st1(2) by simp
  then have "next_to_free st1 = start rest" by (simp add: sweep_ok_def)
  moreover obtain st2 N' where "gc_destroy_loop call_dtor call_free pDestructor zval_dtor (start rest) st1 = Some (st2, False)"
    "sweep_ok hs zs {} {} [] N' st2" using Cons.IH [OF ok1, of "pre @ [a]"] Cons.prems(2) by auto
  moreover have "start (a # rest) = Next (Some a)" by (simp add: start_def)
  ultimately show ?case using n st1(1) by (simp add: gc_destroy_loop.simps [of _ _ _ _ "Next (Some a)"]) metis
qed

text \<open>Giving back the memory.\<close>

definition listed_ok :: "(handle \<Rightarrow> addr) \<Rightarrow> addr list \<Rightarrow> zgc \<Rightarrow> bool" where
  "listed_ok hs zs st \<longleftrightarrow> store_ok hs (unlisted (set zs) st) \<and> free_chain st (start zs) zs \<and> distinct zs \<and>
     (\<forall>a \<in> set zs. a \<in> dom (zvals st) \<and> col st (ZV a) = GC_BLACK)"

lemma store_ok_delete:
  assumes ok: "store_ok hs st" and a: "a \<in> dom (zvals st)" "gc_addr (ref st (ZV a)) = Null"
  shows "store_ok hs (st\<lparr>zvals := (zvals st)(a := None)\<rparr>)"
proof -
  let ?st = "st\<lparr>zvals := (zvals st)(a := None)\<rparr>"
  have rb: "root_buffer_ok hs st" using ok by (simp add: store_ok_def)
  then have bo: "buffer_ok hs st" by (simp add: root_buffer_ok_def)
  note bd = bo [unfolded buffer_ok_def]
  have r: "has ?st n \<longleftrightarrow> has st n \<and> n \<noteq> ZV a" "n \<noteq> ZV a \<Longrightarrow> ref ?st n = ref st n" for n by (cases n; auto simp: node_simps)+
  have root: "root_of ?st = root_of st" by (simp add: root_of_def fun_eq_iff)
  have ne: "root_of st i \<noteq> ZV a" if "i \<in> set (gc_roots st)" for i
  proof
    assume e: "root_of st i = ZV a"
    have "gc_addr (ref st (root_of st i)) = Buf i" using bd that by blast
    then show False using a(2) unfolding e by simp
  qed
  have "buffer_ok hs ?st"
    unfolding buffer_ok_def root
  proof (intro conjI ballI allI impI)
    fix i assume "i \<in> set (gc_roots ?st)"
    then have i: "i \<in> set (gc_roots st)" by simp
    show "has ?st (root_of st i)" "gc_addr (ref ?st (root_of st i)) = Buf i"
      "rb_handle (gc_buf ?st i) \<noteq> 0 \<Longrightarrow> rb_u (gc_buf ?st i) = hs (rb_handle (gc_buf ?st i))"
      using bd i ne [OF i] r by simp_all
  next
    fix n assume "has ?st n"
    then show "gc_addr (ref ?st n) = Null \<or> (\<exists>i \<in> set (gc_roots ?st). gc_addr (ref ?st n) = Buf i \<and> root_of st i = n)"
      using bd r by simp
  qed (use bd in simp)
  then have "root_buffer_ok hs ?st" using rb by (simp add: root_buffer_ok_def)
  moreover have "os_chain ?st p fl = os_chain st p fl" for p fl by (induction fl arbitrary: p) simp_all
  then have "os_inv ?st = os_inv st" by (simp add: os_inv_def)
  ultimately show ?thesis using ok by (simp add: store_ok_def)
qed

lemma gc_free_loop_ok:
  "listed_ok hs zs st \<Longrightarrow> gc_free_loop (start zs) st = Some (st\<lparr>zvals := (zvals st) |` (- set zs)\<rparr>) \<and> store_ok hs (st\<lparr>zvals := (zvals st) |` (- set zs)\<rparr>)"
proof (induction zs arbitrary: st)
  case Nil
  then show ?case by (simp add: listed_ok_def start_def gc_free_loop.simps unlisted_def unlist_def)
next
  case (Cons a zs)
  note d = Cons.prems [unfolded listed_ok_def]
  let ?st = "st\<lparr>zvals := (zvals st)(a := None)\<rparr>"
  obtain z where z: "zvals st a = Some z" "gc_color (zv_buffered z) = GC_BLACK" using d by (auto simp: node_simps)
  have nx: "gc_addr (zv_buffered z) = start zs" using free_chain_next [of st _ "[]" a zs] d z by (simp add: node_simps)
  then have n: "gc_next a st = Some (start zs)" using z by (simp add: gc_next_def start_def)
  have a: "a \<notin> set zs" using d by simp
  have r: "ref ?st (ZV c) = ref st (ZV c)" if "c \<in> set zs" for c using that a by (auto simp: node_simps)
  have "listed_ok hs zs ?st"
  proof -
    let ?u = "unlisted (set (a # zs)) st"
    have "store_ok hs (?u\<lparr>zvals := (zvals ?u)(a := None)\<rparr>)"
      by (rule store_ok_delete) (use d z in \<open>auto simp: unlisted_def unlist_def node_simps\<close>)
    moreover have "(unlist (set (a # zs)) (zvals st))(a := None) = unlist (set zs) (zvals ?st)"
      using a by (auto simp: unlist_def fun_eq_iff)
    then have "?u\<lparr>zvals := (zvals ?u)(a := None)\<rparr> = unlisted (set zs) ?st" by (simp add: unlisted_def)
    moreover have "free_chain st (start zs) zs" using d z nx by (simp add: node_simps)
    then have "free_chain ?st (start zs) zs" by (rule free_chain_frame) (simp add: r)
    moreover have "\<forall>c \<in> set zs. c \<in> dom (zvals ?st) \<and> col ?st (ZV c) = GC_BLACK" using d r a by auto
    ultimately show ?thesis using d by (simp add: listed_ok_def)
  qed
  have e: "(zvals st)(a := None) |` (- set zs) = (zvals st) |` (- set (a # zs))" by (auto simp: restrict_map_def fun_eq_iff)
  have "?st\<lparr>zvals := (zvals ?st) |` (- set zs)\<rparr> = st\<lparr>zvals := (zvals st) |` (- set (a # zs))\<rparr>"
    unfolding e [symmetric] by simp
  from Cons.IH [OF \<open>listed_ok hs zs ?st\<close>, unfolded this]
  have "gc_free_loop (start zs) ?st = Some (st\<lparr>zvals := (zvals st) |` (- set (a # zs))\<rparr>)"
    "store_ok hs (st\<lparr>zvals := (zvals st) |` (- set (a # zs))\<rparr>)" by blast+
  moreover have "start (a # zs) = Next (Some a)" by (simp add: start_def)
  ultimately show ?case using n by (simp add: gc_free_loop.simps [of "Next (Some a)"])
qed

subsection \<open>A complete collection\<close>

text \<open>What the loops need of the garbage beyond what the first half needs: each array has its own table, no array
  holds \<open>$GLOBALS\<close>, and no count is at its maximum.\<close>

definition garbage_arrays_ok :: "(handle \<Rightarrow> addr) \<Rightarrow> zgc \<Rightarrow> bool" where
  "garbage_arrays_ok hs st \<longleftrightarrow>
     (\<forall>a b ht. ZV a \<in> garbage hs st \<longrightarrow> ZV b \<in> garbage hs st \<longrightarrow> zvalue_of st a = IS_ARRAY ht \<longrightarrow> zvalue_of st b = IS_ARRAY ht \<longrightarrow> a = b) \<and>
     (\<forall>a x. ZV a \<in> garbage hs st \<longrightarrow> x \<in> set (elements st a) \<longrightarrow> \<not> symtab st x) \<and>
     (\<forall>a. ZV a \<in> garbage hs st \<longrightarrow> rc st (ZV a) \<noteq> - 1)"

lemma garbage_nodes: "heap_ok hs st \<Longrightarrow> garbage hs st \<subseteq> nodes st"
  using candidates_region [of hs st] by (auto simp: garbage_def region_def)

lemma garbage_zval:
  assumes "heap_ok hs st" "ZV a \<in> garbage hs st"
  shows "a \<in> dom (zvals st)" "\<not> symtab st a"
  using garbage_nodes [OF assms(1)] assms(2) by (auto simp: nodes_def)

text \<open>The references that the arrays among the garbage hold are counted.\<close>

lemma garbage_array:
  assumes heap: "heap_ok hs st" and a: "ZV a \<in> garbage hs st" "zvalue_of st a = IS_ARRAY ht"
  shows "ht \<noteq> symbol_table st" "ht \<in> dom (tables st)" "set (elements st a) \<subseteq> dom (zvals st)"
proof -
  note z = garbage_zval [OF heap a(1)]
  show n: "ht \<noteq> symbol_table st" using z(2) a(2) by (auto simp: symtab_def is_symbol_table_def)
  then obtain ps where "tables st ht = Some ps" "set ps \<subseteq> dom (zvals st)"
    using heap z(1) a(2) unfolding heap_ok_def by blast
  then show "ht \<in> dom (tables st)" "set (elements st a) \<subseteq> dom (zvals st)" using a(2) by (auto simp: elements_def)
qed

lemma count_elements:
  assumes heap: "heap_ok hs st" and ga: "garbage_arrays_ok hs st" and a: "ZV a \<in> garbage hs st"
  shows "count_list (elements st a) x \<le> count_list (kids hs st (ZV a)) (ZV x)"
proof (cases "zvalue_of st a")
  case (IS_ARRAY ht)
  have "kids hs st (ZV a) = edges st (elements st a)"
    using garbage_array(1) [OF heap a IS_ARRAY] IS_ARRAY by (simp add: kids.simps elements_def)
  moreover have "filter (\<lambda>a. \<not> is_symbol_table st (the (zvals st a))) (elements st a) = elements st a"
    using ga a by (auto simp: garbage_arrays_ok_def symtab_def intro: filter_True)
  moreover have "count_list (map ZV xs) (ZV x) = count_list xs x" for xs by (induction xs) auto
  ultimately show ?thesis by (simp add: edges_def)
qed (simp_all add: elements_def)

lemma count_garbage:
  assumes heap: "heap_ok hs st" and ga: "garbage_arrays_ok hs st" and xs: "set xs = {a. ZV a \<in> garbage hs st}"
  shows "(\<Sum>a \<in> set xs. count_list (elements st a) x) \<le> refs hs st (ZV x)"
proof -
  have fin: "finite (nodes st)"
    using heap finite_region [OF heap, of "nodes st"] kids_nodes [OF heap] by (auto simp: region_def)
  have "(\<Sum>a \<in> set xs. count_list (elements st a) x) \<le> (\<Sum>a \<in> set xs. count_list (kids hs st (ZV a)) (ZV x))"
    by (rule sum_mono) (use count_elements [OF heap ga] xs in auto)
  also have "\<dots> = (\<Sum>m \<in> ZV ` set xs. count_list (kids hs st m) (ZV x))"
    by (simp add: sum.reindex inj_on_def)
  also have "\<dots> \<le> refs hs st (ZV x)"
    unfolding refs_def by (rule sum_mono2 [OF fin]) (use garbage_nodes [OF heap] xs in auto)
  finally show ?thesis .
qed

text \<open>The first half establishes the invariant of the loops.\<close>

lemma found_store_ok:
  assumes ready: "gc_ready hs st" and rb: "root_buffer_ok hs st" and inv: "os_inv st"
    and run: "gc_find_cycles st = Some (Some st')" "\<not> gc_active st'" and found: "gc_found hs st st' xs"
  shows "store_ok hs (unlisted (set xs) st')"
proof -
  have core: "gc_core (st'\<lparr>free_list := free_list st\<rparr>) = gc_core st" by (rule gc_find_cycles_core [OF run(1)])
  then have c: "first_unused st' = first_unused st" "last_unused st' = last_unused st" by (simp_all add: gc_core_def)
  have f: "set xs = {a. ZV a \<in> garbage hs st}" "same_graph st st'" "gc_roots st' = []" "mset (gc_unused st') = mset (gc_roots st) + mset (gc_unused st)"
    "\<And>n. has st n \<Longrightarrow> n \<notin> garbage hs st \<Longrightarrow> gc_addr (ref st' n) = Null" "\<And>n. n \<in> garbage hs st \<Longrightarrow> took n st'"
    using found by (simp_all add: gc_found_def)
  have has: "has st' n = has st n" for n using same_graph_has [OF f(2)] by simp
  have nullOB: "gc_addr (ref st' (OB h)) = Null" if "has st (OB h)" for h
    using f(5) [OF that] f(6) [of "OB h"] by (cases "OB h \<in> garbage hs st") auto
  have nullb: "gc_addr (os_buffered b) = Null" if "os_get st' h = Some b" for h b
    using nullOB [of h] has [of "OB h"] that by (simp add: node_simps)
  have "os_inv st'"
    by (rule os_inv_core [OF inv core nullb])
  moreover have "os_chain (unlisted (set xs) st') p fl = os_chain st' p fl" for p fl by (induction fl arbitrary: p) simp_all
  ultimately have inv': "os_inv (unlisted (set xs) st')" by (simp add: os_inv_def) (simp add: unlisted_def)
  have h': "has (unlisted (set xs) st') n = has st n" for n
    using has [of n] by (cases n) (auto simp: node_simps unlisted_def unlist_def split: if_splits)
  have null: "gc_addr (ref (unlisted (set xs) st') n) = Null" if n: "has st n" for n
  proof (cases n)
    case (OB h)
    then show ?thesis using nullOB n by (simp add: node_simps)
  next
    case (ZV a)
    then obtain z where z: "zvals st' a = Some z" using has [of n] n by (auto simp: node_simps)
    show ?thesis
    proof (cases "a \<in> set xs")
      case True
      then show ?thesis using ZV z by (simp add: node_simps unlisted_def unlist_def)
    next
      case False
      then show ?thesis using f(5) [OF n] f(1) ZV z by (simp add: node_simps unlisted_def unlist_def)
    qed
  qed
  have e: "gc_roots (unlisted (set xs) st') = []" "gc_unused (unlisted (set xs) st') = gc_unused st'"
    "first_unused (unlisted (set xs) st') = first_unused st" "last_unused (unlisted (set xs) st') = last_unused st"
    using f(3) c by (simp_all add: unlisted_def)
  have m: "mset (gc_unused st') = mset (gc_roots st @ gc_unused st)" using f(4) by simp
  have "distinct (gc_unused st')" using mset_eq_imp_distinct_iff [OF m] rb by (simp add: root_buffer_ok_def)
  moreover have "set (gc_unused st') = {..<first_unused st}" using mset_eq_setD [OF m] rb by (simp add: root_buffer_ok_def)
  moreover have "buffer_ok hs (unlisted (set xs) st')" unfolding buffer_ok_def e h' using null by simp
  ultimately have "root_buffer_ok hs (unlisted (set xs) st')" using rb unfolding root_buffer_ok_def e by simp
  then show ?thesis using inv' run(2) by (simp add: store_ok_def) (simp add: unlisted_def)
qed

lemma sweep_start:
  assumes ready: "gc_ready hs st" and rb: "root_buffer_ok hs st" and inv: "os_inv st" and ga: "garbage_arrays_ok hs st"
    and run: "gc_find_cycles st = Some (Some st')" "\<not> gc_active st'" and found: "gc_found hs st st' xs"
    and chain: "free_chain st' (free_list st') xs"
  shows "sweep_ok hs xs (set xs) {} [] (next_to_free st') st'"
proof -
  have heap: "heap_ok hs st" and counts: "counts_ok hs st" using ready by (simp_all add: gc_ready_def)
  have core: "gc_core (st'\<lparr>free_list := free_list st\<rparr>) = gc_core st" by (rule gc_find_cycles_core [OF run(1)])
  then have top: "os_top st' = os_top st" by (simp add: gc_core_def)
  have f: "distinct xs" "set xs = {a. ZV a \<in> garbage hs st}" "same_graph st st'" "\<And>n. n \<in> garbage hs st \<Longrightarrow> took n st'"
    "\<And>n. n \<in> nodes st \<Longrightarrow> rc st' n = (case n of ZV a \<Rightarrow> rc st n + of_bool (n \<in> garbage hs st)
        | OB h \<Rightarrow> rc st n - (\<Sum>m \<in> garbage hs st. cnt (kids hs st m) n))"
    using found by (simp_all add: gc_found_def)
  have dm: "dom (zvals st') = dom (zvals st)" and v: "zvalue_of st' a = zvalue_of st a" if "a \<in> dom (zvals st)" for a
    using same_graph_zval [OF f(3)] that by auto
  have dm: "dom (zvals st') = dom (zvals st)" using same_graph_zval(1) [OF f(3)] .
  have tb: "tables st' = tables st" using f(3) by (simp add: same_graph_def)
  have g: "a \<in> dom (zvals st)" if "a \<in> set xs" for a using garbage_zval(1) [OF heap] that f(2) by auto
  have el: "elements st' a = elements st a" if "a \<in> set xs" for a
    using v [OF g [OF that]] tb by (simp add: elements_def split: zvalue.split)
  have "covered st' (set xs) (set xs) []"
    unfolding covered_def
  proof (intro allI impI)
    fix x assume x: "0 < held st' (set xs) [] x + of_bool (x \<in> set xs)"
    let ?n = "\<Sum>a \<in> set xs. count_list (elements st a) x"
    have hx: "held st' (set xs) [] x = ?n" using el by (simp add: held_def)
    have dx: "x \<in> dom (zvals st) \<and> \<not> symtab st x"
    proof (cases "x \<in> set xs")
      case True
      then show ?thesis using garbage_zval [OF heap] f(2) by simp
    next
      case False
      then have "?n \<noteq> 0" using x unfolding hx by (simp del: sum_eq_0_iff)
      then obtain a where a: "a \<in> set xs" "count_list (elements st a) x \<noteq> 0" by (rule sum.not_neutral_contains_not_neutral)
      then have xe: "x \<in> set (elements st a)" by (meson count_notin)
      have ga': "ZV a \<in> garbage hs st" using a(1) f(2) by simp
      obtain ht where "zvalue_of st a = IS_ARRAY ht" using xe by (cases "zvalue_of st a") (auto simp: elements_def)
      then have "x \<in> dom (zvals st)" using garbage_array(3) [OF heap ga'] xe by blast
      then show ?thesis using ga ga' xe by (auto simp: garbage_arrays_ok_def)
    qed
    then have n: "ZV x \<in> nodes st" by (simp add: nodes_def)
    have "?n \<le> refs hs st (ZV x)" by (rule count_garbage [OF heap ga f(2)])
    also have "\<dots> \<le> unat (rc st (ZV x))" using counts n by (simp add: counts_ok_def)
    finally have le: "?n \<le> unat (rc st (ZV x))" .
    have "unat (rc st (ZV x) + 1) = unat (rc st (ZV x)) + 1" if "x \<in> set xs"
    proof -
      have "rc st (ZV x) \<noteq> - 1" using ga that f(2) by (simp add: garbage_arrays_ok_def)
      then have "rc st (ZV x) + 1 \<noteq> 0" by (metis add_eq_0_iff2 eq_neg_iff_add_eq_0)
      then show ?thesis using unatSuc [of "rc st (ZV x)"] by (simp add: add.commute)
    qed
    moreover have "rc st' (ZV x) = rc st (ZV x) + of_bool (x \<in> set xs)" using f(5) [OF n] f(2) by simp
    ultimately show "x \<in> dom (zvals st') \<and> held st' (set xs) [] x + of_bool (x \<in> set xs) \<le> unat (rc st' (ZV x))"
      using le dx dm hx by (cases "x \<in> set xs") auto
  qed
  moreover have "apart st' (set xs) {}"
    unfolding apart_def
  proof (intro ballI allI impI)
    fix a ht assume a: "a \<in> set xs" and t: "zvalue_of st' a = IS_ARRAY ht"
    have t': "zvalue_of st a = IS_ARRAY ht" "ZV a \<in> garbage hs st" using v [OF g [OF a]] t a f(2) by auto
    have "b = a" if "b \<in> set xs" "zvalue_of st' b = IS_ARRAY ht" for b
    proof -
      have "zvalue_of st b = IS_ARRAY ht" "ZV b \<in> garbage hs st" using v [OF g [OF that(1)]] that f(2) by auto
      then show ?thesis using ga t' unfolding garbage_arrays_ok_def by metis
    qed
    then show "ht \<in> dom (tables st') \<and> ht \<notin> {} \<and> (\<forall>b \<in> set xs. zvalue_of st' b = IS_ARRAY ht \<longrightarrow> b = a)"
      using garbage_array(2) [OF heap t'(2,1)] tb by simp
  qed
  moreover have "\<forall>a \<in> set xs. \<forall>h k. zvalue_of st' a = IS_OBJECT h k \<longrightarrow> h < os_top st'"
  proof (intro ballI allI impI)
    fix a h k assume a: "a \<in> set xs" and "zvalue_of st' a = IS_OBJECT h k"
    then have "zvalue_of st a = IS_OBJECT h k" using v [OF g [OF a]] by simp
    moreover have "object_buckets st \<noteq> None" using inv by (auto simp: os_inv_def)
    ultimately have "os_get st h \<noteq> None" using heap g [OF a] unfolding heap_ok_def by blast
    then show "h < os_top st'" using inv top by (auto simp: os_inv_def)
  qed
  moreover have "\<forall>a \<in> set xs. a \<in> dom (zvals st') \<and> col st' (ZV a) = GC_BLACK" using f(2,4) g dm by fastforce
  moreover have "store_ok hs (unlisted (set xs) st')" by (rule found_store_ok [OF ready rb inv run found])
  ultimately show ?thesis using f(1) chain by (simp add: sweep_ok_def)
qed

lemma sweep_listed:
  assumes "sweep_ok hs zs P C R N st"
  shows "listed_ok hs zs st" "free_list st = start zs"
  using assms free_chain_start [of st "free_list st" zs] by (auto simp: sweep_ok_def listed_ok_def)

lemma gc_loops_ok:
  assumes ok: "sweep_ok hs zs (set zs) {} [] N st" and cb: "sweep_callbacks hs zs call_dtor call_free pDestructor zval_dtor"
  shows "\<exists>st1 st2 st3. gc_call_destructors_loop call_dtor (free_list st) 0 st = Some (of_nat (length zs), st1, False) \<and>
    gc_destroy_loop call_dtor call_free pDestructor zval_dtor (free_list st1) st1 = Some (st2, False) \<and>
    gc_free_loop (free_list st2) st2 = Some st3 \<and> (\<forall>a \<in> set zs. zvals st3 a = None) \<and> store_ok hs st3"
proof -
  obtain st1 where st1: "gc_call_destructors_loop call_dtor (free_list st) 0 st = Some (of_nat (length zs), st1, False)"
    "sweep_ok hs zs (set zs) {} [] N st1"
    using gc_call_destructors_loop_ok [OF cb ok, of "[]" zs 0] sweep_listed(2) [OF ok] by auto
  have "distinct zs" using ok by (simp add: sweep_ok_def)
  then obtain st2 N' where st2: "gc_destroy_loop call_dtor call_free pDestructor zval_dtor (free_list st1) st1 = Some (st2, False)"
    "sweep_ok hs zs {} {} [] N' st2"
    using gc_destroy_loop_ok [OF cb _ st1(2), of "[]"] sweep_listed(2) [OF st1(2)] by auto
  then show ?thesis using st1(1) gc_free_loop_ok [OF sweep_listed(1)] sweep_listed(2) by fastforce
qed


text \<open>Callbacks that do nothing; the elements keep the references they lose.\<close>

lemma no_op_callbacks: "sweep_callbacks hs zs (\<lambda>d ob h st. Some (st, False)) (\<lambda>f ob st. Some (st, False)) (\<lambda>e st. Some (st, False)) (\<lambda>a st. Some (st, False))"
proof -
  have drop: "sweep_ok hs zs P C R N st" if ok: "sweep_ok hs zs P C (e # R) N st" for P C R N e st
  proof -
    have c: "covered st (set zs) P (e # R)" using ok by (simp add: sweep_ok_def)
    have "covered st (set zs) P R" by (rule covered_mono [OF c]) (simp_all add: held_def)
    then show ?thesis using ok by (simp add: sweep_ok_def)
  qed
  then show ?thesis by (auto simp: sweep_callbacks_def dtor_contract_def free_contract_def)
qed


subsection \<open>Where a collection goes wrong\<close>

text \<open>An object that holds itself, with a destructor that stores it somewhere. The object lives on, its count is 1, and its
  property table still holds the zval 4, which the third loop has freed: that loop frees whatever the
  destructors have done.\<close>

definition self_heap :: zgc where
  "self_heap = cyc_heap\<lparr>zvals := [4 \<mapsto> \<lparr>z_value = IS_OBJECT 1 7, refcount__gc = 1, zv_buffered = \<lparr>gc_color = GC_PURPLE, gc_addr = Buf 0\<rparr>\<rparr>],
     tables := [12 \<mapsto> [4]]\<rparr>"

definition resurrect :: dtor_call where
  "resurrect d ob h st = map_option (\<lambda>st. (st, False)) (os_addref h st)"

definition no_free :: free_call where
  "no_free f ob st = Some (st, False)"

definition no_call :: zval_call where
  "no_call a st = Some (st, False)"


lemma walk_simps: "gc_walk step [] st = Some st"
  "gc_walk step (pz # ps) st = do { (cs, st) \<leftarrow> step pz st; st \<leftarrow> gc_walk step cs st; gc_walk step ps st }"
  by (subst gc_walk.simps, simp)+

lemmas gc_eval = GC_ZVAL_SET_COLOR_def GC_ZVAL_SET_ADDRESS_def GC_OBJ_SET_COLOR_def GC_OBJ_SET_ADDRESS_def GC_ZVAL_GET_COLOR_def
  GC_OBJ_GET_COLOR_def zv_addref_def zv_delref_def os_addref_def os_delref_def zv_upd_def poke_def os_upd_def os_get_def nth_opt_def
  gc_remove_from_buffer_def is_symbol_table_def gc_object_props_def gc_props_missing_def gc_white_def gc_null_def Let_def walk_simps

lemma self_find:
  "\<exists>st. gc_find_cycles self_heap = Some (Some st) \<and> zvals st = [4 \<mapsto> \<lparr>z_value = IS_OBJECT 1 7, refcount__gc = 2, zv_buffered = \<lparr>gc_color = GC_BLACK, gc_addr = Next None\<rparr>\<rparr>] \<and>
    free_list st = Next (Some 4) \<and> tables st = tables self_heap \<and> object_buckets st = Some [Some cyc_zero, Some (cyc_object\<lparr>os_refcount := 0, os_buffered := \<lparr>gc_color = GC_PURPLE, gc_addr = Null\<rparr>\<rparr>)]"
  by (simp add: gc_find_cycles_def gc_mark_roots_def gc_scan_roots_def gc_collect_roots_def self_heap_def cyc_heap_def cyc_object_def cyc_zero_def gc_eval
    zval_mark_grey_def gc_enter_def zval_mark_grey_enter_def zval_mark_grey_step_def zval_scan_def zval_scan_step_def zval_collect_white_def
    zval_collect_white_enter_def zval_collect_white_step_def)

lemma loop_simps:
  "gc_call_destructors_loop call_dtor (Next None) n st = Some (n, st, False)"
  "gc_call_destructors_loop call_dtor (Next (Some a)) n st = do {
     (st, bailed) \<leftarrow> gc_call_destructor call_dtor a st;
     if bailed then Some (n, st, True) else do { q \<leftarrow> gc_next a st; gc_call_destructors_loop call_dtor q (n + 1) st } }"
  "gc_destroy_loop call_dtor call_free pDestructor zval_dtor (Next None) st = Some (st, False)"
  "gc_destroy_loop call_dtor call_free pDestructor zval_dtor (Next (Some a)) st = do {
     q \<leftarrow> gc_next a st;
     (st, bailed) \<leftarrow> gc_destroy_zval call_dtor call_free pDestructor zval_dtor a (st\<lparr>next_to_free := q\<rparr>);
     if bailed then Some (st, True) else gc_destroy_loop call_dtor call_free pDestructor zval_dtor (next_to_free st) st }"
  "gc_free_loop (Next None) st = Some st"
  "gc_free_loop (Next (Some a)) st = do { q \<leftarrow> gc_next a st; gc_free_loop q (st\<lparr>zvals := (zvals st)(a := None)\<rparr>) }"
  by (subst gc_call_destructors_loop.simps gc_destroy_loop.simps gc_free_loop.simps, simp)+

lemma gc_frees_resurrected:
  "\<exists>st b. gc_collect_cycles resurrect no_free no_call no_call self_heap = Some (1, st, False) \<and> os_objects st 1 = Some b \<and> os_refcount b = 1 \<and>
     tables st 12 = Some [4] \<and> zvals st 4 = None"
proof -
  obtain st where st: "gc_find_cycles self_heap = Some (Some st)" "zvals st = [4 \<mapsto> \<lparr>z_value = IS_OBJECT 1 7, refcount__gc = 2, zv_buffered = \<lparr>gc_color = GC_BLACK, gc_addr = Next None\<rparr>\<rparr>]"
    "free_list st = Next (Some 4)" "tables st = tables self_heap" "object_buckets st = Some [Some cyc_zero, Some (cyc_object\<lparr>os_refcount := 0, os_buffered := \<lparr>gc_color = GC_PURPLE, gc_addr = Null\<rparr>\<rparr>)]"
    using self_find by blast
  have t: "tables st 12 = Some [4]" using st(4) by (simp add: self_heap_def)
  show ?thesis
    using st t by (simp add: gc_collect_cycles_def loop_simps gc_call_destructor_def gc_next_def gc_destroy_zval_def resurrect_def gc_eval os_objects_def cyc_object_def cyc_zero_def)
qed

end
