(* ===== verification/Spec2Isabelle.thy ===== *)
theory Spec2Isabelle
  imports Zend_Qsort Zend_Llist Zend_Stacks Hash_Cursor Base64 Quot_Print Url Url_Parse Uuencode Easter Gc_Sweep
begin

text \<open>
  A verification library for the container layer of PHP 5.3 (directory \<open>Zend/\<close>): the ordered
  hash table behind every array, symbol table and object, the doubly linked list, the two
  stacks, the sort routine and the collector of cyclic garbage; for the text codecs of the standard
  extension (directory \<open>ext/standard/\<close>): base64, quoted-printable, URL encoding and parsing,
  uuencode; and for the conversions of the calendar extension (directory \<open>ext/calendar/\<close>).

  \<^bold>\<open>Parts of the program and theories.\<close>

  \<^item> \<open>Prelude\<close>: the machine types (\<open>uint\<close>, \<open>ulong\<close>, \<open>size_t\<close> as words of the LP64 model), the
    store of allocated blocks with checked reads and writes (\<open>deref\<close>, \<open>poke\<close>), shared lemmas.
  \<^item> \<open>Dll\<close>: doubly linked segments in a store, shared by the linked list, the global list of a
    hash table and its collision chains.
  \<^item> \<open>Zend_Qsort\<close>: \<open>Zend/zend_qsort.c\<close>, and the interface \<open>sort_routine\<close> that the containers
    rely on when they are handed a \<open>sort_func\<close>.
  \<^item> \<open>Zend_Llist\<close>: \<open>Zend/zend_llist.c\<close>, every operation, over a store of elements.
  \<^item> \<open>Zend_Stacks\<close>: \<open>Zend/zend_stack.c\<close>, \<open>Zend/zend_ptr_stack.c\<close> and the inline functions of
    \<open>zend_ptr_stack.h\<close>; the interface \<open>lifo\<close> is interpreted on both stacks.
  \<^item> \<open>Hash_Func\<close>: \<open>zend_inline_hash_func\<close> of \<open>zend_hash.h\<close>.
  \<^item> \<open>Hash_Table\<close>: the model of \<open>Zend/zend_hash.c\<close>: \<open>HashTable\<close> and \<open>bucket\<close> records with the
    fields of the C structures, and one definition per C function.
  \<^item> \<open>Hash_Inv\<close>: the representation invariant \<open>ht_inv\<close> (table size a power of two, mask, chains
    partition the buckets by hash, the global list holds every bucket once, keys are distinct,
    the counter counts), and its preservation by the pointer surgery of the macros.
  \<^item> \<open>Hash_Map\<close>: the abstract ordered map \<open>omap\<close> and the relation \<open>ht_repr\<close>; each update refines
    an operation of the map. The interface \<open>keyed_table\<close> states what clients of a keyed table may
    rely on and is interpreted on the hash table.
  \<^item> \<open>Hash_Props\<close>, \<open>Hash_Ops\<close>, \<open>Hash_Cursor\<close>: the properties of updates and lookups, of
    destruction and apply, and of the cursors.
  \<^item> \<open>Bytes\<close>: NUL-terminated strings, the \<open>ctype\<close> predicates, and bit identities of bytes for
    the codecs.
  \<^item> \<open>Base64\<close>, \<open>Quot_Print\<close>, \<open>Url\<close>, \<open>Uuencode\<close>: \<open>base64.c\<close>, \<open>quot_print.c\<close>, the encoders and
    decoders of \<open>url.c\<close>, and \<open>uuencode.c\<close>; each with its round trip, and bounds for decoders on
    arbitrary input.
  \<^item> \<open>Url_Parse\<close>: \<open>php_url_parse_ex\<close> of \<open>url.c\<close>, one definition per label of its \<open>goto\<close>s.

  \<^item> \<open>C_Int\<close>: \<open>int\<close> and \<open>long\<close> of C with overflow as a failure, and division towards zero.
  \<^item> \<open>Calendar\<close>: \<open>gregor.c\<close>, \<open>julian.c\<close>, \<open>french.c\<close> and \<open>dow.c\<close>. The interface \<open>day_count\<close> states what a
    pair of conversions promises and is interpreted on the three calendars.
  \<^item> \<open>Easter\<close>: \<open>easter.c\<close>, against the rule it implements.
  \<^item> \<open>Gc_State\<close>, \<open>Zend_Gc\<close>: the state of \<open>Zend/zend_gc.c\<close> (zvals with reference count and the word
    \<open>buffered\<close>, hash tables as lists of element pointers, the object store, the root buffer) and its
    functions. Each recursion of the collector is \<open>gc_walk\<close> with what the function does to one
    element.
  \<^item> \<open>Gc_Graph\<close>: the heap as a graph of zvals and objects; \<open>Gc_Walk\<close>: the interfaces \<open>gc_walking\<close> (a
    walk returns and finishes what it reaches) and \<open>gc_counting\<close> (and keeps the balance of the
    reference counts). \<open>Gc_Colour\<close> and \<open>Gc_Mark\<close>: the interface \<open>painter\<close>, interpreted on the mark and
    the scan-black recursions; \<open>Gc_Scan\<close> and \<open>Gc_Collect\<close>: the other two phases, interpretations of
    \<open>gc_walking\<close> and \<open>gc_counting\<close>.
  \<^item> \<open>Gc_Cycles\<close>: the phases together: the zvals found are those reachable from a purple root all of
    whose ancestors are so, too, and have no reference from outside. \<open>Gc_Buffer\<close>: the root buffer.
  \<^item> \<open>Objects_Store\<close>: \<open>Zend/zend_objects_API.c\<close>, the store of objects that the collector's state holds;
    \<open>Objects_Inv\<close>: its invariant, and the refinement to a map from handles to objects.
    \<open>Objects_Release\<close>: the release of an object over the interface \<open>object_releasing\<close>.
  \<^item> \<open>Gc_Free\<close>: the second half of \<open>gc_collect_cycles\<close>, with destructors and the other callbacks as
    parameters; \<open>Gc_Sweep\<close>: the loops free what was found. There \<open>object_releasing\<close> is interpreted a second
    time, on a heap with zvals that wait to be freed.

  \<^bold>\<open>Reading the model.\<close> A definition has the name of the C function (without the leading
  underscore of the debug variants). State is a record passed explicitly; a read through a null
  or freed pointer, or outside an array, makes the whole operation \<open>None\<close>, so a theorem that an
  operation is \<open>Some\<close> also says that it touches no memory it may not. \<open>zend_error\<close> with
  \<open>E_ERROR\<close> is the constructor \<open>FatalError\<close>. Loops over linked lists are
  \<open>partial_function (option)\<close>: not returning is \<open>None\<close>, and the theorems show \<open>Some\<close>. In the codecs
  a C string is the list of its bytes with the terminator (\<open>cstr\<close>), a pointer an index into it; a
  result of type \<open>'a option option\<close> is \<open>None\<close> for an access outside the buffers and \<open>Some None\<close>
  where the code returns \<open>NULL\<close> or an error.

  \<^bold>\<open>Assumptions.\<close> 64-bit \<open>long\<close>, signed \<open>char\<close>, \<open>ZEND_DEBUG\<close> off; allocation does not fail
  except where the code handles it (\<open>calloc\<close> of a persistent table, \<open>perealloc_recoverable\<close>);
  callbacks and destructors do not change the container they are called from.

  \<^bold>\<open>Not modelled.\<close> The compiler, executor, memory manager; the proxy objects of the store; SAPIs, streams and the built-in functions over zvals; the \<open>ZEND_DEBUG\<close> dump functions; thread
  safety; the vendored libraries.
\<close>

end
